(* ===== verification/NP_Prelude.thy ===== *)
theory NP_Prelude
  imports Main "HOL-Library.Word"
begin

text \<open>
  Shared vocabulary of the development: byte strings and machine integers, the parts of Go's
  standard library the modelled packages call (\<open>encoding/binary\<close>: big-endian integers and
  unsigned varints; \<open>io.ReadFull\<close>; \<open>bytes.Compare\<close>), and the generic lemmas on lists and words
  that the component theories use. Two interfaces are stated as locales: \<open>prefix_codec\<close> (a
  self-delimiting field that is read from the front of a buffer) and \<open>message_codec\<close> (a whole
  message that is marshalled to and parsed from a buffer). Their laws are proved once here for
  every client and discharged by each codec in its own theory.
\<close>

unbundle bit_operations_syntax

section \<open>Bytes and machine integers\<close>

type_synonym byte = "8 word"
type_synonym bytes = "byte list"
type_synonym u16 = "16 word"
type_synonym u32 = "32 word"
type_synonym u64 = "64 word"

abbreviation MaxUint64 :: u64 where "MaxUint64 \<equiv> 0xffffffffffffffff"

text \<open>
  A Go array \<open>[n]byte\<close> is a byte list of length \<open>n\<close>; its zero value is \<open>zero_bytes n\<close>.
\<close>

abbreviation zero_bytes :: "nat \<Rightarrow> bytes" where
  "zero_bytes n \<equiv> replicate n 0"

text \<open>
  Facts about the wire format are collected in \<open>wire_simps\<close>, facts that move a bounded word
  computation to the natural numbers in \<open>unat_simps\<close>.
\<close>

named_theorems wire_simps
named_theorems unat_simps

lemma unat_add_nowrap [unat_simps]:
  fixes a b :: "'a::len word"
  assumes "unat a + unat b < 2 ^ LENGTH('a)"
  shows "unat (a + b) = unat a + unat b"
  using assms by (simp add: unat_word_ariths)

lemma unat_sub_nowrap [unat_simps]:
  fixes a b :: "'a::len word"
  assumes "b \<le> a"
  shows "unat (a - b) = unat a - unat b"
  using assms by (simp add: unat_sub)

lemma unat_of_nat_small [unat_simps]:
  assumes "n < 2 ^ LENGTH('a)"
  shows "unat (of_nat n :: 'a::len word) = n"
  using assms by (simp add: unat_of_nat)

lemma unat_Suc_nowrap [unat_simps]:
  fixes a :: "'a::len word"
  assumes "unat a + 1 < 2 ^ LENGTH('a)"
  shows "unat (a + 1) = unat a + 1"
proof -
  have "unat (1 :: 'a word) = 1" by simp
  then show ?thesis using unat_add_nowrap [of a 1] assms by simp
qed

lemma word_min_unat: "unat (min a b) = min (unat a) (unat b)" for a b :: "'a::len word"
  by (simp add: min_def word_le_nat_alt)

text \<open>Two numbers that are congruent and less than the modulus apart are equal.\<close>

lemma congruent_close:
  fixes a b :: nat
  assumes "a mod n = b mod n" and "a < b + n" and "b < a + n"
  shows "a = b"
proof (cases "a \<le> b")
  case True
  obtain q where "b = a + n * q" using mod_eq_nat2E [OF assms(1) True] .
  then show ?thesis using assms(3) by (cases q) auto
next
  case False
  obtain q where "a = b + n * q" using mod_eq_nat2E [OF assms(1) [symmetric]] False by (metis nat_le_linear)
  then show ?thesis using assms(2) by (cases q) auto
qed

section \<open>Big-endian integers\<close>

text \<open>
  \<open>binary.BigEndian.PutUint64\<close> and its 16- and 32-bit variants store the most significant byte
  first; \<open>Uint64\<close> and its variants read the same layout.
\<close>

fun be_bytes :: "nat \<Rightarrow> 'a::len word \<Rightarrow> bytes" where
  "be_bytes 0 v = []"
| "be_bytes (Suc n) v = be_bytes n (drop_bit 8 v) @ [ucast v]"

definition be_value :: "bytes \<Rightarrow> 'a::len word" where
  "be_value bs = foldl (\<lambda>acc b. push_bit 8 acc OR ucast b) 0 bs"

abbreviation put_uint16 :: "u16 \<Rightarrow> bytes" where "put_uint16 \<equiv> be_bytes 2"
abbreviation put_uint32 :: "u32 \<Rightarrow> bytes" where "put_uint32 \<equiv> be_bytes 4"
abbreviation put_uint64 :: "u64 \<Rightarrow> bytes" where "put_uint64 \<equiv> be_bytes 8"

lemma length_be_bytes [simp]: "length (be_bytes n v) = n"
  by (induction n arbitrary: v) auto

lemma be_value_snoc: "be_value (bs @ [b]) = push_bit 8 (be_value bs) OR ucast b"
  by (simp add: be_value_def)

lemma push_drop_low_byte:
  fixes v :: "'a::len word"
  shows "push_bit 8 (take_bit m (drop_bit 8 v)) OR ucast (ucast v :: byte) = take_bit (8 + m) v"
  by (rule bit_word_eqI) (auto simp: bit_simps not_less)

lemma be_value_be_bytes_take: "be_value (be_bytes n v) = take_bit (8 * n) v"
proof (induction n arbitrary: v)
  case 0
  then show ?case by (simp add: be_value_def)
next
  case (Suc n)
  then show ?case
    by (simp add: be_value_snoc push_drop_low_byte algebra_simps)
qed

lemma be_value_be_bytes [wire_simps]:
  fixes v :: "'a::len word"
  assumes "LENGTH('a) \<le> 8 * n"
  shows "be_value (be_bytes n v) = v"
  using assms by (simp add: be_value_be_bytes_take take_bit_word_eq_self)

lemma be_bytes_be_value [wire_simps]:
  assumes "8 * length bs \<le> LENGTH('a)"
  shows "be_bytes (length bs) (be_value bs :: 'a::len word) = bs"
  using assms
proof (induction bs rule: rev_induct)
  case Nil
  then show ?case by simp
next
  case (snoc b bs)
  let ?v = "be_value bs :: 'a word"
  have small: "?v = take_bit (8 * length bs) ?v"
    using snoc by (metis be_value_be_bytes_take add_leD1 distrib_left_numeral length_append)
  have drop: "drop_bit 8 (push_bit 8 ?v OR ucast b) = ?v"
  proof (rule bit_word_eqI)
    fix k assume k: "k < LENGTH('a)"
    have "bit ?v k \<Longrightarrow> k < 8 * length bs"
      by (subst (asm) small) (simp add: bit_take_bit_iff)
    moreover have "8 * length bs + 8 \<le> LENGTH('a)" using snoc.prems by simp
    ultimately show "bit (drop_bit 8 (push_bit 8 ?v OR ucast b)) k = bit ?v k"
      using k by (auto simp: bit_simps dest: bit_imp_le_length)
  qed
  have low: "(ucast (push_bit 8 ?v OR ucast b) :: byte) = b"
    using snoc.prems by (intro bit_word_eqI) (auto simp: bit_simps)
  show ?case using snoc drop low by (simp add: be_value_snoc)
qed

lemma be_bytes_inject:
  fixes v w :: "'a::len word"
  assumes "LENGTH('a) \<le> 8 * n" and "be_bytes n v = be_bytes n w"
  shows "v = w"
  using assms by (metis be_value_be_bytes)

section \<open>Unsigned varints\<close>

text \<open>
  \<open>binary.AppendUvarint\<close> and \<open>binary.PutUvarint\<close>: seven bits per byte, least significant group
  first, the top bit set on every byte but the last.
\<close>

lemma unat_drop_bit_7: "unat (drop_bit 7 x) = unat x div 128" for x :: u64
  by (subst unat_drop_bit_eq) (simp add: drop_bit_eq_div)

function put_uvarint :: "u64 \<Rightarrow> bytes" where
  "put_uvarint x =
     (if x < 0x80 then [ucast x] else (ucast x OR 0x80) # put_uvarint (drop_bit 7 x))"
  by pat_completeness auto
termination
proof (relation "measure unat")
  show "wf (measure (unat :: u64 \<Rightarrow> nat))" by simp
next
  fix x :: u64 assume "\<not> x < 0x80"
  then have "128 \<le> unat x" by (simp add: word_less_nat_alt)
  then have "unat (drop_bit 7 x) < unat x" unfolding unat_drop_bit_7 by simp
  then show "(drop_bit 7 x, x) \<in> measure unat" by simp
qed

declare put_uvarint.simps [simp del]

text \<open>
  \<open>binary.Uvarint\<close>: the loop over the buffer with its accumulator \<open>x\<close>, shift \<open>s\<close> and index
  \<open>i\<close>. The second component is the number of bytes read, \<open>0\<close> for a short buffer and negative
  for an overflow. \<open>MaxVarintLen64\<close> is 10.
\<close>

fun uvarint_loop :: "nat \<Rightarrow> u64 \<Rightarrow> nat \<Rightarrow> bytes \<Rightarrow> u64 \<times> int" where
  "uvarint_loop i x s [] = (0, 0)"
| "uvarint_loop i x s (b # bs) =
     (if i = 10 then (0, - (int i + 1))
      else if b < 0x80
      then if i = 9 \<and> b > 1 then (0, - (int i + 1)) else (x OR push_bit s (ucast b), int i + 1)
      else uvarint_loop (Suc i) (x OR push_bit s (ucast (b AND 0x7f))) (s + 7) bs)"

definition uvarint :: "bytes \<Rightarrow> u64 \<times> int" where
  "uvarint buf = uvarint_loop 0 0 0 buf"

lemma put_uvarint_not_Nil [simp]: "put_uvarint x \<noteq> []"
  by (subst put_uvarint.simps) simp

lemma length_put_uvarint_pos: "1 \<le> length (put_uvarint x)"
  by (cases "put_uvarint x") simp_all

lemma put_uvarint_small: "x < 0x80 \<Longrightarrow> put_uvarint x = [ucast x]"
  by (subst put_uvarint.simps) simp

lemma length_put_uvarint_bound:
  "unat x < 2 ^ (7 * n) \<Longrightarrow> 0 < n \<Longrightarrow> length (put_uvarint x) \<le> n"
proof (induction x arbitrary: n rule: put_uvarint.induct)
  case (1 x)
  show ?case
  proof (cases "x < 0x80")
    case True
    then show ?thesis using 1 by (simp add: put_uvarint.simps [of x])
  next
    case False
    then have big: "128 \<le> unat x" by (simp add: word_less_nat_alt)
    obtain m where n: "n = Suc m" using "1.prems" by (cases n) auto
    have m: "0 < m" using big "1.prems" n by (cases m) auto
    have "unat (drop_bit 7 x) < 2 ^ (7 * m)"
      using "1.prems" n unfolding unat_drop_bit_7
      by (simp add: power_add less_mult_imp_div_less mult.commute)
    then have "length (put_uvarint (drop_bit 7 x)) \<le> m"
      using "1.IH" [OF False] m by simp
    then show ?thesis using False n by (simp add: put_uvarint.simps [of x])
  qed
qed

lemma length_put_uvarint: "length (put_uvarint x) \<le> 10"
proof (rule length_put_uvarint_bound)
  have "unat x < 2 ^ 64" using unsigned_less [of x] by simp
  then show "unat x < 2 ^ (7 * 10)" by simp
qed simp

lemma bit_128_int: "bit (128 :: int) n \<longleftrightarrow> n = 7"
  using bit_exp_iff [where 'a = int, of 7 n] by auto

lemma bit_127_int: "bit (127 :: int) n \<longleftrightarrow> n < 7"
  using bit_mask_iff [where 'a = int, of 7 n] by (simp only: mask_eq_exp_minus_1) simp

lemma uvarint_group:
  fixes x acc :: u64
  shows "(acc OR push_bit s (ucast ((ucast x OR 0x80 :: byte) AND 0x7f)))
           OR push_bit (s + 7) (drop_bit 7 x) = acc OR push_bit s x" (is "?l = ?r")
proof (rule bit_word_eqI)
  fix n assume "n < LENGTH(64)"
  then show "bit ?l n = bit ?r n"
    by (cases "n < s + 7") (auto simp: bit_simps bit_128_int bit_127_int)
qed

lemma uvarint_byte_high: "\<not> (b OR 0x80 :: byte) < 0x80"
  using le_word_or1 [of "0x80 :: byte" b] by simp

lemma ucast_byte_small:
  fixes x :: u64
  assumes "unat x < 256"
  shows "unat (ucast x :: byte) = unat x" and "(ucast (ucast x :: byte) :: u64) = x"
  using assms
  by (simp_all add: word_unat_eq_iff unsigned_ucast_eq unsigned_take_bit_eq take_bit_nat_eq_self)

lemma uvarint_loop_put:
  assumes "i \<le> 9" and "unat x < 2 ^ (64 - 7 * i)"
  shows "uvarint_loop i acc (7 * i) (put_uvarint x @ rest)
         = (acc OR push_bit (7 * i) x, int i + int (length (put_uvarint x)))"
  using assms
proof (induction x arbitrary: i acc rule: put_uvarint.induct)
  case (1 x)
  show ?case
  proof (cases "x < 0x80")
    case True
    then have u: "unat x < 256" by (simp add: word_less_nat_alt)
    have b: "(ucast x :: byte) < 0x80"
      using True by (simp add: word_less_nat_alt ucast_byte_small [OF u])
    have last: "\<not> (i = 9 \<and> (ucast x :: byte) > 1)"
      using "1.prems" by (auto simp: word_less_nat_alt ucast_byte_small [OF u])
    show ?thesis
      unfolding put_uvarint_small [OF True] append_Cons uvarint_loop.simps
      using b last "1.prems"(1) by (simp only: if_True if_False ucast_byte_small(2) [OF u]) simp
  next
    case False
    then have big: "128 \<le> unat x" by (simp add: word_less_nat_alt)
    then have i: "i < 9" using "1.prems" by (cases "i = 9") auto
    then have split: "64 - 7 * i = (64 - 7 * Suc i) + 7" by simp
    have small: "unat (drop_bit 7 x) < 2 ^ (64 - 7 * Suc i)"
      using "1.prems"(2) unfolding unat_drop_bit_7 split power_add
      by (intro less_mult_imp_div_less) simp
    let ?b = "ucast x OR 0x80 :: byte"
    have put: "put_uvarint x = ?b # put_uvarint (drop_bit 7 x)"
      using False by (subst put_uvarint.simps) (rule if_not_P)
    have "uvarint_loop i acc (7 * i) (put_uvarint x @ rest)
          = uvarint_loop (Suc i) (acc OR push_bit (7 * i) (ucast (?b AND 0x7f))) (7 * i + 7)
              (put_uvarint (drop_bit 7 x) @ rest)"
      unfolding put append_Cons uvarint_loop.simps
      using i by (simp only: uvarint_byte_high if_False) simp
    also have "\<dots> = uvarint_loop (Suc i) (acc OR push_bit (7 * i) (ucast (?b AND 0x7f))) (7 * Suc i)
              (put_uvarint (drop_bit 7 x) @ rest)"
      by (simp only: mult_Suc_right add.commute)
    also have "\<dots> = ((acc OR push_bit (7 * i) (ucast (?b AND 0x7f))) OR push_bit (7 * i + 7) (drop_bit 7 x),
         int (Suc i) + int (length (put_uvarint (drop_bit 7 x))))"
      using i small by (subst "1.IH" [OF False]) (simp_all only: mult_Suc_right add.commute)
    also have "\<dots> = (acc OR push_bit (7 * i) x, int i + int (length (put_uvarint x)))"
      unfolding uvarint_group put by (simp only: length_Cons of_nat_Suc ac_simps)
    finally show ?thesis .
  qed
qed

lemma uvarint_put [wire_simps]: "uvarint (put_uvarint x @ rest) = (x, int (length (put_uvarint x)))"
proof -
  have "unat x < 2 ^ 64" using unsigned_less [of x] by simp
  then show ?thesis using uvarint_loop_put [of 0 x 0 rest] by (simp add: uvarint_def)
qed

text \<open>A length prefix is a varint of the length; it reads back as the length.\<close>

abbreviation put_len :: "'a list \<Rightarrow> bytes" where
  "put_len xs \<equiv> put_uvarint (of_nat (length xs))"

section \<open>Readers\<close>

text \<open>
  An \<open>io.Reader\<close> of random bytes is the list of bytes it will still deliver. \<open>io.ReadFull\<close>
  either fills the whole buffer or fails; a failed read has consumed what was left.
\<close>

definition read_full :: "nat \<Rightarrow> bytes \<Rightarrow> bytes option \<times> bytes" where
  "read_full n r = (if n \<le> length r then (Some (take n r), drop n r) else (None, []))"

lemma read_full_length: "read_full n r = (Some b, r') \<Longrightarrow> length b = n"
  by (auto simp: read_full_def split: if_splits)

text \<open>A slice \<open>raw[c:c+n]\<close> followed by \<open>raw[c+n:]\<close> is \<open>raw[c:]\<close>.\<close>

lemma drop_split: "drop c raw = take n (drop c raw) @ drop (c + n) raw"
  by (metis add.commute append_take_drop_id drop_drop)

lemma slice_join: "take n (drop c raw) @ drop (c + n) raw = drop c raw"
  by (rule drop_split [symmetric])

lemma drop_extend: "drop (c + n) raw = ys \<Longrightarrow> drop c raw = take n (drop c raw) @ ys"
  by (metis drop_split)

lemma drop_prefix:
  assumes "drop c raw = xs @ ys"
  shows "drop (c + length xs) raw = ys"
proof -
  have "drop (c + length xs) raw = drop (length xs) (drop c raw)" by (simp add: add.commute)
  with assms show ?thesis by simp
qed

text \<open>The first six bytes of the versioned envelopes: a four-byte magic, the version, the type.\<close>

lemma header_split:
  assumes "6 \<le> length raw"
  shows "raw = take 4 raw @ [raw ! 4, raw ! 5] @ drop 6 raw"
proof -
  have "drop 4 raw = raw ! 4 # drop (Suc 4) raw" using assms by (intro Cons_nth_drop_Suc [symmetric]) simp
  moreover have "drop 5 raw = raw ! 5 # drop (Suc 5) raw" using assms by (intro Cons_nth_drop_Suc [symmetric]) simp
  ultimately show ?thesis using append_take_drop_id [of 4 raw] by simp
qed

text \<open>\<open>bytes.Compare(a, b) < 0\<close>: the lexicographic order on byte strings.\<close>

fun bytes_less :: "bytes \<Rightarrow> bytes \<Rightarrow> bool" where
  "bytes_less xs [] = False"
| "bytes_less [] (y # ys) = True"
| "bytes_less (x # xs) (y # ys) = (x < y \<or> x = y \<and> bytes_less xs ys)"

lemma bytes_less_irrefl [simp]: "\<not> bytes_less xs xs"
  by (induction xs) auto

lemma bytes_less_linear: "bytes_less xs ys \<or> xs = ys \<or> bytes_less ys xs"
proof (induction xs arbitrary: ys)
  case Nil
  then show ?case by (cases ys) auto
next
  case (Cons x xs)
  show ?case
  proof (cases ys)
    case (Cons y ys')
    then show ?thesis using Cons.IH [of ys'] less_linear [of x y] by auto
  qed simp
qed

section \<open>Results\<close>

text \<open>
  A Go call that returns \<open>(value, error)\<close> is a value of \<open>'e + 'a\<close>: \<open>Inl\<close> for a non-nil error.
  \<open>res_bind\<close> is the early return \<open>if err != nil { return err }\<close>; \<open>or_else\<close> is the early return
  with another error; \<open>fails\<close> is the test \<open>err != nil\<close>.
\<close>

definition res_bind :: "'e + 'a \<Rightarrow> ('a \<Rightarrow> 'e + 'b) \<Rightarrow> 'e + 'b" where
  "res_bind m f = (case m of Inl e \<Rightarrow> Inl e | Inr x \<Rightarrow> f x)"

definition or_else :: "'e + 'a \<Rightarrow> 'f \<Rightarrow> 'f + 'a" where
  "or_else m e = (case m of Inl _ \<Rightarrow> Inl e | Inr x \<Rightarrow> Inr x)"

definition fails :: "'e + 'a \<Rightarrow> bool" where
  "fails m = (case m of Inl _ \<Rightarrow> True | Inr _ \<Rightarrow> False)"

lemma res_bind_simps [simp]:
  "res_bind (Inl e) f = Inl e" "res_bind (Inr x) f = f x"
  by (simp_all add: res_bind_def)

lemma res_bind_eq_Inr [simp]: "res_bind m f = Inr y \<longleftrightarrow> (\<exists>x. m = Inr x \<and> f x = Inr y)"
  by (cases m) auto

lemma or_else_simps [simp]: "or_else (Inl e) e' = Inl e'" "or_else (Inr x) e' = Inr x"
  by (simp_all add: or_else_def)

lemma or_else_eq_Inr [simp]: "or_else m e = Inr y \<longleftrightarrow> m = Inr y"
  by (cases m) auto

lemma fails_simps [simp]: "fails (Inl e)" "\<not> fails (Inr x)"
  by (simp_all add: fails_def)

lemma not_fails_iff: "\<not> fails m \<longleftrightarrow> (\<exists>x. m = Inr x)"
  by (cases m) auto

section \<open>Codec interfaces\<close>

text \<open>
  A self-delimiting field: \<open>enc\<close> writes it, \<open>dec\<close> reads it from the front of a buffer and
  returns the value with the number of bytes read. The laws say that a written field is read
  back whatever follows it, and that a successful read consumed exactly the bytes that writing
  the value would produce, so that every value has one encoding only.
\<close>

locale prefix_codec =
  fixes enc :: "'a \<Rightarrow> bytes"
    and dec :: "bytes \<Rightarrow> 'e + 'a \<times> nat"
  assumes dec_enc: "dec (enc x @ rest) = Inr (x, length (enc x))"
    and dec_canonical: "dec raw = Inr (x, n) \<Longrightarrow> n \<le> length raw \<and> take n raw = enc x"
begin

lemma dec_consumes: "dec raw = Inr (x, n) \<Longrightarrow> raw = enc x @ drop n raw \<and> n = length (enc x)"
  using dec_canonical [of raw x n] by (metis append_take_drop_id length_take min.absorb2)

lemma dec_iff: "dec raw = Inr (x, n) \<longleftrightarrow> n = length (enc x) \<and> (\<exists>rest. raw = enc x @ rest)"
  using dec_enc dec_consumes by metis

lemma enc_prefix_free: "enc x @ r = enc y @ s \<Longrightarrow> x = y \<and> r = s"
  using dec_enc [of x r] dec_enc [of y s] by simp

lemma dec_exact: "dec (enc x) = Inr (x, length (enc x))"
  using dec_enc [of x "[]"] by simp

end

text \<open>
  A whole message. \<open>wf\<close> says which in-memory values the source's types admit (array lengths).
  The two laws make \<open>marshal\<close> and \<open>parse\<close> inverse to each other on the messages that can be
  marshalled: nothing is lost, and a message has one accepted encoding only.
\<close>

locale message_codec =
  fixes wf :: "'m \<Rightarrow> bool"
    and marshal :: "'m \<Rightarrow> 'e + bytes"
    and parse :: "bytes \<Rightarrow> 'f + 'm"
  assumes parse_marshal: "wf m \<Longrightarrow> marshal m = Inr raw \<Longrightarrow> parse raw = Inr m"
    and marshal_parse: "parse raw = Inr m \<Longrightarrow> wf m \<and> marshal m = Inr raw"
begin

lemma marshal_iff_parse: "wf m \<and> marshal m = Inr raw \<longleftrightarrow> parse raw = Inr m"
  using parse_marshal marshal_parse by blast

lemma parse_inject: "parse raw = Inr m \<Longrightarrow> parse raw' = Inr m \<Longrightarrow> raw = raw'"
  using marshal_parse [of raw m] marshal_parse [of raw' m] by simp

lemma marshal_inject: "wf m \<Longrightarrow> wf m' \<Longrightarrow> marshal m = Inr raw \<Longrightarrow> marshal m' = Inr raw \<Longrightarrow> m = m'"
  using parse_marshal [of m raw] parse_marshal [of m' raw] by simp

lemma parse_rejects_iff: "(\<exists>e. parse raw = Inl e) \<longleftrightarrow> (\<nexists>m. wf m \<and> marshal m = Inr raw)"
proof
  assume "\<exists>e. parse raw = Inl e"
  then show "\<nexists>m. wf m \<and> marshal m = Inr raw" using parse_marshal by fastforce
next
  assume "\<nexists>m. wf m \<and> marshal m = Inr raw"
  then show "\<exists>e. parse raw = Inl e" using marshal_parse by (cases "parse raw") blast+
qed

end

end
