(* ===== verification/NP_Crypto.thy ===== *)
theory NP_Crypto
  imports NP_Prelude
begin

text \<open>
  The cryptographic part of the standard library that the modelled packages use: HMAC and HKDF
  (\<open>crypto/hmac\<close>, \<open>crypto/hkdf\<close>) over a hash function with 64-byte blocks and 32-byte digests,
  and SHA-256 itself (\<open>crypto/sha256\<close>). The operations of the program take the hash function as
  an argument \<open>H\<close>, so every theorem holds for any hash function with 32-byte digests; the locale
  \<open>hash32\<close> is that contract and SHA-256 is its interpretation.
\<close>

type_synonym hash = "bytes \<Rightarrow> bytes"

text \<open>The bytes of an ASCII string literal.\<close>

abbreviation str :: "string \<Rightarrow> bytes" where
  "str s \<equiv> map of_char s"

section \<open>HMAC and HKDF\<close>

definition hmac :: "hash \<Rightarrow> bytes \<Rightarrow> bytes \<Rightarrow> bytes" where
  "hmac H key msg =
     (let k0 = (if length key > 64 then H key else key);
          k = k0 @ replicate (64 - length k0) 0
      in H (map (\<lambda>b. b XOR 0x5c) k @ H (map (\<lambda>b. b XOR 0x36) k @ msg)))"

text \<open>
  \<open>hkdf_blocks\<close> is the expansion loop: block \<open>i\<close> is the HMAC of the previous block, the info
  string and the counter byte.
\<close>

fun hkdf_blocks :: "hash \<Rightarrow> bytes \<Rightarrow> bytes \<Rightarrow> bytes \<Rightarrow> byte \<Rightarrow> nat \<Rightarrow> bytes" where
  "hkdf_blocks H prk info prev counter 0 = []"
| "hkdf_blocks H prk info prev counter (Suc n) =
     (let blk = hmac H prk (prev @ info @ [counter])
      in blk @ hkdf_blocks H prk info blk (counter + 1) n)"

text \<open>\<open>hkdf.Key(sha256.New, secret, salt, info, n)\<close>; it fails for more than 255 blocks.\<close>

definition hkdf_key :: "hash \<Rightarrow> bytes \<Rightarrow> bytes \<Rightarrow> bytes \<Rightarrow> nat \<Rightarrow> bytes option" where
  "hkdf_key H secret salt info n =
     (if n > 255 * 32 then None
      else let prk = hmac H (if salt = [] then zero_bytes 32 else salt) secret
           in Some (take n (hkdf_blocks H prk info [] 1 ((n + 31) div 32))))"

locale hash32 =
  fixes H :: hash
  assumes length_hash: "length (H m) = 32"
begin

lemma length_hmac: "length (hmac H key msg) = 32"
  by (simp add: hmac_def Let_def length_hash)

lemma length_hkdf_blocks: "length (hkdf_blocks H prk info prev counter n) = 32 * n"
  by (induction n arbitrary: prev counter) (simp_all add: Let_def length_hmac)

lemma hkdf_key_total: "n \<le> 255 * 32 \<Longrightarrow> \<exists>k. hkdf_key H secret salt info n = Some k \<and> length k = n"
  by (auto simp: hkdf_key_def Let_def length_hkdf_blocks)

lemma hkdf_key_length: "hkdf_key H secret salt info n = Some k \<Longrightarrow> length k = n"
  by (auto simp: hkdf_key_def Let_def length_hkdf_blocks split: if_splits)

end

section \<open>SHA-256\<close>

definition rotr :: "nat \<Rightarrow> u32 \<Rightarrow> u32" where
  "rotr n x = drop_bit n x OR push_bit (32 - n) x"

type_synonym sha_state = "u32 \<times> u32 \<times> u32 \<times> u32 \<times> u32 \<times> u32 \<times> u32 \<times> u32"

text \<open>
  The round constants are the first 32 bits of the fractional parts of the cube roots of the first
  64 primes, the initial state those of the square roots of the first eight. \<open>root_bits b e n r\<close> extends
  \<open>r\<close> by \<open>b\<close> further bits to the largest number whose \<open>e\<close>-th power is at most \<open>n\<close>.
\<close>

fun root_bits :: "nat \<Rightarrow> nat \<Rightarrow> int \<Rightarrow> int \<Rightarrow> int" where
  "root_bits 0 e n r = r"
| "root_bits (Suc b) e n r = root_bits b e n (if (r + 2 ^ b) ^ e \<le> n then r + 2 ^ b else r)"

definition sha_primes :: "int list" where
  "sha_primes =
    [2, 3, 5, 7, 11, 13, 17, 19, 23, 29, 31, 37, 41, 43, 47, 53, 59, 61, 67, 71, 73, 79, 83,
     89, 97, 101, 103, 107, 109, 113, 127, 131, 137, 139, 149, 151, 157, 163, 167, 173, 179,
     181, 191, 193, 197, 199, 211, 223, 227, 229, 233, 239, 241, 251, 257, 263, 269, 271,
     277, 281, 283, 293, 307, 311]"

definition sha_k :: "u32 list" where
  "sha_k = map (\<lambda>p. of_int (root_bits 36 3 (p * 2 ^ 96) 0)) sha_primes"

definition sha_init :: "u32 list" where
  "sha_init = map (\<lambda>p. of_int (root_bits 37 2 (p * 2 ^ 64) 0)) (take 8 sha_primes)"

fun sha_schedule :: "nat \<Rightarrow> u32 list \<Rightarrow> u32 list" where
  "sha_schedule 0 w = w"
| "sha_schedule (Suc n) w =
     (let i = length w; w15 = w ! (i - 15); w2 = w ! (i - 2);
          s0 = rotr 7 w15 XOR rotr 18 w15 XOR drop_bit 3 w15;
          s1 = rotr 17 w2 XOR rotr 19 w2 XOR drop_bit 10 w2
      in sha_schedule n (w @ [w ! (i - 16) + s0 + w ! (i - 7) + s1]))"

fun sha_round :: "sha_state \<Rightarrow> u32 \<times> u32 \<Rightarrow> sha_state" where
  "sha_round (a, b, c, d, e, f, g, h) (k, w) =
     (let s1 = rotr 6 e XOR rotr 11 e XOR rotr 25 e;
          ch = (e AND f) XOR (NOT e AND g);
          t1 = h + s1 + ch + k + w;
          s0 = rotr 2 a XOR rotr 13 a XOR rotr 22 a;
          maj = (a AND b) XOR (a AND c) XOR (b AND c);
          t2 = s0 + maj
      in (t1 + t2, a, b, c, d + t1, e, f, g))"

fun sha_add :: "sha_state \<Rightarrow> sha_state \<Rightarrow> sha_state" where
  "sha_add (a, b, c, d, e, f, g, h) (a', b', c', d', e', f', g', h') =
     (a + a', b + b', c + c', d + d', e + e', f + f', g + g', h + h')"

fun chunks :: "nat \<Rightarrow> nat \<Rightarrow> 'a list \<Rightarrow> 'a list list" where
  "chunks 0 k xs = []"
| "chunks (Suc n) k xs = take k xs # chunks n k (drop k xs)"

definition sha_block :: "sha_state \<Rightarrow> bytes \<Rightarrow> sha_state" where
  "sha_block s blk =
     sha_add s (foldl sha_round s (zip sha_k (sha_schedule 48 (map be_value (chunks 16 4 blk)))))"

definition sha_pad :: "bytes \<Rightarrow> bytes" where
  "sha_pad m = m @ [0x80] @ replicate ((119 - length m mod 64) mod 64) 0
               @ be_bytes 8 (of_nat (8 * length m) :: u64)"

definition sha256 :: hash where
  "sha256 m =
     (let p = sha_pad m;
          init = (sha_init ! 0, sha_init ! 1, sha_init ! 2, sha_init ! 3,
                  sha_init ! 4, sha_init ! 5, sha_init ! 6, sha_init ! 7)
      in case foldl sha_block init (chunks (length p div 64) 64 p) of
           (a, b, c, d, e, f, g, h) \<Rightarrow> concat (map (be_bytes 4) [a, b, c, d, e, f, g, h]))"

interpretation sha: hash32 sha256
  by unfold_locales (simp add: sha256_def Let_def split: prod.splits)

end
