(* ===== verification/NP_Cell.thy ===== *)
theory NP_Cell
  imports NP_Crypto "HOL-Library.Multiset"
begin

text \<open>
  The NP/2 cell layer, \<open>internal/protocol/cell.go\<close>: the kinds of cells, the per-session
  permutation of the wire codes of the kinds (\<open>TypeMap\<close>), the cell encoder and decoder with
  their size limits, and the deterministic generator that seeds the permutation. The lemmas show
  that the permutation is a bijection of the valid kinds, that encoding and decoding are inverse
  to each other, and the bounds every accepted cell satisfies.
\<close>

section \<open>Errors, kinds and limits\<close>

text \<open>
  The sentinel errors of package \<open>protocol\<close>; \<open>ErrReadNonce\<close> is the wrapped error of a failed
  \<open>io.ReadFull\<close>, \<open>ErrDerive\<close> that of a failed key derivation, \<open>ErrECDH\<close> an error of the
  X25519 library.
\<close>

datatype protocol_error =
    ErrCellTooLarge | ErrInvalidCell | ErrInvalidTypeMap | ErrNonCanonicalVarint | ErrUnknownCellType
  | ErrInvalidExtension | ErrUnsupportedExtension
  | ErrInvalidContinuity | ErrInvalidContinuityOpen
  | ErrAuthentication | ErrChallengeUsed | ErrExpiredChallenge | ErrMalformedMessage
  | ErrUnsupportedFeatures | ErrInvalidConfig | ErrForwardSecrecy
  | ErrReadNonce | ErrDerive | ErrECDH

abbreviation MaxCellSize :: nat where "MaxCellSize \<equiv> 65535"
abbreviation MaxCellPayloadSize :: nat where "MaxCellPayloadSize \<equiv> 32768"
abbreviation MaxCellPaddingSize :: nat where "MaxCellPaddingSize \<equiv> 16384"
abbreviation MaxStreamID :: u64 where "MaxStreamID \<equiv> 0x3fffffffffffffff"
abbreviation MaxSequence :: u64 where "MaxSequence \<equiv> 0x3fffffffffffffff"

type_synonym CellKind = byte

abbreviation CellInvalid :: CellKind where "CellInvalid \<equiv> 0"
abbreviation CellOpen :: CellKind where "CellOpen \<equiv> 1"
abbreviation CellOpenOK :: CellKind where "CellOpenOK \<equiv> 2"
abbreviation CellOpenFail :: CellKind where "CellOpenFail \<equiv> 3"
abbreviation CellData :: CellKind where "CellData \<equiv> 4"
abbreviation CellFin :: CellKind where "CellFin \<equiv> 5"
abbreviation CellReset :: CellKind where "CellReset \<equiv> 6"
abbreviation CellWindowUpdate :: CellKind where "CellWindowUpdate \<equiv> 7"
abbreviation CellDummy :: CellKind where "CellDummy \<equiv> 8"
abbreviation CellProfile :: CellKind where "CellProfile \<equiv> 9"
abbreviation CellPing :: CellKind where "CellPing \<equiv> 10"
abbreviation CellPong :: CellKind where "CellPong \<equiv> 11"
abbreviation CellGoAway :: CellKind where "CellGoAway \<equiv> 12"
abbreviation CellKindCount :: CellKind where "CellKindCount \<equiv> 13"

definition kind_valid :: "CellKind \<Rightarrow> bool" where
  "kind_valid k \<longleftrightarrow> k > CellInvalid \<and> k < CellKindCount"

definition controlOnly :: "CellKind \<Rightarrow> bool" where
  "controlOnly k \<longleftrightarrow> k \<in> {CellDummy, CellProfile, CellPing, CellPong, CellGoAway}"

section \<open>The generator of the type map\<close>

record mapRandom =
  mr_key :: bytes
  mr_counter :: u64
  mr_block :: bytes
  mr_offset :: nat

definition newMapRandom :: "bytes \<Rightarrow> mapRandom" where
  "newMapRandom seed = \<lparr>mr_key = seed, mr_counter = 0, mr_block = zero_bytes 32, mr_offset = 32\<rparr>"

definition mapRandom_uint64 :: "hash \<Rightarrow> mapRandom \<Rightarrow> u64 \<times> mapRandom" where
  "mapRandom_uint64 H r =
     (let r1 = (if mr_offset r + 8 > length (mr_block r)
                then r\<lparr>mr_block := hmac H (mr_key r) (str ''NP2 type map'' @ put_uint64 (mr_counter r)),
                       mr_counter := mr_counter r + 1, mr_offset := 0\<rparr>
                else r);
          value = be_value (take 8 (drop (mr_offset r1) (mr_block r1)))
      in (value, r1\<lparr>mr_offset := mr_offset r1 + 8\<rparr>))"

text \<open>
  \<open>uniform\<close> draws until a candidate lies below the rejection threshold. Nothing bounds the number
  of draws, so the loop is a partial function; \<open>None\<close> is a call that does not return (the
  rejection never ends, or the limit is zero and the code panics).
\<close>

partial_function (option) uniform_loop ::
  "hash \<Rightarrow> u64 \<Rightarrow> u64 \<Rightarrow> mapRandom \<Rightarrow> (u64 \<times> mapRandom) option" where
  "uniform_loop H threshold limit r =
     (case mapRandom_uint64 H r of
        (candidate, r') \<Rightarrow>
          if candidate < threshold then Some (candidate mod limit, r')
          else uniform_loop H threshold limit r')"

definition uniform :: "hash \<Rightarrow> mapRandom \<Rightarrow> u64 \<Rightarrow> (u64 \<times> mapRandom) option" where
  "uniform H r limit =
     (if limit = 0 then None else uniform_loop H (- 1 - ((- 1) mod limit)) limit r)"

section \<open>The type map\<close>

record TypeMap =
  tm_encode :: bytes
  tm_decode :: "CellKind list"

definition empty_TypeMap :: TypeMap where
  "empty_TypeMap = \<lparr>tm_encode = zero_bytes 13, tm_decode = replicate 256 CellInvalid\<rparr>"

definition swap :: "nat \<Rightarrow> nat \<Rightarrow> 'a list \<Rightarrow> 'a list" where
  "swap i j xs = xs[i := xs ! j, j := xs ! i]"

text \<open>The Fisher-Yates loop \<open>for index := len(codes)-1; index > 0; index--\<close>.\<close>

fun shuffle :: "hash \<Rightarrow> nat \<Rightarrow> bytes \<Rightarrow> mapRandom \<Rightarrow> bytes option" where
  "shuffle H 0 codes r = Some codes"
| "shuffle H (Suc i) codes r =
     (case uniform H r (of_nat (Suc i + 1)) of
        None \<Rightarrow> None
      | Some (other, r') \<Rightarrow> shuffle H i (swap (Suc i) (unat other) codes) r')"

text \<open>The final loop over \<open>codes\<close>, which fills both tables.\<close>

fun fill_tables :: "CellKind \<Rightarrow> bytes \<Rightarrow> TypeMap \<Rightarrow> TypeMap" where
  "fill_tables kind [] tm = tm"
| "fill_tables kind (wire # codes) tm =
     fill_tables (kind + 1) codes
       (tm\<lparr>tm_encode := (tm_encode tm)[unat kind := wire],
           tm_decode := (tm_decode tm)[unat wire := kind]\<rparr>)"

definition NewTypeMap :: "hash \<Rightarrow> bytes \<Rightarrow> (protocol_error + TypeMap) option" where
  "NewTypeMap H seed =
     (if seed = zero_bytes 32 then Some (Inl ErrInvalidTypeMap)
      else case shuffle H 11 (map of_nat [1..<13]) (newMapRandom seed) of
             None \<Rightarrow> None
           | Some codes \<Rightarrow> Some (Inr (fill_tables 1 codes empty_TypeMap)))"

definition EncodeKind :: "TypeMap \<Rightarrow> CellKind \<Rightarrow> protocol_error + byte" where
  "EncodeKind tm kind =
     (if \<not> kind_valid kind then Inl ErrUnknownCellType
      else let wire = tm_encode tm ! unat kind
           in if wire = 0 then Inl ErrUnknownCellType else Inr wire)"

definition DecodeKind :: "TypeMap \<Rightarrow> byte \<Rightarrow> protocol_error + CellKind" where
  "DecodeKind tm wire =
     (let kind = tm_decode tm ! unat wire
      in if \<not> kind_valid kind then Inl ErrUnknownCellType else Inr kind)"

section \<open>Cells\<close>

record Cell =
  Kind :: CellKind
  StreamID :: u64
  Sequence :: u64
  Payload :: bytes
  Padding :: bytes

definition validateCell :: "Cell \<Rightarrow> protocol_error option" where
  "validateCell c =
     (if \<not> kind_valid (Kind c) then Some ErrUnknownCellType
      else if length (Payload c) > MaxCellPayloadSize \<or> length (Padding c) > MaxCellPaddingSize
      then Some ErrCellTooLarge
      else if StreamID c > MaxStreamID \<or> Sequence c > MaxSequence then Some ErrInvalidCell
      else if controlOnly (Kind c) \<and> StreamID c \<noteq> 0 then Some ErrInvalidCell
      else if \<not> controlOnly (Kind c) \<and> StreamID c = 0 then Some ErrInvalidCell
      else None)"

definition readCanonicalUvarint :: "bytes \<Rightarrow> protocol_error + u64 \<times> nat" where
  "readCanonicalUvarint raw =
     (case uvarint raw of
        (value, consumed) \<Rightarrow>
          if consumed = 0 then Inl ErrInvalidCell
          else if consumed < 0 then Inl ErrNonCanonicalVarint
          else let canonical = put_uvarint value
               in if nat consumed \<noteq> length canonical \<or> take (nat consumed) raw \<noteq> canonical
                  then Inl ErrNonCanonicalVarint
                  else Inr (value, nat consumed))"

definition EncodeCell :: "TypeMap \<Rightarrow> Cell \<Rightarrow> protocol_error + bytes" where
  "EncodeCell tm c =
     (case validateCell c of
        Some e \<Rightarrow> Inl e
      | None \<Rightarrow>
          res_bind (EncodeKind tm (Kind c)) (\<lambda>wireType.
            let raw = [wireType] @ put_uvarint (StreamID c) @ put_uvarint (Sequence c)
                      @ put_len (Payload c) @ put_len (Padding c) @ Payload c @ Padding c
            in if length raw > MaxCellSize then Inl ErrCellTooLarge else Inr raw))"

definition DecodeCell :: "TypeMap \<Rightarrow> bytes \<Rightarrow> protocol_error + Cell" where
  "DecodeCell tm raw =
     (if raw = [] then Inl ErrInvalidCell
      else if length raw > MaxCellSize then Inl ErrCellTooLarge
      else
        res_bind (DecodeKind tm (raw ! 0)) (\<lambda>kind.
        let c0 = 1 in
        res_bind (readCanonicalUvarint (drop c0 raw)) (\<lambda>(streamID, n1).
        let c1 = c0 + n1 in
        res_bind (readCanonicalUvarint (drop c1 raw)) (\<lambda>(sequence, n2).
        let c2 = c1 + n2 in
        res_bind (readCanonicalUvarint (drop c2 raw)) (\<lambda>(payloadLength, n3).
        let c3 = c2 + n3 in
        res_bind (readCanonicalUvarint (drop c3 raw)) (\<lambda>(paddingLength, n4).
        let c4 = c3 + n4 in
        if payloadLength > of_nat MaxCellPayloadSize \<or> paddingLength > of_nat MaxCellPaddingSize
        then Inl ErrCellTooLarge
        else if payloadLength + paddingLength \<noteq> of_nat (length raw - c4) then Inl ErrInvalidCell
        else
          let payloadEnd = c4 + unat payloadLength;
              cell = \<lparr>Kind = kind, StreamID = streamID, Sequence = sequence,
                      Payload = take (unat payloadLength) (drop c4 raw),
                      Padding = drop payloadEnd raw\<rparr>
          in case validateCell cell of Some e \<Rightarrow> Inl e | None \<Rightarrow> Inr cell))))))"

section \<open>Varints on the wire\<close>

lemma readCanonicalUvarint_put [simp]:
  "readCanonicalUvarint (put_uvarint x @ rest) = Inr (x, length (put_uvarint x))"
  using length_put_uvarint_pos [of x] by (simp add: readCanonicalUvarint_def uvarint_put Let_def)

interpretation uv: prefix_codec put_uvarint readCanonicalUvarint
proof
  fix x rest
  show "readCanonicalUvarint (put_uvarint x @ rest) = Inr (x, length (put_uvarint x))" by simp
next
  fix raw x n assume "readCanonicalUvarint raw = Inr (x, n)"
  then have "n = length (put_uvarint x)" and "take n raw = put_uvarint x"
    by (auto simp: readCanonicalUvarint_def Let_def split: prod.splits if_splits)
  then show "n \<le> length raw \<and> take n raw = put_uvarint x" by (metis length_take min.cobounded1)
qed

text \<open>
  The form in which parsers use it: reading at a cursor splits the rest of the buffer into the
  field and what follows it.
\<close>

lemma read_at_cursor:
  assumes "readCanonicalUvarint (drop c raw) = Inr (x, n)"
  shows "drop c raw = put_uvarint x @ drop (c + n) raw" and "n = length (put_uvarint x)"
  using uv.dec_consumes [OF assms] by (simp_all add: add.commute)

section \<open>The type map is a bijection\<close>

lemma uniform_loop_bound:
  assumes "uniform_loop H t limit r = Some res" and "limit \<noteq> 0"
  shows "fst res < limit"
proof -
  have "limit \<noteq> 0 \<longrightarrow> fst res < limit"
  proof (rule uniform_loop.raw_induct [where P = "\<lambda>H t l r res. l \<noteq> 0 \<longrightarrow> fst res < l", OF _ assms(1)])
    fix f H t r res and l :: u64
    assume IH: "\<And>H t l r res. f H t l r = Some res \<Longrightarrow> l \<noteq> 0 \<longrightarrow> fst res < l"
      and eq: "(case mapRandom_uint64 H r of (candidate, r') \<Rightarrow>
            if candidate < t then Some (candidate mod l, r') else f H t l r') = Some res"
    show "l \<noteq> 0 \<longrightarrow> fst res < l"
      using eq IH by (auto split: prod.splits if_splits simp: word_mod_less_divisor word_gt_0)
  qed
  with assms(2) show ?thesis by simp
qed

lemma uniform_bound: "uniform H r limit = Some (v, r') \<Longrightarrow> v < limit"
  using uniform_loop_bound [of H _ limit r "(v, r')"] by (auto simp: uniform_def split: if_splits)

text \<open>The loop returns as soon as one draw lies below the threshold.\<close>

fun nth_draw :: "hash \<Rightarrow> nat \<Rightarrow> mapRandom \<Rightarrow> u64" where
  "nth_draw H 0 r = fst (mapRandom_uint64 H r)"
| "nth_draw H (Suc n) r = nth_draw H n (snd (mapRandom_uint64 H r))"

lemma uniform_loop_returns:
  "nth_draw H n r < t \<Longrightarrow> \<exists>res. uniform_loop H t limit r = Some res"
proof (induction n arbitrary: r)
  case 0
  then show ?case by (subst uniform_loop.simps) (auto split: prod.splits)
next
  case (Suc n)
  then obtain res where "uniform_loop H t limit (snd (mapRandom_uint64 H r)) = Some res" by fastforce
  then show ?case by (subst uniform_loop.simps) (auto split: prod.splits)
qed

lemma length_swap [simp]: "length (swap i j xs) = length xs"
  by (simp add: swap_def)

lemma mset_swap_list: "i < length xs \<Longrightarrow> j < length xs \<Longrightarrow> mset (swap i j xs) = mset xs"
  using mset_swap [of j xs i] by (simp add: swap_def)

lemma shuffle_mset:
  assumes "shuffle H i codes r = Some codes'" and "i < length codes" and "i < 255"
  shows "mset codes' = mset codes"
  using assms
proof (induction H i codes r rule: shuffle.induct)
  case (1 H codes r)
  then show ?case by simp
next
  case (2 H i codes r)
  from "2.prems"(1) obtain other r' where u: "uniform H r (of_nat (Suc i + 1)) = Some (other, r')"
    and rest: "shuffle H i (swap (Suc i) (unat other) codes) r' = Some codes'"
    by (auto split: option.splits)
  have "unat other < unat (of_nat (Suc i + 1) :: u64)"
    using uniform_bound [OF u] by (simp only: word_less_nat_alt)
  also have "\<dots> = Suc i + 1" using "2.prems"(3) by (intro unat_of_nat_small) simp
  finally have other: "unat other < length codes" using "2.prems"(2) by simp
  from "2.IH" [OF u refl rest] "2.prems"(2,3) have "mset codes' = mset (swap (Suc i) (unat other) codes)"
    by simp
  with other "2.prems"(2) show ?case by (simp add: mset_swap_list)
qed

lemma fill_tables_lengths [simp]:
  "length (tm_encode (fill_tables k codes tm)) = length (tm_encode tm)"
  "length (tm_decode (fill_tables k codes tm)) = length (tm_decode tm)"
  by (induction k codes tm rule: fill_tables.induct) simp_all

lemma unat_kind_Suc: "unat k + length (w # codes) < 256 \<Longrightarrow> unat (k + 1) = Suc (unat k)" for k :: byte
  by (subst unat_Suc_nowrap) simp_all

lemma fill_tables_encode:
  "unat k + length codes \<le> length (tm_encode tm) \<Longrightarrow> unat k + length codes < 256 \<Longrightarrow>
   tm_encode (fill_tables k codes tm) ! j =
     (if unat k \<le> j \<and> j < unat k + length codes then codes ! (j - unat k) else tm_encode tm ! j)"
proof (induction k codes tm rule: fill_tables.induct)
  case (1 kind tm)
  then show ?case by auto
next
  case (2 kind wire codes tm)
  then show ?case
    using unat_kind_Suc [of kind wire codes] by (auto simp: nth_list_update nth_Cons')
qed

lemma fill_tables_decode:
  "distinct codes \<Longrightarrow> length (tm_decode tm) = 256 \<Longrightarrow> unat k + length codes < 256 \<Longrightarrow>
   (\<forall>i < length codes. tm_decode (fill_tables k codes tm) ! unat (codes ! i) = k + of_nat i) \<and>
   (\<forall>w. w \<notin> set codes \<longrightarrow> tm_decode (fill_tables k codes tm) ! unat w = tm_decode tm ! unat w)"
proof (induction k codes tm rule: fill_tables.induct)
  case (1 kind tm)
  then show ?case by simp
next
  case (2 kind wire codes tm)
  let ?tm = "tm\<lparr>tm_encode := (tm_encode tm)[unat kind := wire],
                tm_decode := (tm_decode tm)[unat wire := kind]\<rparr>"
  have wire: "unat wire < 256" using unsigned_less [of wire] by simp
  have neq: "w \<noteq> wire \<Longrightarrow> unat w \<noteq> unat wire" for w by (simp add: word_unat_eq_iff)
  have IH: "(\<forall>i < length codes. tm_decode (fill_tables (kind + 1) codes ?tm) ! unat (codes ! i) = kind + 1 + of_nat i)
      \<and> (\<forall>w. w \<notin> set codes \<longrightarrow> tm_decode (fill_tables (kind + 1) codes ?tm) ! unat w = tm_decode ?tm ! unat w)"
    using 2 unat_kind_Suc [of kind wire codes] by simp
  show ?case
  proof (intro conjI allI impI)
    fix i assume i: "i < length (wire # codes)"
    show "tm_decode (fill_tables kind (wire # codes) tm) ! unat ((wire # codes) ! i) = kind + of_nat i"
      using IH i wire "2.prems" by (cases i) (auto simp: algebra_simps)
  next
    fix w assume "w \<notin> set (wire # codes)"
    then show "tm_decode (fill_tables kind (wire # codes) tm) ! unat w = tm_decode tm ! unat w"
      using IH neq [of w] by simp
  qed
qed

text \<open>
  The invariant of a usable type map: every valid kind has a nonzero wire code that decodes to it,
  and every wire code that decodes to a valid kind is the code of that kind.
\<close>

definition wf_TypeMap :: "TypeMap \<Rightarrow> bool" where
  "wf_TypeMap tm \<longleftrightarrow>
     length (tm_encode tm) = 13 \<and> length (tm_decode tm) = 256 \<and>
     (\<forall>k \<in> set [1..<13]. tm_encode tm ! k \<noteq> 0 \<and> unat (tm_decode tm ! unat (tm_encode tm ! k)) = k) \<and>
     (\<forall>w \<in> set [0..<256]. tm_decode tm ! w \<noteq> CellInvalid \<longrightarrow>
        kind_valid (tm_decode tm ! w) \<and> unat (tm_encode tm ! unat (tm_decode tm ! w)) = w)"

lemma unat_byte_less: "unat b < 256" for b :: byte
  using unsigned_less [of b] by simp

lemma kind_valid_unat: "kind_valid k \<longleftrightarrow> unat k \<in> {1..<13}"
  by (auto simp: kind_valid_def word_less_nat_alt)

lemma initial_codes: "distinct (map of_nat [1..<13] :: bytes)" "set (map of_nat [1..<13] :: bytes) = of_nat ` {1..<13}"
  by (auto simp: distinct_map inj_on_def word_unat_eq_iff unat_of_nat_small)

lemma fill_tables_wf:
  assumes "mset codes = mset (map of_nat [1..<13])"
  shows "wf_TypeMap (fill_tables 1 codes empty_TypeMap)"
proof -
  let ?tm = "fill_tables 1 codes empty_TypeMap"
  have len: "length codes = 12" using mset_eq_length [OF assms] by simp
  have dist: "distinct codes" using assms initial_codes(1) by (metis mset_eq_imp_distinct_iff)
  have set: "set codes = of_nat ` {1..<13}" using assms initial_codes(2) by (metis mset_eq_setD)
  have enc: "tm_encode ?tm ! k = codes ! (k - 1)" if "k \<in> {1..<13}" for k
    using that len by (subst fill_tables_encode) (auto simp: empty_TypeMap_def)
  have dec: "\<forall>i < 12. tm_decode ?tm ! unat (codes ! i) = 1 + of_nat i"
    and other: "\<forall>w. w \<notin> set codes \<longrightarrow> tm_decode ?tm ! unat w = CellInvalid"
    using fill_tables_decode [of codes empty_TypeMap 1] dist len
    by (auto simp: empty_TypeMap_def unat_byte_less)
  have unat_kind: "unat (1 + of_nat i :: byte) = Suc i" if "i < 12" for i
    using that unat_of_nat_small [of "Suc i", where ?'a = 8] by simp
  have nz: "codes ! i \<noteq> 0" if "i < 12" for i
  proof -
    from that len have "codes ! i \<in> set codes" by simp
    then show ?thesis unfolding set by (auto simp: word_unat_eq_iff unat_of_nat_small)
  qed
  have bwd: "kind_valid (tm_decode ?tm ! w) \<and> unat (tm_encode ?tm ! unat (tm_decode ?tm ! w)) = w"
    if "w < 256" and "tm_decode ?tm ! w \<noteq> CellInvalid" for w
  proof -
    have w: "unat (of_nat w :: byte) = w" using that(1) by (simp add: unat_of_nat_small)
    have "(of_nat w :: byte) \<in> set codes" using other that(2) w by metis
    then obtain i where i: "i < 12" "codes ! i = of_nat w" using len by (auto simp: in_set_conv_nth)
    then have "tm_decode ?tm ! w = 1 + of_nat i" using dec w by metis
    then show ?thesis using i unat_kind [OF i(1)] enc [of "Suc i"] w
      by (simp add: kind_valid_unat)
  qed
  have fwd: "tm_encode ?tm ! k \<noteq> 0 \<and> unat (tm_decode ?tm ! unat (tm_encode ?tm ! k)) = k"
    if k: "k \<in> {1..<13}" for k
  proof -
    have "k - 1 < 12" and "Suc (k - 1) = k" using k by auto
    then show ?thesis using enc [OF k] dec nz [of "k - 1"] unat_kind [of "k - 1"] by metis
  qed
  show ?thesis unfolding wf_TypeMap_def
    using fwd bwd by (auto simp: empty_TypeMap_def)
qed

lemma NewTypeMap_wf: "NewTypeMap H seed = Some (Inr tm) \<Longrightarrow> wf_TypeMap tm"
  by (auto simp: NewTypeMap_def split: if_splits option.splits
      intro!: fill_tables_wf dest!: shuffle_mset)

lemma EncodeKind_wf:
  assumes "wf_TypeMap tm" and "kind_valid k"
  shows "EncodeKind tm k = Inr (tm_encode tm ! unat k)"
  using assms by (auto simp: EncodeKind_def wf_TypeMap_def kind_valid_unat Let_def)

lemma DecodeKind_EncodeKind:
  assumes "wf_TypeMap tm" and "EncodeKind tm k = Inr w"
  shows "DecodeKind tm w = Inr k"
proof -
  have k: "kind_valid k" using assms(2) by (auto simp: EncodeKind_def split: if_splits)
  then have "w = tm_encode tm ! unat k" using assms EncodeKind_wf by simp
  moreover have "unat (tm_decode tm ! unat (tm_encode tm ! unat k)) = unat k"
    using assms(1) k by (simp add: wf_TypeMap_def kind_valid_unat)
  ultimately have "tm_decode tm ! unat w = k" by (simp add: word_unat_eq_iff)
  with k show ?thesis by (simp add: DecodeKind_def Let_def)
qed

lemma EncodeKind_DecodeKind:
  assumes "wf_TypeMap tm" and "DecodeKind tm w = Inr k"
  shows "EncodeKind tm k = Inr w"
proof -
  have k: "kind_valid k" "k = tm_decode tm ! unat w"
    using assms(2) by (auto simp: DecodeKind_def Let_def split: if_splits)
  then have "k \<noteq> CellInvalid" by (auto simp: kind_valid_def)
  moreover have "unat w \<in> set [0..<256]" using unsigned_less [of w] by simp
  ultimately have "unat (tm_encode tm ! unat k) = unat w"
    using assms(1) k(2) unfolding wf_TypeMap_def by blast
  with EncodeKind_wf [OF assms(1) k(1)] show ?thesis by (simp add: word_unat_eq_iff)
qed

lemma DecodeKind_valid: "DecodeKind tm w = Inr k \<Longrightarrow> kind_valid k"
  by (auto simp: DecodeKind_def Let_def split: if_splits)

section \<open>The cell codec\<close>

lemma validateCell_None:
  "validateCell c = None \<longleftrightarrow>
     kind_valid (Kind c) \<and> length (Payload c) \<le> MaxCellPayloadSize \<and>
     length (Padding c) \<le> MaxCellPaddingSize \<and> StreamID c \<le> MaxStreamID \<and>
     Sequence c \<le> MaxSequence \<and> (controlOnly (Kind c) \<longleftrightarrow> StreamID c = 0)"
  by (auto simp: validateCell_def)

text \<open>The encoding of a valid cell, written out.\<close>

definition cell_bytes :: "byte \<Rightarrow> Cell \<Rightarrow> bytes" where
  "cell_bytes w c = [w] @ put_uvarint (StreamID c) @ put_uvarint (Sequence c)
                    @ put_len (Payload c) @ put_len (Padding c) @ Payload c @ Padding c"

lemma EncodeCell_eq_Inr:
  "EncodeCell tm c = Inr raw \<longleftrightarrow>
     validateCell c = None \<and> (\<exists>w. EncodeKind tm (Kind c) = Inr w \<and> raw = cell_bytes w c) \<and>
     length raw \<le> MaxCellSize"
  by (auto simp: EncodeCell_def cell_bytes_def Let_def split: option.splits)

lemma length_cell_bytes:
  assumes "validateCell c = None"
  shows "length (cell_bytes w c) \<le> MaxCellSize"
  using assms length_put_uvarint [of "StreamID c"] length_put_uvarint [of "Sequence c"]
    length_put_uvarint [of "of_nat (length (Payload c))"]
    length_put_uvarint [of "of_nat (length (Padding c))"]
  by (simp add: cell_bytes_def validateCell_None)

lemma DecodeCell_EncodeCell:
  assumes tm: "wf_TypeMap tm" and enc: "EncodeCell tm c = Inr raw"
  shows "DecodeCell tm raw = Inr c"
proof -
  from enc obtain w where v: "validateCell c = None" and w: "EncodeKind tm (Kind c) = Inr w"
    and raw: "raw = cell_bytes w c" and size: "length raw \<le> MaxCellSize"
    by (auto simp: EncodeCell_eq_Inr)
  have kind: "DecodeKind tm w = Inr (Kind c)" using DecodeKind_EncodeKind [OF tm w] .
  have pay: "unat (of_nat (length (Payload c)) :: u64) = length (Payload c)"
    and pad: "unat (of_nat (length (Padding c)) :: u64) = length (Padding c)"
    using v by (auto simp: validateCell_None intro!: unat_of_nat_small)
  have lims: "\<not> (of_nat (length (Payload c)) :: u64) > of_nat MaxCellPayloadSize"
    "\<not> (of_nat (length (Padding c)) :: u64) > of_nat MaxCellPaddingSize"
    using v by (simp_all add: word_less_nat_alt pay pad validateCell_None)
  have eta: "\<lparr>Kind = Kind c, StreamID = StreamID c, Sequence = Sequence c,
              Payload = Payload c, Padding = Padding c\<rparr> = c" by simp
  show ?thesis
    using v size kind lims unfolding DecodeCell_def raw
    by (simp add: cell_bytes_def Let_def pay pad eta)
qed

text \<open>
  The converse: a buffer the decoder accepts is the encoding of the cell it returns. The cursor
  walks over the four varints, each of which is canonical.
\<close>

lemma EncodeCell_DecodeCell:
  assumes tm: "wf_TypeMap tm" and dec: "DecodeCell tm raw = Inr c"
  shows "EncodeCell tm c = Inr raw"
proof -
  from dec obtain sid n1 sq n2 pl n3 dl n4 where
    ne: "raw \<noteq> []" and size: "length raw \<le> MaxCellSize"
    and kind: "DecodeKind tm (raw ! 0) = Inr (Kind c)"
    and r1: "readCanonicalUvarint (drop 1 raw) = Inr (sid, n1)"
    and r2: "readCanonicalUvarint (drop (1 + n1) raw) = Inr (sq, n2)"
    and r3: "readCanonicalUvarint (drop (1 + n1 + n2) raw) = Inr (pl, n3)"
    and r4: "readCanonicalUvarint (drop (1 + n1 + n2 + n3) raw) = Inr (dl, n4)"
    and lims: "pl \<le> 32768" "dl \<le> 16384"
    and sum: "pl + dl = of_nat (length raw - (1 + n1 + n2 + n3 + n4))"
    and ids: "StreamID c = sid" "Sequence c = sq"
    and payload: "Payload c = take (unat pl) (drop (1 + n1 + n2 + n3 + n4) raw)"
    and padding: "Padding c = drop (1 + n1 + n2 + n3 + n4 + unat pl) raw"
    and v: "validateCell c = None"
    unfolding DecodeCell_def
    by (auto simp: Let_def not_less split: if_splits option.splits prod.splits)
  let ?tail = "drop (1 + n1 + n2 + n3 + n4) raw"
  have "unat (pl + dl) = unat pl + unat dl"
    using lims by (intro unat_add_nowrap) (simp add: word_le_nat_alt)
  moreover have "unat (of_nat (length ?tail) :: u64) = length ?tail"
    using size by (intro unat_of_nat_small) simp
  ultimately have len: "unat pl + unat dl = length ?tail" using sum by simp
  have tail: "?tail = Payload c @ Padding c"
    unfolding payload padding by (rule drop_split)
  have pay: "of_nat (length (Payload c)) = pl" using len by (simp add: payload)
  have pad: "of_nat (length (Padding c)) = dl"
  proof -
    have "length (Padding c) = unat dl" using len by (simp add: padding)
    then show ?thesis by simp
  qed
  have "drop 1 raw = put_uvarint sid @ put_uvarint sq @ put_uvarint pl @ put_uvarint dl @ ?tail"
    using read_at_cursor(1) [OF r1] read_at_cursor(1) [OF r2] read_at_cursor(1) [OF r3]
      read_at_cursor(1) [OF r4] by (simp add: add.assoc)
  moreover have "raw = raw ! 0 # drop 1 raw" using ne by (cases raw) simp_all
  ultimately have "raw = cell_bytes (raw ! 0) c"
    using ids pay pad tail by (simp add: cell_bytes_def)
  moreover have "EncodeKind tm (Kind c) = Inr (raw ! 0)" using EncodeKind_DecodeKind [OF tm kind] .
  ultimately show ?thesis using v size by (auto simp: EncodeCell_eq_Inr)
qed

lemma cell_message_codec:
  assumes "wf_TypeMap tm"
  shows "message_codec (\<lambda>_. True) (EncodeCell tm) (DecodeCell tm)"
proof
  fix c raw assume "EncodeCell tm c = Inr raw"
  then show "DecodeCell tm raw = Inr c" by (rule DecodeCell_EncodeCell [OF assms])
next
  fix c raw assume "DecodeCell tm raw = Inr c"
  then show "True \<and> EncodeCell tm c = Inr raw" using EncodeCell_DecodeCell [OF assms] by blast
qed

lemma DecodeCell_valid: "DecodeCell tm raw = Inr c \<Longrightarrow> validateCell c = None"
  unfolding DecodeCell_def by (auto simp: Let_def split: if_splits option.splits prod.splits)

lemma EncodeCell_total:
  assumes "wf_TypeMap tm" and "validateCell c = None"
  shows "EncodeCell tm c = Inr (cell_bytes (tm_encode tm ! unat (Kind c)) c)"
  using assms EncodeKind_wf [OF assms(1)] length_cell_bytes [OF assms(2)]
  by (simp add: EncodeCell_eq_Inr validateCell_None)

section \<open>Properties\<close>

lemma uniform_returns:
  assumes "\<exists>n. nth_draw H n r < - 1 - (- 1) mod l" and "l \<noteq> 0"
  shows "\<exists>v r'. uniform H r l = Some (v, r')"
  using assms uniform_loop_returns by (fastforce simp: uniform_def)

lemma shuffle_returns:
  assumes "\<And>r l. 2 \<le> l \<Longrightarrow> l \<le> 12 \<Longrightarrow> \<exists>n. nth_draw H n r < - 1 - (- 1) mod l"
  shows "i \<le> 11 \<Longrightarrow> \<exists>codes'. shuffle H i codes r = Some codes'"
proof (induction i arbitrary: codes r)
  case 0
  then show ?case by simp
next
  case (Suc i)
  have u: "unat (of_nat (Suc i + 1) :: u64) = Suc i + 1" using Suc.prems by (intro unat_of_nat_small) simp
  then have b: "2 \<le> (of_nat (Suc i + 1) :: u64)" "(of_nat (Suc i + 1) :: u64) \<le> 12"
    using Suc.prems by (simp_all add: word_le_nat_alt)
  moreover have "(of_nat (Suc i + 1) :: u64) \<noteq> 0" using u by (metis add_is_0 one_neq_zero unat_0)
  ultimately obtain v r' where "uniform H r (of_nat (Suc i + 1)) = Some (v, r')" using uniform_returns [OF assms] by blast
  then show ?case using Suc by simp
qed


text \<open>A generator whose hash always starts with eight zero bytes draws a zero from every new block.\<close>

lemma zero_block_draw_zero:
  assumes "\<And>m. take 8 (H m) = zero_bytes 8"
  shows "\<exists>n. nth_draw H n r = 0"
proof (induction "length (mr_block r) + 8 - mr_offset r" arbitrary: r rule: less_induct)
  case less
  show ?case
  proof (cases "mr_offset r + 8 > length (mr_block r)")
    case True
    have "be_value (zero_bytes 8) = 0" by (simp add: be_value_def eval_nat_numeral)
    moreover have "take 8 (hmac H k m) = zero_bytes 8" for k m by (simp add: hmac_def assms Let_def)
    ultimately have "nth_draw H 0 r = 0" using True by (simp add: mapRandom_uint64_def Let_def)
    then show ?thesis by blast
  next
    case False
    then have "snd (mapRandom_uint64 H r) = r\<lparr>mr_offset := mr_offset r + 8\<rparr>" by (simp add: mapRandom_uint64_def Let_def)
    moreover have "length (mr_block r) + 8 - (mr_offset r + 8) < length (mr_block r) + 8 - mr_offset r" using False by linarith
    ultimately obtain n where "nth_draw H n (snd (mapRandom_uint64 H r)) = 0"
      using less [of "snd (mapRandom_uint64 H r)"] by auto
    then have "nth_draw H (Suc n) r = 0" by simp
    then show ?thesis by blast
  qed
qed

lemma rejection_threshold_pos:
  fixes l :: u64
  assumes "2 \<le> l" and "l \<le> 12"
  shows "0 < - 1 - (- 1) mod l"
proof -
  have "0 < l" using assms(1) by (simp add: word_le_nat_alt word_less_nat_alt)
  then have "(- 1) mod l < l" by (rule word_mod_less_divisor)
  then have "(- 1) mod l \<noteq> - 1" using word_n1_ge [of l] by (metis leD)
  then show ?thesis by (simp add: word_gt_0)
qed

lemma zero_block_draw:
  fixes l :: u64
  assumes "\<And>m. take 8 (H m) = zero_bytes 8" and "2 \<le> l" and "l \<le> 12"
  shows "\<exists>n. nth_draw H n r < - 1 - (- 1) mod l"
proof -
  obtain n where "nth_draw H n r = 0" using zero_block_draw_zero [of H r] assms(1) by blast
  with rejection_threshold_pos [OF assms(2,3)] show ?thesis by (intro exI [of _ n]) simp
qed

lemma zero_block_type_map:
  assumes "\<And>m. take 8 (H m) = zero_bytes 8" and "seed \<noteq> zero_bytes 32"
  shows "\<exists>tm. NewTypeMap H seed = Some (Inr tm)"
proof -
  obtain codes where "shuffle H 11 (map of_nat [1..<13]) (newMapRandom seed) = Some codes"
    using shuffle_returns [of H 11] zero_block_draw [of H] assms(1) by blast
  then show ?thesis using assms(2) by (simp add: NewTypeMap_def)
qed


lemma sample_type_map: "\<exists>tm. NewTypeMap (\<lambda>_. zero_bytes 32) (replicate 32 1) = Some (Inr tm)"
  by (rule zero_block_type_map) simp_all



text \<open>
  C23 (roundtrip). The cell codec is exact: with a session's type map, a byte string decodes to a
  cell exactly when it is the encoding of that cell, and a cell has an encoding exactly when it is
  valid. In particular the final size check of \<open>EncodeCell\<close> never rejects a valid cell.
\<close>

theorem cell_codec_exact:
  assumes "NewTypeMap H seed = Some (Inr tm)"
  shows "(DecodeCell tm raw = Inr c \<longleftrightarrow> EncodeCell tm c = Inr raw)
       \<and> (validateCell c = None \<longleftrightarrow> (\<exists>raw. EncodeCell tm c = Inr raw))"
proof -
  note wf = NewTypeMap_wf [OF assms]
  have "validateCell c = None" if "EncodeCell tm c = Inr raw" for raw using that by (simp add: EncodeCell_eq_Inr)
  then show ?thesis using DecodeCell_EncodeCell [OF wf] EncodeCell_DecodeCell [OF wf] EncodeCell_total [OF wf] by blast
qed

theorem cell_codec_exact_witness:
  "\<exists>tm raw. NewTypeMap (\<lambda>_. zero_bytes 32) (replicate 32 1) = Some (Inr tm)
     \<and> EncodeCell tm \<lparr>Kind = CellData, StreamID = 1, Sequence = 1, Payload = [7], Padding = [0]\<rparr> = Inr raw
     \<and> DecodeCell tm raw = Inr \<lparr>Kind = CellData, StreamID = 1, Sequence = 1, Payload = [7], Padding = [0]\<rparr>"
proof -
  let ?c = "\<lparr>Kind = CellData, StreamID = 1, Sequence = 1, Payload = [7], Padding = [0]\<rparr>"
  obtain tm where tm: "NewTypeMap (\<lambda>_. zero_bytes 32) (replicate 32 1) = Some (Inr tm)" using sample_type_map by blast
  have "validateCell ?c = None" by (simp add: validateCell_None kind_valid_def controlOnly_def)
  with tm cell_codec_exact [OF tm, of _ ?c] show ?thesis by blast
qed

end
