(* ===== verification/NP_Extension.thy ===== *)
theory NP_Extension
  imports NP_Cell
begin

text \<open>
  Extension envelopes and the parameters they carry, \<open>internal/protocol/extension.go\<close> and
  \<open>internal/protocol/extension_parameters.go\<close>. An envelope is a list of type-length-value fields
  in strictly increasing order of type; the parameters of an offer or an accept are a fixed set of
  such fields. The lemmas show that marshalling and parsing an envelope are inverse to each other
  and that the parameters of a valid offer survive the way through the envelope.
\<close>

section \<open>Envelopes\<close>

abbreviation MaxExtensionTLVs :: nat where "MaxExtensionTLVs \<equiv> 32"
abbreviation MaxExtensionTLVValueSize :: nat where "MaxExtensionTLVValueSize \<equiv> 4096"
abbreviation ExtensionEnvelopeVersion :: byte where "ExtensionEnvelopeVersion \<equiv> 1"
abbreviation ExtensionMandatoryFlag :: u64 where "ExtensionMandatoryFlag \<equiv> 0x4000000000000000"
abbreviation MaxExtensionTLVType :: u64 where "MaxExtensionTLVType \<equiv> 0x7fffffffffffffff"

abbreviation ExtensionOffer :: byte where "ExtensionOffer \<equiv> 1"
abbreviation ExtensionAccept :: byte where "ExtensionAccept \<equiv> 2"
abbreviation ExtensionUpdate :: byte where "ExtensionUpdate \<equiv> 3"

definition ext_type_valid :: "byte \<Rightarrow> bool" where
  "ext_type_valid t \<longleftrightarrow> t \<ge> ExtensionOffer \<and> t \<le> ExtensionUpdate"

abbreviation CapabilityReliableUDP :: u64 where "CapabilityReliableUDP \<equiv> 1"
abbreviation CapabilityUnreliableDatagrams :: u64 where "CapabilityUnreliableDatagrams \<equiv> 2"
abbreviation CapabilityAdaptiveWindow :: u64 where "CapabilityAdaptiveWindow \<equiv> 4"
abbreviation CapabilityCarrierMigration :: u64 where "CapabilityCarrierMigration \<equiv> 8"
abbreviation CapabilityMosaicCover :: u64 where "CapabilityMosaicCover \<equiv> 16"
abbreviation CapabilityConstellationContinuity :: u64 where "CapabilityConstellationContinuity \<equiv> 32"
abbreviation CapabilityForwardSecrecy :: u64 where "CapabilityForwardSecrecy \<equiv> 64"

abbreviation ExtensionTLVCapabilities :: u64 where "ExtensionTLVCapabilities \<equiv> 1"
abbreviation ExtensionTLVMaxUDPAssociations :: u64 where "ExtensionTLVMaxUDPAssociations \<equiv> 2"
abbreviation ExtensionTLVMaxUDPPayload :: u64 where "ExtensionTLVMaxUDPPayload \<equiv> 3"
abbreviation ExtensionTLVUDPIdleTimeoutMS :: u64 where "ExtensionTLVUDPIdleTimeoutMS \<equiv> 4"
abbreviation ExtensionTLVMaxSessionReceiveBytes :: u64 where "ExtensionTLVMaxSessionReceiveBytes \<equiv> 5"
abbreviation ExtensionTLVMaxStreamWindowBytes :: u64 where "ExtensionTLVMaxStreamWindowBytes \<equiv> 6"
abbreviation ExtensionTLVUnreliableDatagramSize :: u64 where "ExtensionTLVUnreliableDatagramSize \<equiv> 7"
abbreviation ExtensionTLVContinuity :: u64 where "ExtensionTLVContinuity \<equiv> 8"
abbreviation ExtensionTLVForwardSecretKeyShare :: u64 where "ExtensionTLVForwardSecretKeyShare \<equiv> 9"
abbreviation ExtensionTLVForwardSecretConfirm :: u64 where "ExtensionTLVForwardSecretConfirm \<equiv> 10"
abbreviation ExtensionTLVForwardSecretAck :: u64 where "ExtensionTLVForwardSecretAck \<equiv> 11"

definition extensionMagic :: bytes where
  "extensionMagic = str ''NPEX''"

definition IsExtensionEnvelope :: "bytes \<Rightarrow> bool" where
  "IsExtensionEnvelope raw \<longleftrightarrow> length raw \<ge> length extensionMagic \<and> take (length extensionMagic) raw = extensionMagic"

record ExtensionTLV =
  tlv_Type :: u64
  tlv_Value :: bytes

definition Mandatory :: "ExtensionTLV \<Rightarrow> bool" where
  "Mandatory t \<longleftrightarrow> tlv_Type t AND ExtensionMandatoryFlag \<noteq> 0"

definition BaseType :: "ExtensionTLV \<Rightarrow> u64" where
  "BaseType t = tlv_Type t AND NOT ExtensionMandatoryFlag"

definition validExtensionTLVType :: "u64 \<Rightarrow> bool" where
  "validExtensionTLVType t \<longleftrightarrow>
     t \<noteq> 0 \<and> t \<le> MaxExtensionTLVType \<and> t AND NOT ExtensionMandatoryFlag \<noteq> 0"

definition NewExtensionCapabilitiesTLV :: "u64 \<Rightarrow> ExtensionTLV" where
  "NewExtensionCapabilitiesTLV capabilities =
     \<lparr>tlv_Type = ExtensionTLVCapabilities, tlv_Value = put_uint64 capabilities\<rparr>"

definition tlv_Capabilities :: "ExtensionTLV \<Rightarrow> protocol_error + u64" where
  "tlv_Capabilities t =
     (if BaseType t \<noteq> ExtensionTLVCapabilities \<or> length (tlv_Value t) \<noteq> 8 then Inl ErrInvalidExtension
      else Inr (be_value (tlv_Value t)))"

definition NewExtensionUvarintTLV :: "u64 \<Rightarrow> u64 \<Rightarrow> protocol_error + ExtensionTLV" where
  "NewExtensionUvarintTLV t v =
     (if \<not> validExtensionTLVType t then Inl ErrInvalidExtension
      else Inr \<lparr>tlv_Type = t, tlv_Value = put_uvarint v\<rparr>)"

definition tlv_Uvarint :: "ExtensionTLV \<Rightarrow> protocol_error + u64" where
  "tlv_Uvarint t =
     (case readCanonicalUvarint (tlv_Value t) of
        Inl _ \<Rightarrow> Inl ErrInvalidExtension
      | Inr (value, consumed) \<Rightarrow>
          if consumed \<noteq> length (tlv_Value t) then Inl ErrInvalidExtension else Inr value)"

record ExtensionEnvelope =
  env_Type :: byte
  env_MessageID :: u64
  env_TLVs :: "ExtensionTLV list"

text \<open>The loop over the fields in \<open>MarshalBinary\<close>: \<open>raw\<close> is the buffer built so far.\<close>

fun marshal_tlvs :: "u64 \<Rightarrow> bytes \<Rightarrow> ExtensionTLV list \<Rightarrow> protocol_error + bytes" where
  "marshal_tlvs previousType raw [] = Inr raw"
| "marshal_tlvs previousType raw (tlv # tlvs) =
     (if \<not> validExtensionTLVType (tlv_Type tlv) \<or> tlv_Type tlv \<le> previousType
         \<or> length (tlv_Value tlv) > MaxExtensionTLVValueSize
      then Inl ErrInvalidExtension
      else let raw' = raw @ put_uvarint (tlv_Type tlv) @ put_len (tlv_Value tlv) @ tlv_Value tlv
           in if length raw' > MaxCellPayloadSize then Inl ErrInvalidExtension
              else marshal_tlvs (tlv_Type tlv) raw' tlvs)"

definition Envelope_MarshalBinary :: "ExtensionEnvelope \<Rightarrow> protocol_error + bytes" where
  "Envelope_MarshalBinary e =
     (if \<not> ext_type_valid (env_Type e) \<or> env_MessageID e = 0 \<or> env_MessageID e > MaxSequence
         \<or> length (env_TLVs e) = 0 \<or> length (env_TLVs e) > MaxExtensionTLVs
      then Inl ErrInvalidExtension
      else marshal_tlvs 0
             (extensionMagic @ [ExtensionEnvelopeVersion, env_Type e] @ put_uvarint (env_MessageID e)
              @ put_len (env_TLVs e))
             (env_TLVs e))"

text \<open>The loop \<open>for range count\<close> in \<open>ParseExtensionEnvelope\<close>; it returns the fields and the cursor.\<close>

fun parse_tlvs :: "nat \<Rightarrow> u64 \<Rightarrow> nat \<Rightarrow> bytes \<Rightarrow> protocol_error + ExtensionTLV list \<times> nat" where
  "parse_tlvs 0 previousType cursor raw = Inr ([], cursor)"
| "parse_tlvs (Suc n) previousType cursor raw =
     (if cursor \<ge> length raw then Inl ErrInvalidExtension
      else case readCanonicalUvarint (drop cursor raw) of
        Inl _ \<Rightarrow> Inl ErrInvalidExtension
      | Inr (tlvType, typeBytes) \<Rightarrow>
          if \<not> validExtensionTLVType tlvType \<or> tlvType \<le> previousType then Inl ErrInvalidExtension
          else let c1 = cursor + typeBytes in
          (case readCanonicalUvarint (drop c1 raw) of
             Inl _ \<Rightarrow> Inl ErrInvalidExtension
           | Inr (len, lengthBytes) \<Rightarrow>
               if len > of_nat MaxExtensionTLVValueSize then Inl ErrInvalidExtension
               else let c2 = c1 + lengthBytes in
               if len > of_nat (length raw - c2) then Inl ErrInvalidExtension
               else let tail = c2 + unat len in
                 res_bind (parse_tlvs n tlvType tail raw) (\<lambda>(tlvs, c).
                   Inr (\<lparr>tlv_Type = tlvType, tlv_Value = take (unat len) (drop c2 raw)\<rparr> # tlvs, c))))"

definition ParseExtensionEnvelope :: "bytes \<Rightarrow> protocol_error + ExtensionEnvelope" where
  "ParseExtensionEnvelope raw =
     (if length raw < 8 \<or> length raw > MaxCellPayloadSize \<or> take 4 raw \<noteq> extensionMagic
         \<or> raw ! 4 \<noteq> ExtensionEnvelopeVersion
      then Inl ErrInvalidExtension
      else let messageType = raw ! 5 in
      if \<not> ext_type_valid messageType then Inl ErrInvalidExtension
      else let c0 = 6 in
      case readCanonicalUvarint (drop c0 raw) of
        Inl _ \<Rightarrow> Inl ErrInvalidExtension
      | Inr (messageID, n1) \<Rightarrow>
        if messageID = 0 \<or> messageID > MaxSequence then Inl ErrInvalidExtension
        else let c1 = c0 + n1 in
        (case readCanonicalUvarint (drop c1 raw) of
           Inl _ \<Rightarrow> Inl ErrInvalidExtension
         | Inr (cnt, n2) \<Rightarrow>
           if cnt = 0 \<or> cnt > of_nat MaxExtensionTLVs then Inl ErrInvalidExtension
           else let c2 = c1 + n2 in
           res_bind (parse_tlvs (unat cnt) 0 c2 raw) (\<lambda>(tlvs, cursor).
             if cursor \<noteq> length raw then Inl ErrInvalidExtension
             else Inr \<lparr>env_Type = messageType, env_MessageID = messageID, env_TLVs = tlvs\<rparr>)))"

section \<open>Marshalling and parsing are inverse\<close>

definition tlv_bytes :: "ExtensionTLV \<Rightarrow> bytes" where
  "tlv_bytes t = put_uvarint (tlv_Type t) @ put_len (tlv_Value t) @ tlv_Value t"

fun tlv_chain :: "u64 \<Rightarrow> ExtensionTLV list \<Rightarrow> bool" where
  "tlv_chain p [] = True"
| "tlv_chain p (t # ts) \<longleftrightarrow>
     validExtensionTLVType (tlv_Type t) \<and> p < tlv_Type t
     \<and> length (tlv_Value t) \<le> MaxExtensionTLVValueSize \<and> tlv_chain (tlv_Type t) ts"

lemma marshal_tlvs_eq_Inr:
  "marshal_tlvs p raw ts = Inr out \<longleftrightarrow>
     tlv_chain p ts \<and> out = raw @ concat (map tlv_bytes ts)
     \<and> (ts = [] \<or> length out \<le> MaxCellPayloadSize)"
proof (induction p raw ts rule: marshal_tlvs.induct)
  case (1 p raw)
  then show ?case by auto
next
  case (2 p raw t ts)
  then show ?case by (auto simp: Let_def tlv_bytes_def not_less not_le)
qed

lemma tlv_value_length:
  assumes "length (tlv_Value t) \<le> MaxExtensionTLVValueSize"
  shows "unat (of_nat (length (tlv_Value t)) :: u64) = length (tlv_Value t)"
  using assms by (intro unat_of_nat_small) simp

lemma parse_tlvs_complete:
  "tlv_chain p ts \<Longrightarrow> drop c raw = concat (map tlv_bytes ts) @ rest \<Longrightarrow> length raw \<le> MaxCellPayloadSize \<Longrightarrow>
   c \<le> length raw \<Longrightarrow> parse_tlvs (length ts) p c raw = Inr (ts, c + length (concat (map tlv_bytes ts)))"
proof (induction ts arbitrary: p c)
  case Nil
  then show ?case by simp
next
  case (Cons t ts)
  let ?tail = "concat (map tlv_bytes ts) @ rest"
  let ?n1 = "length (put_uvarint (tlv_Type t))" and ?n2 = "length (put_len (tlv_Value t))"
  have d0: "drop c raw = put_uvarint (tlv_Type t) @ put_len (tlv_Value t) @ tlv_Value t @ ?tail"
    using Cons.prems by (simp add: tlv_bytes_def [of t])
  then have d1: "drop (c + ?n1) raw = put_len (tlv_Value t) @ tlv_Value t @ ?tail"
    by (rule drop_prefix)
  then have d2: "drop (c + ?n1 + ?n2) raw = tlv_Value t @ ?tail"
    by (rule drop_prefix)
  then have d3: "drop (c + ?n1 + ?n2 + length (tlv_Value t)) raw = ?tail"
    by (rule drop_prefix)
  have c: "c < length raw" using d0 by (cases "length raw \<le> c") auto
  have len: "length raw - (c + ?n1 + ?n2) = length (tlv_Value t) + length ?tail"
    using arg_cong [OF d2, of length] by simp
  have cl: "c + ?n1 + ?n2 + length (tlv_Value t) \<le> length raw"
    using arg_cong [OF d0, of length] c by simp
  have small: "length (tlv_Value t) \<le> MaxExtensionTLVValueSize" using Cons.prems(1) by simp
  have lim: "\<not> (of_nat (length (tlv_Value t)) :: u64) > of_nat MaxExtensionTLVValueSize"
    using small by (simp add: word_less_nat_alt tlv_value_length)
  have "unat (of_nat (length raw - (c + ?n1 + ?n2)) :: u64) = length raw - (c + ?n1 + ?n2)"
    using Cons.prems(3) by (intro unat_of_nat_small) simp
  then have fit: "\<not> (of_nat (length (tlv_Value t)) :: u64) > of_nat (length raw - (c + ?n1 + ?n2))"
    using small len by (simp add: word_less_nat_alt tlv_value_length)
  have IH: "parse_tlvs (length ts) (tlv_Type t) (c + ?n1 + ?n2 + length (tlv_Value t)) raw
      = Inr (ts, c + ?n1 + ?n2 + length (tlv_Value t) + length (concat (map tlv_bytes ts)))"
    using Cons.prems cl by (intro Cons.IH d3) auto
  show ?case
    using Cons.prems(1) c lim fit IH
    by (simp add: d0 d1 d2 [unfolded add.assoc] tlv_value_length [OF small] Let_def
        tlv_bytes_def [of t] add.assoc not_le)
qed

lemma parse_tlvs_sound:
  "parse_tlvs n p c raw = Inr (ts, c') \<Longrightarrow> length raw \<le> MaxCellPayloadSize \<Longrightarrow> c \<le> length raw \<Longrightarrow>
   length ts = n \<and> tlv_chain p ts \<and> drop c raw = concat (map tlv_bytes ts) @ drop c' raw \<and> c' \<le> length raw"
proof (induction n arbitrary: p c ts)
  case 0
  then show ?case by simp
next
  case (Suc n)
  from Suc.prems(1) obtain ty n1 len n2 ts' where
    r1: "readCanonicalUvarint (drop c raw) = Inr (ty, n1)"
    and ty: "validExtensionTLVType ty" "p < ty"
    and r2: "readCanonicalUvarint (drop (c + n1) raw) = Inr (len, n2)"
    and lim: "len \<le> of_nat MaxExtensionTLVValueSize" "len \<le> of_nat (length raw - (c + n1 + n2))"
    and rest: "parse_tlvs n ty (c + n1 + n2 + unat len) raw = Inr (ts', c')"
    and ts: "ts = \<lparr>tlv_Type = ty, tlv_Value = take (unat len) (drop (c + n1 + n2) raw)\<rparr> # ts'"
    by (auto simp: Let_def not_less not_le split: if_splits sum.splits)
  note s1 = read_at_cursor [OF r1] and s2 = read_at_cursor [OF r2]
  have "unat (of_nat (length raw - (c + n1 + n2)) :: u64) = length raw - (c + n1 + n2)"
    using Suc.prems(2) by (intro unat_of_nat_small) simp
  then have fit: "unat len \<le> length raw - (c + n1 + n2)" using lim(2) by (simp add: word_le_nat_alt)
  then have vlen: "length (take (unat len) (drop (c + n1 + n2) raw)) = unat len" by simp
  have "unat len \<le> MaxExtensionTLVValueSize" using lim(1) by (simp add: word_le_nat_alt)
  then have chain: "tlv_chain p ts \<longleftrightarrow> tlv_chain ty ts'" using ty vlen by (simp add: ts)
  have "c + n1 + n2 \<le> length raw"
    using arg_cong [OF s1(1), of length] arg_cong [OF s2(1), of length] s1(2) s2(2) Suc.prems(3) by simp
  then have IH: "length ts' = n \<and> tlv_chain ty ts' \<and> c' \<le> length raw
      \<and> drop (c + n1 + n2 + unat len) raw = concat (map tlv_bytes ts') @ drop c' raw"
    using Suc.IH [OF rest Suc.prems(2)] fit by auto
  have "tlv_bytes (hd ts) = put_uvarint ty @ put_uvarint len @ take (unat len) (drop (c + n1 + n2) raw)"
    using vlen by (simp add: tlv_bytes_def ts)
  then have "drop c raw = tlv_bytes (hd ts) @ drop (c + n1 + n2 + unat len) raw"
    using s1(1) s2(1) drop_split [of "c + n1 + n2" raw "unat len"] by simp
  then show ?case using IH chain by (simp add: ts)
qed

lemma length_extensionMagic [simp]: "length extensionMagic = 4"
  by (simp add: extensionMagic_def)


definition envelope_bytes :: "ExtensionEnvelope \<Rightarrow> bytes" where
  "envelope_bytes e =
     extensionMagic @ [ExtensionEnvelopeVersion, env_Type e] @ put_uvarint (env_MessageID e)
     @ put_len (env_TLVs e) @ concat (map tlv_bytes (env_TLVs e))"

definition envelope_ok :: "ExtensionEnvelope \<Rightarrow> bool" where
  "envelope_ok e \<longleftrightarrow>
     ext_type_valid (env_Type e) \<and> env_MessageID e \<noteq> 0 \<and> env_MessageID e \<le> MaxSequence
     \<and> env_TLVs e \<noteq> [] \<and> length (env_TLVs e) \<le> MaxExtensionTLVs \<and> tlv_chain 0 (env_TLVs e)"

lemma Envelope_MarshalBinary_eq_Inr:
  "Envelope_MarshalBinary e = Inr raw \<longleftrightarrow>
     envelope_ok e \<and> raw = envelope_bytes e \<and> length raw \<le> MaxCellPayloadSize"
  by (auto simp: Envelope_MarshalBinary_def envelope_ok_def envelope_bytes_def marshal_tlvs_eq_Inr not_less)

lemma ParseExtensionEnvelope_Marshal:
  assumes "Envelope_MarshalBinary e = Inr raw"
  shows "ParseExtensionEnvelope raw = Inr e"
proof -
  let ?n1 = "length (put_uvarint (env_MessageID e))" and ?n2 = "length (put_len (env_TLVs e))"
  from assms have ok: "envelope_ok e" and raw: "raw = envelope_bytes e" and size: "length raw \<le> MaxCellPayloadSize"
    by (auto simp: Envelope_MarshalBinary_eq_Inr)
  have d0: "drop 6 raw = put_uvarint (env_MessageID e) @ put_len (env_TLVs e) @ concat (map tlv_bytes (env_TLVs e))"
    by (simp add: raw envelope_bytes_def numeral_eq_Suc)
  then have d1: "drop (6 + ?n1) raw = put_len (env_TLVs e) @ concat (map tlv_bytes (env_TLVs e))"
    by (rule drop_prefix)
  then have d2: "drop (6 + ?n1 + ?n2) raw = concat (map tlv_bytes (env_TLVs e)) @ []"
    by (subst drop_prefix) simp_all
  have fixed: "take 4 raw = extensionMagic" "raw ! 4 = ExtensionEnvelopeVersion" "raw ! 5 = env_Type e"
    by (simp_all add: raw envelope_bytes_def nth_append)
  have len: "length raw = 6 + ?n1 + ?n2 + length (concat (map tlv_bytes (env_TLVs e)))"
    by (simp add: raw envelope_bytes_def)
  then have min: "\<not> length raw < 8"
    using length_put_uvarint_pos [of "env_MessageID e"] length_put_uvarint_pos [of "of_nat (length (env_TLVs e))"]
    by simp
  have num: "unat (of_nat (length (env_TLVs e)) :: u64) = length (env_TLVs e)"
    using ok by (intro unat_of_nat_small) (simp add: envelope_ok_def)
  have cnt: "(of_nat (length (env_TLVs e)) :: u64) \<noteq> 0" "\<not> (of_nat (length (env_TLVs e)) :: u64) > of_nat MaxExtensionTLVs"
    using ok num by (auto simp: envelope_ok_def word_less_nat_alt word_unat_eq_iff)
  have "parse_tlvs (length (env_TLVs e)) 0 (6 + ?n1 + ?n2) raw = Inr (env_TLVs e, length raw)"
    using parse_tlvs_complete [OF _ d2 size] ok len by (simp add: envelope_ok_def)
  then show ?thesis
    using ok size min fixed cnt num unfolding ParseExtensionEnvelope_def
    by (simp add: d0 d1 Let_def envelope_ok_def not_less)
qed

lemma Marshal_ParseExtensionEnvelope:
  assumes "ParseExtensionEnvelope raw = Inr e"
  shows "Envelope_MarshalBinary e = Inr raw"
proof -
  from assms obtain n1 cnt n2 where
    size: "8 \<le> length raw" "length raw \<le> MaxCellPayloadSize"
    and fixed: "take 4 raw = extensionMagic" "raw ! 4 = ExtensionEnvelopeVersion" "raw ! 5 = env_Type e"
    and ty: "ext_type_valid (env_Type e)"
    and r1: "readCanonicalUvarint (drop 6 raw) = Inr (env_MessageID e, n1)"
    and id: "env_MessageID e \<noteq> 0" "env_MessageID e \<le> MaxSequence"
    and r2: "readCanonicalUvarint (drop (6 + n1) raw) = Inr (cnt, n2)"
    and cnt: "cnt \<noteq> 0" "cnt \<le> of_nat MaxExtensionTLVs"
    and tlvs: "parse_tlvs (unat cnt) 0 (6 + n1 + n2) raw = Inr (env_TLVs e, length raw)"
    unfolding ParseExtensionEnvelope_def
    by (auto simp: Let_def not_less split: if_splits sum.splits)
  note s1 = read_at_cursor [OF r1] and s2 = read_at_cursor [OF r2]
  have "6 + n1 + n2 \<le> length raw"
    using arg_cong [OF s1(1), of length] arg_cong [OF s2(1), of length] s1(2) s2(2) size(1) by simp
  then have sound: "length (env_TLVs e) = unat cnt" "tlv_chain 0 (env_TLVs e)"
    "drop (6 + n1 + n2) raw = concat (map tlv_bytes (env_TLVs e))"
    using parse_tlvs_sound [OF tlvs size(2)] by auto
  have "unat cnt \<le> MaxExtensionTLVs" "unat cnt \<noteq> 0"
    using cnt by (auto simp: word_le_nat_alt unat_eq_0)
  then have ok: "envelope_ok e" using ty id sound by (auto simp: envelope_ok_def)
  have "raw = envelope_bytes e"
    using header_split [of raw] size fixed s1(1) s2(1) sound by (simp add: envelope_bytes_def)
  with ok size show ?thesis by (simp add: Envelope_MarshalBinary_eq_Inr)
qed

interpretation envelope: message_codec "\<lambda>_. True" Envelope_MarshalBinary ParseExtensionEnvelope
proof
  fix m raw assume "Envelope_MarshalBinary m = Inr raw"
  then show "ParseExtensionEnvelope raw = Inr m" by (rule ParseExtensionEnvelope_Marshal)
next
  fix m raw assume "ParseExtensionEnvelope raw = Inr m"
  then show "True \<and> Envelope_MarshalBinary m = Inr raw" using Marshal_ParseExtensionEnvelope by blast
qed


section \<open>Extension parameters\<close>

abbreviation minUDPAssociations :: u64 where "minUDPAssociations \<equiv> 1"
abbreviation maxUDPAssociations :: u64 where "maxUDPAssociations \<equiv> 4096"
abbreviation minUDPPayload :: u64 where "minUDPPayload \<equiv> 1200"
abbreviation minUnreliablePayload :: u64 where "minUnreliablePayload \<equiv> 512"
abbreviation maxUDPPayload :: u64 where "maxUDPPayload \<equiv> 65507"
abbreviation minUDPIdleTimeoutMS :: u64 where "minUDPIdleTimeoutMS \<equiv> 5000"
abbreviation maxUDPIdleTimeoutMS :: u64 where "maxUDPIdleTimeoutMS \<equiv> 600000"
abbreviation minSessionReceiveBytes :: u64 where "minSessionReceiveBytes \<equiv> 0x100000"
abbreviation maxSessionReceiveBytes :: u64 where "maxSessionReceiveBytes \<equiv> 0x10000000"
abbreviation minExtensionStreamWindow :: u64 where "minExtensionStreamWindow \<equiv> 0x10000"
abbreviation maxExtensionStreamWindow :: u64 where "maxExtensionStreamWindow \<equiv> 0x1000000"

record ExtensionParameters =
  Capabilities :: u64
  MaxUDPAssociations :: u64
  MaxUDPPayload :: u64
  UDPIdleTimeoutMS :: u64
  MaxSessionReceiveBytes :: u64
  MaxStreamWindowBytes :: u64
  UnreliableDatagramSize :: u64
  ForwardSecretKeyShare :: bytes

definition zero_parameters :: ExtensionParameters where
  "zero_parameters =
     \<lparr>Capabilities = 0, MaxUDPAssociations = 0, MaxUDPPayload = 0, UDPIdleTimeoutMS = 0,
      MaxSessionReceiveBytes = 0, MaxStreamWindowBytes = 0, UnreliableDatagramSize = 0,
      ForwardSecretKeyShare = zero_bytes 32\<rparr>"

definition validateForwardSecretParameters :: "ExtensionParameters \<Rightarrow> protocol_error option" where
  "validateForwardSecretParameters p =
     (if Capabilities p AND CapabilityForwardSecrecy \<noteq> 0
      then if ForwardSecretKeyShare p = zero_bytes 32 then Some ErrInvalidExtension else None
      else if ForwardSecretKeyShare p \<noteq> zero_bytes 32 then Some ErrInvalidExtension else None)"

definition parameters_validate :: "ExtensionParameters \<Rightarrow> protocol_error option" where
  "parameters_validate p =
     (if MaxSessionReceiveBytes p < minSessionReceiveBytes
         \<or> MaxSessionReceiveBytes p > maxSessionReceiveBytes
         \<or> MaxStreamWindowBytes p < minExtensionStreamWindow
         \<or> MaxStreamWindowBytes p > maxExtensionStreamWindow
         \<or> MaxStreamWindowBytes p > MaxSessionReceiveBytes p
      then Some ErrInvalidExtension
      else if Capabilities p AND CapabilityReliableUDP = 0
      then if MaxUDPAssociations p \<noteq> 0 \<or> MaxUDPPayload p \<noteq> 0 \<or> UDPIdleTimeoutMS p \<noteq> 0
              \<or> UnreliableDatagramSize p \<noteq> 0 \<or> Capabilities p AND CapabilityUnreliableDatagrams \<noteq> 0
           then Some ErrInvalidExtension
           else validateForwardSecretParameters p
      else if MaxUDPAssociations p < minUDPAssociations \<or> MaxUDPAssociations p > maxUDPAssociations
              \<or> MaxUDPPayload p < minUDPPayload \<or> MaxUDPPayload p > maxUDPPayload
              \<or> UDPIdleTimeoutMS p < minUDPIdleTimeoutMS \<or> UDPIdleTimeoutMS p > maxUDPIdleTimeoutMS
      then Some ErrInvalidExtension
      else if Capabilities p AND CapabilityUnreliableDatagrams = 0
      then if UnreliableDatagramSize p \<noteq> 0 then Some ErrInvalidExtension
           else validateForwardSecretParameters p
      else if UnreliableDatagramSize p < minUnreliablePayload
              \<or> UnreliableDatagramSize p > MaxUDPPayload p
      then Some ErrInvalidExtension
      else validateForwardSecretParameters p)"

text \<open>The loop of \<open>Envelope\<close> that turns the (type, value) pairs into fields.\<close>

fun uvarint_tlvs :: "(u64 \<times> u64) list \<Rightarrow> protocol_error + ExtensionTLV list" where
  "uvarint_tlvs [] = Inr []"
| "uvarint_tlvs ((t, v) # values) =
     res_bind (NewExtensionUvarintTLV t v) (\<lambda>tlv.
       res_bind (uvarint_tlvs values) (\<lambda>tlvs. Inr (tlv # tlvs)))"

definition parameters_Envelope :: "ExtensionParameters \<Rightarrow> byte \<Rightarrow> u64 \<Rightarrow> protocol_error + ExtensionEnvelope" where
  "parameters_Envelope p messageType messageID =
     (case parameters_validate p of
        Some e \<Rightarrow> Inl e
      | None \<Rightarrow>
        res_bind (uvarint_tlvs
            [(ExtensionTLVMaxUDPAssociations, MaxUDPAssociations p),
             (ExtensionTLVMaxUDPPayload, MaxUDPPayload p),
             (ExtensionTLVUDPIdleTimeoutMS, UDPIdleTimeoutMS p),
             (ExtensionTLVMaxSessionReceiveBytes, MaxSessionReceiveBytes p),
             (ExtensionTLVMaxStreamWindowBytes, MaxStreamWindowBytes p),
             (ExtensionTLVUnreliableDatagramSize, UnreliableDatagramSize p)]) (\<lambda>tlvs.
          let share = (if Capabilities p AND CapabilityForwardSecrecy \<noteq> 0
                       then [\<lparr>tlv_Type = ExtensionTLVForwardSecretKeyShare, tlv_Value = ForwardSecretKeyShare p\<rparr>]
                       else []);
              envelope = \<lparr>env_Type = messageType, env_MessageID = messageID,
                          env_TLVs = NewExtensionCapabilitiesTLV (Capabilities p) # tlvs @ share\<rparr>
          in res_bind (Envelope_MarshalBinary envelope) (\<lambda>_. Inr envelope)))"

text \<open>One iteration of the loop of \<open>ParseExtensionParameters\<close>: the \<open>switch\<close> on the base type.\<close>

definition parse_parameter :: "ExtensionTLV \<Rightarrow> ExtensionParameters \<Rightarrow> protocol_error + ExtensionParameters" where
  "parse_parameter tlv p =
     (let baseType = BaseType tlv in
      if baseType = ExtensionTLVCapabilities
      then res_bind (tlv_Capabilities tlv) (\<lambda>v. Inr (p\<lparr>Capabilities := v\<rparr>))
      else if baseType = ExtensionTLVMaxUDPAssociations
      then res_bind (tlv_Uvarint tlv) (\<lambda>v. Inr (p\<lparr>MaxUDPAssociations := v\<rparr>))
      else if baseType = ExtensionTLVMaxUDPPayload
      then res_bind (tlv_Uvarint tlv) (\<lambda>v. Inr (p\<lparr>MaxUDPPayload := v\<rparr>))
      else if baseType = ExtensionTLVUDPIdleTimeoutMS
      then res_bind (tlv_Uvarint tlv) (\<lambda>v. Inr (p\<lparr>UDPIdleTimeoutMS := v\<rparr>))
      else if baseType = ExtensionTLVMaxSessionReceiveBytes
      then res_bind (tlv_Uvarint tlv) (\<lambda>v. Inr (p\<lparr>MaxSessionReceiveBytes := v\<rparr>))
      else if baseType = ExtensionTLVMaxStreamWindowBytes
      then res_bind (tlv_Uvarint tlv) (\<lambda>v. Inr (p\<lparr>MaxStreamWindowBytes := v\<rparr>))
      else if baseType = ExtensionTLVUnreliableDatagramSize
      then res_bind (tlv_Uvarint tlv) (\<lambda>v. Inr (p\<lparr>UnreliableDatagramSize := v\<rparr>))
      else if baseType = ExtensionTLVForwardSecretKeyShare
      then if length (tlv_Value tlv) \<noteq> 32 then Inl ErrInvalidExtension
           else Inr (p\<lparr>ForwardSecretKeyShare := tlv_Value tlv\<rparr>)
      else if Mandatory tlv then Inl ErrUnsupportedExtension
      else Inr p)"

fun parse_parameters ::
  "ExtensionTLV list \<Rightarrow> u64 list \<Rightarrow> ExtensionParameters \<Rightarrow> protocol_error + u64 list \<times> ExtensionParameters" where
  "parse_parameters [] seen p = Inr (seen, p)"
| "parse_parameters (tlv # tlvs) seen p =
     (if BaseType tlv \<in> set seen then Inl ErrInvalidExtension
      else res_bind (parse_parameter tlv p) (\<lambda>p'. parse_parameters tlvs (BaseType tlv # seen) p'))"

definition ParseExtensionParameters :: "ExtensionEnvelope \<Rightarrow> protocol_error + ExtensionParameters" where
  "ParseExtensionParameters envelope =
     res_bind (Envelope_MarshalBinary envelope) (\<lambda>_.
     res_bind (parse_parameters (env_TLVs envelope) [] zero_parameters) (\<lambda>(seen, p).
       if \<exists>required \<in> set (map of_nat [1..<8]). required \<notin> set seen then Inl ErrInvalidExtension
       else case parameters_validate p of Some e \<Rightarrow> Inl e | None \<Rightarrow> Inr p))"

definition ValidateExtensionAccept :: "ExtensionParameters \<Rightarrow> ExtensionParameters \<Rightarrow> protocol_error option" where
  "ValidateExtensionAccept offer accept =
     (case parameters_validate offer of
        Some e \<Rightarrow> Some e
      | None \<Rightarrow>
        (case parameters_validate accept of
           Some e \<Rightarrow> Some e
         | None \<Rightarrow>
           if Capabilities accept AND NOT (Capabilities offer) \<noteq> 0
              \<or> MaxUDPAssociations accept > MaxUDPAssociations offer
              \<or> MaxUDPPayload accept > MaxUDPPayload offer
              \<or> UDPIdleTimeoutMS accept > UDPIdleTimeoutMS offer
              \<or> MaxSessionReceiveBytes accept > MaxSessionReceiveBytes offer
              \<or> MaxStreamWindowBytes accept > MaxStreamWindowBytes offer
              \<or> UnreliableDatagramSize accept > UnreliableDatagramSize offer
           then Some ErrUnsupportedExtension
           else None))"

section \<open>Parameters survive the envelope\<close>

lemma small_tlv_types [simp]:
  "validExtensionTLVType 1" "validExtensionTLVType 2" "validExtensionTLVType 3" "validExtensionTLVType 4"
  "validExtensionTLVType 5" "validExtensionTLVType 6" "validExtensionTLVType 7" "validExtensionTLVType 9"
  by (simp_all add: validExtensionTLVType_def)

lemma tlv_Uvarint_put [simp]: "tlv_Uvarint \<lparr>tlv_Type = t, tlv_Value = put_uvarint v\<rparr> = Inr v"
  using uv.dec_exact [of v] by (simp add: tlv_Uvarint_def)

lemma BaseType_small [simp]:
  "BaseType \<lparr>tlv_Type = 1, tlv_Value = v\<rparr> = 1" "BaseType \<lparr>tlv_Type = 2, tlv_Value = v\<rparr> = 2"
  "BaseType \<lparr>tlv_Type = 3, tlv_Value = v\<rparr> = 3" "BaseType \<lparr>tlv_Type = 4, tlv_Value = v\<rparr> = 4"
  "BaseType \<lparr>tlv_Type = 5, tlv_Value = v\<rparr> = 5" "BaseType \<lparr>tlv_Type = 6, tlv_Value = v\<rparr> = 6"
  "BaseType \<lparr>tlv_Type = 7, tlv_Value = v\<rparr> = 7" "BaseType \<lparr>tlv_Type = 9, tlv_Value = v\<rparr> = 9"
  by (simp_all add: BaseType_def)

definition parameter_tlvs :: "ExtensionParameters \<Rightarrow> ExtensionTLV list" where
  "parameter_tlvs p =
     [\<lparr>tlv_Type = 1, tlv_Value = put_uint64 (Capabilities p)\<rparr>,
      \<lparr>tlv_Type = 2, tlv_Value = put_uvarint (MaxUDPAssociations p)\<rparr>,
      \<lparr>tlv_Type = 3, tlv_Value = put_uvarint (MaxUDPPayload p)\<rparr>,
      \<lparr>tlv_Type = 4, tlv_Value = put_uvarint (UDPIdleTimeoutMS p)\<rparr>,
      \<lparr>tlv_Type = 5, tlv_Value = put_uvarint (MaxSessionReceiveBytes p)\<rparr>,
      \<lparr>tlv_Type = 6, tlv_Value = put_uvarint (MaxStreamWindowBytes p)\<rparr>,
      \<lparr>tlv_Type = 7, tlv_Value = put_uvarint (UnreliableDatagramSize p)\<rparr>] @
     (if Capabilities p AND CapabilityForwardSecrecy \<noteq> 0
      then [\<lparr>tlv_Type = 9, tlv_Value = ForwardSecretKeyShare p\<rparr>] else [])"

lemma length_concat_bound: "(\<And>x. x \<in> set xs \<Longrightarrow> length (f x) \<le> k) \<Longrightarrow> length (concat (map f xs)) \<le> k * length xs"
proof (induction xs)
  case (Cons x xs)
  then have "length (f x) \<le> k" and "length (concat (map f xs)) \<le> k * length xs" by auto
  then show ?case by simp
qed simp

lemma parameter_tlvs_marshal:
  assumes "ext_type_valid t" and "mid \<noteq> 0" and "mid \<le> MaxSequence" and "length (ForwardSecretKeyShare p) = 32"
  shows "Envelope_MarshalBinary \<lparr>env_Type = t, env_MessageID = mid, env_TLVs = parameter_tlvs p\<rparr> =
         Inr (envelope_bytes \<lparr>env_Type = t, env_MessageID = mid, env_TLVs = parameter_tlvs p\<rparr>)"
proof -
  have v: "length (put_uvarint x) \<le> n" if "10 \<le> n" for x n
    using length_put_uvarint [of x] that by (rule le_trans)
  have chain: "tlv_chain 0 (parameter_tlvs p)"
    using assms(4) by (simp add: parameter_tlvs_def v)
  have "length (tlv_Value t) \<le> 32" if "t \<in> set (parameter_tlvs p)" for t
    using that assms(4) by (auto simp: parameter_tlvs_def v split: if_splits)
  then have one: "length (tlv_bytes t) \<le> 52" if "t \<in> set (parameter_tlvs p)" for t
    using that length_put_uvarint [of "tlv_Type t"] length_put_uvarint [of "of_nat (length (tlv_Value t))"]
    by (fastforce simp: tlv_bytes_def)
  have num: "length (parameter_tlvs p) \<le> 8" "parameter_tlvs p \<noteq> []" by (simp_all add: parameter_tlvs_def)
  have "length (concat (map tlv_bytes (parameter_tlvs p))) \<le> 52 * length (parameter_tlvs p)"
    using one by (rule length_concat_bound)
  then have "length (envelope_bytes \<lparr>env_Type = t, env_MessageID = mid, env_TLVs = parameter_tlvs p\<rparr>) \<le> 32768"
    using num length_put_uvarint [of mid] length_put_uvarint [of "of_nat (length (parameter_tlvs p))"]
    by (simp add: envelope_bytes_def)
  then show ?thesis
    using assms chain num by (simp add: Envelope_MarshalBinary_eq_Inr envelope_ok_def)
qed

lemma parameters_Envelope_eq:
  assumes "parameters_validate p = None" and "ext_type_valid t" and "mid \<noteq> 0" and "mid \<le> MaxSequence"
    and "length (ForwardSecretKeyShare p) = 32"
  shows "parameters_Envelope p t mid = Inr \<lparr>env_Type = t, env_MessageID = mid, env_TLVs = parameter_tlvs p\<rparr>"
  using assms(1) parameter_tlvs_marshal [OF assms(2-5)]
  by (simp add: parameters_Envelope_def NewExtensionUvarintTLV_def NewExtensionCapabilitiesTLV_def
      Let_def parameter_tlvs_def split: if_splits)

lemma validate_share:
  "parameters_validate p = None \<Longrightarrow>
   (Capabilities p AND CapabilityForwardSecrecy \<noteq> 0) = (ForwardSecretKeyShare p \<noteq> zero_bytes 32)"
  by (auto simp: parameters_validate_def validateForwardSecretParameters_def split: if_splits)

lemma parse_parameter_tlvs:
  assumes "parameters_validate p = None" and "length (ForwardSecretKeyShare p) = 32"
  shows "\<exists>seen. set (map of_nat [1..<8]) \<subseteq> set seen \<and>
           parse_parameters (parameter_tlvs p) [] zero_parameters = Inr (seen, p)"
proof -
  have cap: "tlv_Capabilities \<lparr>tlv_Type = 1, tlv_Value = put_uint64 (Capabilities p)\<rparr> = Inr (Capabilities p)"
    by (simp add: tlv_Capabilities_def be_value_be_bytes)
  have seven: "set (map of_nat [1..<8]) = {1, 2, 3, 4, 5, 6, 7 :: u64}"
    by (simp add: upt_conv_Cons eval_nat_numeral) 
  show ?thesis
    using validate_share [OF assms(1)] assms(2) unfolding seven
    by (auto simp: parameter_tlvs_def parse_parameter_def cap zero_parameters_def Let_def split: if_splits)
qed

lemma ParseExtensionParameters_Envelope:
  assumes "parameters_validate p = None" and "ext_type_valid t" and "mid \<noteq> 0" and "mid \<le> MaxSequence"
    and "length (ForwardSecretKeyShare p) = 32" and "parameters_Envelope p t mid = Inr e"
  shows "ParseExtensionParameters e = Inr p"
proof -
  have e: "e = \<lparr>env_Type = t, env_MessageID = mid, env_TLVs = parameter_tlvs p\<rparr>"
    using parameters_Envelope_eq [OF assms(1-5)] assms(6) by simp
  obtain seen where "set (map of_nat [1..<8]) \<subseteq> set seen"
    and "parse_parameters (parameter_tlvs p) [] zero_parameters = Inr (seen, p)"
    using parse_parameter_tlvs [OF assms(1,5)] by blast
  then show ?thesis using assms(1) parameter_tlvs_marshal [OF assms(2-5)]
    by (auto simp: ParseExtensionParameters_def e)
qed

lemma parse_parameter_share:
  "parse_parameter tlv p = Inr p' \<Longrightarrow> length (ForwardSecretKeyShare p) = 32 \<Longrightarrow> length (ForwardSecretKeyShare p') = 32"
  by (auto simp: parse_parameter_def Let_def split: if_splits)

lemma parse_parameters_share:
  "parse_parameters ts seen p = Inr (seen', p') \<Longrightarrow> length (ForwardSecretKeyShare p) = 32 \<Longrightarrow>
   length (ForwardSecretKeyShare p') = 32"
  by (induction ts seen p rule: parse_parameters.induct) (auto split: if_splits dest: parse_parameter_share)

lemma ParseExtensionParameters_valid:
  assumes "ParseExtensionParameters e = Inr p"
  shows "parameters_validate p = None" and "length (ForwardSecretKeyShare p) = 32"
  using assms parse_parameters_share [of "env_TLVs e" "[]" zero_parameters _ p]
  by (auto simp: ParseExtensionParameters_def zero_parameters_def split: if_splits option.splits)

section \<open>Properties\<close>

text \<open>
  C27 (roundtrip). The extension envelope has one encoding: a byte string parses to an envelope
  exactly when marshalling that envelope produces this byte string, so non-minimal varints, unsorted
  or duplicate fields, trailing bytes and oversized messages are all rejected.
\<close>

theorem envelope_codec_exact:
  "ParseExtensionEnvelope raw = Inr e \<longleftrightarrow> Envelope_MarshalBinary e = Inr raw"
  using envelope.marshal_iff_parse [of e raw] by simp

text \<open>
  C28 (roundtrip). Extension parameters survive the wire: valid parameters with a non-zero message id
  of the sequence range always have an envelope, the envelope marshals, the bytes parse back to the
  envelope and the envelope to the same parameters; and whatever parses is valid.
\<close>

theorem parameters_roundtrip:
  assumes "parameters_validate p = None" and "ext_type_valid t" and "mid \<noteq> 0" and "mid \<le> MaxSequence"
    and "length (ForwardSecretKeyShare p) = 32"
  shows "\<exists>e raw. parameters_Envelope p t mid = Inr e \<and> Envelope_MarshalBinary e = Inr raw
    \<and> ParseExtensionEnvelope raw = Inr e \<and> ParseExtensionParameters e = Inr p"
proof -
  note e = parameters_Envelope_eq [OF assms]
  note raw = parameter_tlvs_marshal [OF assms(2-5)]
  from e raw envelope.parse_marshal [OF _ raw] ParseExtensionParameters_Envelope [OF assms e] show ?thesis by blast
qed

definition sample_parameters :: ExtensionParameters where
  "sample_parameters =
     \<lparr>Capabilities = CapabilityReliableUDP OR CapabilityForwardSecrecy, MaxUDPAssociations = 16, MaxUDPPayload = 1400,
      UDPIdleTimeoutMS = 30000, MaxSessionReceiveBytes = 0x100000, MaxStreamWindowBytes = 0x10000,
      UnreliableDatagramSize = 0, ForwardSecretKeyShare = replicate 32 5\<rparr>"

theorem parameters_roundtrip_witness:
  "\<exists>e raw. parameters_Envelope sample_parameters ExtensionOffer 9 = Inr e \<and> Envelope_MarshalBinary e = Inr raw
    \<and> ParseExtensionEnvelope raw = Inr e \<and> ParseExtensionParameters e = Inr sample_parameters"
  by (rule parameters_roundtrip)
     (simp_all add: sample_parameters_def parameters_validate_def validateForwardSecretParameters_def ext_type_valid_def)

end
