(* ===== verification/NP_Continuity_Codec.thy ===== *)
theory NP_Continuity_Codec
  imports NP_Extension
begin

text \<open>
  The messages of the continuity layer and their codecs: \<open>internal/protocol/continuity.go\<close> (lease
  and flow frames), \<open>internal/protocol/continuity_open.go\<close> (the metadata of a resumable OPEN) and
  \<open>internal/protocol/device.go\<close> (the textual form of a device identity). Both binary codecs are
  interpretations of \<open>message_codec\<close>: a frame has exactly one accepted encoding.
\<close>

section \<open>Continuity frames\<close>

abbreviation ContinuityEnvelopeVersion :: byte where "ContinuityEnvelopeVersion \<equiv> 1"
abbreviation MinContinuityTokenSize :: nat where "MinContinuityTokenSize \<equiv> 32"
abbreviation MaxContinuityTokenSize :: nat where "MaxContinuityTokenSize \<equiv> 512"

abbreviation ContinuityLeaseIssue :: byte where "ContinuityLeaseIssue \<equiv> 1"
abbreviation ContinuityLeaseAttach :: byte where "ContinuityLeaseAttach \<equiv> 2"
abbreviation ContinuityLeaseAccept :: byte where "ContinuityLeaseAccept \<equiv> 3"
abbreviation ContinuityFlowResume :: byte where "ContinuityFlowResume \<equiv> 4"
abbreviation ContinuityFlowAck :: byte where "ContinuityFlowAck \<equiv> 5"
abbreviation ContinuityFlowAbort :: byte where "ContinuityFlowAbort \<equiv> 6"
abbreviation ContinuityConstellationCreate :: byte where "ContinuityConstellationCreate \<equiv> 7"

definition cont_type_valid :: "byte \<Rightarrow> bool" where
  "cont_type_valid t \<longleftrightarrow> t \<ge> ContinuityLeaseIssue \<and> t \<le> ContinuityConstellationCreate"

definition cont_type_String :: "byte \<Rightarrow> string" where
  "cont_type_String t =
     (if t = ContinuityLeaseIssue then ''lease_issue''
      else if t = ContinuityLeaseAttach then ''lease_attach''
      else if t = ContinuityLeaseAccept then ''lease_accept''
      else if t = ContinuityFlowResume then ''flow_resume''
      else if t = ContinuityFlowAck then ''flow_ack''
      else if t = ContinuityFlowAbort then ''flow_abort''
      else if t = ContinuityConstellationCreate then ''constellation_create''
      else ''invalid'')"

definition continuityMagic :: bytes where
  "continuityMagic = str ''NPCT''"

type_synonym ContinuityID = bytes

abbreviation zero_id :: ContinuityID where "zero_id \<equiv> zero_bytes 16"

record ContinuityFrame =
  cf_Type :: byte
  cf_MessageID :: u64
  cf_ConstellationID :: ContinuityID
  cf_FlowID :: ContinuityID
  cf_SendOffset :: u64
  cf_ReceiveOffset :: u64
  cf_Token :: bytes

definition frame_validate :: "ContinuityFrame \<Rightarrow> protocol_error option" where
  "frame_validate f =
     (if \<not> cont_type_valid (cf_Type f) \<or> cf_MessageID f = 0 \<or> cf_MessageID f > MaxSequence
         \<or> cf_ConstellationID f = zero_id \<or> cf_SendOffset f > MaxSequence \<or> cf_ReceiveOffset f > MaxSequence
      then Some ErrInvalidContinuity
      else if cf_Type f \<in> {ContinuityLeaseIssue, ContinuityLeaseAttach, ContinuityLeaseAccept}
      then if cf_FlowID f \<noteq> zero_id \<or> cf_SendOffset f \<noteq> 0 \<or> cf_ReceiveOffset f \<noteq> 0
              \<or> length (cf_Token f) < MinContinuityTokenSize \<or> length (cf_Token f) > MaxContinuityTokenSize
           then Some ErrInvalidContinuity else None
      else if cf_Type f \<in> {ContinuityFlowResume, ContinuityFlowAck}
      then if cf_FlowID f = zero_id \<or> length (cf_Token f) \<noteq> 0 then Some ErrInvalidContinuity else None
      else if cf_Type f = ContinuityFlowAbort
      then if cf_FlowID f = zero_id \<or> cf_SendOffset f \<noteq> 0 \<or> cf_ReceiveOffset f \<noteq> 0 \<or> length (cf_Token f) \<noteq> 0
           then Some ErrInvalidContinuity else None
      else if cf_Type f = ContinuityConstellationCreate
      then if cf_FlowID f \<noteq> zero_id \<or> cf_SendOffset f \<noteq> 0 \<or> cf_ReceiveOffset f \<noteq> 0 \<or> length (cf_Token f) \<noteq> 0
           then Some ErrInvalidContinuity else None
      else Some ErrInvalidContinuity)"

definition Frame_MarshalBinary :: "ContinuityFrame \<Rightarrow> protocol_error + bytes" where
  "Frame_MarshalBinary f =
     (case frame_validate f of
        Some e \<Rightarrow> Inl e
      | None \<Rightarrow> Inr (continuityMagic @ [ContinuityEnvelopeVersion, cf_Type f] @ put_uvarint (cf_MessageID f)
                     @ cf_ConstellationID f @ cf_FlowID f @ put_uvarint (cf_SendOffset f)
                     @ put_uvarint (cf_ReceiveOffset f) @ put_len (cf_Token f) @ cf_Token f))"

definition readContinuityUvarint :: "bytes \<Rightarrow> protocol_error + u64 \<times> nat" where
  "readContinuityUvarint raw = or_else (readCanonicalUvarint raw) ErrInvalidContinuity"

definition ParseContinuityFrame :: "bytes \<Rightarrow> protocol_error + ContinuityFrame" where
  "ParseContinuityFrame raw =
     (let fixedFields = 4 + 1 + 1 + 16 + 16 in
      if length raw < fixedFields + 4 \<or> take 4 raw \<noteq> continuityMagic \<or> raw ! 4 \<noteq> ContinuityEnvelopeVersion
      then Inl ErrInvalidContinuity
      else
        let messageType = raw ! 5; c0 = 6 in
        res_bind (readContinuityUvarint (drop c0 raw)) (\<lambda>(messageID, n1).
        let c1 = c0 + n1 in
        if length raw - c1 < 32 then Inl ErrInvalidContinuity
        else
          let constellationID = take 16 (drop c1 raw); c2 = c1 + 16;
              flowID = take 16 (drop c2 raw); c3 = c2 + 16 in
          res_bind (readContinuityUvarint (drop c3 raw)) (\<lambda>(sendOffset, n2).
          let c4 = c3 + n2 in
          res_bind (readContinuityUvarint (drop c4 raw)) (\<lambda>(receiveOffset, n3).
          let c5 = c4 + n3 in
          res_bind (readContinuityUvarint (drop c5 raw)) (\<lambda>(tokenLength, n4).
          if tokenLength > of_nat MaxContinuityTokenSize then Inl ErrInvalidContinuity
          else let c6 = c5 + n4 in
          if tokenLength \<noteq> of_nat (length raw - c6) then Inl ErrInvalidContinuity
          else
            let frame = \<lparr>cf_Type = messageType, cf_MessageID = messageID,
                         cf_ConstellationID = constellationID, cf_FlowID = flowID,
                         cf_SendOffset = sendOffset, cf_ReceiveOffset = receiveOffset,
                         cf_Token = drop c6 raw\<rparr>
            in case frame_validate frame of Some e \<Rightarrow> Inl e | None \<Rightarrow> Inr frame)))))"

definition NewContinuityTLV :: "ContinuityFrame \<Rightarrow> protocol_error + ExtensionTLV" where
  "NewContinuityTLV f =
     res_bind (Frame_MarshalBinary f) (\<lambda>raw. Inr \<lparr>tlv_Type = ExtensionTLVContinuity, tlv_Value = raw\<rparr>)"

definition ParseContinuityTLV :: "ExtensionTLV \<Rightarrow> protocol_error + ContinuityFrame" where
  "ParseContinuityTLV tlv =
     (if tlv_Type tlv \<noteq> ExtensionTLVContinuity then Inl ErrInvalidContinuity
      else ParseContinuityFrame (tlv_Value tlv))"

definition wf_frame :: "ContinuityFrame \<Rightarrow> bool" where
  "wf_frame f \<longleftrightarrow> length (cf_ConstellationID f) = 16 \<and> length (cf_FlowID f) = 16"

definition frame_bytes :: "ContinuityFrame \<Rightarrow> bytes" where
  "frame_bytes f =
     continuityMagic @ [ContinuityEnvelopeVersion, cf_Type f] @ put_uvarint (cf_MessageID f)
     @ cf_ConstellationID f @ cf_FlowID f @ put_uvarint (cf_SendOffset f)
     @ put_uvarint (cf_ReceiveOffset f) @ put_len (cf_Token f) @ cf_Token f"

lemma Frame_MarshalBinary_eq_Inr:
  "Frame_MarshalBinary f = Inr raw \<longleftrightarrow> frame_validate f = None \<and> raw = frame_bytes f"
  by (auto simp: Frame_MarshalBinary_def frame_bytes_def split: option.splits)

lemma length_continuityMagic [simp]: "length continuityMagic = 4"
  by (simp add: continuityMagic_def)

lemma frame_validate_token: "frame_validate f = None \<Longrightarrow> length (cf_Token f) \<le> MaxContinuityTokenSize"
  by (auto simp: frame_validate_def split: if_splits)

lemma readContinuityUvarint_put [simp]:
  "readContinuityUvarint (put_uvarint x @ rest) = Inr (x, length (put_uvarint x))"
  by (simp add: readContinuityUvarint_def)

lemma readContinuityUvarint_eq_Inr [simp]:
  "readContinuityUvarint raw = Inr r \<longleftrightarrow> readCanonicalUvarint raw = Inr r"
  by (simp add: readContinuityUvarint_def)

lemma ParseContinuityFrame_Marshal:
  assumes wf: "wf_frame f" and enc: "Frame_MarshalBinary f = Inr raw"
  shows "ParseContinuityFrame raw = Inr f"
proof -
  from enc have v: "frame_validate f = None" and raw: "raw = frame_bytes f"
    by (auto simp: Frame_MarshalBinary_eq_Inr)
  let ?n1 = "length (put_uvarint (cf_MessageID f))" and ?n2 = "length (put_uvarint (cf_SendOffset f))"
  let ?n3 = "length (put_uvarint (cf_ReceiveOffset f))" and ?n4 = "length (put_len (cf_Token f))"
  let ?tail = "put_uvarint (cf_SendOffset f) @ put_uvarint (cf_ReceiveOffset f) @ put_len (cf_Token f) @ cf_Token f"
  note w = wf [unfolded wf_frame_def]
  have d0: "drop 6 raw = put_uvarint (cf_MessageID f) @ cf_ConstellationID f @ cf_FlowID f @ ?tail"
    by (simp add: raw frame_bytes_def numeral_eq_Suc)
  then have d1: "drop (6 + ?n1) raw = cf_ConstellationID f @ cf_FlowID f @ ?tail" by (rule drop_prefix)
  have d2: "drop (6 + ?n1 + 16) raw = cf_FlowID f @ ?tail" using drop_prefix [OF d1] w by simp
  have d3: "drop (6 + ?n1 + 16 + 16) raw = ?tail" using drop_prefix [OF d2] w by simp
  have d4: "drop (6 + ?n1 + 16 + 16 + ?n2) raw = put_uvarint (cf_ReceiveOffset f) @ put_len (cf_Token f) @ cf_Token f"
    using d3 by (rule drop_prefix)
  then have d5: "drop (6 + ?n1 + 16 + 16 + ?n2 + ?n3) raw = put_len (cf_Token f) @ cf_Token f"
    by (rule drop_prefix)
  then have d6: "drop (6 + ?n1 + 16 + 16 + ?n2 + ?n3 + ?n4) raw = cf_Token f" by (rule drop_prefix)
  have fixed: "take 4 raw = continuityMagic" "raw ! 4 = ContinuityEnvelopeVersion" "raw ! 5 = cf_Type f"
    by (simp_all add: raw frame_bytes_def nth_append)
  have len: "length raw = 6 + ?n1 + 16 + 16 + ?n2 + ?n3 + ?n4 + length (cf_Token f)"
    using w by (simp add: raw frame_bytes_def)
  have min: "\<not> length raw < 4 + 1 + 1 + 16 + 16 + 4" "\<not> length raw - (6 + ?n1) < 32"
    using len length_put_uvarint_pos [of "cf_MessageID f"] length_put_uvarint_pos [of "cf_SendOffset f"]
      length_put_uvarint_pos [of "cf_ReceiveOffset f"] length_put_uvarint_pos [of "of_nat (length (cf_Token f))"]
    by simp_all
  have "unat (of_nat (length (cf_Token f)) :: u64) = length (cf_Token f)"
    using frame_validate_token [OF v] by (intro unat_of_nat_small) simp
  then have tok: "\<not> (of_nat (length (cf_Token f)) :: u64) > of_nat MaxContinuityTokenSize"
    using frame_validate_token [OF v] by (simp add: word_less_nat_alt)
  have rest: "length raw - (6 + ?n1 + 16 + 16 + ?n2 + ?n3 + ?n4) = length (cf_Token f)" using len by simp
  have ids: "take 16 (cf_ConstellationID f @ xs) = cf_ConstellationID f" "take 16 (cf_FlowID f @ xs) = cf_FlowID f" for xs
    using w by simp_all
  have eta: "\<lparr>cf_Type = cf_Type f, cf_MessageID = cf_MessageID f, cf_ConstellationID = cf_ConstellationID f,
     cf_FlowID = cf_FlowID f, cf_SendOffset = cf_SendOffset f, cf_ReceiveOffset = cf_ReceiveOffset f,
     cf_Token = cf_Token f\<rparr> = f" by simp
  show ?thesis
    unfolding ParseContinuityFrame_def Let_def
    by (simp only: fixed min d0 d1 d2 d3 d4 d5 d6 readContinuityUvarint_put res_bind_simps prod.case tok rest
        ids eta v option.case if_False simp_thms)
qed

lemma Marshal_ParseContinuityFrame:
  assumes "ParseContinuityFrame raw = Inr f"
  shows "wf_frame f \<and> Frame_MarshalBinary f = Inr raw"
proof -
  from assms obtain n1 n2 n3 tl n4 where
    min: "42 \<le> length raw"
    and fixed: "take 4 raw = continuityMagic" "raw ! 4 = ContinuityEnvelopeVersion" "raw ! 5 = cf_Type f"
    and r1: "readCanonicalUvarint (drop 6 raw) = Inr (cf_MessageID f, n1)"
    and ids_len: "32 \<le> length raw - (6 + n1)"
    and cid: "cf_ConstellationID f = take 16 (drop (6 + n1) raw)"
    and fid: "cf_FlowID f = take 16 (drop (6 + n1 + 16) raw)"
    and r2: "readCanonicalUvarint (drop (6 + n1 + 16 + 16) raw) = Inr (cf_SendOffset f, n2)"
    and r3: "readCanonicalUvarint (drop (6 + n1 + 16 + 16 + n2) raw) = Inr (cf_ReceiveOffset f, n3)"
    and r4: "readCanonicalUvarint (drop (6 + n1 + 16 + 16 + n2 + n3) raw) = Inr (tl, n4)"
    and tok: "tl = of_nat (length raw - (6 + n1 + 16 + 16 + n2 + n3 + n4))"
    and token: "cf_Token f = drop (6 + n1 + 16 + 16 + n2 + n3 + n4) raw"
    and v: "frame_validate f = None"
    unfolding ParseContinuityFrame_def Let_def
    by (auto simp: not_less split: if_splits option.splits)
  have wf: "wf_frame f" using ids_len by (simp add: wf_frame_def cid fid)
  have tl: "of_nat (length (cf_Token f)) = tl" by (simp add: token tok)
  have "drop 6 raw = put_uvarint (cf_MessageID f) @ cf_ConstellationID f @ cf_FlowID f
      @ put_uvarint (cf_SendOffset f) @ put_uvarint (cf_ReceiveOffset f) @ put_len (cf_Token f) @ cf_Token f"
    unfolding tl cid fid
    using read_at_cursor(1) [OF r1] drop_split [of "6 + n1" raw 16] drop_split [of "6 + n1 + 16" raw 16]
      read_at_cursor(1) [OF r2] read_at_cursor(1) [OF r3] read_at_cursor(1) [OF r4] token
    by (metis append.assoc)
  then have "raw = frame_bytes f"
    using header_split [of raw] min fixed by (simp add: frame_bytes_def)
  with wf v show ?thesis by (simp add: Frame_MarshalBinary_eq_Inr)
qed

interpretation frame: message_codec wf_frame Frame_MarshalBinary ParseContinuityFrame
  by unfold_locales (fact ParseContinuityFrame_Marshal, fact Marshal_ParseContinuityFrame)

lemma ParseContinuityTLV_New:
  assumes "wf_frame f" and "NewContinuityTLV f = Inr tlv"
  shows "ParseContinuityTLV tlv = Inr f"
  using assms by (auto simp: NewContinuityTLV_def ParseContinuityTLV_def intro: frame.parse_marshal)

section \<open>The metadata of a resumable OPEN\<close>

abbreviation ContinuityOpenVersion :: byte where "ContinuityOpenVersion \<equiv> 1"
abbreviation MaxContinuityOpenMetadata :: nat where "MaxContinuityOpenMetadata \<equiv> 1024"
abbreviation ContinuityOpenNew :: byte where "ContinuityOpenNew \<equiv> 1"
abbreviation ContinuityOpenResume :: byte where "ContinuityOpenResume \<equiv> 2"

definition continuityOpenMagic :: bytes where
  "continuityOpenMagic = str ''NPCO''"

record ContinuityOpenMetadata =
  om_Mode :: byte
  om_ConstellationID :: ContinuityID
  om_FlowID :: ContinuityID
  om_LeaseKey :: ContinuityID
  om_Epoch :: u64
  om_SendOffset :: u64
  om_ReceiveOffset :: u64
  om_Inner :: bytes

definition open_validate :: "ContinuityOpenMetadata \<Rightarrow> protocol_error option" where
  "open_validate m =
     (if om_ConstellationID m = zero_id \<or> om_FlowID m = zero_id \<or> om_LeaseKey m = zero_id
         \<or> om_Epoch m = 0 \<or> om_Epoch m > MaxSequence \<or> om_SendOffset m > MaxSequence
         \<or> om_ReceiveOffset m > MaxSequence
      then Some ErrInvalidContinuityOpen
      else if om_Mode m = ContinuityOpenNew
      then if om_Epoch m \<noteq> 1 \<or> om_SendOffset m \<noteq> 0 \<or> om_ReceiveOffset m \<noteq> 0 \<or> length (om_Inner m) = 0
           then Some ErrInvalidContinuityOpen else None
      else if om_Mode m = ContinuityOpenResume
      then if om_Epoch m < 2 \<or> length (om_Inner m) \<noteq> 0 then Some ErrInvalidContinuityOpen else None
      else Some ErrInvalidContinuityOpen)"

definition Open_MarshalBinary :: "ContinuityOpenMetadata \<Rightarrow> protocol_error + bytes" where
  "Open_MarshalBinary m =
     (case open_validate m of
        Some e \<Rightarrow> Inl e
      | None \<Rightarrow>
        let raw = continuityOpenMagic @ [ContinuityOpenVersion, om_Mode m] @ om_ConstellationID m
                  @ om_FlowID m @ om_LeaseKey m @ put_uvarint (om_Epoch m) @ put_uvarint (om_SendOffset m)
                  @ put_uvarint (om_ReceiveOffset m) @ put_len (om_Inner m) @ om_Inner m
        in if length raw > MaxContinuityOpenMetadata then Inl ErrInvalidContinuityOpen else Inr raw)"

text \<open>The loop over the three destinations \<open>Epoch\<close>, \<open>SendOffset\<close>, \<open>ReceiveOffset\<close>.\<close>

fun read_values :: "nat \<Rightarrow> nat \<Rightarrow> bytes \<Rightarrow> protocol_error + u64 list \<times> nat" where
  "read_values 0 cursor raw = Inr ([], cursor)"
| "read_values (Suc n) cursor raw =
     (case readCanonicalUvarint (drop cursor raw) of
        Inl _ \<Rightarrow> Inl ErrInvalidContinuityOpen
      | Inr (value, consumed) \<Rightarrow>
          res_bind (read_values n (cursor + consumed) raw) (\<lambda>(values, c). Inr (value # values, c)))"

definition ParseContinuityOpenMetadata :: "bytes \<Rightarrow> protocol_error + ContinuityOpenMetadata" where
  "ParseContinuityOpenMetadata raw =
     (let fixedLength = 4 + 1 + 1 + 16 + 16 + 16 in
      if length raw < fixedLength + 4 \<or> length raw > MaxContinuityOpenMetadata
         \<or> take 4 raw \<noteq> continuityOpenMagic \<or> raw ! 4 \<noteq> ContinuityOpenVersion
      then Inl ErrInvalidContinuityOpen
      else
        let c0 = 6; c1 = c0 + 16; c2 = c1 + 16; c3 = c2 + 16 in
        res_bind (read_values 3 c3 raw) (\<lambda>(values, c4).
        case readCanonicalUvarint (drop c4 raw) of
          Inl _ \<Rightarrow> Inl ErrInvalidContinuityOpen
        | Inr (innerLength, consumed) \<Rightarrow>
            let c5 = c4 + consumed in
            if innerLength \<noteq> of_nat (length raw - c5) then Inl ErrInvalidContinuityOpen
            else
              let m = \<lparr>om_Mode = raw ! 5, om_ConstellationID = take 16 (drop c0 raw),
                       om_FlowID = take 16 (drop c1 raw), om_LeaseKey = take 16 (drop c2 raw),
                       om_Epoch = values ! 0, om_SendOffset = values ! 1, om_ReceiveOffset = values ! 2,
                       om_Inner = drop c5 raw\<rparr>
              in case open_validate m of Some e \<Rightarrow> Inl e | None \<Rightarrow> Inr m))"

definition IsContinuityOpenMetadata :: "bytes \<Rightarrow> bool" where
  "IsContinuityOpenMetadata raw \<longleftrightarrow> length raw \<ge> 4 \<and> take 4 raw = continuityOpenMagic"

definition wf_open :: "ContinuityOpenMetadata \<Rightarrow> bool" where
  "wf_open m \<longleftrightarrow> length (om_ConstellationID m) = 16 \<and> length (om_FlowID m) = 16 \<and> length (om_LeaseKey m) = 16"

definition open_bytes :: "ContinuityOpenMetadata \<Rightarrow> bytes" where
  "open_bytes m =
     continuityOpenMagic @ [ContinuityOpenVersion, om_Mode m] @ om_ConstellationID m
     @ om_FlowID m @ om_LeaseKey m @ put_uvarint (om_Epoch m) @ put_uvarint (om_SendOffset m)
     @ put_uvarint (om_ReceiveOffset m) @ put_len (om_Inner m) @ om_Inner m"

lemma Open_MarshalBinary_eq_Inr:
  "Open_MarshalBinary m = Inr raw \<longleftrightarrow>
     open_validate m = None \<and> raw = open_bytes m \<and> length raw \<le> MaxContinuityOpenMetadata"
  by (auto simp: Open_MarshalBinary_def open_bytes_def Let_def not_less split: option.splits)

lemma length_continuityOpenMagic [simp]: "length continuityOpenMagic = 4"
  by (simp add: continuityOpenMagic_def)

lemma read_values_complete:
  "drop c raw = concat (map put_uvarint vs) @ rest \<Longrightarrow>
   read_values (length vs) c raw = Inr (vs, c + length (concat (map put_uvarint vs)))"
proof (induction vs arbitrary: c)
  case Nil
  then show ?case by simp
next
  case (Cons v vs)
  from Cons.prems have d: "drop c raw = put_uvarint v @ concat (map put_uvarint vs) @ rest" by simp
  then have "drop (c + length (put_uvarint v)) raw = concat (map put_uvarint vs) @ rest" by (rule drop_prefix)
  from Cons.IH [OF this] d show ?case by (simp add: add.assoc)
qed

lemma read_values_sound:
  "read_values n c raw = Inr (vs, c') \<Longrightarrow>
   length vs = n \<and> drop c raw = concat (map put_uvarint vs) @ drop c' raw"
proof (induction n arbitrary: c vs)
  case 0
  then show ?case by simp
next
  case (Suc n)
  then obtain v k vs' where r: "readCanonicalUvarint (drop c raw) = Inr (v, k)"
    and rest: "read_values n (c + k) raw = Inr (vs', c')" and vs: "vs = v # vs'"
    by (auto split: sum.splits)
  from Suc.IH [OF rest] read_at_cursor(1) [OF r] show ?case by (simp add: vs)
qed

abbreviation open_values :: "ContinuityOpenMetadata \<Rightarrow> u64 list" where
  "open_values m \<equiv> [om_Epoch m, om_SendOffset m, om_ReceiveOffset m]"

lemma open_bytes_tail:
  "open_bytes m = continuityOpenMagic @ [ContinuityOpenVersion, om_Mode m] @ om_ConstellationID m
     @ om_FlowID m @ om_LeaseKey m @ concat (map put_uvarint (open_values m)) @ put_len (om_Inner m) @ om_Inner m"
  by (simp add: open_bytes_def)

lemma ParseContinuityOpenMetadata_Marshal:
  assumes wf: "wf_open m" and enc: "Open_MarshalBinary m = Inr raw"
  shows "ParseContinuityOpenMetadata raw = Inr m"
proof -
  from enc have v: "open_validate m = None" and raw: "raw = open_bytes m"
    and max: "\<not> MaxContinuityOpenMetadata < length raw"
    by (auto simp: Open_MarshalBinary_eq_Inr)
  note w = wf [unfolded wf_open_def]
  let ?vs = "concat (map put_uvarint (open_values m))" and ?n = "length (put_len (om_Inner m))"
  let ?tail = "?vs @ put_len (om_Inner m) @ om_Inner m"
  have d0: "drop 6 raw = om_ConstellationID m @ om_FlowID m @ om_LeaseKey m @ ?tail"
    unfolding raw open_bytes_tail by (simp add: numeral_eq_Suc)
  have d1: "drop (6 + 16) raw = om_FlowID m @ om_LeaseKey m @ ?tail" using drop_prefix [OF d0] w by simp
  have d2: "drop (6 + 16 + 16) raw = om_LeaseKey m @ ?tail" using drop_prefix [OF d1] w by simp
  have d3: "drop (6 + 16 + 16 + 16) raw = ?tail" using drop_prefix [OF d2] w by simp
  then have d4: "drop (6 + 16 + 16 + 16 + length ?vs) raw = put_len (om_Inner m) @ om_Inner m" by (rule drop_prefix)
  then have d5: "drop (6 + 16 + 16 + 16 + length ?vs + ?n) raw = om_Inner m" by (rule drop_prefix)
  have vals: "read_values 3 (6 + 16 + 16 + 16) raw = Inr (open_values m, 6 + 16 + 16 + 16 + length ?vs)"
    using read_values_complete [OF d3] by (simp add: numeral_3_eq_3)
  have fixed: "take 4 raw = continuityOpenMagic" "raw ! 4 = ContinuityOpenVersion" "raw ! 5 = om_Mode m"
    by (simp_all add: raw open_bytes_def nth_append)
  have len: "length raw = 6 + 16 + 16 + 16 + length ?vs + ?n + length (om_Inner m)"
    using w unfolding raw open_bytes_tail by simp
  have min: "\<not> length raw < 4 + 1 + 1 + 16 + 16 + 16 + 4"
    using len length_put_uvarint_pos [of "om_Epoch m"] length_put_uvarint_pos [of "om_SendOffset m"]
      length_put_uvarint_pos [of "om_ReceiveOffset m"] length_put_uvarint_pos [of "of_nat (length (om_Inner m))"]
    by simp
  have rest: "length raw - (6 + 16 + 16 + 16 + length ?vs + ?n) = length (om_Inner m)" using len by simp
  have ids: "take 16 (om_ConstellationID m @ xs) = om_ConstellationID m" "take 16 (om_FlowID m @ xs) = om_FlowID m"
    "take 16 (om_LeaseKey m @ xs) = om_LeaseKey m" for xs
    using w by simp_all
  have idx: "open_values m ! 0 = om_Epoch m" "open_values m ! 1 = om_SendOffset m" "open_values m ! 2 = om_ReceiveOffset m"
    by simp_all
  have eta: "\<lparr>om_Mode = om_Mode m, om_ConstellationID = om_ConstellationID m, om_FlowID = om_FlowID m,
     om_LeaseKey = om_LeaseKey m, om_Epoch = om_Epoch m, om_SendOffset = om_SendOffset m,
     om_ReceiveOffset = om_ReceiveOffset m, om_Inner = om_Inner m\<rparr> = m" by simp
  show ?thesis
    unfolding ParseContinuityOpenMetadata_def Let_def
    by (simp only: fixed min max d0 d1 d2 d4 d5 vals readCanonicalUvarint_put res_bind_simps sum.case prod.case
        rest ids idx eta v option.case if_False simp_thms)
qed

lemma Marshal_ParseContinuityOpenMetadata:
  assumes "ParseContinuityOpenMetadata raw = Inr m"
  shows "wf_open m \<and> Open_MarshalBinary m = Inr raw"
proof -
  from assms obtain vs c where vals: "read_values 3 54 raw = Inr (vs, c)"
    unfolding ParseContinuityOpenMetadata_def Let_def
    by (cases "read_values 3 54 raw") (auto split: if_split_asm)
  from assms obtain tl n where r: "readCanonicalUvarint (drop c raw) = Inr (tl, n)"
    unfolding ParseContinuityOpenMetadata_def Let_def
    by (cases "readCanonicalUvarint (drop c raw)") (auto simp: vals split: if_split_asm)
  from assms have
    min: "58 \<le> length raw" and max: "length raw \<le> MaxContinuityOpenMetadata"
    and fixed: "take 4 raw = continuityOpenMagic" "raw ! 4 = ContinuityOpenVersion" "raw ! 5 = om_Mode m"
    and ids: "om_ConstellationID m = take 16 (drop 6 raw)" "om_FlowID m = take 16 (drop 22 raw)"
      "om_LeaseKey m = take 16 (drop 38 raw)"
    and fields: "om_Epoch m = vs ! 0" "om_SendOffset m = vs ! 1" "om_ReceiveOffset m = vs ! 2"
    and tl: "tl = of_nat (length raw - (c + n))" and inner: "om_Inner m = drop (c + n) raw"
    and v: "open_validate m = None"
    unfolding ParseContinuityOpenMetadata_def Let_def
    by (auto simp: vals r not_less split: if_split_asm option.split_asm)
  have wf: "wf_open m" using min by (simp add: wf_open_def ids)
  from read_values_sound [OF vals] have "length vs = 3"
    and d: "drop 54 raw = concat (map put_uvarint vs) @ drop c raw" by simp_all
  then have vs: "vs = open_values m" by (simp add: fields numeral_3_eq_3 length_Suc_conv) auto
  have "of_nat (length (om_Inner m)) = tl" by (simp add: inner tl)
  then have "drop c raw = put_len (om_Inner m) @ om_Inner m" using read_at_cursor(1) [OF r] inner by simp
  then have "drop 6 raw = om_ConstellationID m @ om_FlowID m @ om_LeaseKey m
      @ concat (map put_uvarint (open_values m)) @ put_len (om_Inner m) @ om_Inner m"
    using drop_split [of 6 raw 16] drop_split [of 22 raw 16] drop_split [of 38 raw 16] d by (simp add: ids vs)
  then have "raw = open_bytes m"
    using header_split [of raw] min fixed unfolding open_bytes_tail by simp
  with wf v max show ?thesis by (simp add: Open_MarshalBinary_eq_Inr)
qed

interpretation open_codec: message_codec wf_open Open_MarshalBinary ParseContinuityOpenMetadata
  by unfold_locales (fact ParseContinuityOpenMetadata_Marshal, fact Marshal_ParseContinuityOpenMetadata)

lemma ParseContinuityOpenMetadata_recognised:
  "ParseContinuityOpenMetadata raw = Inr m \<Longrightarrow> IsContinuityOpenMetadata raw"
  by (auto simp: ParseContinuityOpenMetadata_def IsContinuityOpenMetadata_def Let_def split: if_splits)

section \<open>Properties\<close>

text \<open>
  C29 (roundtrip). Continuity frames have one encoding: a byte string parses to a frame exactly when
  the frame's two identifiers are 16-byte arrays and marshalling it gives that byte string; the same
  holds for the metadata of a resumable OPEN.
\<close>

theorem continuity_codecs_exact:
  "(ParseContinuityFrame raw = Inr f \<longleftrightarrow> wf_frame f \<and> Frame_MarshalBinary f = Inr raw)
   \<and> (ParseContinuityOpenMetadata raw = Inr m \<longleftrightarrow> wf_open m \<and> Open_MarshalBinary m = Inr raw)"
  using frame.marshal_iff_parse [of f raw] open_codec.marshal_iff_parse [of m raw] by blast

end
