(* ===== verification/NP_Device.thy ===== *)
theory NP_Device
  imports NP_Cell
begin

text \<open>
  The per-installation device identity (\<open>internal/protocol/device.go\<close>): a 16-byte array whose text
  form is the UUID-shaped hexadecimal string. \<open>hex.Encode\<close> writes lower-case digits and
  \<open>hex.Decode\<close> reads both cases.
\<close>

type_synonym DeviceID = bytes

definition DeviceID_IsZero :: "DeviceID \<Rightarrow> bool" where
  "DeviceID_IsZero d \<longleftrightarrow> d = zero_bytes 16"

section \<open>Hexadecimal text\<close>

definition hex_digit :: "byte \<Rightarrow> byte" where
  "hex_digit n = (if n < 10 then 48 + n else 87 + n)"

definition from_hex :: "byte \<Rightarrow> byte option" where
  "from_hex c =
     (if 48 \<le> c \<and> c \<le> 57 then Some (c - 48)
      else if 97 \<le> c \<and> c \<le> 102 then Some (c - 87)
      else if 65 \<le> c \<and> c \<le> 70 then Some (c - 55)
      else None)"

definition lower_hex :: "byte \<Rightarrow> byte" where
  "lower_hex c = (if 65 \<le> c \<and> c \<le> 70 then c + 32 else c)"

fun hex_encode :: "bytes \<Rightarrow> bytes" where
  "hex_encode [] = []"
| "hex_encode (b # bs) = hex_digit (b div 16) # hex_digit (b mod 16) # hex_encode bs"

fun hex_decode :: "bytes \<Rightarrow> bytes option" where
  "hex_decode [] = Some []"
| "hex_decode [_] = None"
| "hex_decode (h # l # cs) =
     (case from_hex h of None \<Rightarrow> None
      | Some a \<Rightarrow> (case from_hex l of None \<Rightarrow> None
        | Some b \<Rightarrow> map_option (\<lambda>bs. (a * 16 + b) # bs) (hex_decode cs)))"

definition DeviceID_MarshalText :: "DeviceID \<Rightarrow> protocol_error + bytes" where
  "DeviceID_MarshalText d =
     (if DeviceID_IsZero d then Inl ErrInvalidConfig
      else Inr (hex_encode (take 4 d) @ [45] @ hex_encode (take 2 (drop 4 d)) @ [45]
                @ hex_encode (take 2 (drop 6 d)) @ [45] @ hex_encode (take 2 (drop 8 d)) @ [45]
                @ hex_encode (take 6 (drop 10 d))))"

definition DeviceID_UnmarshalText :: "bytes \<Rightarrow> protocol_error + DeviceID" where
  "DeviceID_UnmarshalText raw =
     (if length raw \<noteq> 36 \<or> raw ! 8 \<noteq> 45 \<or> raw ! 13 \<noteq> 45 \<or> raw ! 18 \<noteq> 45 \<or> raw ! 23 \<noteq> 45
      then Inl ErrInvalidConfig
      else
        let compact = take 8 raw @ take 4 (drop 9 raw) @ take 4 (drop 14 raw)
                      @ take 4 (drop 19 raw) @ take 12 (drop 24 raw)
        in case hex_decode compact of
             None \<Rightarrow> Inl ErrInvalidConfig
           | Some parsed \<Rightarrow> if DeviceID_IsZero parsed then Inl ErrInvalidConfig else Inr parsed)"

lemma length_hex_encode [simp]: "length (hex_encode bs) = 2 * length bs"
  by (induction bs) simp_all

lemma hex_encode_append: "hex_encode (xs @ ys) = hex_encode xs @ hex_encode ys"
  by (induction xs) simp_all

lemma from_hex_digit:
  assumes "n < 16"
  shows "from_hex (hex_digit (of_nat n)) = Some (of_nat n)"
proof -
  from assms have "n \<in> set [0..<16]" by simp
  moreover have "\<forall>n \<in> set [0..<16]. from_hex (hex_digit (of_nat n)) = Some (of_nat n)" by code_simp
  ultimately show ?thesis by blast
qed

lemma hex_nibbles:
  fixes b :: byte
  shows "from_hex (hex_digit (b div 16)) = Some (b div 16)" and "from_hex (hex_digit (b mod 16)) = Some (b mod 16)"
    and "b div 16 * 16 + b mod 16 = b"
proof -
  have "unat b < 256" using unsigned_less [of b] by simp
  then have "unat (b div 16) < 16" by (simp add: unat_div)
  from from_hex_digit [OF this] show "from_hex (hex_digit (b div 16)) = Some (b div 16)" by simp
  have "unat (b mod 16) < 16" by (simp add: unat_mod)
  from from_hex_digit [OF this] show "from_hex (hex_digit (b mod 16)) = Some (b mod 16)" by simp
  show "b div 16 * 16 + b mod 16 = b" by (rule word_mod_div_equality)
qed

lemma hex_decode_encode [simp]: "hex_decode (hex_encode bs) = Some bs"
  by (induction bs) (simp_all add: hex_nibbles)

lemma from_hex_SomeD:
  assumes "from_hex c = Some a"
  shows "a < 16 \<and> hex_digit a = lower_hex c"
proof -
  from assms consider "48 \<le> c" "c \<le> 57" "a = c - 48" | "97 \<le> c" "c \<le> 102" "a = c - 87"
    | "65 \<le> c" "c \<le> 70" "a = c - 55"
    by (auto simp: from_hex_def split: if_splits)
  then show ?thesis
  proof cases
    case 1
    then have "unat a = unat c - 48" by (simp add: unat_sub_nowrap)
    with 1 have "a < 10" by (simp add: word_less_nat_alt word_le_nat_alt)
    with 1 show ?thesis by (auto simp: hex_digit_def lower_hex_def word_less_nat_alt word_le_nat_alt)
  next
    case 2
    then have "87 \<le> c" by (simp add: word_le_nat_alt)
    with 2 have "unat a = unat c - 87" by (simp add: unat_sub_nowrap)
    with 2 have "10 \<le> unat a" "unat a < 16" by (auto simp: word_le_nat_alt)
    with 2 show ?thesis by (auto simp: hex_digit_def lower_hex_def word_less_nat_alt word_le_nat_alt)
  next
    case 3
    then have "55 \<le> c" by (simp add: word_le_nat_alt)
    with 3 have "unat a = unat c - 55" by (simp add: unat_sub_nowrap)
    with 3 have "10 \<le> unat a" "unat a < 16" by (auto simp: word_le_nat_alt)
    with 3 show ?thesis by (auto simp: hex_digit_def lower_hex_def word_less_nat_alt word_le_nat_alt)
  qed
qed

lemma nibbles_join:
  fixes a b :: byte
  assumes "a < 16" and "b < 16"
  shows "(a * 16 + b) div 16 = a" and "(a * 16 + b) mod 16 = b"
proof -
  have na: "unat a < 16" and nb: "unat b < 16" using assms by (simp_all add: word_less_nat_alt)
  then have u: "unat (a * 16 + b) = unat a * 16 + unat b"
    by (simp add: unat_word_ariths)
  show "(a * 16 + b) div 16 = a" by (simp add: word_unat_eq_iff unat_div u nb)
  show "(a * 16 + b) mod 16 = b" by (simp add: word_unat_eq_iff unat_mod u nb)
qed

lemma hex_encode_decode: "hex_decode cs = Some bs \<Longrightarrow> hex_encode bs = map lower_hex cs"
  by (induction cs arbitrary: bs rule: hex_decode.induct)
     (auto split: option.splits simp: nibbles_join dest!: from_hex_SomeD)

lemma hex_decode_length: "hex_decode cs = Some bs \<Longrightarrow> length cs = 2 * length bs"
  by (induction cs arbitrary: bs rule: hex_decode.induct) (auto split: option.splits)

lemma parts_id: "take 8 t @ take 4 (drop 8 t) @ take 4 (drop 12 t) @ take 4 (drop 16 t) @ drop 20 t = t"
  using drop_split [of 0 t 8] drop_split [of 8 t 4] drop_split [of 12 t 4] drop_split [of 16 t 4] by simp

lemma device_parts:
  assumes "length d = 16"
  shows "take 4 d @ take 2 (drop 4 d) @ take 2 (drop 6 d) @ take 2 (drop 8 d) @ take 6 (drop 10 d) = d"
  using drop_split [of 0 d 4] drop_split [of 4 d 2] drop_split [of 6 d 2] drop_split [of 8 d 2] assms by simp

text \<open>Reading back the text of a device identity gives that identity.\<close>

lemma UnmarshalText_MarshalText:
  assumes len: "length d = 16" and enc: "DeviceID_MarshalText d = Inr raw"
  shows "DeviceID_UnmarshalText raw = Inr d"
proof -
  let ?a = "hex_encode (take 4 d)" and ?b = "hex_encode (take 2 (drop 4 d))"
    and ?c = "hex_encode (take 2 (drop 6 d))" and ?e = "hex_encode (take 2 (drop 8 d))"
    and ?f = "hex_encode (take 6 (drop 10 d))"
  from enc have z: "\<not> DeviceID_IsZero d" and t: "raw = ?a @ [45] @ ?b @ [45] @ ?c @ [45] @ ?e @ [45] @ ?f"
    by (simp_all add: DeviceID_MarshalText_def split: if_splits)
  have lens: "length ?a = 8" "length ?b = 4" "length ?c = 4" "length ?e = 4" "length ?f = 12"
    using len by simp_all
  have d0: "drop 0 raw = ?a @ [45] @ ?b @ [45] @ ?c @ [45] @ ?e @ [45] @ ?f" by (simp add: t)
  have d1: "drop 8 raw = [45] @ ?b @ [45] @ ?c @ [45] @ ?e @ [45] @ ?f" using drop_prefix [OF d0] len by simp
  have d2: "drop 9 raw = ?b @ [45] @ ?c @ [45] @ ?e @ [45] @ ?f" using drop_prefix [OF d1] by simp
  have d3: "drop 13 raw = [45] @ ?c @ [45] @ ?e @ [45] @ ?f" using drop_prefix [OF d2] len by simp
  have d4: "drop 14 raw = ?c @ [45] @ ?e @ [45] @ ?f" using drop_prefix [OF d3] by simp
  have d5: "drop 18 raw = [45] @ ?e @ [45] @ ?f" using drop_prefix [OF d4] len by simp
  have d6: "drop 19 raw = ?e @ [45] @ ?f" using drop_prefix [OF d5] by simp
  have d7: "drop 23 raw = [45] @ ?f" using drop_prefix [OF d6] len by simp
  have d8: "drop 24 raw = ?f" using drop_prefix [OF d7] by simp
  have len36: "length raw = 36" using lens by (simp add: t)
  have dashes: "raw ! 8 = 45" "raw ! 13 = 45" "raw ! 18 = 45" "raw ! 23 = 45"
    using hd_drop_conv_nth [of 8 raw] hd_drop_conv_nth [of 13 raw] hd_drop_conv_nth [of 18 raw]
      hd_drop_conv_nth [of 23 raw] d1 d3 d5 d7 len36 by simp_all
  have "take 8 raw @ take 4 (drop 9 raw) @ take 4 (drop 14 raw) @ take 4 (drop 19 raw) @ take 12 (drop 24 raw)
      = ?a @ ?b @ ?c @ ?e @ ?f"
    using d0 len unfolding d2 d4 d6 d8 by simp
  also have "\<dots> = hex_encode d"
    using arg_cong [where f = hex_encode, OF device_parts [OF len]] unfolding hex_encode_append .
  finally have compact: "take 8 raw @ take 4 (drop 9 raw) @ take 4 (drop 14 raw) @ take 4 (drop 19 raw)
      @ take 12 (drop 24 raw) = hex_encode d" .
  show ?thesis
    unfolding DeviceID_UnmarshalText_def Let_def compact
    by (simp only: len36 dashes hex_decode_encode option.case z if_False simp_thms)
qed

lemma append5_inject:
  assumes "length a = length a'" and "length b = length b'" and "length c = length c'" and "length d = length d'"
  shows "a @ b @ c @ d @ e = a' @ b' @ c' @ d' @ e' \<longleftrightarrow> a = a' \<and> b = b' \<and> c = c' \<and> d = d' \<and> e = e'"
  using assms by simp

text \<open>Any accepted text is, up to the case of its digits, the text of the identity it denotes.\<close>

lemma MarshalText_UnmarshalText:
  assumes "DeviceID_UnmarshalText raw = Inr d"
  shows "length d = 16 \<and> DeviceID_MarshalText d = Inr (map lower_hex raw)"
proof -
  let ?p1 = "take 8 raw" and ?p2 = "take 4 (drop 9 raw)" and ?p3 = "take 4 (drop 14 raw)"
    and ?p4 = "take 4 (drop 19 raw)" and ?p5 = "take 12 (drop 24 raw)"
  from assms have len: "length raw = 36"
    and dashes: "raw ! 8 = 45" "raw ! 13 = 45" "raw ! 18 = 45" "raw ! 23 = 45"
    and dec: "hex_decode (?p1 @ ?p2 @ ?p3 @ ?p4 @ ?p5) = Some d" and z: "\<not> DeviceID_IsZero d"
    by (auto simp: DeviceID_UnmarshalText_def Let_def split: if_splits option.splits)
  from hex_decode_length [OF dec] len have ld: "length d = 16" by simp
  have split: "map lower_hex ?p1 @ map lower_hex ?p2 @ map lower_hex ?p3 @ map lower_hex ?p4 @ map lower_hex ?p5
      = hex_encode (take 4 d) @ hex_encode (take 2 (drop 4 d)) @ hex_encode (take 2 (drop 6 d))
        @ hex_encode (take 2 (drop 8 d)) @ hex_encode (take 6 (drop 10 d))"
    using hex_encode_decode [OF dec] arg_cong [where f = hex_encode, OF device_parts [OF ld]]
    unfolding hex_encode_append map_append by simp
  have dash: "drop 8 raw = [45] @ drop 9 raw" "drop 13 raw = [45] @ drop 14 raw"
    "drop 18 raw = [45] @ drop 19 raw" "drop 23 raw = [45] @ drop 24 raw"
    using Cons_nth_drop_Suc [of 8 raw] Cons_nth_drop_Suc [of 13 raw] Cons_nth_drop_Suc [of 18 raw]
      Cons_nth_drop_Suc [of 23 raw] len dashes by simp_all
  have "drop 23 raw = [45] @ ?p5" using dash(4) len by simp
  then have t4: "drop 19 raw = ?p4 @ [45] @ ?p5" by (intro drop_extend) simp
  have "drop 18 raw = [45] @ ?p4 @ [45] @ ?p5" unfolding dash(3) by (subst t4) (rule refl)
  then have t3: "drop 14 raw = ?p3 @ [45] @ ?p4 @ [45] @ ?p5" by (intro drop_extend) simp
  have "drop 13 raw = [45] @ ?p3 @ [45] @ ?p4 @ [45] @ ?p5" unfolding dash(2) by (subst t3) (rule refl)
  then have t2: "drop 9 raw = ?p2 @ [45] @ ?p3 @ [45] @ ?p4 @ [45] @ ?p5" by (intro drop_extend) simp
  have "drop 8 raw = [45] @ ?p2 @ [45] @ ?p3 @ [45] @ ?p4 @ [45] @ ?p5" unfolding dash(1) by (subst t2) (rule refl)
  then have "drop 0 raw = take 8 (drop 0 raw) @ [45] @ ?p2 @ [45] @ ?p3 @ [45] @ ?p4 @ [45] @ ?p5"
    by (intro drop_extend) simp
  then have "raw = ?p1 @ [45] @ ?p2 @ [45] @ ?p3 @ [45] @ ?p4 @ [45] @ ?p5" unfolding drop_0 .
  from arg_cong [where f = "map lower_hex", OF this]
  have "map lower_hex raw = map lower_hex ?p1 @ [45] @ map lower_hex ?p2 @ [45] @ map lower_hex ?p3
      @ [45] @ map lower_hex ?p4 @ [45] @ map lower_hex ?p5"
    by (simp only: map_append list.map) (simp add: lower_hex_def)
  moreover from split have "map lower_hex ?p1 = hex_encode (take 4 d)" "map lower_hex ?p2 = hex_encode (take 2 (drop 4 d))"
    "map lower_hex ?p3 = hex_encode (take 2 (drop 6 d))" "map lower_hex ?p4 = hex_encode (take 2 (drop 8 d))"
    "map lower_hex ?p5 = hex_encode (take 6 (drop 10 d))"
    using append5_inject [THEN iffD1, OF _ _ _ _ split] len ld by simp_all
  ultimately have "map lower_hex raw = hex_encode (take 4 d) @ [45] @ hex_encode (take 2 (drop 4 d)) @ [45]
      @ hex_encode (take 2 (drop 6 d)) @ [45] @ hex_encode (take 2 (drop 8 d)) @ [45] @ hex_encode (take 6 (drop 10 d))"
    by (simp only:)
  with z ld show ?thesis by (simp only: DeviceID_MarshalText_def if_False simp_thms)
qed

section \<open>Properties\<close>

text \<open>
  C31 (roundtrip). The text form of a device identity: a non-zero identity is printed and read back
  unchanged, and any text that is read denotes an identity whose text is that text in lower case; the
  zero identity is never printed nor read.
\<close>

theorem device_text_roundtrip:
  assumes "length d = 16"
  shows "(d \<noteq> zero_bytes 16 \<longrightarrow> (\<exists>t. DeviceID_MarshalText d = Inr t \<and> DeviceID_UnmarshalText t = Inr d))
       \<and> (DeviceID_UnmarshalText t = Inr d \<longrightarrow> d \<noteq> zero_bytes 16 \<and> DeviceID_MarshalText d = Inr (map lower_hex t))"
proof -
  have "\<exists>t. DeviceID_MarshalText d = Inr t" if "d \<noteq> zero_bytes 16"
    using that by (simp add: DeviceID_MarshalText_def DeviceID_IsZero_def)
  moreover have "d \<noteq> zero_bytes 16" if "DeviceID_MarshalText d = Inr t" for t
    using that by (auto simp: DeviceID_MarshalText_def DeviceID_IsZero_def split: if_splits)
  ultimately show ?thesis
    using UnmarshalText_MarshalText [OF assms] MarshalText_UnmarshalText [of t d] by blast
qed

theorem device_text_roundtrip_witness:
  "\<exists>t. DeviceID_MarshalText (replicate 16 0xab) = Inr t \<and> DeviceID_UnmarshalText t = Inr (replicate 16 0xab)"
  using device_text_roundtrip [of "replicate 16 0xab"] by simp

end
