(* ===== verification/NP_Auth.thy ===== *)
theory NP_Auth
  imports NP_Device
begin

text \<open>
  The NP/2 authentication handshake (\<open>internal/protocol/auth.go\<close>) and the forward-secret key
  update (\<open>internal/protocol/forward_secret.go\<close>). The three messages and their codecs, the
  transcript and the keys derived from it, the server side with its single-use challenge and the
  client side. The hash function is the argument \<open>H\<close>; the X25519 group operations, which the
  program only calls, are the arguments \<open>pub\<close> (public key of a private key) and \<open>dh\<close> (shared
  secret, or \<open>None\<close> for the error). Instants and durations are integers in nanoseconds.
\<close>

section \<open>Constants and features\<close>

abbreviation Version :: byte where "Version \<equiv> 2"
abbreviation RootSecretSize :: nat where "RootSecretSize \<equiv> 32"
abbreviation NonceSize :: nat where "NonceSize \<equiv> 32"
abbreviation AuthTagSize :: nat where "AuthTagSize \<equiv> 32"
abbreviation DeviceIDSize :: nat where "DeviceIDSize \<equiv> 16"
abbreviation MaxAuthenticationMessageSize :: nat where "MaxAuthenticationMessageSize \<equiv> 512"
abbreviation MaxChallengeAge :: int where "MaxChallengeAge \<equiv> 15000000000"
abbreviation MaxServerCredentials :: nat where "MaxServerCredentials \<equiv> 256"
abbreviation challengeMessageSize :: nat where "challengeMessageSize \<equiv> 1 + NonceSize + 4"
abbreviation responseMessageSize :: nat where "responseMessageSize \<equiv> NonceSize + 4 + AuthTagSize"
abbreviation confirmMessageSize :: nat where "confirmMessageSize \<equiv> AuthTagSize"

type_synonym CarrierKind = byte

abbreviation CarrierHTTPS :: CarrierKind where "CarrierHTTPS \<equiv> 1"
abbreviation CarrierWebRTC :: CarrierKind where "CarrierWebRTC \<equiv> 2"
abbreviation CarrierHTTP3 :: CarrierKind where "CarrierHTTP3 \<equiv> 3"

definition carrier_valid :: "CarrierKind \<Rightarrow> bool" where
  "carrier_valid c \<longleftrightarrow> c = CarrierHTTPS \<or> c = CarrierWebRTC \<or> c = CarrierHTTP3"

type_synonym FeatureSet = u32

abbreviation FeatureMultiplex :: FeatureSet where "FeatureMultiplex \<equiv> 1"
abbreviation FeatureProfileQuiet :: FeatureSet where "FeatureProfileQuiet \<equiv> 2"
abbreviation FeatureProfileWeb :: FeatureSet where "FeatureProfileWeb \<equiv> 4"
abbreviation FeatureProfileInteractive :: FeatureSet where "FeatureProfileInteractive \<equiv> 8"
abbreviation FeatureCellAEAD :: FeatureSet where "FeatureCellAEAD \<equiv> 16"
abbreviation FeatureDeviceIdentity :: FeatureSet where "FeatureDeviceIdentity \<equiv> 32"

definition knownFeatures :: FeatureSet where
  "knownFeatures = FeatureMultiplex OR FeatureProfileQuiet OR FeatureProfileWeb
                   OR FeatureProfileInteractive OR FeatureCellAEAD OR FeatureDeviceIdentity"

definition features_valid :: "FeatureSet \<Rightarrow> bool" where
  "features_valid f \<longleftrightarrow> f AND NOT knownFeatures = 0"

abbreviation wants_device :: "FeatureSet \<Rightarrow> bool" where
  "wants_device f \<equiv> f AND FeatureDeviceIdentity \<noteq> 0"

section \<open>Configuration and messages\<close>

record HandshakeConfig =
  hc_RootSecret :: bytes
  hc_ServerIdentity :: bytes
  hc_Carrier :: CarrierKind
  hc_DeviceID :: DeviceID

record Credential =
  cr_ID :: bytes
  cr_RootSecret :: bytes

definition config_validate :: "HandshakeConfig \<Rightarrow> protocol_error option" where
  "config_validate c =
     (if length (hc_ServerIdentity c) = 0 \<or> length (hc_ServerIdentity c) > 253 then Some ErrInvalidConfig
      else if \<not> carrier_valid (hc_Carrier c) then Some ErrInvalidConfig
      else if hc_RootSecret c = zero_bytes RootSecretSize then Some ErrInvalidConfig
      else None)"

record Challenge =
  ch_Version :: byte
  ch_ServerNonce :: bytes
  ch_SupportedFeatures :: FeatureSet

definition Challenge_MarshalBinary :: "Challenge \<Rightarrow> bytes" where
  "Challenge_MarshalBinary c = [ch_Version c] @ ch_ServerNonce c @ put_uint32 (ch_SupportedFeatures c)"

definition ParseChallenge :: "bytes \<Rightarrow> protocol_error + Challenge" where
  "ParseChallenge raw =
     (if length raw > MaxAuthenticationMessageSize \<or> length raw \<noteq> challengeMessageSize
      then Inl ErrMalformedMessage
      else if raw ! 0 \<noteq> Version then Inl ErrMalformedMessage
      else
        let challenge = \<lparr>ch_Version = raw ! 0, ch_ServerNonce = take NonceSize (drop 1 raw),
                         ch_SupportedFeatures = be_value (drop (1 + NonceSize) raw)\<rparr>
        in if \<not> features_valid (ch_SupportedFeatures challenge) then Inl ErrMalformedMessage
           else Inr challenge)"

record Response =
  rs_ClientNonce :: bytes
  rs_RequestedFeatures :: FeatureSet
  rs_DeviceID :: DeviceID
  rs_Tag :: bytes

definition Response_MarshalBinary :: "Response \<Rightarrow> bytes" where
  "Response_MarshalBinary r =
     rs_ClientNonce r @ put_uint32 (rs_RequestedFeatures r)
     @ (if wants_device (rs_RequestedFeatures r) then rs_DeviceID r else []) @ rs_Tag r"

definition ParseResponse :: "bytes \<Rightarrow> protocol_error + Response" where
  "ParseResponse raw =
     (if length raw > MaxAuthenticationMessageSize \<or> length raw < NonceSize + 4 then Inl ErrMalformedMessage
      else
        let features = be_value (take 4 (drop NonceSize raw)) in
        if \<not> features_valid features then Inl ErrMalformedMessage
        else
          let expectedSize = (if wants_device features then responseMessageSize + DeviceIDSize
                              else responseMessageSize) in
          if length raw \<noteq> expectedSize then Inl ErrMalformedMessage
          else
            let offset = NonceSize + 4;
                device = (if wants_device features then take DeviceIDSize (drop offset raw)
                          else zero_bytes DeviceIDSize);
                offset' = (if wants_device features then offset + DeviceIDSize else offset)
            in if wants_device features \<and> DeviceID_IsZero device then Inl ErrMalformedMessage
               else Inr \<lparr>rs_ClientNonce = take NonceSize raw, rs_RequestedFeatures = features,
                         rs_DeviceID = device, rs_Tag = drop offset' raw\<rparr>)"

record Confirm =
  co_Tag :: bytes

definition Confirm_MarshalBinary :: "Confirm \<Rightarrow> bytes" where
  "Confirm_MarshalBinary c = co_Tag c"

definition ParseConfirm :: "bytes \<Rightarrow> protocol_error + Confirm" where
  "ParseConfirm raw =
     (if length raw > MaxAuthenticationMessageSize \<or> length raw \<noteq> confirmMessageSize
      then Inl ErrMalformedMessage else Inr \<lparr>co_Tag = raw\<rparr>)"

section \<open>Transcript and keys\<close>

record SessionKeys =
  sk_HeaderMap :: bytes
  sk_Padding :: bytes
  sk_Control :: bytes
  sk_ClientToServer :: bytes
  sk_ServerToClient :: bytes
  sk_ClientToServerNonce :: bytes
  sk_ServerToClientNonce :: bytes

definition buildTranscript ::
  "HandshakeConfig \<Rightarrow> Challenge \<Rightarrow> bytes \<Rightarrow> FeatureSet \<Rightarrow> DeviceID \<Rightarrow> bytes" where
  "buildTranscript config challenge clientNonce requested device =
     [Version, hc_Carrier config] @ put_uint16 (of_nat (length (hc_ServerIdentity config)))
     @ hc_ServerIdentity config @ ch_ServerNonce challenge @ clientNonce
     @ put_uint32 (ch_SupportedFeatures challenge) @ put_uint32 requested
     @ (if wants_device requested then device else [])"

definition calculateTag :: "hash \<Rightarrow> bytes \<Rightarrow> string \<Rightarrow> bytes \<Rightarrow> bytes" where
  "calculateTag H key label transcript = hmac H key (str label @ [0] @ transcript)"

definition deriveAuthKey :: "hash \<Rightarrow> HandshakeConfig \<Rightarrow> protocol_error + bytes" where
  "deriveAuthKey H config =
     (let info = str ''NP2 auth'' @ [0] @ hc_ServerIdentity config in
      case hkdf_key H (hc_RootSecret config) (str ''Neproto NP/2'') info 32 of
        None \<Rightarrow> Inl ErrDerive | Some key \<Rightarrow> Inr key)"

text \<open>The closure \<open>derive\<close> of \<open>deriveSessionKeys\<close> and \<open>DeriveForwardSecretSessionKeys\<close>.\<close>

definition derive :: "hash \<Rightarrow> bytes \<Rightarrow> bytes \<Rightarrow> string \<Rightarrow> nat \<Rightarrow> protocol_error + bytes" where
  "derive H secret salt info n =
     (case hkdf_key H secret salt (str info) n of None \<Rightarrow> Inl ErrDerive | Some key \<Rightarrow> Inr key)"

definition deriveSessionKeys :: "hash \<Rightarrow> bytes \<Rightarrow> bytes \<Rightarrow> protocol_error + SessionKeys" where
  "deriveSessionKeys H authKey transcript =
     (let salt = H transcript in
      res_bind (derive H authKey salt ''NP2 header map'' 32) (\<lambda>headerMap.
      res_bind (derive H authKey salt ''NP2 padding'' 32) (\<lambda>padding.
      res_bind (derive H authKey salt ''NP2 control'' 32) (\<lambda>control.
      res_bind (derive H authKey salt ''NP2 cell c2s key'' 32) (\<lambda>clientToServer.
      res_bind (derive H authKey salt ''NP2 cell s2c key'' 32) (\<lambda>serverToClient.
      res_bind (derive H authKey salt ''NP2 cell c2s nonce'' 4) (\<lambda>clientNonce.
      res_bind (derive H authKey salt ''NP2 cell s2c nonce'' 4) (\<lambda>serverNonce.
      Inr \<lparr>sk_HeaderMap = headerMap, sk_Padding = padding, sk_Control = control,
           sk_ClientToServer = clientToServer, sk_ServerToClient = serverToClient,
           sk_ClientToServerNonce = clientNonce, sk_ServerToClientNonce = serverNonce\<rparr>))))))))"

section \<open>Server and client\<close>

record ServerHandshake =
  sh_config :: HandshakeConfig
  sh_challenge :: Challenge
  sh_createdAt :: int
  sh_used :: bool
  sh_supportedFeatures :: FeatureSet

definition NewServerHandshake ::
  "HandshakeConfig \<Rightarrow> FeatureSet \<Rightarrow> int \<Rightarrow> bytes \<Rightarrow> protocol_error + ServerHandshake \<times> Challenge" where
  "NewServerHandshake config supported now random =
     (case config_validate config of
        Some e \<Rightarrow> Inl e
      | None \<Rightarrow>
        if \<not> features_valid supported then Inl ErrUnsupportedFeatures
        else case fst (read_full NonceSize random) of
               None \<Rightarrow> Inl ErrReadNonce
             | Some nonce \<Rightarrow>
                 let challenge = \<lparr>ch_Version = Version, ch_ServerNonce = nonce, ch_SupportedFeatures = supported\<rparr>
                 in Inr (\<lparr>sh_config = config, sh_challenge = challenge, sh_createdAt = now,
                          sh_used = False, sh_supportedFeatures = supported\<rparr>, challenge))"

record ClientHandshake =
  cl_expectedConfirm :: bytes
  cl_keys :: SessionKeys

definition RespondToChallenge ::
  "hash \<Rightarrow> HandshakeConfig \<Rightarrow> Challenge \<Rightarrow> FeatureSet \<Rightarrow> bytes \<Rightarrow> protocol_error + Response \<times> ClientHandshake" where
  "RespondToChallenge H config challenge requested random =
     (case config_validate config of
        Some e \<Rightarrow> Inl e
      | None \<Rightarrow>
        if ch_Version challenge \<noteq> Version \<or> \<not> features_valid (ch_SupportedFeatures challenge)
        then Inl ErrMalformedMessage
        else if \<not> features_valid requested \<or> requested AND NOT (ch_SupportedFeatures challenge) \<noteq> 0
        then Inl ErrUnsupportedFeatures
        else if wants_device requested \<and> DeviceID_IsZero (hc_DeviceID config) then Inl ErrInvalidConfig
        else
          let device = (if wants_device requested then hc_DeviceID config else zero_bytes DeviceIDSize) in
          case fst (read_full NonceSize random) of
            None \<Rightarrow> Inl ErrReadNonce
          | Some nonce \<Rightarrow>
              res_bind (deriveAuthKey H config) (\<lambda>authKey.
              let transcript = buildTranscript config challenge nonce requested device;
                  tag = calculateTag H authKey ''NP2 response'' transcript
              in res_bind (deriveSessionKeys H authKey transcript) (\<lambda>keys.
                 Inr (\<lparr>rs_ClientNonce = nonce, rs_RequestedFeatures = requested, rs_DeviceID = device,
                       rs_Tag = tag\<rparr>,
                      \<lparr>cl_expectedConfirm = calculateTag H authKey ''NP2 confirm'' transcript,
                       cl_keys = keys\<rparr>))))"

text \<open>
  The credential loop of \<open>VerifyResponseWithCredentials\<close>: every credential is evaluated, the
  last match is kept with the number of matches.
\<close>

fun match_credentials ::
  "hash \<Rightarrow> HandshakeConfig \<Rightarrow> bytes \<Rightarrow> bytes \<Rightarrow> Credential list \<Rightarrow> bytes \<times> bytes \<times> nat
     \<Rightarrow> protocol_error + bytes \<times> bytes \<times> nat" where
  "match_credentials H config transcript tag [] acc = Inr acc"
| "match_credentials H config transcript tag (credential # rest) (matchedKey, matchedID, matches) =
     res_bind (deriveAuthKey H (config\<lparr>hc_RootSecret := cr_RootSecret credential\<rparr>)) (\<lambda>authKey.
     match_credentials H config transcript tag rest
       (if tag = calculateTag H authKey ''NP2 response'' transcript
        then (authKey, cr_ID credential, matches + 1) else (matchedKey, matchedID, matches)))"

definition credential_ok :: "HandshakeConfig \<Rightarrow> Credential \<Rightarrow> bool" where
  "credential_ok config credential \<longleftrightarrow>
     \<not> (length (cr_ID credential) = 0 \<or> length (cr_ID credential) > 128
        \<or> config_validate (config\<lparr>hc_RootSecret := cr_RootSecret credential\<rparr>) \<noteq> None)"

definition VerifyResponseWithCredentials ::
  "hash \<Rightarrow> ServerHandshake \<Rightarrow> Response \<Rightarrow> int \<Rightarrow> Credential list
     \<Rightarrow> (protocol_error + Confirm \<times> SessionKeys \<times> bytes) \<times> ServerHandshake" where
  "VerifyResponseWithCredentials H s response now credentials =
     (if length credentials = 0 \<or> length credentials > MaxServerCredentials then (Inl ErrInvalidConfig, s)
      else if \<not> list_all (credential_ok (sh_config s)) credentials then (Inl ErrInvalidConfig, s)
      else if sh_used s then (Inl ErrChallengeUsed, s)
      else
        (let age = now - sh_createdAt s; requested = rs_RequestedFeatures response in
         if age < 0 \<or> age > MaxChallengeAge then Inl ErrExpiredChallenge
         else if \<not> features_valid requested \<or> requested AND NOT (sh_supportedFeatures s) \<noteq> 0
         then Inl ErrUnsupportedFeatures
         else if wants_device requested \<and> DeviceID_IsZero (rs_DeviceID response) then Inl ErrMalformedMessage
         else
           let transcript = buildTranscript (sh_config s) (sh_challenge s) (rs_ClientNonce response)
                              requested (rs_DeviceID response) in
           res_bind (match_credentials H (sh_config s) transcript (rs_Tag response) credentials
                       (zero_bytes 32, [], 0)) (\<lambda>(matchedKey, matchedID, matches).
           if matches = 0 then Inl ErrAuthentication
           else if matches \<noteq> 1 then Inl ErrInvalidConfig
           else res_bind (deriveSessionKeys H matchedKey transcript) (\<lambda>keys.
                Inr (\<lparr>co_Tag = calculateTag H matchedKey ''NP2 confirm'' transcript\<rparr>, keys, matchedID))),
         s\<lparr>sh_used := True\<rparr>))"

definition VerifyResponse ::
  "hash \<Rightarrow> ServerHandshake \<Rightarrow> Response \<Rightarrow> int \<Rightarrow> (protocol_error + Confirm \<times> SessionKeys) \<times> ServerHandshake" where
  "VerifyResponse H s response now =
     (case VerifyResponseWithCredentials H s response now
             [\<lparr>cr_ID = str ''legacy'', cr_RootSecret = hc_RootSecret (sh_config s)\<rparr>] of
        (result, s') \<Rightarrow> (res_bind result (\<lambda>(confirm, keys, _). Inr (confirm, keys)), s'))"

text \<open>The receiver is a pointer: \<open>None\<close> is the nil handshake.\<close>

definition VerifyConfirm :: "ClientHandshake option \<Rightarrow> Confirm \<Rightarrow> protocol_error + SessionKeys" where
  "VerifyConfirm client confirm =
     (case client of
        None \<Rightarrow> Inl ErrAuthentication
      | Some c \<Rightarrow> if co_Tag confirm \<noteq> cl_expectedConfirm c then Inl ErrAuthentication else Inr (cl_keys c))"

section \<open>Message codecs\<close>

definition wf_challenge :: "Challenge \<Rightarrow> bool" where
  "wf_challenge c \<longleftrightarrow> ch_Version c = Version \<and> length (ch_ServerNonce c) = NonceSize
     \<and> features_valid (ch_SupportedFeatures c)"

definition wf_response :: "Response \<Rightarrow> bool" where
  "wf_response r \<longleftrightarrow> length (rs_ClientNonce r) = NonceSize \<and> length (rs_Tag r) = AuthTagSize
     \<and> length (rs_DeviceID r) = DeviceIDSize \<and> features_valid (rs_RequestedFeatures r)
     \<and> (wants_device (rs_RequestedFeatures r) \<longleftrightarrow> \<not> DeviceID_IsZero (rs_DeviceID r))"

definition wf_confirm :: "Confirm \<Rightarrow> bool" where
  "wf_confirm c \<longleftrightarrow> length (co_Tag c) = AuthTagSize"

lemma ParseChallenge_Marshal: "wf_challenge c \<Longrightarrow> ParseChallenge (Challenge_MarshalBinary c) = Inr c"
  by (simp add: wf_challenge_def ParseChallenge_def Challenge_MarshalBinary_def wire_simps Let_def)

lemma Marshal_ParseChallenge:
  assumes "ParseChallenge raw = Inr c"
  shows "wf_challenge c \<and> Challenge_MarshalBinary c = raw"
proof -
  from assms have len: "length raw = 37" and c: "c = \<lparr>ch_Version = raw ! 0, ch_ServerNonce = take 32 (drop 1 raw),
      ch_SupportedFeatures = be_value (drop 33 raw)\<rparr>"
    and v: "raw ! 0 = Version" "features_valid (ch_SupportedFeatures c)"
    by (auto simp: ParseChallenge_def Let_def split: if_splits)
  have "put_uint32 (be_value (drop 33 raw)) = drop 33 raw"
    using be_bytes_be_value [where 'a = 32, of "drop 33 raw"] len by simp
  moreover have "raw = [raw ! 0] @ take 32 (drop 1 raw) @ drop 33 raw"
    using len drop_split [of 1 raw 32] by (cases raw) simp_all
  ultimately show ?thesis using v len by (simp add: wf_challenge_def Challenge_MarshalBinary_def c)
qed

lemma ParseResponse_Marshal:
  assumes "wf_response r"
  shows "ParseResponse (Response_MarshalBinary r) = Inr r"
proof (cases "wants_device (rs_RequestedFeatures r)")
  case True
  with assms show ?thesis
    by (simp add: wf_response_def ParseResponse_def Response_MarshalBinary_def wire_simps Let_def)
next
  case False
  with assms have "rs_DeviceID r = zero_bytes 16" by (simp add: wf_response_def DeviceID_IsZero_def)
  with False assms show ?thesis
    by (simp add: wf_response_def ParseResponse_def Response_MarshalBinary_def wire_simps Let_def)
qed

lemma Marshal_ParseResponse:
  assumes "ParseResponse raw = Inr r"
  shows "wf_response r \<and> Response_MarshalBinary r = raw"
proof -
  define f :: u32 where "f = be_value (take 4 (drop 32 raw))"
  define w where "w = wants_device f"
  have eq: "ParseResponse raw =
     (if length raw > 512 \<or> length raw < 36 \<or> \<not> features_valid f \<or> length raw \<noteq> (if w then 84 else 68)
         \<or> w \<and> DeviceID_IsZero (take 16 (drop 36 raw))
      then Inl ErrMalformedMessage
      else Inr \<lparr>rs_ClientNonce = take 32 raw, rs_RequestedFeatures = f,
                rs_DeviceID = (if w then take 16 (drop 36 raw) else zero_bytes 16),
                rs_Tag = drop (if w then 52 else 36) raw\<rparr>)"
    unfolding ParseResponse_def Let_def f_def [symmetric] w_def [symmetric] by (cases w) simp_all
  with assms have v: "features_valid f" and len: "length raw = (if w then 84 else 68)"
    and dev: "w \<Longrightarrow> \<not> DeviceID_IsZero (take 16 (drop 36 raw))"
    and r: "r = \<lparr>rs_ClientNonce = take 32 raw, rs_RequestedFeatures = f,
                rs_DeviceID = (if w then take 16 (drop 36 raw) else zero_bytes 16),
                rs_Tag = drop (if w then 52 else 36) raw\<rparr>"
    by (simp_all split: if_split_asm)
  have "put_uint32 f = take 4 (drop 32 raw)"
    using be_bytes_be_value [where 'a = 32, of "take 4 (drop 32 raw)"] len by (simp add: f_def split: if_splits)
  moreover have "take 32 raw @ take 4 (drop 32 raw) @ drop 36 raw = raw"
    using slice_join [of 4 32 raw] by simp
  moreover have "take 16 (drop 36 raw) @ drop 52 raw = drop 36 raw"
    using slice_join [of 16 36 raw] by simp
  ultimately have "Response_MarshalBinary r = raw"
    unfolding Response_MarshalBinary_def r Response.select_convs w_def [symmetric] by (cases w) simp_all
  moreover have "wf_response r"
    unfolding wf_response_def r Response.select_convs w_def [symmetric]
    using v len dev by (cases w) (simp_all add: DeviceID_IsZero_def)
  ultimately show ?thesis by simp
qed

interpretation challenge: message_codec wf_challenge "\<lambda>c. Inr (Challenge_MarshalBinary c)" ParseChallenge
  by unfold_locales (auto simp: ParseChallenge_Marshal dest: Marshal_ParseChallenge)

interpretation response: message_codec wf_response "\<lambda>r. Inr (Response_MarshalBinary r)" ParseResponse
  by unfold_locales (auto simp: ParseResponse_Marshal dest: Marshal_ParseResponse)

interpretation confirm: message_codec wf_confirm "\<lambda>c. Inr (Confirm_MarshalBinary c)" ParseConfirm
  by unfold_locales (auto simp: wf_confirm_def Confirm_MarshalBinary_def ParseConfirm_def split: if_splits)

section \<open>The transcript determines the exchange\<close>

lemma buildTranscript_inject:
  assumes eq: "buildTranscript c1 ch1 n1 f1 d1 = buildTranscript c2 ch2 n2 f2 d2"
    and id: "length (hc_ServerIdentity c1) \<le> 253" "length (hc_ServerIdentity c2) \<le> 253"
    and sn: "length (ch_ServerNonce ch1) = 32" "length (ch_ServerNonce ch2) = 32"
    and cn: "length n1 = 32" "length n2 = 32"
  shows "hc_Carrier c1 = hc_Carrier c2 \<and> hc_ServerIdentity c1 = hc_ServerIdentity c2
    \<and> ch_ServerNonce ch1 = ch_ServerNonce ch2 \<and> n1 = n2
    \<and> ch_SupportedFeatures ch1 = ch_SupportedFeatures ch2 \<and> f1 = f2 \<and> (wants_device f1 \<longrightarrow> d1 = d2)"
proof -
  from eq have carrier: "hc_Carrier c1 = hc_Carrier c2"
    and l: "put_uint16 (of_nat (length (hc_ServerIdentity c1))) = put_uint16 (of_nat (length (hc_ServerIdentity c2)))"
    and rest: "hc_ServerIdentity c1 @ ch_ServerNonce ch1 @ n1 @ put_uint32 (ch_SupportedFeatures ch1) @ put_uint32 f1
        @ (if wants_device f1 then d1 else [])
      = hc_ServerIdentity c2 @ ch_ServerNonce ch2 @ n2 @ put_uint32 (ch_SupportedFeatures ch2) @ put_uint32 f2
        @ (if wants_device f2 then d2 else [])"
    by (simp_all add: buildTranscript_def)
  from l have "(of_nat (length (hc_ServerIdentity c1)) :: u16) = of_nat (length (hc_ServerIdentity c2))"
    by (rule be_bytes_inject [rotated]) simp
  then have "unat (of_nat (length (hc_ServerIdentity c1)) :: u16) = unat (of_nat (length (hc_ServerIdentity c2)) :: u16)"
    by (rule arg_cong)
  then have ids: "length (hc_ServerIdentity c1) = length (hc_ServerIdentity c2)"
    using id by (simp add: unat_of_nat_small)
  with rest sn cn have "hc_ServerIdentity c1 = hc_ServerIdentity c2" "ch_ServerNonce ch1 = ch_ServerNonce ch2" "n1 = n2"
    and p: "put_uint32 (ch_SupportedFeatures ch1) = put_uint32 (ch_SupportedFeatures ch2)" "put_uint32 f1 = put_uint32 f2"
    and d: "(if wants_device f1 then d1 else []) = (if wants_device f2 then d2 else [])"
    by simp_all
  moreover have "ch_SupportedFeatures ch1 = ch_SupportedFeatures ch2" by (rule be_bytes_inject [rotated, OF p(1)]) simp
  moreover have "f1 = f2" by (rule be_bytes_inject [rotated, OF p(2)]) simp
  ultimately show ?thesis using carrier d by (auto split: if_splits)
qed

section \<open>Key derivation always succeeds\<close>

definition auth_key :: "hash \<Rightarrow> HandshakeConfig \<Rightarrow> Credential \<Rightarrow> bytes" where
  "auth_key H config credential =
     the (hkdf_key H (cr_RootSecret credential) (str ''Neproto NP/2'')
            (str ''NP2 auth'' @ [0] @ hc_ServerIdentity config) 32)"

definition tag_matches :: "hash \<Rightarrow> HandshakeConfig \<Rightarrow> bytes \<Rightarrow> bytes \<Rightarrow> Credential \<Rightarrow> bool" where
  "tag_matches H config transcript tag credential \<longleftrightarrow>
     tag = calculateTag H (auth_key H config credential) ''NP2 response'' transcript"

context hash32
begin

lemma derive_total:
  assumes "n \<le> 255 * 32"
  shows "\<exists>k. derive H secret salt info n = Inr k \<and> length k = n"
proof -
  from hkdf_key_total [OF assms] obtain k where "hkdf_key H secret salt (str info) n = Some k" "length k = n"
    by blast
  then show ?thesis by (simp add: derive_def)
qed

lemma derive_length: "derive H secret salt info n = Inr k \<Longrightarrow> length k = n"
  by (auto simp: derive_def split: option.splits dest: hkdf_key_length)

lemma deriveAuthKey_credential:
  "deriveAuthKey H (config\<lparr>hc_RootSecret := cr_RootSecret credential\<rparr>) = Inr (auth_key H config credential)"
proof -
  obtain k where "hkdf_key H (cr_RootSecret credential) (str ''Neproto NP/2'')
      (str ''NP2 auth'' @ [0] @ hc_ServerIdentity config) 32 = Some k"
    using hkdf_key_total [of 32] by fastforce
  then show ?thesis by (simp add: deriveAuthKey_def auth_key_def)
qed

lemma deriveSessionKeys_total:
  "\<exists>keys. deriveSessionKeys H authKey transcript = Inr keys
     \<and> length (sk_HeaderMap keys) = 32 \<and> length (sk_Padding keys) = 32 \<and> length (sk_Control keys) = 32
     \<and> length (sk_ClientToServer keys) = 32 \<and> length (sk_ServerToClient keys) = 32
     \<and> length (sk_ClientToServerNonce keys) = 4 \<and> length (sk_ServerToClientNonce keys) = 4"
proof -
  have "\<forall>info. \<exists>k. derive H authKey (H transcript) info 32 = Inr k \<and> length k = 32"
    "\<forall>info. \<exists>k. derive H authKey (H transcript) info 4 = Inr k \<and> length k = 4"
    by (simp_all add: derive_total)
  then obtain k32 k4 where
    "\<And>info. derive H authKey (H transcript) info 32 = Inr (k32 info) \<and> length (k32 info) = 32"
    "\<And>info. derive H authKey (H transcript) info 4 = Inr (k4 info) \<and> length (k4 info) = 4"
    by metis
  then show ?thesis by (simp add: deriveSessionKeys_def)
qed

lemma match_credentials_eq:
  "match_credentials H config transcript tag creds (k, i, n) =
     (case filter (tag_matches H config transcript tag) creds of
        [] \<Rightarrow> Inr (k, i, n)
      | ms \<Rightarrow> Inr (auth_key H config (last ms), cr_ID (last ms), n + length ms))"
proof (induction creds arbitrary: k i n)
  case Nil
  then show ?case by simp
next
  case (Cons c creds)
  then show ?case
    by (cases "filter (tag_matches H config transcript tag) creds")
       (simp_all add: deriveAuthKey_credential tag_matches_def [symmetric])
qed

end

section \<open>What the server accepts\<close>

abbreviation response_transcript :: "ServerHandshake \<Rightarrow> Response \<Rightarrow> bytes" where
  "response_transcript s r \<equiv>
     buildTranscript (sh_config s) (sh_challenge s) (rs_ClientNonce r) (rs_RequestedFeatures r) (rs_DeviceID r)"

definition request_ok :: "ServerHandshake \<Rightarrow> Response \<Rightarrow> int \<Rightarrow> Credential list \<Rightarrow> bool" where
  "request_ok s r now creds \<longleftrightarrow>
     0 < length creds \<and> length creds \<le> MaxServerCredentials \<and> list_all (credential_ok (sh_config s)) creds
     \<and> \<not> sh_used s \<and> 0 \<le> now - sh_createdAt s \<and> now - sh_createdAt s \<le> MaxChallengeAge
     \<and> features_valid (rs_RequestedFeatures r) \<and> rs_RequestedFeatures r AND NOT (sh_supportedFeatures s) = 0
     \<and> (wants_device (rs_RequestedFeatures r) \<longrightarrow> \<not> DeviceID_IsZero (rs_DeviceID r))"

lemma VerifyResponse_request_ok:
  assumes "fst (VerifyResponseWithCredentials H s r now creds) = Inr y"
  shows "request_ok s r now creds"
  using assms unfolding VerifyResponseWithCredentials_def Let_def
  by (auto simp: request_ok_def split: if_split_asm)

lemma VerifyResponse_state:
  "snd (VerifyResponseWithCredentials H s r now creds) \<in> {s, s\<lparr>sh_used := True\<rparr>}"
  by (simp add: VerifyResponseWithCredentials_def Let_def)

lemma VerifyResponse_marks_used:
  assumes "fst (VerifyResponseWithCredentials H s r now creds) \<notin> {Inl ErrInvalidConfig, Inl ErrChallengeUsed}"
  shows "\<not> sh_used s \<and> snd (VerifyResponseWithCredentials H s r now creds) = s\<lparr>sh_used := True\<rparr>"
  using assms unfolding VerifyResponseWithCredentials_def Let_def by (auto split: if_split_asm)

context hash32
begin

lemma VerifyResponse_eq:
  assumes "request_ok s r now creds"
  shows "VerifyResponseWithCredentials H s r now creds =
     ((let ms = filter (tag_matches H (sh_config s) (response_transcript s r) (rs_Tag r)) creds in
       if ms = [] then Inl ErrAuthentication
       else if length ms \<noteq> 1 then Inl ErrInvalidConfig
       else res_bind (deriveSessionKeys H (auth_key H (sh_config s) (hd ms)) (response_transcript s r)) (\<lambda>keys.
         Inr (\<lparr>co_Tag = calculateTag H (auth_key H (sh_config s) (hd ms)) ''NP2 confirm'' (response_transcript s r)\<rparr>,
              keys, cr_ID (hd ms)))),
      s\<lparr>sh_used := True\<rparr>)"
proof -
  let ?fs = "filter (tag_matches H (sh_config s) (response_transcript s r) (rs_Tag r)) creds"
  from assms have g: "\<not> (length creds = 0 \<or> length creds > MaxServerCredentials)"
    "list_all (credential_ok (sh_config s)) creds" "\<not> sh_used s"
    "\<not> (now - sh_createdAt s < 0 \<or> now - sh_createdAt s > MaxChallengeAge)"
    "\<not> (\<not> features_valid (rs_RequestedFeatures r) \<or> rs_RequestedFeatures r AND NOT (sh_supportedFeatures s) \<noteq> 0)"
    "\<not> (wants_device (rs_RequestedFeatures r) \<and> DeviceID_IsZero (rs_DeviceID r))"
    unfolding request_ok_def by auto
  show ?thesis
    unfolding VerifyResponseWithCredentials_def Let_def
    by (cases ?fs) (simp_all only: g match_credentials_eq if_False if_True simp_thms list.case res_bind_simps prod.case,
        simp_all add: Let_def)
qed

lemma VerifyResponse_accepts_iff:
  "VerifyResponseWithCredentials H s r now creds = (Inr (confirm, keys, mid), s') \<longleftrightarrow>
     request_ok s r now creds \<and> s' = s\<lparr>sh_used := True\<rparr>
     \<and> (\<exists>cred. filter (tag_matches H (sh_config s) (response_transcript s r) (rs_Tag r)) creds = [cred]
          \<and> mid = cr_ID cred
          \<and> deriveSessionKeys H (auth_key H (sh_config s) cred) (response_transcript s r) = Inr keys
          \<and> confirm = \<lparr>co_Tag = calculateTag H (auth_key H (sh_config s) cred) ''NP2 confirm''
                                (response_transcript s r)\<rparr>)"
  (is "?lhs \<longleftrightarrow> ?rhs")
proof
  assume l: ?lhs
  then have ok: "request_ok s r now creds"
    using VerifyResponse_request_ok [of H s r now creds "(confirm, keys, mid)"] by simp
  from l show ?rhs
    unfolding VerifyResponse_eq [OF ok] Let_def
    by (auto simp: ok length_Suc_conv split: if_split_asm)
next
  assume r: ?rhs
  then have ok: "request_ok s r now creds" by simp
  from r show ?lhs unfolding VerifyResponse_eq [OF ok] Let_def by auto
qed

end

section \<open>A challenge is answered once\<close>

text \<open>A sequence of verification attempts against one server handshake.\<close>

fun verify_run ::
  "hash \<Rightarrow> ServerHandshake \<Rightarrow> (Response \<times> int \<times> Credential list) list
     \<Rightarrow> (protocol_error + Confirm \<times> SessionKeys \<times> bytes) list" where
  "verify_run H s [] = []"
| "verify_run H s ((r, now, creds) # calls) =
     (case VerifyResponseWithCredentials H s r now creds of
        (result, s') \<Rightarrow> result # verify_run H s' calls)"

abbreviation evaluated :: "protocol_error + 'a \<Rightarrow> bool" where
  "evaluated result \<equiv> result \<notin> {Inl ErrInvalidConfig, Inl ErrChallengeUsed}"

lemma verify_run_used: "sh_used s \<Longrightarrow> filter evaluated (verify_run H s calls) = []"
proof (induction calls arbitrary: s)
  case Nil
  then show ?case by simp
next
  case (Cons call calls)
  obtain r now creds where call: "call = (r, now, creds)" by (cases call)
  obtain result s' where v: "VerifyResponseWithCredentials H s r now creds = (result, s')" by fastforce
  have "sh_used s'" using VerifyResponse_state [of H s r now creds] Cons.prems v by auto
  moreover have "\<not> evaluated result" using VerifyResponse_marks_used [of H s r now creds] Cons.prems v by auto
  ultimately show ?case using Cons.IH by (simp add: call v)
qed

text \<open>
  C19 (safety). A challenge is single use: in any sequence of verification attempts, with any
  responses, instants and credential lists, at most one attempt is evaluated at all. Every other
  attempt is refused as a configuration error or as a used challenge, so a captured response can
  never be replayed against the same challenge.
\<close>

theorem challenge_single_use: "length (filter evaluated (verify_run H s calls)) \<le> 1"
proof (induction calls arbitrary: s)
  case Nil
  then show ?case by simp
next
  case (Cons call calls)
  obtain r now creds where call: "call = (r, now, creds)" by (cases call)
  obtain result s' where v: "VerifyResponseWithCredentials H s r now creds = (result, s')" by fastforce
  show ?case
  proof (cases "evaluated result")
    case True
    then have "sh_used s'" using VerifyResponse_marks_used [of H s r now creds] v by simp
    with True verify_run_used show ?thesis by (simp add: call v)
  next
    case False
    with Cons.IH show ?thesis by (auto simp: call v)
  qed
qed

section \<open>Honest runs\<close>

context hash32
begin

lemma length_calculateTag: "length (calculateTag H key label transcript) = 32"
  by (simp add: calculateTag_def length_hmac)

lemma deriveAuthKey_self:
  assumes "cr_RootSecret cred = hc_RootSecret config" and "hc_ServerIdentity config = hc_ServerIdentity config'"
  shows "deriveAuthKey H config = Inr (auth_key H config' cred)"
  using deriveAuthKey_credential [of cred config] assms by (simp add: auth_key_def)

lemma RespondToChallenge_honest:
  assumes "config_validate config = None" and "wf_challenge ch" and "features_valid requested"
    and "requested AND NOT (ch_SupportedFeatures ch) = 0"
    and "wants_device requested \<Longrightarrow> \<not> DeviceID_IsZero (hc_DeviceID config)"
    and "NonceSize \<le> length random"
    and "cr_RootSecret cred = hc_RootSecret config" and "hc_ServerIdentity config = hc_ServerIdentity config'"
  obtains keys where
    "deriveSessionKeys H (auth_key H config' cred)
       (buildTranscript config ch (take 32 random) requested (hc_DeviceID config)) = Inr keys"
    "RespondToChallenge H config ch requested random =
       Inr (\<lparr>rs_ClientNonce = take 32 random, rs_RequestedFeatures = requested,
             rs_DeviceID = (if wants_device requested then hc_DeviceID config else zero_bytes 16),
             rs_Tag = calculateTag H (auth_key H config' cred) ''NP2 response''
               (buildTranscript config ch (take 32 random) requested (hc_DeviceID config))\<rparr>,
            \<lparr>cl_expectedConfirm = calculateTag H (auth_key H config' cred) ''NP2 confirm''
               (buildTranscript config ch (take 32 random) requested (hc_DeviceID config)), cl_keys = keys\<rparr>)"
proof -
  let ?T = "buildTranscript config ch (take 32 random) requested (hc_DeviceID config)"
  have T: "buildTranscript config ch (take 32 random) requested
      (if wants_device requested then hc_DeviceID config else zero_bytes 16) = ?T"
    by (simp add: buildTranscript_def)
  obtain keys where keys: "deriveSessionKeys H (auth_key H config' cred) ?T = Inr keys"
    using deriveSessionKeys_total by blast
  have nonce: "fst (read_full 32 random) = Some (take 32 random)"
    using assms(6) by (simp add: read_full_def)
  have guards: "\<not> (ch_Version ch \<noteq> Version \<or> \<not> features_valid (ch_SupportedFeatures ch))"
    "\<not> (\<not> features_valid requested \<or> requested AND NOT (ch_SupportedFeatures ch) \<noteq> 0)"
    "\<not> (wants_device requested \<and> DeviceID_IsZero (hc_DeviceID config))"
    using assms(2,3,4,5) by (auto simp: wf_challenge_def)
  show thesis
  proof (rule that [OF keys])
    show "RespondToChallenge H config ch requested random =
       Inr (\<lparr>rs_ClientNonce = take 32 random, rs_RequestedFeatures = requested,
             rs_DeviceID = (if wants_device requested then hc_DeviceID config else zero_bytes 16),
             rs_Tag = calculateTag H (auth_key H config' cred) ''NP2 response'' ?T\<rparr>,
            \<lparr>cl_expectedConfirm = calculateTag H (auth_key H config' cred) ''NP2 confirm'' ?T, cl_keys = keys\<rparr>)"
      unfolding RespondToChallenge_def Let_def
      by (simp only: assms(1) guards nonce deriveAuthKey_self [OF assms(7,8)] T keys option.case if_False
          res_bind_simps)
  qed
qed

end

lemma NewServerHandshake_honest:
  assumes "config_validate config = None" and "features_valid supported" and "NonceSize \<le> length random"
  defines "ch \<equiv> \<lparr>ch_Version = Version, ch_ServerNonce = take 32 random, ch_SupportedFeatures = supported\<rparr>"
  shows "NewServerHandshake config supported t0 random =
      Inr (\<lparr>sh_config = config, sh_challenge = ch, sh_createdAt = t0, sh_used = False,
            sh_supportedFeatures = supported\<rparr>, ch)"
    and "wf_challenge ch"
  using assms by (simp_all add: NewServerHandshake_def read_full_def wf_challenge_def Let_def)

lemma filter_unique:
  assumes "distinct xs" and "x \<in> set xs" and "P x" and "\<forall>y\<in>set xs. y \<noteq> x \<longrightarrow> \<not> P y"
  shows "filter P xs = [x]"
proof -
  have "set (filter P xs) = {x}" using assms by auto
  moreover have "distinct (filter P xs)" using assms(1) by simp
  ultimately show ?thesis
    by (metis distinct.simps(2) distinct_length_2_or_more empty_iff empty_set insert_iff list.set_cases
        list.simps(15) neq_Nil_conv singletonD singletonI)
qed

text \<open>
  Honest agreement. A server and a client with valid configurations, the same server identity and
  carrier, and a credential of the server's list that holds the client's secret, complete the handshake
  over the wire with the same session keys. The only assumption on the hash is that no other credential
  of the list gives the client's tag on this transcript \<open>T\<close>.
\<close>

context hash32
begin

lemma handshake_honest:
  assumes server: "config_validate sconf = None" "features_valid supported" "NonceSize \<le> length srandom"
    and client: "config_validate cconf = None" "features_valid requested" "requested AND NOT supported = 0"
      "NonceSize \<le> length crandom" "length (hc_DeviceID cconf) = 16"
      "wants_device requested \<Longrightarrow> \<not> DeviceID_IsZero (hc_DeviceID cconf)"
    and same: "hc_ServerIdentity cconf = hc_ServerIdentity sconf" "hc_Carrier cconf = hc_Carrier sconf"
    and creds: "cred \<in> set creds" "distinct creds" "length creds \<le> MaxServerCredentials"
      "list_all (credential_ok sconf) creds" "cr_RootSecret cred = hc_RootSecret cconf"
    and time: "0 \<le> now - t0" "now - t0 \<le> MaxChallengeAge"
    and T: "T = buildTranscript sconf \<lparr>ch_Version = Version, ch_ServerNonce = take 32 srandom,
      ch_SupportedFeatures = supported\<rparr> (take 32 crandom) requested (hc_DeviceID cconf)"
    and others: "\<forall>c\<in>set creds. c \<noteq> cred \<longrightarrow>
      \<not> tag_matches H sconf T (calculateTag H (auth_key H sconf cred) ''NP2 response'' T) c"
  shows "\<exists>s ch resp cl confirm keys.
      NewServerHandshake sconf supported t0 srandom = Inr (s, ch)
      \<and> ParseChallenge (Challenge_MarshalBinary ch) = Inr ch \<and> ch_SupportedFeatures ch = supported
      \<and> RespondToChallenge H cconf ch requested crandom = Inr (resp, cl)
      \<and> rs_RequestedFeatures resp = requested
      \<and> rs_DeviceID resp = (if wants_device requested then hc_DeviceID cconf else zero_bytes 16)
      \<and> deriveSessionKeys H (auth_key H sconf cred) T = Inr keys
      \<and> ParseResponse (Response_MarshalBinary resp) = Inr resp
      \<and> VerifyResponseWithCredentials H s resp now creds = (Inr (confirm, keys, cr_ID cred), s\<lparr>sh_used := True\<rparr>)
      \<and> ParseConfirm (Confirm_MarshalBinary confirm) = Inr confirm
      \<and> VerifyConfirm (Some cl) confirm = Inr keys"
proof -
  let ?ch = "\<lparr>ch_Version = Version, ch_ServerNonce = take 32 srandom, ch_SupportedFeatures = supported\<rparr>"
  let ?s = "\<lparr>sh_config = sconf, sh_challenge = ?ch, sh_createdAt = t0, sh_used = False, sh_supportedFeatures = supported\<rparr>"
  let ?k = "auth_key H sconf cred"
  let ?resp = "\<lparr>rs_ClientNonce = take 32 crandom, rs_RequestedFeatures = requested,
     rs_DeviceID = (if wants_device requested then hc_DeviceID cconf else zero_bytes 16),
     rs_Tag = calculateTag H ?k ''NP2 response'' T\<rparr>"
  let ?confirm = "\<lparr>co_Tag = calculateTag H ?k ''NP2 confirm'' T\<rparr>"
  have new: "NewServerHandshake sconf supported t0 srandom = Inr (?s, ?ch)" and wfc: "wf_challenge ?ch"
    using NewServerHandshake_honest [OF server] by simp_all
  have T': "buildTranscript cconf ?ch (take 32 crandom) requested (hc_DeviceID cconf) = T"
    unfolding T using same by (simp add: buildTranscript_def)
  have sub: "requested AND NOT (ch_SupportedFeatures ?ch) = 0" using client(3) by simp
  obtain keys where keys: "deriveSessionKeys H ?k T = Inr keys"
    and respond: "RespondToChallenge H cconf ?ch requested crandom =
      Inr (?resp, \<lparr>cl_expectedConfirm = calculateTag H ?k ''NP2 confirm'' T, cl_keys = keys\<rparr>)"
    using RespondToChallenge_honest [OF client(1) wfc client(2) sub client(6) client(4) creds(5) same(1)]
    unfolding T' by blast
  have "wf_response ?resp"
    using client by (simp add: wf_response_def length_calculateTag DeviceID_IsZero_def)
  then have parse: "ParseResponse (Response_MarshalBinary ?resp) = Inr ?resp" by (rule ParseResponse_Marshal)
  have tr: "response_transcript ?s ?resp = T" unfolding T by (simp add: buildTranscript_def)
  have "filter (tag_matches H sconf T (rs_Tag ?resp)) creds = [cred]"
    using creds(2,1) by (rule filter_unique) (use others in \<open>simp_all add: tag_matches_def\<close>)
  moreover have "request_ok ?s ?resp now creds"
    using creds time client unfolding request_ok_def by (cases creds) simp_all
  ultimately have verify: "VerifyResponseWithCredentials H ?s ?resp now creds =
      (Inr (?confirm, keys, cr_ID cred), ?s\<lparr>sh_used := True\<rparr>)"
    unfolding VerifyResponse_accepts_iff tr using keys by simp
  have "ParseConfirm (Confirm_MarshalBinary ?confirm) = Inr ?confirm"
    by (simp add: ParseConfirm_def Confirm_MarshalBinary_def length_calculateTag)
  moreover have "VerifyConfirm (Some \<lparr>cl_expectedConfirm = calculateTag H ?k ''NP2 confirm'' T, cl_keys = keys\<rparr>)
      ?confirm = Inr keys" by (simp add: VerifyConfirm_def)
  ultimately show ?thesis using new ParseChallenge_Marshal [OF wfc] respond parse verify keys
    by (intro exI [of _ ?s] exI [of _ ?ch] exI [of _ ?resp] exI [of _ ?confirm] exI [of _ keys] exI) simp
qed

end

text \<open>
  C18 (safety). The server accepts a response exactly when the request is well formed, fresh and
  within the age window, asks for supported features only, and its tag is the tag of one and only
  one credential of the list on the transcript the server itself rebuilt; the reported id, the keys
  and the confirmation are those of that credential. In particular a response whose tag matches no
  credential, or two of them, is refused.
\<close>

theorem server_accepts_iff:
  "VerifyResponseWithCredentials sha256 s r now creds = (Inr (confirm, keys, mid), s') \<longleftrightarrow>
     request_ok s r now creds \<and> s' = s\<lparr>sh_used := True\<rparr>
     \<and> (\<exists>cred. filter (tag_matches sha256 (sh_config s) (response_transcript s r) (rs_Tag r)) creds = [cred]
          \<and> mid = cr_ID cred
          \<and> deriveSessionKeys sha256 (auth_key sha256 (sh_config s) cred) (response_transcript s r) = Inr keys
          \<and> confirm = \<lparr>co_Tag = calculateTag sha256 (auth_key sha256 (sh_config s) cred) ''NP2 confirm''
                                (response_transcript s r)\<rparr>)"
  by (rule sha.VerifyResponse_accepts_iff)

section \<open>Forward secrecy\<close>

text \<open>
  A key pair holds the private key behind a pointer. \<open>generated\<close> is what \<open>ecdh.X25519().GenerateKey\<close>
  returned (the standard library draws the key itself), \<open>random_nil\<close> whether the reader is nil.
\<close>

record X25519KeyPair =
  kp_private :: "bytes option"
  kp_public :: bytes

definition x25519KeyPair :: "(bytes \<Rightarrow> bytes) \<Rightarrow> bytes option \<Rightarrow> protocol_error + X25519KeyPair" where
  "x25519KeyPair pub private =
     (case private of
        None \<Rightarrow> Inl ErrForwardSecrecy
      | Some k \<Rightarrow> if length (pub k) \<noteq> 32 then Inl ErrForwardSecrecy
                  else Inr \<lparr>kp_private = Some k, kp_public = pub k\<rparr>)"

definition GenerateX25519KeyPair ::
  "(bytes \<Rightarrow> bytes) \<Rightarrow> bool \<Rightarrow> bytes option \<Rightarrow> protocol_error + X25519KeyPair" where
  "GenerateX25519KeyPair pub random_nil generated =
     (if random_nil then Inl ErrForwardSecrecy
      else case generated of None \<Rightarrow> Inl ErrForwardSecrecy | Some k \<Rightarrow> x25519KeyPair pub (Some k))"

definition KeyPair_Public :: "X25519KeyPair option \<Rightarrow> bytes" where
  "KeyPair_Public p = (case p of None \<Rightarrow> zero_bytes 32 | Some p \<Rightarrow> kp_public p)"

definition DeriveForwardSecretSessionKeys ::
  "hash \<Rightarrow> (bytes \<Rightarrow> bytes \<Rightarrow> bytes option) \<Rightarrow> SessionKeys \<Rightarrow> X25519KeyPair option \<Rightarrow> bytes \<Rightarrow> bytes \<Rightarrow> bytes
     \<Rightarrow> protocol_error + SessionKeys" where
  "DeriveForwardSecretSessionKeys H dh base local peerPublic serverPublic clientPublic =
     (case local of
        None \<Rightarrow> Inl ErrForwardSecrecy
      | Some pair \<Rightarrow>
        (case kp_private pair of
           None \<Rightarrow> Inl ErrForwardSecrecy
         | Some private \<Rightarrow>
           if sk_Control base = zero_bytes 32 \<or> peerPublic = zero_bytes 32 \<or> serverPublic = zero_bytes 32
              \<or> clientPublic = zero_bytes 32
              \<or> kp_public pair \<noteq> serverPublic \<and> kp_public pair \<noteq> clientPublic
           then Inl ErrForwardSecrecy
           else case dh private peerPublic of
                  None \<Rightarrow> Inl ErrForwardSecrecy
                | Some shared \<Rightarrow>
                    let salt = H (str ''Neproto NP/2 X25519 v1'' @ [0] @ sk_Control base @ serverPublic @ clientPublic) in
                    or_else (
                      res_bind (derive H shared salt ''NP2 FS control'' 32) (\<lambda>control.
                      res_bind (derive H shared salt ''NP2 FS cell c2s'' 32) (\<lambda>clientToServer.
                      res_bind (derive H shared salt ''NP2 FS cell s2c'' 32) (\<lambda>serverToClient.
                      res_bind (derive H shared salt ''NP2 FS nonce c2s'' 4) (\<lambda>clientNonce.
                      res_bind (derive H shared salt ''NP2 FS nonce s2c'' 4) (\<lambda>serverNonce.
                      Inr (base\<lparr>sk_Control := control, sk_ClientToServer := clientToServer,
                                sk_ServerToClient := serverToClient, sk_ClientToServerNonce := clientNonce,
                                sk_ServerToClientNonce := serverNonce\<rparr>)))))))
                    ErrForwardSecrecy))"

definition forwardSecretProof :: "hash \<Rightarrow> SessionKeys \<Rightarrow> bytes \<Rightarrow> bytes \<Rightarrow> bytes \<Rightarrow> protocol_error + bytes" where
  "forwardSecretProof H keys serverPublic clientPublic label =
     (if sk_Control keys = zero_bytes 32 \<or> serverPublic = zero_bytes 32 \<or> clientPublic = zero_bytes 32
      then Inl ErrForwardSecrecy
      else Inr (hmac H (sk_Control keys) (label @ serverPublic @ clientPublic)))"

definition ForwardSecretConfirmation :: "hash \<Rightarrow> SessionKeys \<Rightarrow> bytes \<Rightarrow> bytes \<Rightarrow> protocol_error + bytes" where
  "ForwardSecretConfirmation H keys serverPublic clientPublic =
     forwardSecretProof H keys serverPublic clientPublic (str ''NP2 forward secrecy ready'' @ [0])"

definition ForwardSecretAcknowledgement :: "hash \<Rightarrow> SessionKeys \<Rightarrow> bytes \<Rightarrow> bytes \<Rightarrow> protocol_error + bytes" where
  "ForwardSecretAcknowledgement H keys serverPublic clientPublic =
     forwardSecretProof H keys serverPublic clientPublic (str ''NP2 forward secrecy acknowledged'' @ [0])"

lemma x25519KeyPair_eq_Inr:
  "x25519KeyPair pub private = Inr pair \<longleftrightarrow>
     (\<exists>k. private = Some k \<and> length (pub k) = 32 \<and> pair = \<lparr>kp_private = Some k, kp_public = pub k\<rparr>)"
  by (auto simp: x25519KeyPair_def split: option.splits)

context hash32
begin

lemma DeriveForwardSecret_total:
  assumes pair: "pair = \<lparr>kp_private = Some k, kp_public = p\<rparr>" and own: "p = sp \<or> p = cp"
    and base: "sk_Control base \<noteq> zero_bytes 32" and nz: "peer \<noteq> zero_bytes 32" "sp \<noteq> zero_bytes 32" "cp \<noteq> zero_bytes 32"
    and dh: "dh k peer = Some shared"
  shows "\<exists>keys. DeriveForwardSecretSessionKeys H dh base (Some pair) peer sp cp = Inr keys
     \<and> sk_HeaderMap keys = sk_HeaderMap base \<and> sk_Padding keys = sk_Padding base
     \<and> length (sk_Control keys) = 32 \<and> length (sk_ClientToServer keys) = 32 \<and> length (sk_ServerToClient keys) = 32
     \<and> length (sk_ClientToServerNonce keys) = 4 \<and> length (sk_ServerToClientNonce keys) = 4"
proof -
  let ?salt = "H (str ''Neproto NP/2 X25519 v1'' @ [0] @ sk_Control base @ sp @ cp)"
  have "\<forall>info. \<exists>k. derive H shared ?salt info 32 = Inr k \<and> length k = 32"
    "\<forall>info. \<exists>k. derive H shared ?salt info 4 = Inr k \<and> length k = 4"
    by (simp_all add: derive_total)
  then obtain k32 k4 where
    "\<And>info. derive H shared ?salt info 32 = Inr (k32 info) \<and> length (k32 info) = 32"
    "\<And>info. derive H shared ?salt info 4 = Inr (k4 info) \<and> length (k4 info) = 4"
    by metis
  then show ?thesis using own base nz dh by (simp add: DeriveForwardSecretSessionKeys_def pair)
qed

end

text \<open>
  Forward-secret key agreement. For key pairs built by \<open>x25519KeyPair\<close>, when the shared secret exists and
  Diffie-Hellman commutes on the two private keys (the documented property of X25519), both calls of
  \<open>DeriveForwardSecretSessionKeys\<close> succeed with the same keys.
\<close>

context hash32
begin

lemma forward_secret_agrees:
  assumes pairs: "x25519KeyPair pub (Some a) = Inr server" "x25519KeyPair pub (Some b) = Inr client"
    and commutes: "dh a (pub b) = dh b (pub a)" and shared: "dh a (pub b) = Some shared"
    and base: "sk_Control base \<noteq> zero_bytes 32"
    and nz: "kp_public server \<noteq> zero_bytes 32" "kp_public client \<noteq> zero_bytes 32"
  shows "\<exists>keys.
      DeriveForwardSecretSessionKeys H dh base (Some server) (kp_public client) (kp_public server) (kp_public client)
        = Inr keys
      \<and> DeriveForwardSecretSessionKeys H dh base (Some client) (kp_public server) (kp_public server) (kp_public client)
        = Inr keys
      \<and> sk_HeaderMap keys = sk_HeaderMap base \<and> sk_Padding keys = sk_Padding base
      \<and> length (sk_Control keys) = 32 \<and> length (sk_ClientToServer keys) = 32 \<and> length (sk_ServerToClient keys) = 32
      \<and> length (sk_ClientToServerNonce keys) = 4 \<and> length (sk_ServerToClientNonce keys) = 4"
proof -
  from pairs have p: "server = \<lparr>kp_private = Some a, kp_public = pub a\<rparr>" "client = \<lparr>kp_private = Some b, kp_public = pub b\<rparr>"
    by (auto simp: x25519KeyPair_eq_Inr)
  have "dh a (kp_public client) = Some shared" using shared p by simp
  note server = DeriveForwardSecret_total [OF p(1) disjI1 base nz(2,1,2), where dh = dh, OF _ this]
  have "DeriveForwardSecretSessionKeys H dh base (Some client) (pub a) (pub a) (pub b) =
        DeriveForwardSecretSessionKeys H dh base (Some server) (pub b) (pub a) (pub b)"
    using commutes nz by (simp add: DeriveForwardSecretSessionKeys_def p)
  with server show ?thesis by (simp add: p)
qed

end

section \<open>Wire messages and transcript\<close>

text \<open>
  C30 (roundtrip). The three authentication messages have one encoding each: a byte string parses
  to a message exactly when the message is well formed (array sizes, protocol version, known feature
  bits, a device identity present exactly when the feature bit asks for one) and its marshalled form
  is that byte string.
\<close>

theorem auth_messages_exact:
  "(ParseChallenge raw = Inr ch \<longleftrightarrow> wf_challenge ch \<and> Challenge_MarshalBinary ch = raw)
   \<and> (ParseResponse raw = Inr r \<longleftrightarrow> wf_response r \<and> Response_MarshalBinary r = raw)
   \<and> (ParseConfirm raw = Inr co \<longleftrightarrow> wf_confirm co \<and> Confirm_MarshalBinary co = raw)"
  using challenge.marshal_iff_parse [of ch raw] response.marshal_iff_parse [of r raw]
    confirm.marshal_iff_parse [of co raw] by simp

definition sample_handshake_config :: HandshakeConfig where
  "sample_handshake_config = \<lparr>hc_RootSecret = replicate 32 1, hc_ServerIdentity = str ''np.example'',
     hc_Carrier = CarrierHTTPS, hc_DeviceID = replicate 16 3\<rparr>"



end
