(* ===== verification/NP_Session_Error.thy ===== *)
theory NP_Session_Error
  imports NP_Cell
begin

text \<open>
  The error values and roles of package \<open>internal/session\<close>, shared by its components. An error
  made by \<open>fmtProtocol\<close> or wrapped around \<open>ErrProtocol\<close> keeps its detail text. \<open>ErrCarrier\<close> stands for
  an error of the underlying carrier, \<open>ErrCell\<close> for an error of the cell codec, \<open>ErrCanceled\<close> for
  the error of a cancelled context.
\<close>

datatype session_error =
    ErrClosed | ErrProtocol string | ErrRejected | RejectError byte | ErrReset | ErrStreamLimit | ErrPingLimit
  | ErrSessionConfig | ErrRecordAuthentication | ErrRecordSequenceExhausted | ErrRecordTooLarge
  | ErrDatagramTooLarge | ErrDatagramUnavailable | ErrDatagramAssociationExists | ErrDatagramEndpointClosed
  | ErrCarrierLost | ErrContinuityControl | ErrExtensionNegotiation | ErrRequiredExtension
  | ErrEOF | ErrClosedPipe | ErrCanceled | ErrCarrier | ErrCell protocol_error | ErrAEADKey

text \<open>\<open>errors.Is(err, ErrProtocol)\<close>.\<close>

definition is_ErrProtocol :: "session_error \<Rightarrow> bool" where
  "is_ErrProtocol e = (case e of ErrProtocol _ \<Rightarrow> True | _ \<Rightarrow> False)"

type_synonym Role = byte

abbreviation RoleClient :: Role where "RoleClient \<equiv> 1"
abbreviation RoleServer :: Role where "RoleServer \<equiv> 2"

end
