(* ===== verification/NP_Record.thy ===== *)
theory NP_Record
  imports NP_Auth NP_Session_Error
begin

text \<open>
  The encrypted record layer (\<open>internal/session/encrypted_carrier.go\<close>):
  the per-direction counters, the epoch ratchet and the two forms of rekeying.
  The AEAD is third-party code: its two operations are the arguments \<open>seal\<close> and \<open>opn\<close>
  (key, nonce, text, associated data), and an AEAD instance is represented by the key it was made
  from. \<open>aead_correct\<close> states what the code relies on. The outcome of the inner carrier's \<open>Send\<close> is
  an argument too; contexts are assumed to be non-nil.
\<close>

section \<open>State\<close>

abbreviation recordDirectionClientToServer :: byte where "recordDirectionClientToServer \<equiv> 1"
abbreviation recordDirectionServerToClient :: byte where "recordDirectionServerToClient \<equiv> 2"
abbreviation recordKeyEpochInterval :: u64 where "recordKeyEpochInterval \<equiv> 16384"
abbreviation aead_overhead :: nat where "aead_overhead \<equiv> 16"

record recordRekey =
  rk_sendAEAD :: bytes
  rk_receiveAEAD :: bytes
  rk_sendKey :: bytes
  rk_receiveKey :: bytes
  rk_sendPrefix :: bytes
  rk_receivePrefix :: bytes

text \<open>\<open>ec_innerKind\<close> and \<open>ec_innerClosed\<close> are what the record layer sees of the inner carrier.\<close>

record encryptedCarrier =
  ec_innerKind :: CarrierKind
  ec_innerClosed :: bool
  ec_sendAEAD :: bytes
  ec_receiveAEAD :: bytes
  ec_sendKey :: bytes
  ec_receiveKey :: bytes
  ec_sendPrefix :: bytes
  ec_receivePrefix :: bytes
  ec_sendDirection :: byte
  ec_recvDirection :: byte
  ec_sendCounter :: u64
  ec_recvCounter :: u64
  ec_sendEpoch :: u64
  ec_receiveEpoch :: u64
  ec_epochInterval :: u64
  ec_pendingRekey :: "recordRekey option"

definition ec_Close :: "encryptedCarrier \<Rightarrow> encryptedCarrier" where
  "ec_Close c = c\<lparr>ec_innerClosed := True\<rparr>"

definition newAEAD :: "bytes \<Rightarrow> session_error + bytes" where
  "newAEAD key = (if length key \<noteq> 32 then Inl ErrAEADKey else Inr key)"

definition newEncryptedCarrier :: "CarrierKind option \<Rightarrow> Role \<Rightarrow> SessionKeys \<Rightarrow> session_error + encryptedCarrier" where
  "newEncryptedCarrier inner role keys =
     (case inner of
        None \<Rightarrow> Inl ErrSessionConfig
      | Some kind \<Rightarrow>
        if role \<noteq> RoleClient \<and> role \<noteq> RoleServer \<or> sk_ClientToServer keys = zero_bytes 32
           \<or> sk_ServerToClient keys = zero_bytes 32
        then Inl ErrSessionConfig
        else
          let (sendKey, receiveKey) = (if role = RoleServer then (sk_ServerToClient keys, sk_ClientToServer keys)
                                       else (sk_ClientToServer keys, sk_ServerToClient keys));
              (sendPrefix, receivePrefix) =
                (if role = RoleServer then (sk_ServerToClientNonce keys, sk_ClientToServerNonce keys)
                 else (sk_ClientToServerNonce keys, sk_ServerToClientNonce keys));
              (sendDirection, recvDirection) =
                (if role = RoleServer then (recordDirectionServerToClient, recordDirectionClientToServer)
                 else (recordDirectionClientToServer, recordDirectionServerToClient))
          in res_bind (newAEAD sendKey) (\<lambda>sendAEAD. res_bind (newAEAD receiveKey) (\<lambda>receiveAEAD.
             Inr \<lparr>ec_innerKind = kind, ec_innerClosed = False, ec_sendAEAD = sendAEAD, ec_receiveAEAD = receiveAEAD,
                  ec_sendKey = sendKey, ec_receiveKey = receiveKey, ec_sendPrefix = sendPrefix,
                  ec_receivePrefix = receivePrefix, ec_sendDirection = sendDirection,
                  ec_recvDirection = recvDirection, ec_sendCounter = 0, ec_recvCounter = 0, ec_sendEpoch = 0,
                  ec_receiveEpoch = 0, ec_epochInterval = 0, ec_pendingRekey = None\<rparr>)))"

section \<open>Nonces, associated data and the epoch ratchet\<close>

definition recordNonce :: "bytes \<Rightarrow> u64 \<Rightarrow> bytes" where
  "recordNonce prefix counter = prefix @ put_uint64 counter"

text \<open>The 17 bytes of the label are followed by one zero byte of the array.\<close>

definition recordAssociatedData :: "CarrierKind \<Rightarrow> byte \<Rightarrow> u64 \<Rightarrow> u64 \<Rightarrow> bytes" where
  "recordAssociatedData kind direction counter epoch =
     str ''Neproto NP/2 cell'' @ [0, Version, kind, direction] @ put_uint64 counter @ put_uint64 epoch"

definition deriveRecordEpochKey :: "hash \<Rightarrow> bytes \<Rightarrow> byte \<Rightarrow> u64 \<Rightarrow> bytes" where
  "deriveRecordEpochKey H current direction epoch =
     hmac H current (str ''NeProto NP/2 record epoch v1'' @ [direction] @ put_uint64 epoch)"

definition rotateSendEpochIfNeeded :: "hash \<Rightarrow> encryptedCarrier \<Rightarrow> session_error + encryptedCarrier" where
  "rotateSendEpochIfNeeded H c =
     (if ec_epochInterval c = 0 \<or> ec_sendCounter c = 0 \<or> ec_sendCounter c mod ec_epochInterval c \<noteq> 0 then Inr c
      else
        let nextEpoch = ec_sendEpoch c + 1;
            nextKey = deriveRecordEpochKey H (ec_sendKey c) (ec_sendDirection c) nextEpoch
        in res_bind (newAEAD nextKey) (\<lambda>nextAEAD.
           Inr (c\<lparr>ec_sendKey := nextKey, ec_sendAEAD := nextAEAD, ec_sendEpoch := nextEpoch\<rparr>)))"

definition rotateReceiveEpochIfNeeded :: "hash \<Rightarrow> encryptedCarrier \<Rightarrow> session_error + encryptedCarrier" where
  "rotateReceiveEpochIfNeeded H c =
     (if ec_epochInterval c = 0 \<or> ec_recvCounter c = 0 \<or> ec_recvCounter c mod ec_epochInterval c \<noteq> 0 then Inr c
      else
        let nextEpoch = ec_receiveEpoch c + 1;
            nextKey = deriveRecordEpochKey H (ec_receiveKey c) (ec_recvDirection c) nextEpoch
        in res_bind (newAEAD nextKey) (\<lambda>nextAEAD.
           Inr (c\<lparr>ec_receiveKey := nextKey, ec_receiveAEAD := nextAEAD, ec_receiveEpoch := nextEpoch\<rparr>)))"

section \<open>Rekeying\<close>

definition prepareRekey :: "encryptedCarrier \<Rightarrow> SessionKeys \<Rightarrow> session_error + recordRekey" where
  "prepareRekey c keys =
     (if sk_ClientToServer keys = zero_bytes 32 \<or> sk_ServerToClient keys = zero_bytes 32 then Inl ErrSessionConfig
      else
        let server = (ec_sendDirection c = recordDirectionServerToClient);
            (sendKey, receiveKey) = (if server then (sk_ServerToClient keys, sk_ClientToServer keys)
                                     else (sk_ClientToServer keys, sk_ServerToClient keys));
            (sendPrefix, receivePrefix) = (if server then (sk_ServerToClientNonce keys, sk_ClientToServerNonce keys)
                                           else (sk_ClientToServerNonce keys, sk_ServerToClientNonce keys))
        in res_bind (newAEAD sendKey) (\<lambda>sendAEAD. res_bind (newAEAD receiveKey) (\<lambda>receiveAEAD.
           Inr \<lparr>rk_sendAEAD = sendAEAD, rk_receiveAEAD = receiveAEAD, rk_sendKey = sendKey,
                rk_receiveKey = receiveKey, rk_sendPrefix = sendPrefix, rk_receivePrefix = receivePrefix\<rparr>)))"

definition applyRekeyLocked :: "recordRekey \<Rightarrow> encryptedCarrier \<Rightarrow> encryptedCarrier" where
  "applyRekeyLocked t c =
     c\<lparr>ec_sendAEAD := rk_sendAEAD t, ec_receiveAEAD := rk_receiveAEAD t, ec_sendKey := rk_sendKey t,
       ec_receiveKey := rk_receiveKey t, ec_sendPrefix := rk_sendPrefix t, ec_receivePrefix := rk_receivePrefix t,
       ec_sendCounter := 0, ec_recvCounter := 0, ec_sendEpoch := 0, ec_receiveEpoch := 0,
       ec_epochInterval := recordKeyEpochInterval\<rparr>"

definition ec_rekey :: "SessionKeys \<Rightarrow> encryptedCarrier \<Rightarrow> session_error + encryptedCarrier" where
  "ec_rekey keys c =
     res_bind (prepareRekey c keys) (\<lambda>transition. Inr ((applyRekeyLocked transition c)\<lparr>ec_pendingRekey := None\<rparr>))"

definition rekeyAfterNextSend :: "SessionKeys \<Rightarrow> encryptedCarrier \<Rightarrow> session_error + encryptedCarrier" where
  "rekeyAfterNextSend keys c =
     res_bind (prepareRekey c keys) (\<lambda>transition.
       if ec_pendingRekey c \<noteq> None then Inl ErrSessionConfig
       else Inr (c\<lparr>ec_pendingRekey := Some transition\<rparr>))"

section \<open>Sending and receiving a record\<close>

text \<open>
  \<open>ec_Send seal H outcome c p\<close>: \<open>outcome\<close> is the error of the inner carrier's \<open>Send\<close>, \<open>None\<close> when it
  takes the record, which is then the result.
\<close>

definition ec_Send ::
  "(bytes \<Rightarrow> bytes \<Rightarrow> bytes \<Rightarrow> bytes \<Rightarrow> bytes) \<Rightarrow> hash \<Rightarrow> session_error option \<Rightarrow> encryptedCarrier \<Rightarrow> bytes
     \<Rightarrow> (session_error + bytes) \<times> encryptedCarrier" where
  "ec_Send seal H outcome c plaintext =
     (if length plaintext > MaxCellSize then (Inl ErrRecordTooLarge, ec_Close c)
      else
        let transition = ec_pendingRekey c in
        if ec_sendCounter c = MaxUint64 then (Inl ErrRecordSequenceExhausted, ec_Close c)
        else case rotateSendEpochIfNeeded H c of
               Inl e \<Rightarrow> (Inl e, ec_Close c)
             | Inr c1 \<Rightarrow>
                 let nonce = recordNonce (ec_sendPrefix c1) (ec_sendCounter c1);
                     aad = recordAssociatedData (ec_innerKind c1) (ec_sendDirection c1) (ec_sendCounter c1)
                             (ec_sendEpoch c1);
                     rcd = seal (ec_sendAEAD c1) nonce plaintext aad
                 in case outcome of
                      Some e \<Rightarrow> (Inl e, ec_Close c1)
                    | None \<Rightarrow>
                        let c2 = c1\<lparr>ec_sendCounter := ec_sendCounter c1 + 1\<rparr>
                        in (Inr rcd,
                            case transition of
                              None \<Rightarrow> c2
                            | Some t \<Rightarrow> (applyRekeyLocked t c2)\<lparr>ec_pendingRekey := None\<rparr>))"

text \<open>\<open>ec_Receive opn H c rcd\<close> is \<open>Receive\<close> once the inner carrier has delivered \<open>rcd\<close>.\<close>

definition ec_Receive ::
  "(bytes \<Rightarrow> bytes \<Rightarrow> bytes \<Rightarrow> bytes \<Rightarrow> bytes option) \<Rightarrow> hash \<Rightarrow> encryptedCarrier \<Rightarrow> bytes
     \<Rightarrow> (session_error + bytes) \<times> encryptedCarrier" where
  "ec_Receive opn H c rcd =
     (if ec_recvCounter c = MaxUint64 then (Inl ErrRecordSequenceExhausted, ec_Close c)
      else case rotateReceiveEpochIfNeeded H c of
             Inl e \<Rightarrow> (Inl e, ec_Close c)
           | Inr c1 \<Rightarrow>
               if length rcd < aead_overhead \<or> length rcd > MaxCellSize + aead_overhead
               then (Inl ErrRecordAuthentication, ec_Close c1)
               else
                 let nonce = recordNonce (ec_receivePrefix c1) (ec_recvCounter c1);
                     aad = recordAssociatedData (ec_innerKind c1) (ec_recvDirection c1) (ec_recvCounter c1)
                             (ec_receiveEpoch c1)
                 in case opn (ec_receiveAEAD c1) nonce rcd aad of
                      None \<Rightarrow> (Inl ErrRecordAuthentication, ec_Close c1)
                    | Some plaintext \<Rightarrow> (Inr plaintext, c1\<lparr>ec_recvCounter := ec_recvCounter c1 + 1\<rparr>))"

section \<open>Sender and receiver in lockstep\<close>

text \<open>
  What the record layer relies on: opening what was sealed under the same key, nonce and
  associated data gives the plaintext back, and sealing adds the fixed overhead.
\<close>

definition aead_correct ::
  "(bytes \<Rightarrow> bytes \<Rightarrow> bytes \<Rightarrow> bytes \<Rightarrow> bytes) \<Rightarrow> (bytes \<Rightarrow> bytes \<Rightarrow> bytes \<Rightarrow> bytes \<Rightarrow> bytes option) \<Rightarrow> bool" where
  "aead_correct seal opn \<longleftrightarrow>
     (\<forall>key nonce plaintext aad. opn key nonce (seal key nonce plaintext aad) aad = Some plaintext
        \<and> length (seal key nonce plaintext aad) = length plaintext + aead_overhead)"

text \<open>The sending half of \<open>a\<close> and the receiving half of \<open>b\<close> agree.\<close>

definition in_sync :: "encryptedCarrier \<Rightarrow> encryptedCarrier \<Rightarrow> bool" where
  "in_sync a b \<longleftrightarrow>
     ec_sendAEAD a = ec_receiveAEAD b \<and> ec_sendKey a = ec_receiveKey b \<and> ec_sendPrefix a = ec_receivePrefix b
     \<and> ec_sendDirection a = ec_recvDirection b \<and> ec_sendCounter a = ec_recvCounter b
     \<and> ec_sendEpoch a = ec_receiveEpoch b \<and> ec_epochInterval a = ec_epochInterval b
     \<and> ec_innerKind a = ec_innerKind b"

lemma rotate_in_sync:
  assumes "in_sync a b" and "rotateSendEpochIfNeeded H a = Inr a'"
  shows "\<exists>b'. rotateReceiveEpochIfNeeded H b = Inr b' \<and> in_sync a' b' \<and> ec_recvCounter b' = ec_recvCounter b"
  using assms unfolding rotateSendEpochIfNeeded_def rotateReceiveEpochIfNeeded_def
  by (auto simp: in_sync_def newAEAD_def Let_def split: if_split_asm)

lemma rotateSend_counter:
  "rotateSendEpochIfNeeded H c = Inr c' \<Longrightarrow>
     ec_sendCounter c' = ec_sendCounter c \<and> ec_sendPrefix c' = ec_sendPrefix c
     \<and> ec_pendingRekey c' = ec_pendingRekey c \<and> ec_innerKind c' = ec_innerKind c"
  by (auto simp: rotateSendEpochIfNeeded_def newAEAD_def Let_def split: if_split_asm)

lemma ec_Send_InrD:
  assumes "ec_Send seal H outcome c p = (Inr r, c')"
  obtains c1 where "length p \<le> MaxCellSize" "ec_sendCounter c \<noteq> MaxUint64" "outcome = None"
    "rotateSendEpochIfNeeded H c = Inr c1"
    "r = seal (ec_sendAEAD c1) (recordNonce (ec_sendPrefix c1) (ec_sendCounter c1)) p
           (recordAssociatedData (ec_innerKind c1) (ec_sendDirection c1) (ec_sendCounter c1) (ec_sendEpoch c1))"
    "c' = (case ec_pendingRekey c of
             None \<Rightarrow> c1\<lparr>ec_sendCounter := ec_sendCounter c1 + 1\<rparr>
           | Some t \<Rightarrow> (applyRekeyLocked t (c1\<lparr>ec_sendCounter := ec_sendCounter c1 + 1\<rparr>))\<lparr>ec_pendingRekey := None\<rparr>)"
  using assms unfolding ec_Send_def Let_def
  by (auto split: if_split_asm sum.split_asm option.split_asm)

lemma ec_Send_pending: "ec_Send seal H outcome c p = (Inr r, c') \<Longrightarrow> ec_pendingRekey c' = None"
  by (erule ec_Send_InrD) (auto dest: rotateSend_counter split: option.splits)

lemma Receive_Send:
  assumes aead: "aead_correct seal opn" and sync: "in_sync a b"
    and send: "ec_Send seal H outcome a p = (Inr r, a')"
  obtains b' where "ec_Receive opn H b r = (Inr p, b')" and "ec_pendingRekey a = None \<Longrightarrow> in_sync a' b'"
    and "ec_pendingRekey b' = ec_pendingRekey b" and "ec_sendDirection b' = ec_sendDirection b"
    and "ec_recvDirection b' = ec_recvDirection b" and "ec_innerKind b' = ec_innerKind b"
proof -
  from send obtain a1 where len: "length p \<le> MaxCellSize" and cnt: "ec_sendCounter a \<noteq> MaxUint64"
    and rot: "rotateSendEpochIfNeeded H a = Inr a1"
    and r: "r = seal (ec_sendAEAD a1) (recordNonce (ec_sendPrefix a1) (ec_sendCounter a1)) p
      (recordAssociatedData (ec_innerKind a1) (ec_sendDirection a1) (ec_sendCounter a1) (ec_sendEpoch a1))"
    and a1: "a' = (case ec_pendingRekey a of
             None \<Rightarrow> a1\<lparr>ec_sendCounter := ec_sendCounter a1 + 1\<rparr>
           | Some t \<Rightarrow> (applyRekeyLocked t (a1\<lparr>ec_sendCounter := ec_sendCounter a1 + 1\<rparr>))\<lparr>ec_pendingRekey := None\<rparr>)"
    by (rule ec_Send_InrD)
  then have a': "ec_pendingRekey a = None \<Longrightarrow> a' = a1\<lparr>ec_sendCounter := ec_sendCounter a1 + 1\<rparr>" by simp
  from rotate_in_sync [OF sync rot] obtain b1 where rotb: "rotateReceiveEpochIfNeeded H b = Inr b1"
    and sync1: "in_sync a1 b1" by blast
  have same: "ec_pendingRekey b1 = ec_pendingRekey b" "ec_sendDirection b1 = ec_sendDirection b"
    "ec_recvDirection b1 = ec_recvDirection b" "ec_innerKind b1 = ec_innerKind b"
    using rotb by (auto simp: rotateReceiveEpochIfNeeded_def newAEAD_def Let_def split: if_split_asm)
  have bc: "ec_recvCounter b \<noteq> MaxUint64" using cnt sync by (simp add: in_sync_def)
  have op: "opn (ec_receiveAEAD b1) (recordNonce (ec_receivePrefix b1) (ec_recvCounter b1)) r
      (recordAssociatedData (ec_innerKind b1) (ec_recvDirection b1) (ec_recvCounter b1) (ec_receiveEpoch b1)) = Some p"
    using aead sync1 unfolding r by (simp add: aead_correct_def in_sync_def)
  have size: "\<not> (length r < 16 \<or> length r > MaxCellSize + 16)"
    using aead len unfolding r by (simp add: aead_correct_def)
  have recv: "ec_Receive opn H b r = (Inr p, b1\<lparr>ec_recvCounter := ec_recvCounter b1 + 1\<rparr>)"
    unfolding ec_Receive_def Let_def by (simp only: bc rotb size op if_False sum.case option.case)
  show thesis
    by (rule that [OF recv]) (use a' sync1 same in \<open>simp_all add: in_sync_def\<close>)
qed

text \<open>Sending a list of messages, and receiving a list of records; both stop at the first error.\<close>

fun send_all :: "(bytes \<Rightarrow> bytes \<Rightarrow> bytes \<Rightarrow> bytes \<Rightarrow> bytes) \<Rightarrow> hash \<Rightarrow> encryptedCarrier \<Rightarrow> bytes list
    \<Rightarrow> (session_error + bytes list) \<times> encryptedCarrier" where
  "send_all seal H c [] = (Inr [], c)"
| "send_all seal H c (p # ps) =
     (case ec_Send seal H None c p of
        (Inl e, c') \<Rightarrow> (Inl e, c')
      | (Inr r, c') \<Rightarrow> (case send_all seal H c' ps of
                           (Inl e, c'') \<Rightarrow> (Inl e, c'')
                         | (Inr rs, c'') \<Rightarrow> (Inr (r # rs), c'')))"

fun receive_all :: "(bytes \<Rightarrow> bytes \<Rightarrow> bytes \<Rightarrow> bytes \<Rightarrow> bytes option) \<Rightarrow> hash \<Rightarrow> encryptedCarrier \<Rightarrow> bytes list
    \<Rightarrow> (session_error + bytes list) \<times> encryptedCarrier" where
  "receive_all opn H c [] = (Inr [], c)"
| "receive_all opn H c (r # rs) =
     (case ec_Receive opn H c r of
        (Inl e, c') \<Rightarrow> (Inl e, c')
      | (Inr p, c') \<Rightarrow> (case receive_all opn H c' rs of
                           (Inl e, c'') \<Rightarrow> (Inl e, c'')
                         | (Inr ps, c'') \<Rightarrow> (Inr (p # ps), c'')))"

lemma receive_all_send_all:
  assumes aead: "aead_correct seal opn"
  shows "in_sync a b \<Longrightarrow> ec_pendingRekey a = None \<Longrightarrow> send_all seal H a ps = (Inr rs, a') \<Longrightarrow>
    \<exists>b'. receive_all opn H b rs = (Inr ps, b') \<and> in_sync a' b'"
proof (induction ps arbitrary: a b rs)
  case Nil
  then show ?case by simp
next
  case (Cons p ps)
  then obtain r rs' a1 where send: "ec_Send seal H None a p = (Inr r, a1)"
    and rest: "send_all seal H a1 ps = (Inr rs', a')" and rs: "rs = r # rs'"
    by (auto split: prod.splits sum.splits)
  obtain b1 where recv: "ec_Receive opn H b r = (Inr p, b1)" and sync1: "in_sync a1 b1"
    by (rule Receive_Send [OF aead Cons.prems(1) send]) (use Cons.prems(2) in blast)
  from Cons.IH [OF sync1 ec_Send_pending [OF send] rest] show ?case by (auto simp: rs recv)
qed

section \<open>Both directions\<close>

definition duplex :: "encryptedCarrier \<Rightarrow> encryptedCarrier \<Rightarrow> bool" where
  "duplex a b \<longleftrightarrow> in_sync a b \<and> in_sync b a \<and> ec_pendingRekey a = None \<and> ec_pendingRekey b = None
     \<and> {ec_sendDirection a, ec_sendDirection b} = {recordDirectionClientToServer, recordDirectionServerToClient}"

lemma duplex_sym: "duplex a b \<Longrightarrow> duplex b a"
  by (auto simp: duplex_def)

text \<open>Sending leaves the receiving half alone, and receiving the sending half.\<close>

lemma rotateSend_receive_half:
  "rotateSendEpochIfNeeded H a = Inr a' \<Longrightarrow> in_sync b a' = in_sync b a \<and> ec_sendDirection a' = ec_sendDirection a"
  by (auto simp: rotateSendEpochIfNeeded_def newAEAD_def in_sync_def Let_def split: if_split_asm)

lemma Send_receive_half:
  assumes "ec_Send seal H outcome a p = (Inr r, a')" and "ec_pendingRekey a = None"
  shows "in_sync b a' = in_sync b a \<and> ec_sendDirection a' = ec_sendDirection a"
  using assms(1)
  by (rule ec_Send_InrD) (use assms(2) in \<open>auto simp: in_sync_def dest!: rotateSend_receive_half [where b = b]\<close>)

lemma Receive_send_half:
  assumes "ec_Receive opn H b r = (Inr p, b')"
  shows "in_sync b' a = in_sync b a \<and> ec_sendDirection b' = ec_sendDirection b"
  using assms
  by (auto simp: ec_Receive_def rotateReceiveEpochIfNeeded_def newAEAD_def in_sync_def Let_def
      split: if_split_asm sum.split_asm option.split_asm)

lemma duplex_step:
  assumes aead: "aead_correct seal opn" and d: "duplex a b"
    and send: "ec_Send seal H outcome a p = (Inr r, a')"
  obtains b' where "ec_Receive opn H b r = (Inr p, b')" and "duplex a' b'"
proof -
  from d have sync: "in_sync a b" and bwd: "in_sync b a" and none: "ec_pendingRekey a = None" "ec_pendingRekey b = None"
    and dirs: "{ec_sendDirection a, ec_sendDirection b} = {1, 2}" by (simp_all add: duplex_def)
  obtain b' where recv: "ec_Receive opn H b r = (Inr p, b')" and sync': "in_sync a' b'"
    and nb: "ec_pendingRekey b' = None"
    by (rule Receive_Send [OF aead sync send]) (use none in auto)
  have "in_sync b' a'"
    using Receive_send_half [OF recv] Send_receive_half [OF send none(1)] bwd by simp
  then have "duplex a' b'"
    using sync' nb ec_Send_pending [OF send] Receive_send_half [OF recv, of a] Send_receive_half [OF send none(1), of b] dirs
    by (simp add: duplex_def)
  with recv show thesis by (rule that)
qed

lemma duplex_send_all:
  assumes aead: "aead_correct seal opn"
  shows "duplex a b \<Longrightarrow> send_all seal H a ps = (Inr rs, a') \<Longrightarrow>
    \<exists>b'. receive_all opn H b rs = (Inr ps, b') \<and> duplex a' b'"
proof (induction ps arbitrary: a b rs)
  case Nil
  then show ?case by simp
next
  case (Cons p ps)
  then obtain r rs' a1 where send: "ec_Send seal H None a p = (Inr r, a1)"
    and rest: "send_all seal H a1 ps = (Inr rs', a')" and rs: "rs = r # rs'"
    by (auto split: prod.splits sum.splits)
  obtain b1 where recv: "ec_Receive opn H b r = (Inr p, b1)" and d1: "duplex a1 b1"
    by (rule duplex_step [OF aead Cons.prems(1) send])
  from Cons.IH [OF d1 rest] show ?case by (auto simp: rs recv)
qed

lemma new_duplex:
  assumes "newEncryptedCarrier (Some kind) RoleClient keys = Inr a" and "newEncryptedCarrier (Some kind) RoleServer keys = Inr b"
  shows "duplex a b"
  using assms by (auto simp: newEncryptedCarrier_def newAEAD_def duplex_def in_sync_def split: if_split_asm)

lemma prepareRekey_peer:
  assumes t: "prepareRekey a keys = Inr t"
    and dir: "ec_sendDirection a = 1 \<and> ec_sendDirection b = 2 \<or> ec_sendDirection a = 2 \<and> ec_sendDirection b = 1"
  shows "\<exists>t'. prepareRekey b keys = Inr t' \<and> rk_sendAEAD t' = rk_receiveAEAD t \<and> rk_receiveAEAD t' = rk_sendAEAD t
    \<and> rk_sendKey t' = rk_receiveKey t \<and> rk_receiveKey t' = rk_sendKey t
    \<and> rk_sendPrefix t' = rk_receivePrefix t \<and> rk_receivePrefix t' = rk_sendPrefix t"
  using dir
proof
  assume "ec_sendDirection a = 1 \<and> ec_sendDirection b = 2"
  with t show ?thesis by (auto simp: prepareRekey_def newAEAD_def split: if_split_asm)
next
  assume "ec_sendDirection a = 2 \<and> ec_sendDirection b = 1"
  with t show ?thesis by (auto simp: prepareRekey_def newAEAD_def split: if_split_asm)
qed

text \<open>
  The switch to new keys: one side arms the transition and sends the confirmation under the old
  keys; the other receives it and rekeys at once.
\<close>

lemma duplex_rekey:
  assumes aead: "aead_correct seal opn" and d: "duplex a b"
    and arm: "rekeyAfterNextSend keys a = Inr a1" and send: "ec_Send seal H outcome a1 p = (Inr r, a2)"
  obtains b1 b2 where "ec_Receive opn H b r = (Inr p, b1)" and "ec_rekey keys b1 = Inr b2" and "duplex a2 b2"
    and "ec_epochInterval a2 = recordKeyEpochInterval"
proof -
  from d have sync: "in_sync a b" and bwd: "in_sync b a" and none: "ec_pendingRekey a = None" "ec_pendingRekey b = None"
    and dirs: "{ec_sendDirection a, ec_sendDirection b} = {1, 2}" by (simp_all add: duplex_def)
  from arm obtain t where t: "prepareRekey a keys = Inr t" and a1: "a1 = a\<lparr>ec_pendingRekey := Some t\<rparr>"
    by (auto simp: rekeyAfterNextSend_def none split: if_split_asm)
  have "in_sync a1 b" using sync by (simp add: a1 in_sync_def)
  then obtain b1 where recv: "ec_Receive opn H b r = (Inr p, b1)"
    and same: "ec_pendingRekey b1 = ec_pendingRekey b" "ec_sendDirection b1 = ec_sendDirection b"
      "ec_recvDirection b1 = ec_recvDirection b" "ec_innerKind b1 = ec_innerKind b"
    by (rule Receive_Send [OF aead _ send])
  from send obtain a1' where rot: "rotateSendEpochIfNeeded H a1 = Inr a1'"
    and a2: "a2 = (applyRekeyLocked t (a1'\<lparr>ec_sendCounter := ec_sendCounter a1' + 1\<rparr>))\<lparr>ec_pendingRekey := None\<rparr>"
    by (rule ec_Send_InrD) (use a1 in simp)
  have keep: "ec_sendDirection a1' = ec_sendDirection a" "ec_recvDirection a1' = ec_recvDirection a" "ec_innerKind a1' = ec_innerKind a"
    using rot by (auto simp: a1 rotateSendEpochIfNeeded_def newAEAD_def Let_def split: if_split_asm)
  have dir: "ec_sendDirection a = 1 \<and> ec_sendDirection b = 2 \<or> ec_sendDirection a = 2 \<and> ec_sendDirection b = 1"
    using dirs by (auto simp: doubleton_eq_iff)
  from prepareRekey_peer [OF t dir [folded same(2)]] obtain t' where t': "prepareRekey b1 keys = Inr t'"
    and swap: "rk_sendAEAD t' = rk_receiveAEAD t" "rk_receiveAEAD t' = rk_sendAEAD t" "rk_sendKey t' = rk_receiveKey t"
      "rk_receiveKey t' = rk_sendKey t" "rk_sendPrefix t' = rk_receivePrefix t" "rk_receivePrefix t' = rk_sendPrefix t"
    by (elim exE conjE) (rule that)
  have cross: "ec_recvDirection b = ec_sendDirection a" "ec_recvDirection a = ec_sendDirection b" "ec_innerKind b = ec_innerKind a"
    using sync bwd unfolding in_sync_def by metis+
  have rekey: "ec_rekey keys b1 = Inr ((applyRekeyLocked t' b1)\<lparr>ec_pendingRekey := None\<rparr>)"
    by (simp add: ec_rekey_def t')
  have "duplex a2 ((applyRekeyLocked t' b1)\<lparr>ec_pendingRekey := None\<rparr>)"
    unfolding duplex_def in_sync_def a2 applyRekeyLocked_def by (simp add: same keep swap cross dirs)
  moreover have "ec_epochInterval a2 = recordKeyEpochInterval" by (simp add: a2 applyRekeyLocked_def)
  ultimately show thesis using recv rekey by (intro that)
qed

section \<open>A whole conversation\<close>

text \<open>
  The states of a client and a server carrier over an ordered reliable transport: bursts of
  messages in either direction, and key switches started by either side.
\<close>

inductive conversation ::
  "(bytes \<Rightarrow> bytes \<Rightarrow> bytes \<Rightarrow> bytes \<Rightarrow> bytes) \<Rightarrow> (bytes \<Rightarrow> bytes \<Rightarrow> bytes \<Rightarrow> bytes \<Rightarrow> bytes option) \<Rightarrow> hash
     \<Rightarrow> encryptedCarrier \<Rightarrow> encryptedCarrier \<Rightarrow> bool"
  for seal :: "bytes \<Rightarrow> bytes \<Rightarrow> bytes \<Rightarrow> bytes \<Rightarrow> bytes"
    and opn :: "bytes \<Rightarrow> bytes \<Rightarrow> bytes \<Rightarrow> bytes \<Rightarrow> bytes option" and H :: hash
where
  start: "newEncryptedCarrier (Some kind) RoleClient keys = Inr a \<Longrightarrow>
    newEncryptedCarrier (Some kind) RoleServer keys = Inr b \<Longrightarrow> conversation seal opn H a b"
| client_burst: "conversation seal opn H a b \<Longrightarrow> send_all seal H a ps = (Inr rs, a') \<Longrightarrow>
    receive_all opn H b rs = (result, b') \<Longrightarrow> conversation seal opn H a' b'"
| server_burst: "conversation seal opn H a b \<Longrightarrow> send_all seal H b ps = (Inr rs, b') \<Longrightarrow>
    receive_all opn H a rs = (result, a') \<Longrightarrow> conversation seal opn H a' b'"
| client_rekey: "conversation seal opn H a b \<Longrightarrow> rekeyAfterNextSend keys a = Inr a1 \<Longrightarrow>
    ec_Send seal H None a1 p = (Inr r, a2) \<Longrightarrow> ec_Receive opn H b r = (result, b1) \<Longrightarrow> ec_rekey keys b1 = Inr b2 \<Longrightarrow>
    conversation seal opn H a2 b2"
| server_rekey: "conversation seal opn H a b \<Longrightarrow> rekeyAfterNextSend keys b = Inr b1 \<Longrightarrow>
    ec_Send seal H None b1 p = (Inr r, b2) \<Longrightarrow> ec_Receive opn H a r = (result, a1) \<Longrightarrow> ec_rekey keys a1 = Inr a2 \<Longrightarrow>
    conversation seal opn H a2 b2"

lemma conversation_duplex:
  assumes aead: "aead_correct seal opn"
  shows "conversation seal opn H a b \<Longrightarrow> duplex a b"
proof (induction rule: conversation.induct)
  case (start kind keys a b)
  then show ?case by (rule new_duplex)
next
  case (client_burst a b ps rs a' result b')
  from duplex_send_all [OF aead client_burst.IH client_burst.hyps(2)] client_burst.hyps(3) show ?case by auto
next
  case (server_burst a b ps rs b' result a')
  from duplex_send_all [OF aead duplex_sym [OF server_burst.IH] server_burst.hyps(2)] server_burst.hyps(3)
  show ?case by (auto intro: duplex_sym)
next
  case (client_rekey a b keys a1 p r a2 result b1 b2)
  from client_rekey.IH client_rekey.hyps(2,3) obtain b1' b2' where "ec_Receive opn H b r = (Inr p, b1')"
    "ec_rekey keys b1' = Inr b2'" "duplex a2 b2'" by (rule duplex_rekey [OF aead])
  with client_rekey.hyps show ?case by simp
next
  case (server_rekey a b keys b1 p r b2 result a1 a2)
  from duplex_sym [OF server_rekey.IH] server_rekey.hyps(2,3) obtain a1' a2' where "ec_Receive opn H a r = (Inr p, a1')"
    "ec_rekey keys a1' = Inr a2'" "duplex b2 a2'" by (rule duplex_rekey [OF aead])
  with server_rekey.hyps show ?case by (simp add: duplex_sym)
qed


definition sample_seal :: "bytes \<Rightarrow> bytes \<Rightarrow> bytes \<Rightarrow> bytes \<Rightarrow> bytes" where
  "sample_seal key nonce plaintext aad = plaintext @ zero_bytes 16"

definition sample_open :: "bytes \<Rightarrow> bytes \<Rightarrow> bytes \<Rightarrow> bytes \<Rightarrow> bytes option" where
  "sample_open key nonce rcd aad = Some (take (length rcd - 16) rcd)"

definition sample_keys :: SessionKeys where
  "sample_keys = SessionKeys.make [] [] [] (replicate 32 1) (replicate 32 2) (replicate 4 3) (replicate 4 4)"

definition sample_carrier :: "Role \<Rightarrow> encryptedCarrier" where
  "sample_carrier role = projr (newEncryptedCarrier (Some CarrierHTTPS) role sample_keys)"

lemma sample_aead: "aead_correct sample_seal sample_open"
  by (simp add: aead_correct_def sample_seal_def sample_open_def)

lemma sample_conversation:
  "conversation sample_seal sample_open H (sample_carrier RoleClient) (sample_carrier RoleServer)"
  by (rule conversation.start [where kind = CarrierHTTPS and keys = sample_keys])
     (simp_all add: sample_carrier_def newEncryptedCarrier_def sample_keys_def newAEAD_def SessionKeys.make_def)

lemma sample_send: "\<exists>rs c'. send_all sample_seal H (sample_carrier RoleClient) [[1, 2], [3]] = (Inr rs, c')"
  by (simp add: sample_carrier_def newEncryptedCarrier_def sample_keys_def newAEAD_def SessionKeys.make_def
      ec_Send_def rotateSendEpochIfNeeded_def)


section \<open>Nonces are never reused\<close>

lemma recordNonce_inject: "length p = length q \<Longrightarrow> recordNonce p m = recordNonce q n \<longleftrightarrow> p = q \<and> m = n"
  by (auto simp: recordNonce_def dest: be_bytes_inject [rotated])

lemma unat_MaxUint64: "unat MaxUint64 = 2 ^ 64 - 1"
  by simp

lemma send_all_nonces:
  "ec_pendingRekey c = None \<Longrightarrow> send_all seal H c ps = (Inr rs, c') \<Longrightarrow>
     length rs = length ps \<and> unat (ec_sendCounter c) + length ps < 2 ^ 64
     \<and> (\<forall>i < length ps. \<exists>key aad. rs ! i =
          seal key (recordNonce (ec_sendPrefix c) (ec_sendCounter c + of_nat i)) (ps ! i) aad)"
proof (induction ps arbitrary: c rs)
  case Nil
  have "unat (ec_sendCounter c) < 2 ^ 64" using unsigned_less [of "ec_sendCounter c"] by simp
  with Nil show ?case by simp
next
  case (Cons p ps)
  then obtain r rs' c1 where send: "ec_Send seal H None c p = (Inr r, c1)"
    and rest: "send_all seal H c1 ps = (Inr rs', c')" and rs: "rs = r # rs'"
    by (auto split: prod.splits sum.splits)
  from send obtain c0 where max: "ec_sendCounter c \<noteq> MaxUint64" and rot: "rotateSendEpochIfNeeded H c = Inr c0"
    and r: "r = seal (ec_sendAEAD c0) (recordNonce (ec_sendPrefix c0) (ec_sendCounter c0)) p
           (recordAssociatedData (ec_innerKind c0) (ec_sendDirection c0) (ec_sendCounter c0) (ec_sendEpoch c0))"
    and c1: "c1 = c0\<lparr>ec_sendCounter := ec_sendCounter c0 + 1\<rparr>"
    by (rule ec_Send_InrD) (use Cons.prems(1) in simp)
  note keep = rotateSend_counter [OF rot]
  have "unat (ec_sendCounter c) < 2 ^ 64" using unsigned_less [of "ec_sendCounter c"] by simp
  moreover have "unat (ec_sendCounter c) \<noteq> 2 ^ 64 - 1"
    using max unat_MaxUint64 by (metis word_unat_eq_iff)
  ultimately have succ: "unat (ec_sendCounter c + 1) = unat (ec_sendCounter c) + 1"
    by (intro unat_Suc_nowrap) simp
  from Cons.IH [OF ec_Send_pending [OF send] rest] have
    IH: "length rs' = length ps" "unat (ec_sendCounter c + 1) + length ps < 2 ^ 64"
      "\<forall>i < length ps. \<exists>key aad. rs' ! i =
         seal key (recordNonce (ec_sendPrefix c) (ec_sendCounter c + 1 + of_nat i)) (ps ! i) aad"
    using keep by (simp_all add: c1)
  show ?case
    using IH succ keep r by (auto simp: rs nth_Cons add.assoc split: nat.splits)
qed



end
