(* ===== verification/NP_Stream.thy ===== *)
theory NP_Stream
  imports NP_Session_Error
begin

text \<open>
  One multiplexed stream (\<open>internal/session/stream.go\<close>): sequence numbers, credit-based flow
  control in both directions, half-close, reset and the condition under which a stream may be
  retired. The stream's locks make each operation a sequence of atomic sections; an operation that
  sends takes the outcome of \<open>mux.send\<close> as an argument and returns the cells it handed over. The
  mux's initial window is the argument \<open>iw\<close>. The notification channels only wake waiters and are
  not part of the state; a call that would wait returns the value \<open>Blocked\<close>. \<open>st_openResult\<close> is the
  one-place channel guarded by \<open>openOnce\<close>: \<open>None\<close> while the OPEN is undecided.
\<close>

abbreviation MaxInitialWindow :: u64 where "MaxInitialWindow \<equiv> 16777216"
abbreviation MaxInt64 :: u64 where "MaxInt64 \<equiv> 0x7fffffffffffffff"
abbreviation windowUpdateDivisor :: u64 where "windowUpdateDivisor \<equiv> 8"
abbreviation maxWindowUpdateThreshold :: u64 where "maxWindowUpdateThreshold \<equiv> 262144"

abbreviation fmtProtocol :: "string \<Rightarrow> session_error" where
  "fmtProtocol detail \<equiv> ErrProtocol detail"

abbreviation mk_cell :: "CellKind \<Rightarrow> u64 \<Rightarrow> u64 \<Rightarrow> bytes \<Rightarrow> Cell" where
  "mk_cell kind i sequence payload \<equiv>
     \<lparr>Kind = kind, StreamID = i, Sequence = sequence, Payload = payload, Padding = []\<rparr>"

section \<open>Canonical integers of the session layer\<close>

definition session_readCanonicalUvarint :: "bytes \<Rightarrow> session_error + u64 \<times> nat" where
  "session_readCanonicalUvarint raw =
     (case uvarint raw of
        (value, consumed) \<Rightarrow>
          if consumed \<le> 0 then Inl (ErrProtocol '''')
          else let canonical = put_uvarint value
               in if nat consumed \<noteq> length canonical \<or> take (nat consumed) raw \<noteq> canonical
                  then Inl (ErrProtocol '''')
                  else Inr (value, nat consumed))"

definition parseCredit :: "bytes \<Rightarrow> session_error + u64" where
  "parseCredit payload =
     (case session_readCanonicalUvarint payload of
        Inl _ \<Rightarrow> Inl (ErrProtocol ''invalid flow-control credit'')
      | Inr (credit, consumed) \<Rightarrow>
          if consumed \<noteq> length payload \<or> credit = 0 \<or> credit > MaxInt64
          then Inl (ErrProtocol ''invalid flow-control credit'')
          else Inr credit)"

lemma session_readCanonicalUvarint_eq:
  "session_readCanonicalUvarint raw = or_else (readCanonicalUvarint raw) (ErrProtocol '''')"
  by (auto simp: session_readCanonicalUvarint_def readCanonicalUvarint_def Let_def split: prod.splits)

interpretation session_uv: prefix_codec put_uvarint session_readCanonicalUvarint
proof
  show "session_readCanonicalUvarint (put_uvarint x @ rest) = Inr (x, length (put_uvarint x))" for x rest
    by (simp add: session_readCanonicalUvarint_eq)
  show "n \<le> length raw \<and> take n raw = put_uvarint x" if "session_readCanonicalUvarint raw = Inr (x, n)" for raw x n
    using that uv.dec_canonical [of raw x n] by (simp add: session_readCanonicalUvarint_eq)
qed

lemma parseCredit_eq_Inr:
  "parseCredit payload = Inr credit \<longleftrightarrow> payload = put_uvarint credit \<and> credit \<noteq> 0 \<and> credit \<le> MaxInt64"
proof
  assume "parseCredit payload = Inr credit"
  then have "session_readCanonicalUvarint payload = Inr (credit, length payload)" "credit \<noteq> 0" "credit \<le> MaxInt64"
    by (auto simp: parseCredit_def not_less split: sum.splits if_splits)
  then show "payload = put_uvarint credit \<and> credit \<noteq> 0 \<and> credit \<le> MaxInt64"
    using session_uv.dec_consumes by fastforce
next
  assume "payload = put_uvarint credit \<and> credit \<noteq> 0 \<and> credit \<le> MaxInt64"
  then show "parseCredit payload = Inr credit"
    by (auto simp: parseCredit_def session_uv.dec_exact not_less)
qed

section \<open>State\<close>

record Stream =
  st_id :: u64
  st_sendSequence :: u64
  st_recvSequence :: u64
  st_sendWindow :: u64
  st_sendCredit :: u64
  st_recvCredit :: u64
  st_pendingCredit :: u64
  st_chunks :: "bytes list"
  st_chunkStart :: nat
  st_peerFIN :: bool
  st_localFIN :: bool
  st_readErr :: "session_error option"
  st_writeErr :: "session_error option"
  st_resetSent :: bool
  st_openResult :: "session_error option option"

definition newStream :: "u64 \<Rightarrow> u64 \<Rightarrow> u64 \<Rightarrow> bool \<Rightarrow> Stream" where
  "newStream i sendCredit recvCredit opening =
     \<lparr>st_id = i, st_sendSequence = 1, st_recvSequence = 0, st_sendWindow = sendCredit, st_sendCredit = sendCredit,
      st_recvCredit = recvCredit, st_pendingCredit = 0, st_chunks = [], st_chunkStart = 0, st_peerFIN = False,
      st_localFIN = False, st_readErr = None, st_writeErr = None, st_resetSent = False,
      st_openResult = (if opening then None else Some None)\<rparr>"

definition Stream_ID :: "Stream option \<Rightarrow> u64" where
  "Stream_ID s = (case s of None \<Rightarrow> 0 | Some s \<Rightarrow> st_id s)"

definition completeOpen :: "session_error option \<Rightarrow> Stream \<Rightarrow> Stream" where
  "completeOpen e s = (if st_openResult s = None then s\<lparr>st_openResult := Some e\<rparr> else s)"

definition nextSendSequenceLocked :: "Stream \<Rightarrow> (session_error + u64) \<times> Stream" where
  "nextSendSequenceLocked s =
     (if st_sendSequence s > MaxSequence then (Inl (fmtProtocol ''stream sequence exhausted''), s)
      else (Inr (st_sendSequence s), s\<lparr>st_sendSequence := st_sendSequence s + 1\<rparr>))"

text \<open>\<open>fail(err)\<close>; the code maps a nil error to \<open>ErrClosed\<close>.\<close>

definition stream_fail :: "session_error option \<Rightarrow> Stream \<Rightarrow> Stream" where
  "stream_fail err s =
     (let e = (case err of None \<Rightarrow> ErrClosed | Some e \<Rightarrow> e);
          s1 = (if st_readErr s = None then s\<lparr>st_readErr := Some e\<rparr> else s);
          s2 = (if st_writeErr s1 = None then s1\<lparr>st_writeErr := Some e\<rparr> else s1)
      in completeOpen (Some e) s2)"

section \<open>Flow-control credit\<close>

definition windowUpdateThreshold :: "u64 \<Rightarrow> u64" where
  "windowUpdateThreshold window =
     (if window = 0 then 0
      else let threshold = window div windowUpdateDivisor;
               threshold' = (if threshold = 0 then 1 else threshold)
           in min (min threshold' maxWindowUpdateThreshold) window)"

definition takePendingCreditLocked :: "u64 \<Rightarrow> bool \<Rightarrow> Stream \<Rightarrow> u64 \<times> Stream" where
  "takePendingCreditLocked iw force s =
     (if st_pendingCredit s = 0 \<or> \<not> force \<and> st_pendingCredit s < windowUpdateThreshold iw then (0, s)
      else (st_pendingCredit s,
            s\<lparr>st_pendingCredit := 0, st_recvCredit := st_recvCredit s + st_pendingCredit s\<rparr>))"

definition canRetireLocked :: "u64 \<Rightarrow> Stream \<Rightarrow> bool" where
  "canRetireLocked iw s \<longleftrightarrow>
     st_localFIN s \<and> st_peerFIN s \<and> length (st_chunks s) = 0 \<and> st_sendWindow s > 0
     \<and> st_sendCredit s = st_sendWindow s \<and> st_recvCredit s = iw \<and> st_pendingCredit s = 0"

definition sendWindowUpdate ::
  "u64 \<Rightarrow> session_error option \<Rightarrow> Stream \<Rightarrow> session_error option \<times> Stream \<times> Cell list" where
  "sendWindowUpdate credit outcome s =
     (if credit = 0 then (None, s, [])
      else case st_writeErr s of
             Some e \<Rightarrow> (Some e, s, [])
           | None \<Rightarrow>
               (case nextSendSequenceLocked s of
                  (Inl e, s1) \<Rightarrow> (Some e, s1, [])
                | (Inr sequence, s1) \<Rightarrow>
                    (outcome, s1, [mk_cell CellWindowUpdate (st_id s) sequence (put_uvarint credit)])))"

section \<open>Reading\<close>

text \<open>
  The locked section of \<open>Read\<close> when a chunk is buffered: the bytes copied into a destination of
  size \<open>n\<close>, and the credit to announce.
\<close>

definition read_take :: "u64 \<Rightarrow> nat \<Rightarrow> Stream \<Rightarrow> (bytes \<times> u64) \<times> Stream" where
  "read_take iw n s =
     (let chunk = hd (st_chunks s);
          copied = take n (drop (st_chunkStart s) chunk);
          start = st_chunkStart s + length copied;
          s1 = (if start = length chunk then s\<lparr>st_chunks := tl (st_chunks s), st_chunkStart := 0\<rparr>
                else s\<lparr>st_chunkStart := start\<rparr>);
          s2 = s1\<lparr>st_pendingCredit := st_pendingCredit s1 + of_nat (length copied)\<rparr>;
          (credit, s3) = takePendingCreditLocked iw
            (st_recvCredit s2 = 0 \<or> st_peerFIN s2 \<and> length (st_chunks s2) = 0) s2
      in ((copied, credit), s3))"

datatype read_result = ReadBytes bytes "session_error option" | ReadError session_error | ReadBlocked

definition Stream_Read ::
  "u64 \<Rightarrow> nat \<Rightarrow> session_error option \<Rightarrow> Stream \<Rightarrow> read_result \<times> Stream \<times> Cell list" where
  "Stream_Read iw n outcome s =
     (if n = 0 then (ReadBytes [] None, s, [])
      else if length (st_chunks s) \<noteq> 0
      then case read_take iw n s of
             ((copied, credit), s1) \<Rightarrow>
               (case sendWindowUpdate credit outcome s1 of (err, s2, cells) \<Rightarrow> (ReadBytes copied err, s2, cells))
      else case st_readErr s of
             Some e \<Rightarrow> (ReadError e, s, [])
           | None \<Rightarrow>
               if st_peerFIN s
               then case takePendingCreditLocked iw True s of
                      (credit, s1) \<Rightarrow>
                        (case sendWindowUpdate credit outcome s1 of
                           (Some e, s2, cells) \<Rightarrow> (ReadError e, s2, cells)
                         | (None, s2, cells) \<Rightarrow> (ReadError ErrEOF, s2, cells))
               else (ReadBlocked, s, []))"

section \<open>Writing\<close>

datatype write_status = WriteDone | WriteBlocked | WriteError session_error

text \<open>
  One round of the loop of \<open>Write\<close> on the bytes still to be written: the credit is reserved, the
  sequence number taken and the cell handed to \<open>mux.send\<close> under \<open>sendMu\<close>.
\<close>

definition write_iteration :: "bytes \<Rightarrow> Stream \<Rightarrow> (write_status + nat \<times> Cell) \<times> Stream" where
  "write_iteration rest s =
     (case st_writeErr s of
        Some e \<Rightarrow> (Inl (WriteError e), s)
      | None \<Rightarrow>
          if st_localFIN s then (Inl (WriteError ErrClosedPipe), s)
          else if st_sendCredit s = 0 then (Inl WriteBlocked, s)
          else
            let n = min (length rest) (min (unat (st_sendCredit s)) MaxCellPayloadSize);
                s1 = s\<lparr>st_sendCredit := st_sendCredit s - of_nat n\<rparr>
            in case nextSendSequenceLocked s1 of
                 (Inl e, s2) \<Rightarrow> (Inl (WriteError e), stream_fail (Some e) s2)
               | (Inr sequence, s2) \<Rightarrow> (Inr (n, mk_cell CellData (st_id s) sequence (take n rest)), s2))"

lemma write_iteration_sends:
  assumes "write_iteration rest s = (Inr (n, c), s')" and "rest \<noteq> []"
  shows "0 < n \<and> n \<le> length rest"
proof -
  from assms(1) have "n = min (length rest) (min (unat (st_sendCredit s)) MaxCellPayloadSize)" "st_sendCredit s \<noteq> 0"
    by (auto simp: write_iteration_def Let_def split: option.splits if_splits prod.splits sum.splits)
  moreover from this have "0 < unat (st_sendCredit s)" by (simp add: unat_gt_0)
  ultimately show ?thesis using assms(2) by simp
qed

text \<open>The loop; \<open>outcome k\<close> is the error of the \<open>k\<close>-th \<open>mux.send\<close>.\<close>

function write_loop ::
  "(nat \<Rightarrow> session_error option) \<Rightarrow> nat \<Rightarrow> bytes \<Rightarrow> Stream \<Rightarrow> (nat \<times> write_status) \<times> Stream \<times> Cell list" where
  "write_loop outcome k rest s =
     (if rest = [] then ((0, WriteDone), s, [])
      else case write_iteration rest s of
             (Inl status, s1) \<Rightarrow> ((0, status), s1, [])
           | (Inr (n, cell), s1) \<Rightarrow>
               (case outcome k of
                  Some e \<Rightarrow> ((0, WriteError e), stream_fail (Some e) s1, [cell])
                | None \<Rightarrow>
                    (case write_loop outcome (k + 1) (drop n rest) s1 of
                       ((written, status), s2, cells) \<Rightarrow> ((n + written, status), s2, cell # cells))))"
  by pat_completeness auto

termination
  by (relation "measure (\<lambda>(outcome, k, rest, s). length rest)")
     (auto dest!: write_iteration_sends [OF sym])

declare write_loop.simps [simp del]

definition Stream_Write ::
  "(nat \<Rightarrow> session_error option) \<Rightarrow> bytes \<Rightarrow> Stream \<Rightarrow> (nat \<times> write_status) \<times> Stream \<times> Cell list" where
  "Stream_Write outcome payload s = (if length payload = 0 then ((0, WriteDone), s, []) else write_loop outcome 0 payload s)"

definition CloseWrite :: "session_error option \<Rightarrow> Stream \<Rightarrow> session_error option \<times> Stream \<times> Cell list" where
  "CloseWrite outcome s =
     (case st_writeErr s of
        Some e \<Rightarrow> (Some e, s, [])
      | None \<Rightarrow>
          if st_localFIN s then (None, s, [])
          else case nextSendSequenceLocked (s\<lparr>st_localFIN := True\<rparr>) of
                 (Inl e, s1) \<Rightarrow> (Some e, s1, [])
               | (Inr sequence, s1) \<Rightarrow> (outcome, s1, [mk_cell CellFin (st_id s) sequence []]))"

definition sendReset :: "byte \<Rightarrow> session_error option \<Rightarrow> Stream \<Rightarrow> session_error option \<times> Stream \<times> Cell list" where
  "sendReset code outcome s =
     (if st_resetSent s then (None, s, [])
      else case st_writeErr s of
             Some e \<Rightarrow>
               if \<not> is_ErrProtocol e \<and> e \<noteq> ErrClosed then (Some e, s, [])
               else (case nextSendSequenceLocked (s\<lparr>st_resetSent := True\<rparr>) of
                       (Inl e, s1) \<Rightarrow> (Some e, s1, [])
                     | (Inr sequence, s1) \<Rightarrow> (outcome, s1, [mk_cell CellReset (st_id s) sequence [code]]))
           | None \<Rightarrow>
               (case nextSendSequenceLocked (s\<lparr>st_resetSent := True\<rparr>) of
                  (Inl e, s1) \<Rightarrow> (Some e, s1, [])
                | (Inr sequence, s1) \<Rightarrow> (outcome, s1, [mk_cell CellReset (st_id s) sequence [code]])))"

text \<open>\<open>Close\<close>; the flag says whether the stream is removed from the mux.\<close>

definition Stream_Close ::
  "u64 \<Rightarrow> session_error option \<Rightarrow> Stream \<Rightarrow> session_error option \<times> Stream \<times> Cell list \<times> bool" where
  "Stream_Close iw outcome s =
     (if st_localFIN s \<and> st_peerFIN s \<and> length (st_chunks s) = 0 then (None, s, [], canRetireLocked iw s)
      else
        let s1 = (if st_readErr s = None then s\<lparr>st_readErr := Some ErrClosed\<rparr> else s);
            s2 = (if st_writeErr s1 = None then s1\<lparr>st_writeErr := Some ErrClosed\<rparr> else s1)
        in case sendReset 0 outcome s2 of (err, s3, cells) \<Rightarrow> (err, s3, cells, True))"

section \<open>Receiving a cell\<close>

text \<open>
  \<open>handleCell\<close>. Its deferred function removes the stream from the mux when \<open>canRetireLocked\<close> holds
  of the state it leaves, also on an error; that part is in the mux.
\<close>

definition stream_handleCell :: "Cell \<Rightarrow> Stream \<Rightarrow> session_error option \<times> Stream" where
  "stream_handleCell cell s =
     (if Kind cell = CellOpenOK \<or> Kind cell = CellOpenFail
      then
        if st_recvSequence s \<noteq> 0 \<or> Sequence cell \<noteq> 0 then (Some (fmtProtocol ''unexpected open response''), s)
        else
          let s1 = s\<lparr>st_recvSequence := 1\<rparr> in
          if Kind cell = CellOpenFail
          then if length (Payload cell) \<noteq> 1 then (Some (fmtProtocol ''invalid OPEN_FAIL''), s1)
               else (None, completeOpen (Some (RejectError (Payload cell ! 0))) s1)
          else case parseCredit (Payload cell) of
                 Inl _ \<Rightarrow> (Some (fmtProtocol ''invalid OPEN_OK''), s1)
               | Inr credit \<Rightarrow>
                   if credit > MaxInitialWindow then (Some (fmtProtocol ''invalid OPEN_OK''), s1)
                   else (None, completeOpen None (s1\<lparr>st_sendWindow := credit, st_sendCredit := credit\<rparr>))
      else if Sequence cell \<noteq> st_recvSequence s then (Some (fmtProtocol ''unexpected stream sequence''), s)
      else if st_recvSequence s = MaxSequence then (Some (fmtProtocol ''stream sequence exhausted''), s)
      else
        let s1 = s\<lparr>st_recvSequence := st_recvSequence s + 1\<rparr> in
        if Kind cell = CellData
        then if st_peerFIN s1 \<or> length (Payload cell) > unat (st_recvCredit s1)
             then (Some (fmtProtocol ''invalid DATA''), s1)
             else
               let s2 = s1\<lparr>st_recvCredit := st_recvCredit s1 - of_nat (length (Payload cell))\<rparr>
               in if length (Payload cell) \<noteq> 0 then (None, s2\<lparr>st_chunks := st_chunks s2 @ [Payload cell]\<rparr>)
                  else (None, s2)
        else if Kind cell = CellFin
        then if length (Payload cell) \<noteq> 0 \<or> st_peerFIN s1 then (Some (fmtProtocol ''invalid FIN''), s1)
             else (None, s1\<lparr>st_peerFIN := True\<rparr>)
        else if Kind cell = CellReset
        then if length (Payload cell) > 1 then (Some (fmtProtocol ''invalid RESET''), s1)
             else (None, s1\<lparr>st_readErr := Some ErrReset, st_writeErr := Some ErrReset\<rparr>)
        else if Kind cell = CellWindowUpdate
        then case parseCredit (Payload cell) of
               Inl _ \<Rightarrow> (Some (fmtProtocol ''invalid WINDOW_UPDATE''), s1)
             | Inr credit \<Rightarrow>
                 if credit > st_sendWindow s1 \<or> st_sendCredit s1 > MaxUint64 - credit
                    \<or> st_sendCredit s1 + credit > st_sendWindow s1
                 then (Some (fmtProtocol ''invalid WINDOW_UPDATE''), s1)
                 else (None, s1\<lparr>st_sendCredit := st_sendCredit s1 + credit\<rparr>)
        else (Some (fmtProtocol ''invalid stream cell''), s1))"

end
