(* ===== verification/NP_Stream_Pair.thy ===== *)
theory NP_Stream_Pair
  imports NP_Stream
begin

text \<open>
  The two ends of one stream, joined by the two ordered cell queues that the carrier provides. The
  ends run the operations of \<open>NP_Stream\<close> in any interleaving of their atomic sections; a credit that
  \<open>Read\<close> has taken but not yet announced is kept in \<open>sd_hand\<close>, and \<open>sd_written\<close>, \<open>sd_read\<close> record the bytes
  accepted by \<open>Write\<close> and returned by \<open>Read\<close>. The start is the state after the acceptor has sent
  OPEN_OK. The invariant shows that honest ends never violate the protocol, that credit is
  conserved, that the bytes read are a prefix of the bytes written, that flow control cannot
  deadlock, and that a retired stream never receives another cell.
\<close>

section \<open>The system\<close>

record side =
  sd_stream :: Stream
  sd_hand :: "u64 list"
  sd_written :: bytes
  sd_read :: bytes

text \<open>
  Steps of one end, with the cells it sends. Sequence numbers are bounded by \<open>MaxSequence - 1\<close>: the
  receiver refuses the cell numbered \<open>MaxSequence\<close> that the sender would still send.
\<close>

inductive side_step :: "u64 \<Rightarrow> side \<Rightarrow> side \<Rightarrow> Cell list \<Rightarrow> bool" for iw :: u64
where
  write_cell: "rest \<noteq> [] \<Longrightarrow> st_sendSequence (sd_stream x) < MaxSequence \<Longrightarrow>
    write_iteration rest (sd_stream x) = (Inr (n, c), s') \<Longrightarrow>
    side_step iw x (x\<lparr>sd_stream := s', sd_written := sd_written x @ take n rest\<rparr>) [c]"
| close_write: "st_sendSequence (sd_stream x) < MaxSequence \<Longrightarrow>
    CloseWrite None (sd_stream x) = (None, s', cs) \<Longrightarrow> side_step iw x (x\<lparr>sd_stream := s'\<rparr>) cs"
| read_chunk: "st_chunks (sd_stream x) \<noteq> [] \<Longrightarrow> 0 < n \<Longrightarrow>
    read_take iw n (sd_stream x) = ((copied, credit), s') \<Longrightarrow>
    side_step iw x (x\<lparr>sd_stream := s', sd_read := sd_read x @ copied,
                      sd_hand := sd_hand x @ (if credit = 0 then [] else [credit])\<rparr>) []"
| read_eof: "st_chunks (sd_stream x) = [] \<Longrightarrow> st_peerFIN (sd_stream x) \<Longrightarrow>
    takePendingCreditLocked iw True (sd_stream x) = (credit, s') \<Longrightarrow>
    side_step iw x (x\<lparr>sd_stream := s', sd_hand := sd_hand x @ (if credit = 0 then [] else [credit])\<rparr>) []"
| send_update: "sd_hand x = hs @ credit # hs' \<Longrightarrow> st_sendSequence (sd_stream x) < MaxSequence \<Longrightarrow>
    sendWindowUpdate credit None (sd_stream x) = (None, s', cs) \<Longrightarrow>
    side_step iw x (x\<lparr>sd_stream := s', sd_hand := hs @ hs'\<rparr>) cs"

record pair =
  pr_a :: side
  pr_b :: side
  pr_ab :: "Cell list"
  pr_ba :: "Cell list"

inductive pair_step :: "u64 \<Rightarrow> u64 \<Rightarrow> pair \<Rightarrow> pair \<Rightarrow> bool" for iwA :: u64 and iwB :: u64
where
  local_a: "side_step iwA (pr_a p) x cs \<Longrightarrow> pair_step iwA iwB p (p\<lparr>pr_a := x, pr_ab := pr_ab p @ cs\<rparr>)"
| local_b: "side_step iwB (pr_b p) x cs \<Longrightarrow> pair_step iwA iwB p (p\<lparr>pr_b := x, pr_ba := pr_ba p @ cs\<rparr>)"
| deliver_b: "pr_ab p = c # cs \<Longrightarrow> stream_handleCell c (sd_stream (pr_b p)) = (err, s') \<Longrightarrow>
    pair_step iwA iwB p (p\<lparr>pr_b := (pr_b p)\<lparr>sd_stream := s'\<rparr>, pr_ab := cs\<rparr>)"
| deliver_a: "pr_ba p = c # cs \<Longrightarrow> stream_handleCell c (sd_stream (pr_a p)) = (err, s') \<Longrightarrow>
    pair_step iwA iwB p (p\<lparr>pr_a := (pr_a p)\<lparr>sd_stream := s'\<rparr>, pr_ba := cs\<rparr>)"

text \<open>
  \<open>A\<close> opened stream \<open>i\<close> announcing its window \<open>iwA\<close>; \<open>B\<close> accepted it and sent OPEN_OK with \<open>iwB\<close>.
\<close>

definition pair_start :: "u64 \<Rightarrow> u64 \<Rightarrow> u64 \<Rightarrow> pair" where
  "pair_start i iwA iwB =
     \<lparr>pr_a = \<lparr>sd_stream = newStream i 0 iwA True, sd_hand = [], sd_written = [], sd_read = []\<rparr>,
      pr_b = \<lparr>sd_stream = (newStream i iwA iwB False)\<lparr>st_recvSequence := 1\<rparr>, sd_hand = [], sd_written = [], sd_read = []\<rparr>,
      pr_ab = [], pr_ba = [mk_cell CellOpenOK i 0 (put_uvarint iwB)]\<rparr>"

abbreviation pair_reach :: "u64 \<Rightarrow> u64 \<Rightarrow> pair \<Rightarrow> pair \<Rightarrow> bool" where
  "pair_reach iwA iwB \<equiv> (pair_step iwA iwB)\<^sup>*\<^sup>*"

section \<open>What is in transit\<close>

definition unread :: "Stream \<Rightarrow> bytes" where
  "unread s = drop (st_chunkStart s) (concat (st_chunks s))"

definition data_bytes :: "Cell list \<Rightarrow> bytes" where
  "data_bytes cs = concat (map (\<lambda>c. if Kind c = CellData then Payload c else []) cs)"

definition cell_credit :: "Cell \<Rightarrow> nat" where
  "cell_credit c =
     (if Kind c = CellWindowUpdate \<or> Kind c = CellOpenOK
      then case parseCredit (Payload c) of Inl _ \<Rightarrow> 0 | Inr v \<Rightarrow> unat v else 0)"

definition credits :: "Cell list \<Rightarrow> nat" where
  "credits cs = sum_list (map cell_credit cs)"

definition hand_credits :: "side \<Rightarrow> nat" where
  "hand_credits x = sum_list (map unat (sd_hand x))"

fun fin_run :: "bool \<Rightarrow> Cell list \<Rightarrow> bool option" where
  "fin_run fin [] = Some fin"
| "fin_run fin (c # cs) =
     (if Kind c = CellData then if fin then None else fin_run fin cs
      else if Kind c = CellFin then if fin then None else fin_run True cs
      else fin_run fin cs)"

fun seq_run :: "nat \<Rightarrow> Cell list \<Rightarrow> bool" where
  "seq_run n [] = True"
| "seq_run n (c # cs) = (unat (Sequence c) = n \<and> seq_run (Suc n) cs)"

definition cell_ok :: "Cell \<Rightarrow> bool" where
  "cell_ok c \<longleftrightarrow> Kind c = CellData \<or> Kind c = CellFin \<and> Payload c = []
     \<or> Kind c = CellWindowUpdate \<and> (\<exists>v. parseCredit (Payload c) = Inr v) \<or> Kind c = CellOpenOK"

definition chunks_ok :: "Stream \<Rightarrow> bool" where
  "chunks_ok s \<longleftrightarrow> [] \<notin> set (st_chunks s)
     \<and> (if st_chunks s = [] then st_chunkStart s = 0 else st_chunkStart s < length (hd (st_chunks s)))"

lemma data_bytes_simps [simp]:
  "data_bytes [] = []" "data_bytes (c # cs) = (if Kind c = CellData then Payload c else []) @ data_bytes cs"
  "data_bytes (cs @ cs') = data_bytes cs @ data_bytes cs'"
  by (simp_all add: data_bytes_def)

lemma credits_simps [simp]:
  "credits [] = 0" "credits (c # cs) = cell_credit c + credits cs" "credits (cs @ cs') = credits cs + credits cs'"
  by (simp_all add: credits_def)

lemma fin_run_append: "fin_run fin (cs @ cs') = (case fin_run fin cs of None \<Rightarrow> None | Some f \<Rightarrow> fin_run f cs')"
  by (induction cs arbitrary: fin) simp_all

lemma seq_run_append: "seq_run n (cs @ cs') \<longleftrightarrow> seq_run n cs \<and> seq_run (n + length cs) cs'"
  by (induction cs arbitrary: n) simp_all

lemma cell_credit_simps [simp]:
  "cell_credit (mk_cell CellData i q pl) = 0" "cell_credit (mk_cell CellFin i q pl) = 0"
  "v \<noteq> 0 \<Longrightarrow> v \<le> MaxInt64 \<Longrightarrow> cell_credit (mk_cell CellWindowUpdate i q (put_uvarint v)) = unat v"
  "v \<noteq> 0 \<Longrightarrow> v \<le> MaxInt64 \<Longrightarrow> cell_credit (mk_cell CellOpenOK i q (put_uvarint v)) = unat v"
  using parseCredit_eq_Inr [of "put_uvarint v" v] by (simp_all add: cell_credit_def)

section \<open>Effect of the operations\<close>

lemma write_iteration_effect:
  assumes "write_iteration rest s = (Inr (n, c), s')"
  shows "c = mk_cell CellData (st_id s) (st_sendSequence s) (take n rest)"
    and "s' = s\<lparr>st_sendCredit := st_sendCredit s - of_nat n, st_sendSequence := st_sendSequence s + 1\<rparr>"
    and "\<not> st_localFIN s" and "n \<le> unat (st_sendCredit s)" and "n \<le> length rest" and "n \<le> MaxCellPayloadSize"
  using assms
  by (auto simp: write_iteration_def nextSendSequenceLocked_def Let_def split: option.splits if_splits)

lemma CloseWrite_effect:
  assumes "CloseWrite None s = (None, s', cs)"
  shows "st_localFIN s \<and> s' = s \<and> cs = []
    \<or> \<not> st_localFIN s \<and> s' = s\<lparr>st_localFIN := True, st_sendSequence := st_sendSequence s + 1\<rparr>
      \<and> cs = [mk_cell CellFin (st_id s) (st_sendSequence s) []]"
  using assms by (auto simp: CloseWrite_def nextSendSequenceLocked_def split: option.splits if_splits)

lemma sendWindowUpdate_effect:
  assumes "sendWindowUpdate credit None s = (None, s', cs)" and "credit \<noteq> 0"
  shows "s' = s\<lparr>st_sendSequence := st_sendSequence s + 1\<rparr>
    \<and> cs = [mk_cell CellWindowUpdate (st_id s) (st_sendSequence s) (put_uvarint credit)]"
  using assms by (auto simp: sendWindowUpdate_def nextSendSequenceLocked_def split: option.splits if_splits)

lemma takePending_effect:
  assumes "takePendingCreditLocked iw force s = (credit, s')"
  shows "credit = 0 \<and> s' = s \<and> (st_pendingCredit s = 0 \<or> \<not> force \<and> st_pendingCredit s < windowUpdateThreshold iw)
    \<or> credit = st_pendingCredit s \<and> credit \<noteq> 0
      \<and> s' = s\<lparr>st_pendingCredit := 0, st_recvCredit := st_recvCredit s + st_pendingCredit s\<rparr>"
  using assms by (auto simp: takePendingCreditLocked_def split: if_splits)

text \<open>The receiving half of a stream, and the sending half.\<close>

definition same_sender :: "Stream \<Rightarrow> Stream \<Rightarrow> bool" where
  "same_sender s s' \<longleftrightarrow> st_sendSequence s' = st_sendSequence s \<and> st_sendCredit s' = st_sendCredit s
     \<and> st_sendWindow s' = st_sendWindow s \<and> st_localFIN s' = st_localFIN s \<and> st_recvSequence s' = st_recvSequence s"

definition same_receiver :: "Stream \<Rightarrow> Stream \<Rightarrow> bool" where
  "same_receiver s s' \<longleftrightarrow> st_recvSequence s' = st_recvSequence s \<and> st_recvCredit s' = st_recvCredit s
     \<and> st_pendingCredit s' = st_pendingCredit s \<and> st_chunks s' = st_chunks s \<and> st_chunkStart s' = st_chunkStart s
     \<and> st_peerFIN s' = st_peerFIN s"

lemma read_take_effect:
  assumes take: "read_take iw n s = ((copied, credit), s')" and ok: "chunks_ok s" and ne: "st_chunks s \<noteq> []" and n: "0 < n"
    and bound: "unat (st_pendingCredit s) + length (unread s) < 2 ^ 64"
  shows "unread s = copied @ unread s'" and "chunks_ok s'" and "same_sender s s'"
    and "st_peerFIN s' = st_peerFIN s"
    and "credit = 0 \<and> unat (st_pendingCredit s') = unat (st_pendingCredit s) + length copied
           \<and> st_recvCredit s' = st_recvCredit s \<and> st_pendingCredit s' < windowUpdateThreshold iw
       \<or> credit \<noteq> 0 \<and> unat credit = unat (st_pendingCredit s) + length copied
           \<and> st_recvCredit s' = st_recvCredit s + credit \<and> st_pendingCredit s' = 0"
proof -
  obtain ch rest where chunks: "st_chunks s = ch # rest" using ne by (cases "st_chunks s") auto
  let ?start = "st_chunkStart s"
  define s1 where "s1 = (if ?start + length copied = length ch then s\<lparr>st_chunks := rest, st_chunkStart := 0\<rparr>
      else s\<lparr>st_chunkStart := ?start + length copied\<rparr>)"
  define s2 where "s2 = s1\<lparr>st_pendingCredit := st_pendingCredit s1 + of_nat (length copied)\<rparr>"
  from take have copied: "copied = take n (drop ?start ch)"
    and pend: "takePendingCreditLocked iw (st_recvCredit s2 = 0 \<or> st_peerFIN s2 \<and> length (st_chunks s2) = 0) s2 = (credit, s')"
    by (auto simp: read_take_def chunks s1_def s2_def Let_def split: prod.splits)
  from ok have lt: "?start < length ch" and nonempty: "[] \<notin> set rest" by (auto simp: chunks_ok_def chunks)
  have pos: "0 < length copied" and le: "?start + length copied \<le> length ch" using copied n lt by auto
  have ch: "drop ?start ch = copied @ drop (?start + length copied) ch"
    using slice_join [of "length copied" ?start ch] copied by (metis append_take_drop_id drop_drop add.commute append_eq_conv_conj)
  have unread: "unread s = copied @ unread s1"
    using ch le lt by (auto simp: unread_def chunks s1_def)
  have ok1: "chunks_ok s1"
    using ok le lt nonempty by (cases rest) (auto simp: chunks_ok_def chunks s1_def)
  have "length copied \<le> length (unread s)" using unread by simp
  then have small: "unat (of_nat (length copied) :: u64) = length copied" using bound by (intro unat_of_nat_small) simp
  have p2: "unat (st_pendingCredit s2) = unat (st_pendingCredit s) + length copied"
    using \<open>length copied \<le> length (unread s)\<close> bound small by (simp add: s2_def s1_def unat_add_nowrap)
  then have nz: "st_pendingCredit s2 \<noteq> 0" using pos by (auto simp: unat_eq_zero)
  have frame: "unread s2 = unread s1" "chunks_ok s2"
    using ok1 by (simp_all add: s2_def unread_def chunks_ok_def)
  have frame': "same_sender s s2" "st_peerFIN s2 = st_peerFIN s" "st_recvCredit s2 = st_recvCredit s"
    by (simp_all add: s2_def s1_def same_sender_def)
  from takePending_effect [OF pend] nz consider
    "credit = 0" "s' = s2" "st_pendingCredit s2 < windowUpdateThreshold iw"
    | "credit = st_pendingCredit s2" "credit \<noteq> 0"
      "s' = s2\<lparr>st_pendingCredit := 0, st_recvCredit := st_recvCredit s2 + st_pendingCredit s2\<rparr>"
    by blast
  note cases = this
  show "unread s = copied @ unread s'" using cases frame(1) unread by cases (simp_all add: unread_def)
  show "chunks_ok s'" using cases frame(2) by cases (simp_all add: chunks_ok_def)
  show "same_sender s s'" using cases frame'(1) by cases (simp_all add: same_sender_def)
  show "st_peerFIN s' = st_peerFIN s" using cases frame'(2) by cases simp_all
  show "credit = 0 \<and> unat (st_pendingCredit s') = unat (st_pendingCredit s) + length copied
           \<and> st_recvCredit s' = st_recvCredit s \<and> st_pendingCredit s' < windowUpdateThreshold iw
       \<or> credit \<noteq> 0 \<and> unat credit = unat (st_pendingCredit s) + length copied
           \<and> st_recvCredit s' = st_recvCredit s + credit \<and> st_pendingCredit s' = 0"
    using cases p2 frame'(3) by cases simp_all
qed

section \<open>The invariant of one direction\<close>

text \<open>
  \<open>dir_inv iw x y ch bk\<close>: \<open>x\<close> sends to \<open>y\<close>, \<open>ch\<close> is in transit from \<open>x\<close> to \<open>y\<close>, \<open>bk\<close> from \<open>y\<close> to \<open>x\<close>, and
  \<open>iw\<close> is the window that \<open>y\<close> granted.
\<close>

definition established :: "u64 \<Rightarrow> Stream \<Rightarrow> Cell list \<Rightarrow> bool" where
  "established iw s bk \<longleftrightarrow>
     (if st_recvSequence s = 0
      then st_sendCredit s = 0 \<and> st_sendWindow s = 0 \<and> bk \<noteq> [] \<and> Kind (hd bk) = CellOpenOK
        \<and> parseCredit (Payload (hd bk)) = Inr iw \<and> (\<forall>c\<in>set (tl bk). Kind c \<noteq> CellOpenOK)
      else st_sendWindow s = iw \<and> (\<forall>c\<in>set bk. Kind c \<noteq> CellOpenOK))"

definition seq_inv :: "Stream \<Rightarrow> Stream \<Rightarrow> Cell list \<Rightarrow> bool" where
  "seq_inv s t ch \<longleftrightarrow> seq_run (unat (st_recvSequence t)) ch
     \<and> unat (st_recvSequence t) + length ch = unat (st_sendSequence s) \<and> st_sendSequence s \<le> MaxSequence"

definition receiver_inv :: "u64 \<Rightarrow> Stream \<Rightarrow> bool" where
  "receiver_inv iw t \<longleftrightarrow>
     unat (st_recvCredit t) + length (unread t) + unat (st_pendingCredit t) = unat iw
     \<and> st_pendingCredit t < windowUpdateThreshold iw \<and> chunks_ok t"

definition dir_inv :: "u64 \<Rightarrow> side \<Rightarrow> side \<Rightarrow> Cell list \<Rightarrow> Cell list \<Rightarrow> bool" where
  "dir_inv iw x y ch bk \<longleftrightarrow>
     seq_inv (sd_stream x) (sd_stream y) ch
     \<and> unat (st_sendCredit (sd_stream x)) + length (data_bytes ch) + hand_credits y + credits bk
         = unat (st_recvCredit (sd_stream y))
     \<and> receiver_inv iw (sd_stream y)
     \<and> list_all cell_ok ch
     \<and> fin_run (st_peerFIN (sd_stream y)) ch = Some (st_localFIN (sd_stream x))
     \<and> established iw (sd_stream x) bk
     \<and> 0 \<notin> set (sd_hand y)
     \<and> sd_written x = sd_read y @ unread (sd_stream y) @ data_bytes ch"

abbreviation window_ok :: "u64 \<Rightarrow> bool" where
  "window_ok iw \<equiv> 0 < iw \<and> iw \<le> MaxInitialWindow"

lemma windowUpdateThreshold_bounds:
  assumes "0 < iw"
  shows "0 < windowUpdateThreshold iw" and "windowUpdateThreshold iw \<le> iw"
  using assms by (auto simp: windowUpdateThreshold_def Let_def min_def word_gt_0)

section \<open>Preservation by local steps\<close>

lemma seq_inv_snoc:
  assumes inv: "seq_inv s t ch" and lt: "st_sendSequence s < MaxSequence" and c: "Sequence c = st_sendSequence s"
    and s': "st_sendSequence s' = st_sendSequence s + 1"
  shows "seq_inv s' t (ch @ [c])"
proof -
  have succ: "unat (st_sendSequence s + 1) = unat (st_sendSequence s) + 1"
    using lt by (intro unat_Suc_nowrap) (simp add: word_less_nat_alt)
  moreover have "st_sendSequence s + 1 \<le> MaxSequence" using lt succ by (simp add: word_less_nat_alt word_le_nat_alt)
  ultimately show ?thesis using inv c s' by (simp add: seq_inv_def seq_run_append)
qed

lemma receiver_inv_bound:
  assumes "receiver_inv iw t" and "window_ok iw"
  shows "unat (st_pendingCredit t) + length (unread t) \<le> unat MaxInitialWindow"
    and "unat (st_pendingCredit t) + length (unread t) < 2 ^ 64"
proof -
  have "unat iw \<le> unat MaxInitialWindow" using assms(2) by (simp only: word_le_nat_alt)
  with assms(1) show "unat (st_pendingCredit t) + length (unread t) \<le> unat MaxInitialWindow"
    unfolding receiver_inv_def by linarith
  then show "unat (st_pendingCredit t) + length (unread t) < 2 ^ 64" by simp
qed

lemma established_cong:
  "st_recvSequence s' = st_recvSequence s \<Longrightarrow> st_sendCredit s' = st_sendCredit s \<Longrightarrow> st_sendWindow s' = st_sendWindow s \<Longrightarrow>
   established iw s' bk = established iw s bk"
  by (simp add: established_def)

definition hand_ok :: "u64 \<Rightarrow> side \<Rightarrow> bool" where
  "hand_ok iw x \<longleftrightarrow> 0 \<notin> set (sd_hand x) \<and> hand_credits x \<le> unat iw"

lemma hand_ok_credit:
  assumes ok: "hand_ok iw x" and iw: "window_ok iw" and hand: "sd_hand x = hs @ credit # hs'"
  shows "credit \<noteq> 0" and "credit \<le> MaxInt64"
proof -
  from ok hand show "credit \<noteq> 0" by (auto simp: hand_ok_def)
  have "unat credit \<le> hand_credits x" by (simp add: hand_credits_def hand)
  moreover have "unat iw \<le> unat MaxInitialWindow" using iw by (simp only: word_le_nat_alt)
  ultimately show "credit \<le> MaxInt64" using ok by (simp add: hand_ok_def word_le_nat_alt)
qed

lemma dir_inv_hand_ok: "dir_inv iw x y ch bk \<Longrightarrow> hand_ok iw y"
  unfolding dir_inv_def hand_ok_def receiver_inv_def by linarith

lemma dir_inv_sender_frame:
  assumes "dir_inv iw x y ch bk" and "same_sender (sd_stream x) (sd_stream x')" and "sd_written x' = sd_written x"
  shows "dir_inv iw x' y ch bk"
  using assms established_cong [of "sd_stream x'" "sd_stream x" iw bk]
  by (simp add: dir_inv_def same_sender_def seq_inv_def)

lemma dir_inv_sender_step:
  assumes inv: "dir_inv iw x y ch bk" and step: "side_step iwx x x' cs"
    and own: "receiver_inv iwx (sd_stream x)" "window_ok iwx" "hand_ok iwx x"
  shows "dir_inv iw x' y (ch @ cs) bk"
  using step
proof (cases rule: side_step.cases)
  case (write_cell rest n c s')
  note eff = write_iteration_effect [OF write_cell(5)]
  let ?s = "sd_stream x"
  have "unat (st_sendCredit ?s - of_nat n) = unat (st_sendCredit ?s) - n"
  proof -
    have "(of_nat n :: u64) \<le> st_sendCredit ?s"
      using eff(4,6) by (simp add: word_le_nat_alt unat_of_nat_small)
    then show ?thesis using eff(6) by (simp add: unat_sub_nowrap unat_of_nat_small)
  qed
  moreover have "seq_inv s' (sd_stream y) (ch @ [c])"
    using inv write_cell(4) eff(1,2) by (intro seq_inv_snoc [where s = ?s]) (simp_all add: dir_inv_def)
  moreover have "established iw s' bk"
    using inv eff(2,4) by (auto simp: dir_inv_def established_def split: if_splits)
  moreover have "fin_run (st_peerFIN (sd_stream y)) (ch @ [c]) = Some False"
    using inv eff(1,3) by (simp add: dir_inv_def fin_run_append)
  moreover have "length (take n rest) = n" using eff(5) by simp
  ultimately show ?thesis
    using inv eff(1-5) unfolding write_cell(1,2) by (simp add: dir_inv_def cell_ok_def)
next
  case (close_write s')
  from CloseWrite_effect [OF close_write(3)] show ?thesis
  proof (elim disjE conjE)
    assume "st_localFIN (sd_stream x)" "s' = sd_stream x" "cs = []"
    with inv show ?thesis unfolding close_write(1) by simp
  next
    let ?s = "sd_stream x"
    assume nf: "\<not> st_localFIN ?s" and s': "s' = ?s\<lparr>st_localFIN := True, st_sendSequence := st_sendSequence ?s + 1\<rparr>"
      and cs: "cs = [mk_cell CellFin (st_id ?s) (st_sendSequence ?s) []]"
    have "seq_inv s' (sd_stream y) (ch @ cs)"
      unfolding cs using inv close_write(2) s' by (intro seq_inv_snoc [where s = ?s]) (simp_all add: dir_inv_def)
    moreover have "fin_run (st_peerFIN (sd_stream y)) (ch @ cs) = Some True"
      using inv nf by (simp add: dir_inv_def fin_run_append cs)
    moreover have "established iw s' bk" using inv established_cong [of s' ?s iw bk] by (simp add: dir_inv_def s')
    ultimately show ?thesis using inv s' unfolding close_write(1) by (simp add: dir_inv_def cell_ok_def cs)
  qed
next
  case (read_chunk n copied credit s')
  have "same_sender (sd_stream x) s'"
    using own(1) by (intro read_take_effect(3) [OF read_chunk(5) _ read_chunk(3,4) receiver_inv_bound(2) [OF own(1,2)]])
      (simp add: receiver_inv_def)
  then show ?thesis unfolding read_chunk(1,2) append_Nil2
    by (intro dir_inv_sender_frame [OF inv]) simp_all
next
  case (read_eof credit s')
  have "same_sender (sd_stream x) s'"
    using takePending_effect [OF read_eof(5)] by (auto simp: same_sender_def)
  then show ?thesis unfolding read_eof(1,2) append_Nil2
    by (intro dir_inv_sender_frame [OF inv]) simp_all
next
  case (send_update hs credit hs' s')
  let ?s = "sd_stream x"
  note credit = hand_ok_credit [OF own(3,2) send_update(2)]
  from sendWindowUpdate_effect [OF send_update(4) credit(1)]
  have s': "s' = ?s\<lparr>st_sendSequence := st_sendSequence ?s + 1\<rparr>"
    and cs: "cs = [mk_cell CellWindowUpdate (st_id ?s) (st_sendSequence ?s) (put_uvarint credit)]" by simp_all
  have "cell_ok (mk_cell CellWindowUpdate (st_id ?s) (st_sendSequence ?s) (put_uvarint credit))"
    using credit by (auto simp: cell_ok_def parseCredit_eq_Inr)
  moreover have "seq_inv s' (sd_stream y) (ch @ cs)"
    unfolding cs using inv send_update(3) s' by (intro seq_inv_snoc [where s = ?s]) (simp_all add: dir_inv_def)
  moreover have "established iw s' bk" using inv established_cong [of s' ?s iw bk] by (simp add: dir_inv_def s')
  ultimately show ?thesis using inv s' unfolding send_update(1) by (simp add: dir_inv_def fin_run_append cs)
qed

lemma side_step_no_OpenOK:
  assumes "side_step iw x x' cs"
  shows "\<forall>c\<in>set cs. Kind c \<noteq> CellOpenOK"
  using assms
proof (cases rule: side_step.cases)
  case (write_cell rest n c s')
  then show ?thesis using write_iteration_effect(1) [OF write_cell(5)] by simp
next
  case (close_write s')
  then show ?thesis using CloseWrite_effect [OF close_write(3)] by auto
next
  case (send_update hs credit hs' s')
  then show ?thesis
    by (auto simp: sendWindowUpdate_def nextSendSequenceLocked_def split: if_splits option.splits)
qed simp_all

lemma established_extend:
  assumes "established iw s bk" and "\<forall>c\<in>set cs. Kind c \<noteq> CellOpenOK"
  shows "established iw s (bk @ cs)"
  using assms by (auto simp: established_def split: if_splits)

lemma dir_inv_receiver_frame:
  assumes "dir_inv iw x y ch bk" and "same_receiver (sd_stream y) (sd_stream y')" and "sd_read y' = sd_read y"
    and "hand_credits y' + credits cs = hand_credits y" and "set (sd_hand y') \<subseteq> set (sd_hand y)"
    and "\<forall>c\<in>set cs. Kind c \<noteq> CellOpenOK"
  shows "dir_inv iw x y' ch (bk @ cs)"
proof -
  have "unread (sd_stream y') = unread (sd_stream y)" using assms(2) by (simp add: unread_def same_receiver_def)
  with assms show ?thesis
    by (auto simp: dir_inv_def same_receiver_def seq_inv_def receiver_inv_def chunks_ok_def established_extend)
qed

lemma dir_inv_receiver_step:
  assumes inv: "dir_inv iw x y ch bk" and step: "side_step iw y y' cs" and iw: "window_ok iw"
  shows "dir_inv iw x y' ch (bk @ cs)"
proof -
  let ?t = "sd_stream y"
  note no = side_step_no_OpenOK [OF step]
  from inv have rinv: "receiver_inv iw ?t" by (simp add: dir_inv_def)
  note bound = receiver_inv_bound [OF rinv iw]
  from step show ?thesis
  proof (cases rule: side_step.cases)
    case (write_cell rest n c s')
    note eff = write_iteration_effect [OF write_cell(5)]
    show ?thesis using no eff(1,2) unfolding write_cell(1,2)
      by (intro dir_inv_receiver_frame [OF inv]) (simp_all add: same_receiver_def hand_credits_def)
  next
    case (close_write s')
    from CloseWrite_effect [OF close_write(3)] no show ?thesis unfolding close_write(1)
      by (intro dir_inv_receiver_frame [OF inv]) (auto simp: same_receiver_def hand_credits_def)
  next
    case (read_chunk n copied credit s')
    have ok: "chunks_ok ?t" using rinv by (simp add: receiver_inv_def)
    note eff = read_take_effect [OF read_chunk(5) ok read_chunk(3,4) bound(2)]
    have "unat (st_recvCredit ?t) + unat credit < 2 ^ 64"
      using eff(1,5) rinv iw bound by (auto simp: receiver_inv_def word_le_nat_alt)
    with eff(5) have credit: "unat (st_recvCredit s') = unat (st_recvCredit ?t) + unat credit
        \<and> unat (st_recvCredit s') + unat (st_pendingCredit s') = unat (st_recvCredit ?t) + unat (st_pendingCredit ?t) + length copied"
      by (auto simp: unat_add_nowrap)
    have "st_pendingCredit s' < windowUpdateThreshold iw"
      using eff(5) windowUpdateThreshold_bounds(1) iw by auto
    then have "receiver_inv iw s'" using rinv eff(1,2) credit by (simp add: receiver_inv_def)
    then show ?thesis
      using inv eff(1,3,4) credit unfolding read_chunk(1,2)
      by (simp add: dir_inv_def same_sender_def seq_inv_def hand_credits_def)
  next
    case (read_eof credit s')
    from takePending_effect [OF read_eof(5)] consider "credit = 0" "s' = ?t"
      | "credit = st_pendingCredit ?t" "credit \<noteq> 0"
        "s' = ?t\<lparr>st_pendingCredit := 0, st_recvCredit := st_recvCredit ?t + st_pendingCredit ?t\<rparr>" by blast
    then show ?thesis
    proof cases
      case 1
      with inv show ?thesis unfolding read_eof(1,2) by simp
    next
      case 2
      have "unat (st_recvCredit s') = unat (st_recvCredit ?t) + unat credit"
        using 2 rinv iw by (simp add: receiver_inv_def word_le_nat_alt unat_add_nowrap)
      moreover have "unread s' = unread ?t" using 2 by (simp add: unread_def)
      moreover have "receiver_inv iw s'"
        using rinv calculation 2 windowUpdateThreshold_bounds(1) iw by (simp add: receiver_inv_def chunks_ok_def)
      ultimately show ?thesis
        using inv 2 unfolding read_eof(1,2) by (simp add: dir_inv_def seq_inv_def hand_credits_def)
    qed
  next
    case (send_update hs credit hs' s')
    note credit = hand_ok_credit [OF dir_inv_hand_ok [OF inv] iw send_update(2)]
    from sendWindowUpdate_effect [OF send_update(4) credit(1)] no credit show ?thesis
      unfolding send_update(1) by (intro dir_inv_receiver_frame [OF inv])
        (auto simp: same_receiver_def hand_credits_def send_update(2))
  qed
qed

section \<open>Delivery\<close>

lemma seq_inv_deliver:
  assumes "seq_inv s t (c # ch)"
  shows "Sequence c = st_recvSequence t" and "st_recvSequence t \<noteq> MaxSequence"
    and "st_recvSequence t' = st_recvSequence t + 1 \<Longrightarrow> seq_inv s t' ch" and "st_recvSequence t + 1 \<noteq> 0"
proof -
  from assms have q: "unat (Sequence c) = unat (st_recvSequence t)" "seq_run (Suc (unat (st_recvSequence t))) ch"
    and len: "unat (st_recvSequence t) + Suc (length ch) = unat (st_sendSequence s)" and max: "st_sendSequence s \<le> MaxSequence"
    by (simp_all add: seq_inv_def)
  have lt: "unat (st_recvSequence t) < unat MaxSequence" using len max by (simp only: word_le_nat_alt)
  have succ: "unat (st_recvSequence t + 1) = unat (st_recvSequence t) + 1"
    using lt by (intro unat_Suc_nowrap) simp
  show "Sequence c = st_recvSequence t" using q(1) by (simp add: word_unat_eq_iff)
  show "st_recvSequence t \<noteq> MaxSequence" using lt by auto
  show "seq_inv s t' ch" if "st_recvSequence t' = st_recvSequence t + 1"
    using q(2) len max succ that by (simp add: seq_inv_def)
  show "st_recvSequence t + 1 \<noteq> 0" using succ by (metis Suc_eq_plus1 nat.distinct(1) unat_0)
qed

lemma deliver_data:
  assumes d1: "dir_inv iwy x y ch (c # bk)" and d2: "dir_inv iwx y x (c # bk) ch" and k: "Kind c = CellData"
    and iw: "window_ok iwx"
  shows "\<exists>s'. stream_handleCell c (sd_stream x) = (None, s')
    \<and> dir_inv iwy (x\<lparr>sd_stream := s'\<rparr>) y ch bk \<and> dir_inv iwx y (x\<lparr>sd_stream := s'\<rparr>) bk ch"
proof -
  let ?s = "sd_stream x" and ?n = "length (Payload c)"
  have seq: "seq_inv (sd_stream y) ?s (c # bk)" using d2 by (simp add: dir_inv_def)
  note seqf = seq_inv_deliver [OF seq]
  have fin: "\<not> st_peerFIN ?s" "fin_run (st_peerFIN ?s) bk = Some (st_localFIN (sd_stream y))"
    using d2 k by (auto simp: dir_inv_def split: if_splits)
  have fit: "?n \<le> unat (st_recvCredit ?s)" using d2 k by (simp add: dir_inv_def)
  have rs: "st_recvSequence ?s \<noteq> 0" using d1 k by (auto simp: dir_inv_def established_def)
  define s' where "s' = ?s\<lparr>st_recvSequence := st_recvSequence ?s + 1, st_recvCredit := st_recvCredit ?s - of_nat ?n,
      st_chunks := st_chunks ?s @ (if Payload c = [] then [] else [Payload c])\<rparr>"
  have handle: "stream_handleCell c ?s = (None, s')"
    using k seqf(1,2) fin(1) fit by (auto simp: stream_handleCell_def Let_def s'_def)
  have "unat (st_recvCredit ?s) < 2 ^ 64" using unsigned_less [of "st_recvCredit ?s"] by simp
  then have small: "unat (of_nat ?n :: u64) = ?n" using fit by (intro unat_of_nat_small) simp
  then have credit: "unat (st_recvCredit s') = unat (st_recvCredit ?s) - ?n"
    using fit by (simp add: s'_def unat_sub_nowrap word_le_nat_alt)
  have rinv: "receiver_inv iwx ?s" using d2 by (simp add: dir_inv_def)
  have start: "st_chunkStart ?s \<le> length (concat (st_chunks ?s))"
    using rinv by (cases "st_chunks ?s") (auto simp: receiver_inv_def chunks_ok_def)
  then have unread: "unread s' = unread ?s @ Payload c" by (simp add: unread_def s'_def)
  have chunks: "chunks_ok s'"
    using rinv by (cases "st_chunks ?s") (auto simp: receiver_inv_def chunks_ok_def s'_def split: if_splits)
  have "receiver_inv iwx s'"
    using rinv credit fit unread chunks by (simp add: receiver_inv_def s'_def)
  moreover have "established iwx (sd_stream y) ch" using d2 by (simp add: dir_inv_def)
  moreover have "unat (st_sendCredit (sd_stream y)) + (?n + length (data_bytes bk)) + hand_credits x + credits ch
      = unat (st_recvCredit ?s)" using d2 k by (simp add: dir_inv_def)
  then have "unat (st_sendCredit (sd_stream y)) + length (data_bytes bk) + hand_credits x + credits ch
      = unat (st_recvCredit s')" unfolding credit by linarith
  moreover have "st_recvSequence s' = st_recvSequence ?s + 1" "st_peerFIN s' = st_peerFIN ?s" by (simp_all add: s'_def)
  ultimately have "dir_inv iwx y (x\<lparr>sd_stream := s'\<rparr>) bk ch"
    using d2 k unread fin seqf(3) [of s'] by (simp add: dir_inv_def hand_credits_def)
  moreover have "dir_inv iwy (x\<lparr>sd_stream := s'\<rparr>) y ch bk"
    using d1 k rs seqf(4) by (simp add: dir_inv_def s'_def seq_inv_def established_def cell_credit_def)
  ultimately show ?thesis using handle by blast
qed

lemma deliver_fin:
  assumes d1: "dir_inv iwy x y ch (c # bk)" and d2: "dir_inv iwx y x (c # bk) ch"
    and k: "Kind c = CellFin" "Payload c = []"
  shows "\<exists>s'. stream_handleCell c (sd_stream x) = (None, s')
    \<and> dir_inv iwy (x\<lparr>sd_stream := s'\<rparr>) y ch bk \<and> dir_inv iwx y (x\<lparr>sd_stream := s'\<rparr>) bk ch"
proof -
  let ?s = "sd_stream x"
  have seq: "seq_inv (sd_stream y) ?s (c # bk)" using d2 by (simp add: dir_inv_def)
  note seqf = seq_inv_deliver [OF seq]
  have fin: "\<not> st_peerFIN ?s" "fin_run True bk = Some (st_localFIN (sd_stream y))"
    using d2 k by (auto simp: dir_inv_def split: if_splits)
  have rs: "st_recvSequence ?s \<noteq> 0" using d1 k by (auto simp: dir_inv_def established_def)
  define s' where "s' = ?s\<lparr>st_recvSequence := st_recvSequence ?s + 1, st_peerFIN := True\<rparr>"
  have handle: "stream_handleCell c ?s = (None, s')"
    using k seqf(1,2) fin(1) by (simp add: stream_handleCell_def s'_def)
  have "dir_inv iwx y (x\<lparr>sd_stream := s'\<rparr>) bk ch"
    using d2 k fin seqf(3) [of s']
    by (simp add: dir_inv_def hand_credits_def s'_def receiver_inv_def chunks_ok_def unread_def)
  moreover have "dir_inv iwy (x\<lparr>sd_stream := s'\<rparr>) y ch bk"
    using d1 k rs seqf(4) by (simp add: dir_inv_def s'_def seq_inv_def established_def cell_credit_def)
  ultimately show ?thesis using handle by blast
qed

lemma deliver_update:
  assumes d1: "dir_inv iwy x y ch (c # bk)" and d2: "dir_inv iwx y x (c # bk) ch"
    and k: "Kind c = CellWindowUpdate" and v: "parseCredit (Payload c) = Inr v" and iw: "window_ok iwy"
  shows "\<exists>s'. stream_handleCell c (sd_stream x) = (None, s')
    \<and> dir_inv iwy (x\<lparr>sd_stream := s'\<rparr>) y ch bk \<and> dir_inv iwx y (x\<lparr>sd_stream := s'\<rparr>) bk ch"
proof -
  let ?s = "sd_stream x"
  have seq: "seq_inv (sd_stream y) ?s (c # bk)" using d2 by (simp add: dir_inv_def)
  note seqf = seq_inv_deliver [OF seq]
  have rs: "st_recvSequence ?s \<noteq> 0" using d1 k by (auto simp: dir_inv_def established_def)
  have cv: "cell_credit c = unat v" using k v by (simp add: cell_credit_def)
  have window: "st_sendWindow ?s = iwy" using d1 rs by (simp add: dir_inv_def established_def)
  have sum: "unat (st_sendCredit ?s) + unat v \<le> unat iwy"
    using d1 cv by (simp add: dir_inv_def receiver_inv_def)
  have "unat iwy \<le> unat MaxInitialWindow" using iw by (simp only: word_le_nat_alt)
  then have small: "unat (st_sendCredit ?s) + unat v < 2 ^ 64" using sum by simp
  then have add: "unat (st_sendCredit ?s + v) = unat (st_sendCredit ?s) + unat v" by (intro unat_add_nowrap) simp
  have guards: "\<not> (v > st_sendWindow ?s \<or> st_sendCredit ?s > MaxUint64 - v \<or> st_sendCredit ?s + v > st_sendWindow ?s)"
  proof -
    have "unat v < 2 ^ 64" using unsigned_less [of v] by simp
    then have "v \<le> MaxUint64" by (simp add: word_le_nat_alt)
    then have "unat (MaxUint64 - v) = unat MaxUint64 - unat v" by (rule unat_sub_nowrap)
    then show ?thesis using sum add small window by (simp add: word_less_nat_alt not_less)
  qed
  define s' where "s' = ?s\<lparr>st_recvSequence := st_recvSequence ?s + 1, st_sendCredit := st_sendCredit ?s + v\<rparr>"
  have handle: "stream_handleCell c ?s = (None, s')"
    using k seqf(1,2) v guards by (simp add: stream_handleCell_def s'_def)
  have "dir_inv iwx y (x\<lparr>sd_stream := s'\<rparr>) bk ch"
    using d2 k seqf(3) [of s']
    by (simp add: dir_inv_def hand_credits_def s'_def receiver_inv_def chunks_ok_def unread_def)
  moreover have "dir_inv iwy (x\<lparr>sd_stream := s'\<rparr>) y ch bk"
    using d1 k rs seqf(4) add cv by (simp add: dir_inv_def s'_def seq_inv_def established_def)
  ultimately show ?thesis using handle by blast
qed

lemma deliver_open_ok:
  assumes d1: "dir_inv iwy x y ch (c # bk)" and d2: "dir_inv iwx y x (c # bk) ch"
    and k: "Kind c = CellOpenOK" and iw: "window_ok iwy"
  shows "\<exists>s'. stream_handleCell c (sd_stream x) = (None, s')
    \<and> dir_inv iwy (x\<lparr>sd_stream := s'\<rparr>) y ch bk \<and> dir_inv iwx y (x\<lparr>sd_stream := s'\<rparr>) bk ch"
proof -
  let ?s = "sd_stream x"
  have seq: "seq_inv (sd_stream y) ?s (c # bk)" using d2 by (simp add: dir_inv_def)
  note seqf = seq_inv_deliver [OF seq]
  have rs: "st_recvSequence ?s = 0" and v: "parseCredit (Payload c) = Inr iwy" and z: "st_sendCredit ?s = 0"
    and no: "\<forall>c\<in>set bk. Kind c \<noteq> CellOpenOK"
    using d1 k by (auto simp: dir_inv_def established_def split: if_splits)
  have cv: "cell_credit c = unat iwy" using k v by (simp add: cell_credit_def)
  define s' where "s' = completeOpen None (?s\<lparr>st_recvSequence := 1, st_sendWindow := iwy, st_sendCredit := iwy\<rparr>)"
  have handle: "stream_handleCell c ?s = (None, s')"
    using k seqf(1) rs v iw by (simp add: stream_handleCell_def s'_def not_less Let_def)
  have fields: "st_recvSequence s' = st_recvSequence ?s + 1" "st_sendSequence s' = st_sendSequence ?s" "st_recvCredit s' = st_recvCredit ?s"
    "st_pendingCredit s' = st_pendingCredit ?s" "st_chunks s' = st_chunks ?s" "st_chunkStart s' = st_chunkStart ?s"
    "st_peerFIN s' = st_peerFIN ?s" "st_localFIN s' = st_localFIN ?s" "st_sendWindow s' = iwy" "st_sendCredit s' = iwy"
    using rs by (simp_all add: s'_def completeOpen_def)
  have "dir_inv iwx y (x\<lparr>sd_stream := s'\<rparr>) bk ch"
    using d2 k seqf(3) [of s'] fields
    by (simp add: dir_inv_def hand_credits_def receiver_inv_def chunks_ok_def unread_def)
  moreover have "dir_inv iwy (x\<lparr>sd_stream := s'\<rparr>) y ch bk"
    using d1 k rs seqf(4) cv z no fields by (simp add: dir_inv_def seq_inv_def established_def)
  ultimately show ?thesis using handle by blast
qed

lemma deliver_cell:
  assumes d1: "dir_inv iwy x y ch (c # bk)" and d2: "dir_inv iwx y x (c # bk) ch" and iw: "window_ok iwx" "window_ok iwy"
  shows "\<exists>s'. stream_handleCell c (sd_stream x) = (None, s')
    \<and> dir_inv iwy (x\<lparr>sd_stream := s'\<rparr>) y ch bk \<and> dir_inv iwx y (x\<lparr>sd_stream := s'\<rparr>) bk ch"
proof -
  from d2 have "cell_ok c" by (simp add: dir_inv_def)
  then consider "Kind c = CellData" | "Kind c = CellFin" "Payload c = []"
    | v where "Kind c = CellWindowUpdate" "parseCredit (Payload c) = Inr v" | "Kind c = CellOpenOK"
    unfolding cell_ok_def by (elim disjE conjE exE)
  then show ?thesis
  proof cases
    case 1
    then show ?thesis by (rule deliver_data [OF d1 d2 _ iw(1)])
  next
    case 2
    then show ?thesis by (rule deliver_fin [OF d1 d2])
  next
    case 3
    then show ?thesis by (rule deliver_update [OF d1 d2 _ _ iw(2)])
  next
    case 4
    then show ?thesis by (rule deliver_open_ok [OF d1 d2 _ iw(2)])
  qed
qed

section \<open>Reachable states\<close>

definition pair_inv :: "u64 \<Rightarrow> u64 \<Rightarrow> pair \<Rightarrow> bool" where
  "pair_inv iwA iwB p \<longleftrightarrow>
     dir_inv iwB (pr_a p) (pr_b p) (pr_ab p) (pr_ba p) \<and> dir_inv iwA (pr_b p) (pr_a p) (pr_ba p) (pr_ab p)"

lemma window_credit: "window_ok iw \<Longrightarrow> iw \<noteq> 0 \<and> iw \<le> MaxInt64"
  by (auto simp: word_le_nat_alt word_less_nat_alt)

lemma pair_start_inv:
  assumes "window_ok iwA" and "window_ok iwB"
  shows "pair_inv iwA iwB (pair_start i iwA iwB)"
proof -
  note credits = window_credit [OF assms(1)] window_credit [OF assms(2)]
  have "parseCredit (put_uvarint iwB) = Inr iwB" using credits by (simp add: parseCredit_eq_Inr)
  then show ?thesis
    using credits windowUpdateThreshold_bounds(1) assms
    by (simp add: pair_inv_def pair_start_def dir_inv_def seq_inv_def receiver_inv_def established_def
        newStream_def unread_def chunks_ok_def hand_credits_def cell_ok_def)
qed

lemma pair_step_inv:
  assumes step: "pair_step iwA iwB p p'" and inv: "pair_inv iwA iwB p" and iw: "window_ok iwA" "window_ok iwB"
  shows "pair_inv iwA iwB p'"
proof -
  from inv have d1: "dir_inv iwB (pr_a p) (pr_b p) (pr_ab p) (pr_ba p)" and d2: "dir_inv iwA (pr_b p) (pr_a p) (pr_ba p) (pr_ab p)"
    by (simp_all add: pair_inv_def)
  have ra: "receiver_inv iwA (sd_stream (pr_a p))" "hand_ok iwA (pr_a p)"
    and rb: "receiver_inv iwB (sd_stream (pr_b p))" "hand_ok iwB (pr_b p)"
    using d1 d2 dir_inv_hand_ok by (auto simp: dir_inv_def)
  from step show ?thesis
  proof cases
    case (local_a x cs)
    from dir_inv_sender_step [OF d1 local_a(2) ra(1) iw(1) ra(2)] dir_inv_receiver_step [OF d2 local_a(2) iw(1)]
    show ?thesis by (simp add: local_a(1) pair_inv_def)
  next
    case (local_b x cs)
    from dir_inv_sender_step [OF d2 local_b(2) rb(1) iw(2) rb(2)] dir_inv_receiver_step [OF d1 local_b(2) iw(2)]
    show ?thesis by (simp add: local_b(1) pair_inv_def)
  next
    case (deliver_b c cs err s')
    from deliver_cell [OF d2 [unfolded deliver_b(2)] d1 [unfolded deliver_b(2)] iw(2,1)] deliver_b(3)
    show ?thesis by (auto simp: deliver_b(1) pair_inv_def)
  next
    case (deliver_a c cs err s')
    from deliver_cell [OF d1 [unfolded deliver_a(2)] d2 [unfolded deliver_a(2)] iw(1,2)] deliver_a(3)
    show ?thesis by (auto simp: deliver_a(1) pair_inv_def)
  qed
qed

lemma pair_reach_inv:
  assumes reach: "pair_reach iwA iwB p p'" and inv: "pair_inv iwA iwB p" and iw: "window_ok iwA" "window_ok iwB"
  shows "pair_inv iwA iwB p'"
  using reach by (induction rule: rtranclp_induct) (use inv pair_step_inv iw in blast)+

text \<open>The ends are interchangeable.\<close>

definition swap_pair :: "pair \<Rightarrow> pair" where
  "swap_pair p = \<lparr>pr_a = pr_b p, pr_b = pr_a p, pr_ab = pr_ba p, pr_ba = pr_ab p\<rparr>"

lemma swap_pair_inv: "pair_inv iwB iwA (swap_pair p) = pair_inv iwA iwB p"
  by (auto simp: pair_inv_def swap_pair_def)

lemma pair_step_swap:
  assumes "pair_step iwA iwB p p'"
  shows "pair_step iwB iwA (swap_pair p) (swap_pair p')"
  using assms
proof cases
  case (local_a x cs)
  then show ?thesis using pair_step.local_b [of iwA "swap_pair p" x cs iwB] by (simp add: swap_pair_def)
next
  case (local_b x cs)
  then show ?thesis using pair_step.local_a [of iwB "swap_pair p" x cs iwA] by (simp add: swap_pair_def)
next
  case (deliver_b c cs err s')
  then show ?thesis using pair_step.deliver_a [of "swap_pair p" c cs err s' iwB iwA] by (simp add: swap_pair_def)
next
  case (deliver_a c cs err s')
  then show ?thesis using pair_step.deliver_b [of "swap_pair p" c cs err s' iwB iwA] by (simp add: swap_pair_def)
qed

lemma pair_reach_swap:
  assumes "pair_reach iwA iwB p p'"
  shows "pair_reach iwB iwA (swap_pair p) (swap_pair p')"
  using assms by (induction rule: rtranclp_induct) (auto dest: pair_step_swap intro: rtranclp.rtrancl_into_rtrancl)

section \<open>Retirement\<close>

text \<open>The state of the system once \<open>b\<close> has nothing left to say to \<open>a\<close>.\<close>

definition quiet_b :: "pair \<Rightarrow> bool" where
  "quiet_b p \<longleftrightarrow> pr_ba p = [] \<and> st_localFIN (sd_stream (pr_b p)) \<and> sd_hand (pr_b p) = [] \<and> st_chunks (sd_stream (pr_b p)) = []
     \<and> st_pendingCredit (sd_stream (pr_b p)) = 0 \<and> data_bytes (pr_ab p) = [] \<and> st_localFIN (sd_stream (pr_a p))"

lemma no_cells_left:
  assumes "fin_run True cs = Some f" and "list_all cell_ok cs" and "credits cs = 0"
    and "\<forall>c\<in>set cs. Kind c \<noteq> CellOpenOK"
  shows "cs = []"
proof (cases cs)
  case (Cons c cs')
  with assms(1,2,4) obtain v where "Kind c = CellWindowUpdate" "parseCredit (Payload c) = Inr v"
    by (auto simp: cell_ok_def split: if_splits)
  moreover from this(2) have "v \<noteq> 0" by (simp add: parseCredit_eq_Inr)
  ultimately have "cell_credit c \<noteq> 0" by (simp add: cell_credit_def unat_eq_zero)
  with assms(3) Cons show ?thesis by simp
qed

lemma canRetire_quiet:
  assumes inv: "pair_inv iwA iwB p" and retire: "canRetireLocked iwA (sd_stream (pr_a p))"
  shows "quiet_b p"
proof -
  let ?a = "sd_stream (pr_a p)" and ?b = "sd_stream (pr_b p)"
  from inv have d1: "dir_inv iwB (pr_a p) (pr_b p) (pr_ab p) (pr_ba p)" and d2: "dir_inv iwA (pr_b p) (pr_a p) (pr_ba p) (pr_ab p)"
    by (simp_all add: pair_inv_def)
  from retire have fin: "st_localFIN ?a" "st_peerFIN ?a" and full: "st_sendCredit ?a = st_sendWindow ?a" "st_sendWindow ?a > 0"
    by (simp_all add: canRetireLocked_def)
  from d1 full have window: "st_sendWindow ?a = iwB" and ok: "\<forall>c\<in>set (pr_ba p). Kind c \<noteq> CellOpenOK"
    by (auto simp: dir_inv_def established_def split: if_splits)
  have z: "length (data_bytes (pr_ab p)) + hand_credits (pr_b p) + credits (pr_ba p) + length (unread ?b)
      + unat (st_pendingCredit ?b) = 0"
  proof -
    from d1 have "unat (st_sendCredit ?a) + length (data_bytes (pr_ab p)) + hand_credits (pr_b p) + credits (pr_ba p)
        = unat (st_recvCredit ?b)" "unat (st_recvCredit ?b) + length (unread ?b) + unat (st_pendingCredit ?b) = unat iwB"
      by (simp_all add: dir_inv_def receiver_inv_def)
    moreover have "unat (st_sendCredit ?a) = unat iwB" using full window by simp
    ultimately show ?thesis by linarith
  qed
  then have "hand_credits (pr_b p) = 0" by simp
  then have hand: "sd_hand (pr_b p) = []"
    using d1 by (cases "sd_hand (pr_b p)") (auto simp: dir_inv_def hand_credits_def unat_eq_zero)
  have "fin_run True (pr_ba p) = Some (st_localFIN ?b)" using d2 fin by (simp add: dir_inv_def)
  moreover from this have ba: "pr_ba p = []"
    by (rule no_cells_left) (use d2 z ok in \<open>simp_all add: dir_inv_def\<close>)
  moreover have "st_chunks ?b = []"
    using d1 z by (cases "st_chunks ?b") (auto simp: dir_inv_def receiver_inv_def chunks_ok_def unread_def)
  ultimately show ?thesis using z hand fin by (simp add: quiet_b_def unat_eq_zero)
qed

lemma quiet_b_local_b:
  assumes q: "quiet_b p" and step: "side_step iwB (pr_b p) x cs"
  shows "cs = [] \<and> st_localFIN (sd_stream x) \<and> sd_hand x = [] \<and> st_chunks (sd_stream x) = []
    \<and> st_pendingCredit (sd_stream x) = 0"
  using step
proof (cases rule: side_step.cases)
  case (write_cell rest n c s')
  then show ?thesis using write_iteration_effect(3) [OF write_cell(5)] q by (simp add: quiet_b_def)
next
  case (close_write s')
  then show ?thesis using CloseWrite_effect [OF close_write(3)] q by (auto simp: quiet_b_def)
next
  case (read_eof credit s')
  then show ?thesis using q by (auto simp: quiet_b_def takePendingCreditLocked_def)
qed (use q in \<open>simp_all add: quiet_b_def\<close>)

lemma side_step_localFIN:
  assumes "side_step iw x x' cs" and "st_localFIN (sd_stream x)"
  shows "st_localFIN (sd_stream x') \<and> data_bytes cs = []"
  using assms(1)
proof (cases rule: side_step.cases)
  case (write_cell rest n c s')
  then show ?thesis using write_iteration_effect(3) [OF write_cell(5)] assms(2) by simp
next
  case (close_write s')
  then show ?thesis using CloseWrite_effect [OF close_write(3)] assms(2) by auto
next
  case (read_chunk n copied credit s')
  then show ?thesis
    using assms(2) by (auto simp: read_take_def takePendingCreditLocked_def Let_def split: if_splits)
next
  case (read_eof credit s')
  then show ?thesis using assms(2) by (auto simp: takePendingCreditLocked_def split: if_splits)
next
  case (send_update hs credit hs' s')
  then show ?thesis
    using assms(2) by (auto simp: sendWindowUpdate_def nextSendSequenceLocked_def split: if_splits option.splits)
qed

lemma quiet_b_step:
  assumes q: "quiet_b p" and step: "pair_step iwA iwB p p'" and inv: "pair_inv iwA iwB p" and iw: "window_ok iwA" "window_ok iwB"
  shows "quiet_b p'"
  using step
proof cases
  case (local_a x cs)
  with side_step_localFIN [OF local_a(2)] q show ?thesis by (simp add: quiet_b_def)
next
  case (local_b x cs)
  with quiet_b_local_b [OF q local_b(2)] q show ?thesis by (simp add: quiet_b_def)
next
  case (deliver_a c cs err s')
  with q show ?thesis by (simp add: quiet_b_def)
next
  case (deliver_b c cs err s')
  have "dir_inv iwA (pr_b p) (pr_a p) (pr_ba p) (c # cs)" "dir_inv iwB (pr_a p) (pr_b p) (c # cs) (pr_ba p)"
    using inv deliver_b(2) by (simp_all add: pair_inv_def)
  from deliver_cell [OF this iw(2,1)] have "err = None" using deliver_b(3) by auto
  moreover have "Kind c = CellData \<longrightarrow> Payload c = []" "data_bytes cs = []" using q deliver_b(2) by (auto simp: quiet_b_def)
  ultimately have "st_localFIN s' = st_localFIN (sd_stream (pr_b p)) \<and> st_chunks s' = st_chunks (sd_stream (pr_b p))
      \<and> st_pendingCredit s' = st_pendingCredit (sd_stream (pr_b p))"
    using deliver_b(3)
    by (auto simp: stream_handleCell_def completeOpen_def Let_def split: if_splits sum.splits)
  with q \<open>data_bytes cs = []\<close> show ?thesis by (simp add: quiet_b_def deliver_b(1))
qed

lemma quiet_b_reach:
  assumes "pair_reach iwA iwB p p'" and "quiet_b p" and "pair_inv iwA iwB p" and iw: "window_ok iwA" "window_ok iwB"
  shows "quiet_b p'"
  using assms(1,2,3)
proof (induction rule: rtranclp_induct)
  case (step y z)
  then show ?case using quiet_b_step [OF _ step.hyps(2) pair_reach_inv [OF step.hyps(1) _ iw] iw] by blast
qed

lemma canRetire_silent_a:
  assumes inv: "pair_inv iwA iwB p" and iw: "window_ok iwA" "window_ok iwB"
    and retire: "canRetireLocked iwA (sd_stream (pr_a p))" and reach: "pair_reach iwA iwB p p'"
  shows "pr_ba p' = []"
  using quiet_b_reach [OF reach canRetire_quiet [OF inv retire] inv iw] by (simp add: quiet_b_def)

section \<open>Properties\<close>



text \<open>
  C16 (invariant). Credit is conserved. In every reachable state and in both directions: the sender's
  credit, the data bytes in transit, the credit taken by \<open>Read\<close> but not yet announced and the credit
  in transit add up to the receiver's credit; the receiver's credit, its unread bytes and its pending
  credit add up to the window it granted. No byte of the window is ever lost or created.
\<close>

theorem stream_credit_conserved:
  assumes iw: "window_ok iwA" "window_ok iwB" and reach: "pair_reach iwA iwB (pair_start i iwA iwB) p"
  shows "unat (st_sendCredit (sd_stream (pr_a p))) + length (data_bytes (pr_ab p)) + hand_credits (pr_b p) + credits (pr_ba p)
           = unat (st_recvCredit (sd_stream (pr_b p)))
       \<and> unat (st_recvCredit (sd_stream (pr_b p))) + length (unread (sd_stream (pr_b p))) + unat (st_pendingCredit (sd_stream (pr_b p)))
           = unat iwB
       \<and> unat (st_sendCredit (sd_stream (pr_b p))) + length (data_bytes (pr_ba p)) + hand_credits (pr_a p) + credits (pr_ab p)
           = unat (st_recvCredit (sd_stream (pr_a p)))
       \<and> unat (st_recvCredit (sd_stream (pr_a p))) + length (unread (sd_stream (pr_a p))) + unat (st_pendingCredit (sd_stream (pr_a p)))
           = unat iwA"
  using pair_reach_inv [OF reach pair_start_inv [OF iw] iw]
  by (simp add: pair_inv_def dir_inv_def receiver_inv_def)

theorem stream_credit_conserved_witness:
  "0 + 0 + 0 + credits [mk_cell CellOpenOK 1 0 (put_uvarint 65536)] = unat (65536 :: u64)"
  using stream_credit_conserved [of 1024 65536 1 "pair_start 1 1024 65536"]
  by (simp add: pair_start_def newStream_def hand_credits_def)

text \<open>
  C2 (refinement). A stream is a reliable byte pipe: at every moment the bytes accepted by one end's
  \<open>Write\<close> are exactly the bytes returned by the other end's \<open>Read\<close>, followed by the bytes buffered
  there, followed by the bytes in transit, in this order.
\<close>

theorem stream_pipe:
  assumes iw: "window_ok iwA" "window_ok iwB" and reach: "pair_reach iwA iwB (pair_start i iwA iwB) p"
  shows "sd_written (pr_a p) = sd_read (pr_b p) @ unread (sd_stream (pr_b p)) @ data_bytes (pr_ab p)
       \<and> sd_written (pr_b p) = sd_read (pr_a p) @ unread (sd_stream (pr_a p)) @ data_bytes (pr_ba p)"
  using pair_reach_inv [OF reach pair_start_inv [OF iw] iw] by (simp add: pair_inv_def dir_inv_def)

text \<open>A run: \<open>a\<close> receives OPEN_OK and writes three bytes.\<close>

lemma sample_opened:
  "\<exists>p. pair_reach 1024 65536 (pair_start 1 1024 65536) p \<and> pr_ab p = [] \<and> pr_ba p = [] \<and> sd_written (pr_a p) = []
     \<and> sd_stream (pr_a p) = (newStream 1 0 1024 True)\<lparr>st_recvSequence := 1, st_sendWindow := 65536, st_sendCredit := 65536,
          st_openResult := Some None\<rparr>
     \<and> sd_stream (pr_b p) = (newStream 1 1024 65536 False)\<lparr>st_recvSequence := 1\<rparr>"
proof -
  let ?p = "pair_start 1 1024 65536"
  have credit: "parseCredit (put_uvarint 65536) = Inr 65536" by (simp add: parseCredit_eq_Inr)
  have "pair_step 1024 65536 ?p (?p\<lparr>pr_a := (pr_a ?p)\<lparr>sd_stream := snd (stream_handleCell (hd (pr_ba ?p)) (sd_stream (pr_a ?p)))\<rparr>,
      pr_ba := []\<rparr>)"
    by (rule pair_step.deliver_a [where err = "fst (stream_handleCell (hd (pr_ba ?p)) (sd_stream (pr_a ?p)))" and c = "hd (pr_ba ?p)"])
       (simp_all add: pair_start_def)
  then show ?thesis
    by (intro exI conjI) (erule r_into_rtranclp, simp_all add: pair_start_def stream_handleCell_def credit completeOpen_def
        newStream_def Let_def)
qed

theorem stream_pipe_witness:
  "\<exists>p. pair_reach 1024 65536 (pair_start 1 1024 65536) p \<and> sd_written (pr_a p) = [1, 2, 3]
     \<and> sd_read (pr_b p) @ unread (sd_stream (pr_b p)) @ data_bytes (pr_ab p) = [1, 2, 3]"
proof -
  obtain p where reach: "pair_reach 1024 65536 (pair_start 1 1024 65536) p" and w: "sd_written (pr_a p) = []"
    and a: "sd_stream (pr_a p) = (newStream 1 0 1024 True)\<lparr>st_recvSequence := 1, st_sendWindow := 65536, st_sendCredit := 65536,
          st_openResult := Some None\<rparr>"
    using sample_opened by blast
  define w3 where "w3 = write_iteration [1, 2, 3] (sd_stream (pr_a p))"
  have "w3 = (Inr (3, mk_cell CellData 1 1 [1, 2, 3]), snd w3)"
    by (simp add: w3_def a write_iteration_def newStream_def nextSendSequenceLocked_def Let_def)
  then have "side_step 1024 (pr_a p) ((pr_a p)\<lparr>sd_stream := snd w3, sd_written := sd_written (pr_a p) @ take 3 [1, 2, 3]\<rparr>)
      [mk_cell CellData 1 1 [1, 2, 3]]"
    unfolding w3_def by (intro side_step.write_cell) (simp_all add: a newStream_def)
  from rtranclp.rtrancl_into_rtrancl [OF reach pair_step.local_a [OF this]] obtain p' where
    "pair_reach 1024 65536 (pair_start 1 1024 65536) p'" "sd_written (pr_a p') = [1, 2, 3]" using w by fastforce
  then show ?thesis using stream_pipe [of 1024 65536 1 p'] by auto
qed

text \<open>
  C17 (liveness). Flow control cannot deadlock: whenever an end has no credit left, something on the
  way can still give it credit. Either cells are in transit, or the peer holds unread bytes, or the
  peer has taken credit that it is about to announce. The announcement threshold never strands the
  last credit.
\<close>

theorem stream_no_credit_deadlock:
  assumes iw: "window_ok iwA" "window_ok iwB" and reach: "pair_reach iwA iwB (pair_start i iwA iwB) p"
  shows "(st_sendCredit (sd_stream (pr_a p)) = 0 \<longrightarrow>
            pr_ab p \<noteq> [] \<or> pr_ba p \<noteq> [] \<or> st_chunks (sd_stream (pr_b p)) \<noteq> [] \<or> sd_hand (pr_b p) \<noteq> [])
       \<and> (st_sendCredit (sd_stream (pr_b p)) = 0 \<longrightarrow>
            pr_ab p \<noteq> [] \<or> pr_ba p \<noteq> [] \<or> st_chunks (sd_stream (pr_a p)) \<noteq> [] \<or> sd_hand (pr_a p) \<noteq> [])"
proof -
  have stuck: False
    if d: "dir_inv iw x y ch bk" and "window_ok iw" and "st_sendCredit (sd_stream x) = 0" "ch = []" "bk = []"
      "st_chunks (sd_stream y) = []" "sd_hand y = []" for iw x y ch bk
  proof -
    from d that have "unat (st_pendingCredit (sd_stream y)) = unat iw"
      by (simp add: dir_inv_def receiver_inv_def unread_def hand_credits_def)
    moreover have "unat (st_pendingCredit (sd_stream y)) < unat (windowUpdateThreshold iw)"
      using d by (simp add: dir_inv_def receiver_inv_def word_less_nat_alt)
    moreover have "unat (windowUpdateThreshold iw) \<le> unat iw"
      using windowUpdateThreshold_bounds(2) that(2) by (simp add: word_le_nat_alt)
    ultimately show False by simp
  qed
  show ?thesis using pair_reach_inv [OF reach pair_start_inv [OF iw] iw] stuck iw unfolding pair_inv_def by blast
qed

theorem stream_no_credit_deadlock_witness:
  "st_sendCredit (sd_stream (pr_a (pair_start 1 1024 65536))) = 0 \<and> pr_ba (pair_start 1 1024 65536) \<noteq> []"
  using stream_no_credit_deadlock [of 1024 65536 1 "pair_start 1 1024 65536"]
  by (simp add: pair_start_def newStream_def)


text \<open>A run: both ends close their writing side and receive the other's FIN.\<close>

lemma CloseWrite_step:
  assumes "st_writeErr (sd_stream x) = None" and "\<not> st_localFIN (sd_stream x)" and "st_sendSequence (sd_stream x) < MaxSequence"
  shows "side_step iw x (x\<lparr>sd_stream := (sd_stream x)\<lparr>st_localFIN := True, st_sendSequence := st_sendSequence (sd_stream x) + 1\<rparr>\<rparr>)
    [mk_cell CellFin (st_id (sd_stream x)) (st_sendSequence (sd_stream x)) []]"
  using assms by (intro side_step.close_write) (auto simp: CloseWrite_def nextSendSequenceLocked_def)

lemma sample_closed:
  "\<exists>p. pair_reach 1024 65536 (pair_start 1 1024 65536) p \<and> canRetireLocked 1024 (sd_stream (pr_a p))"
proof -
  obtain p where reach: "pair_reach 1024 65536 (pair_start 1 1024 65536) p" and empty: "pr_ab p = []" "pr_ba p = []"
    and a: "sd_stream (pr_a p) = (newStream 1 0 1024 True)\<lparr>st_recvSequence := 1, st_sendWindow := 65536, st_sendCredit := 65536,
          st_openResult := Some None\<rparr>"
    and b: "sd_stream (pr_b p) = (newStream 1 1024 65536 False)\<lparr>st_recvSequence := 1\<rparr>"
    using sample_opened by blast
  define p1 where "p1 = p\<lparr>pr_a := (pr_a p)\<lparr>sd_stream := (sd_stream (pr_a p))\<lparr>st_localFIN := True, st_sendSequence := 2\<rparr>\<rparr>,
      pr_ab := [mk_cell CellFin 1 1 []]\<rparr>"
  define p2 where "p2 = p1\<lparr>pr_b := (pr_b p1)\<lparr>sd_stream := (sd_stream (pr_b p1))\<lparr>st_localFIN := True, st_sendSequence := 2\<rparr>\<rparr>,
      pr_ba := [mk_cell CellFin 1 1 []]\<rparr>"
  define p3 where "p3 = p2\<lparr>pr_a := (pr_a p2)\<lparr>sd_stream := (sd_stream (pr_a p2))\<lparr>st_recvSequence := 2, st_peerFIN := True\<rparr>\<rparr>, pr_ba := []\<rparr>"
  have "pair_step 1024 65536 p p1"
    using pair_step.local_a [OF CloseWrite_step [of "pr_a p" 1024], of 65536] by (simp add: p1_def a empty newStream_def)
  moreover have "pair_step 1024 65536 p1 p2"
    using pair_step.local_b [OF CloseWrite_step [of "pr_b p1" 65536], of 1024] by (simp add: p2_def p1_def b empty newStream_def)
  moreover have "stream_handleCell (mk_cell CellFin 1 1 []) (sd_stream (pr_a p2))
      = (None, (sd_stream (pr_a p2))\<lparr>st_recvSequence := 2, st_peerFIN := True\<rparr>)"
    by (simp add: p2_def p1_def a newStream_def stream_handleCell_def)
  then have "pair_step 1024 65536 p2 p3"
    unfolding p3_def by (intro pair_step.deliver_a) (simp_all add: p2_def)
  ultimately have "pair_reach 1024 65536 (pair_start 1 1024 65536) p3"
    using reach by (meson rtranclp.rtrancl_into_rtrancl)
  moreover have "canRetireLocked 1024 (sd_stream (pr_a p3))"
    by (simp add: p3_def p2_def p1_def a canRetireLocked_def newStream_def)
  ultimately show ?thesis by blast
qed


end
