(* ===== verification/NP_Mux.thy ===== *)
theory NP_Mux
  imports NP_Stream NP_Extension NP_Crypto "HOL-Library.AList"
begin

text \<open>
  The multiplexer of a session (\<open>internal/session/session.go\<close>, \<open>extension.go\<close>, \<open>stats.go\<close> and the
  parts of \<open>stream.go\<close> that act on the mux): the registry of streams, the memory of retired
  identifiers, OPEN and its answers, pings, the extension channel, termination. Streams are objects
  the application keeps pointers to, so they live in a store \<open>mx_heap\<close> indexed by allocation numbers
  and the registry maps an identifier to such a number; \<open>m.streams[id] == stream\<close> compares numbers.
  \<open>mx_offers\<close> is the same for \<open>Incoming\<close>. The outcome of \<open>carrier.Send\<close> is an argument of the
  operations that send, and the records they hand to the carrier are part of their result. An
  operation that waits is split at the wait. The queue \<open>mx_incoming\<close> holds the channel's buffer and,
  beyond the channel's capacity, the one element of a read loop that waits to send it.
\<close>

abbreviation MaxOpenMetadata :: nat where "MaxOpenMetadata \<equiv> 1024"
abbreviation minRetiredStreams :: int where "minRetiredStreams \<equiv> 1024"
abbreviation retiredStreamFactor :: int where "retiredStreamFactor \<equiv> 8"
abbreviation maxQueuedExtensionMessages :: nat where "maxQueuedExtensionMessages \<equiv> 16"
abbreviation maxRememberedExtensionIDs :: nat where "maxRememberedExtensionIDs \<equiv> 64"
abbreviation maxPendingPings :: nat where "maxPendingPings \<equiv> 16"

section \<open>State\<close>

record muxStats =
  locallyOpenedStreams :: u64
  remotelyOpenedStreams :: u64
  retiredStreams :: u64
  sentCells :: u64
  receivedCells :: u64
  sentCellPayloadBytes :: u64
  receivedPayloadBytes :: u64
  windowUpdatesSent :: u64
  windowUpdatesReceived :: u64
  flowControlStalls :: u64
  protocolErrors :: u64

definition zero_stats :: muxStats where
  "zero_stats = \<lparr>locallyOpenedStreams = 0, remotelyOpenedStreams = 0, retiredStreams = 0, sentCells = 0,
     receivedCells = 0, sentCellPayloadBytes = 0, receivedPayloadBytes = 0, windowUpdatesSent = 0,
     windowUpdatesReceived = 0, flowControlStalls = 0, protocolErrors = 0\<rparr>"

record Incoming =
  in_stream :: nat
  in_metadata :: bytes
  in_handled :: bool

record Mux =
  mx_role :: Role
  mx_typeMap :: TypeMap
  mx_initialWindow :: u64
  mx_maxStreams :: nat
  mx_done :: bool
  mx_streams :: "(u64 \<times> nat) list"
  mx_retired :: "u64 set"
  mx_retiredOrder :: "u64 list"
  mx_retiredLimit :: nat
  mx_nextID :: u64
  mx_incoming :: "nat list"
  mx_extensions :: "ExtensionEnvelope list"
  mx_err :: "session_error option"
  mx_extensionSeen :: "(u64 \<times> bytes) list"
  mx_extensionOrder :: "u64 list"
  mx_highestExtensionID :: u64
  mx_pendingPings :: "(bytes \<times> nat) list"
  mx_pongs :: "nat set"
  mx_nextWait :: nat
  mx_heap :: "nat \<Rightarrow> Stream"
  mx_nextHandle :: nat
  mx_offers :: "Incoming list"
  mx_stats :: muxStats

text \<open>\<open>New\<close>: the configured limit is a Go \<open>int\<close>; its product with the factor wraps around.\<close>

definition mux_New :: "Role \<Rightarrow> TypeMap \<Rightarrow> u64 \<Rightarrow> int \<Rightarrow> session_error + Mux" where
  "mux_New role tm initialWindow maxStreams =
     (if role \<noteq> RoleClient \<and> role \<noteq> RoleServer \<or> initialWindow = 0 \<or> initialWindow > MaxInitialWindow
         \<or> maxStreams \<le> 0
      then Inl ErrSessionConfig
      else case EncodeKind tm CellOpen of
             Inl _ \<Rightarrow> Inl ErrSessionConfig
           | Inr _ \<Rightarrow>
               Inr \<lparr>mx_role = role, mx_typeMap = tm, mx_initialWindow = initialWindow,
                    mx_maxStreams = nat maxStreams, mx_done = False, mx_streams = [], mx_retired = {},
                    mx_retiredOrder = [],
                    mx_retiredLimit = nat (max minRetiredStreams
                      (sint (word_of_int (maxStreams * retiredStreamFactor) :: 64 word))),
                    mx_nextID = (if role = RoleServer then 2 else 1), mx_incoming = [], mx_extensions = [],
                    mx_err = None, mx_extensionSeen = [], mx_extensionOrder = [], mx_highestExtensionID = 0,
                    mx_pendingPings = [], mx_pongs = {}, mx_nextWait = 0,
                    mx_heap = (\<lambda>_. newStream 0 0 initialWindow False), mx_nextHandle = 0, mx_offers = [],
                    mx_stats = zero_stats\<rparr>)"

definition Mux_MaxStreams :: "Mux \<Rightarrow> u64" where
  "Mux_MaxStreams m = (if mx_maxStreams m \<le> 0 then 0 else of_nat (mx_maxStreams m))"

abbreviation bump :: "(muxStats \<Rightarrow> muxStats) \<Rightarrow> Mux \<Rightarrow> Mux" where
  "bump f m \<equiv> m\<lparr>mx_stats := f (mx_stats m)\<rparr>"

record Stats =
  LocallyOpenedStreams :: u64
  RemotelyOpenedStreams :: u64
  ActiveStreams :: u64
  RetiredStreams :: u64
  SentCells :: u64
  ReceivedCells :: u64
  SentCellPayloadBytes :: u64
  ReceivedPayloadBytes :: u64
  WindowUpdatesSent :: u64
  WindowUpdatesReceived :: u64
  FlowControlStalls :: u64
  ProtocolErrors :: u64

definition Mux_Stats :: "Mux \<Rightarrow> Stats" where
  "Mux_Stats m = (let s = mx_stats m in
     \<lparr>LocallyOpenedStreams = locallyOpenedStreams s, RemotelyOpenedStreams = remotelyOpenedStreams s,
      ActiveStreams = of_nat (length (mx_streams m)), RetiredStreams = retiredStreams s, SentCells = sentCells s,
      ReceivedCells = receivedCells s, SentCellPayloadBytes = sentCellPayloadBytes s,
      ReceivedPayloadBytes = receivedPayloadBytes s, WindowUpdatesSent = windowUpdatesSent s,
      WindowUpdatesReceived = windowUpdatesReceived s, FlowControlStalls = flowControlStalls s,
      ProtocolErrors = protocolErrors s\<rparr>)"

section \<open>Termination and the carrier\<close>

definition terminate :: "session_error option \<Rightarrow> Mux \<Rightarrow> Mux" where
  "terminate err m =
     (if mx_done m then m
      else let e = (case err of None \<Rightarrow> ErrClosed | Some e \<Rightarrow> e)
           in m\<lparr>mx_err := Some e, mx_done := True,
                mx_heap := (\<lambda>h. if h \<in> snd ` set (mx_streams m) then stream_fail (Some e) (mx_heap m h)
                                else mx_heap m h)\<rparr>)"

definition sessionError :: "Mux \<Rightarrow> session_error" where
  "sessionError m = (case mx_err m of Some e \<Rightarrow> e | None \<Rightarrow> ErrClosed)"

definition Mux_Err :: "Mux \<Rightarrow> session_error option" where
  "Mux_Err m = (if mx_done m then Some (sessionError m) else None)"

definition mux_send :: "session_error option \<Rightarrow> Cell \<Rightarrow> Mux \<Rightarrow> session_error option \<times> Mux \<times> bytes list" where
  "mux_send outcome cell m =
     (case EncodeCell (mx_typeMap m) cell of
        Inl e \<Rightarrow> (Some (ErrCell e), m, [])
      | Inr raw \<Rightarrow>
          if mx_done m then (Some (sessionError m), m, [])
          else case outcome of
                 Some e \<Rightarrow> (Some e, terminate (Some e) m, [])
               | None \<Rightarrow>
                   (None,
                    bump (\<lambda>st. st\<lparr>sentCells := sentCells st + 1,
                           sentCellPayloadBytes := sentCellPayloadBytes st + of_nat (length (Payload cell)),
                           windowUpdatesSent := (if Kind cell = CellWindowUpdate then windowUpdatesSent st + 1
                                                 else windowUpdatesSent st)\<rparr>) m,
                    [raw]))"

section \<open>The registry\<close>

definition retireStreamLocked :: "u64 \<Rightarrow> Mux \<Rightarrow> Mux" where
  "retireStreamLocked i m =
     (if i \<in> mx_retired m then m
      else let order = mx_retiredOrder m @ [i]; retired = insert i (mx_retired m)
           in if length order \<le> mx_retiredLimit m then m\<lparr>mx_retired := retired, mx_retiredOrder := order\<rparr>
              else m\<lparr>mx_retired := retired - {hd order}, mx_retiredOrder := tl order\<rparr>)"

definition removeStream :: "u64 \<Rightarrow> nat \<Rightarrow> Mux \<Rightarrow> Mux" where
  "removeStream i h m =
     (if map_of (mx_streams m) i = Some h
      then bump (\<lambda>st. st\<lparr>retiredStreams := retiredStreams st + 1\<rparr>)
             (retireStreamLocked i (m\<lparr>mx_streams := AList.delete i (mx_streams m)\<rparr>))
      else m)"

definition put_stream :: "nat \<Rightarrow> Stream \<Rightarrow> Mux \<Rightarrow> Mux" where
  "put_stream h s m = m\<lparr>mx_heap := (mx_heap m)(h := s)\<rparr>"

text \<open>\<open>newStream\<close> and the store into \<open>m.streams\<close>.\<close>

definition register :: "Stream \<Rightarrow> Mux \<Rightarrow> Mux" where
  "register s m =
     (put_stream (mx_nextHandle m) s m)
       \<lparr>mx_streams := (st_id s, mx_nextHandle m) # mx_streams m, mx_nextHandle := mx_nextHandle m + 1\<rparr>"

text \<open>
  A stream operation that ends in \<open>mux.send\<close>: the stream's operation is run with the outcome that
  \<open>mux.send\<close> will return for the cell it produces.
\<close>

definition lift_send ::
  "(session_error option \<Rightarrow> Stream \<Rightarrow> session_error option \<times> Stream \<times> Cell list)
   \<Rightarrow> session_error option \<Rightarrow> nat \<Rightarrow> Mux \<Rightarrow> session_error option \<times> Mux \<times> bytes list" where
  "lift_send f outcome h m =
     (let s = mx_heap m h in
      case f None s of
        (err, s1, []) \<Rightarrow> (err, put_stream h s1 m, [])
      | (_, s1, cell # _) \<Rightarrow>
          (case mux_send outcome cell (put_stream h s1 m) of (e, m1, sent) \<Rightarrow> (fst (f e s), m1, sent)))"

definition retireIfComplete :: "nat \<Rightarrow> Mux \<Rightarrow> Mux" where
  "retireIfComplete h m =
     (if canRetireLocked (mx_initialWindow m) (mx_heap m h) then removeStream (st_id (mx_heap m h)) h m else m)"

section \<open>Operations on a stream of the mux\<close>

definition mux_Read :: "nat \<Rightarrow> session_error option \<Rightarrow> nat \<Rightarrow> Mux \<Rightarrow> read_result \<times> Mux \<times> bytes list" where
  "mux_Read n outcome h m =
     (let s = mx_heap m h in
      if n = 0 then (ReadBytes [] None, m, [])
      else if length (st_chunks s) \<noteq> 0
      then case read_take (mx_initialWindow m) n s of
             ((copied, credit), s1) \<Rightarrow>
               (case lift_send (sendWindowUpdate credit) outcome h (put_stream h s1 m) of
                  (Some e, m1, sent) \<Rightarrow> (ReadBytes copied (Some e), m1, sent)
                | (None, m1, sent) \<Rightarrow> (ReadBytes copied None, retireIfComplete h m1, sent))
      else case st_readErr s of
             Some e \<Rightarrow> (ReadError e, m, [])
           | None \<Rightarrow>
               if st_peerFIN s
               then case takePendingCreditLocked (mx_initialWindow m) True s of
                      (credit, s1) \<Rightarrow>
                        (case lift_send (sendWindowUpdate credit) outcome h (put_stream h s1 m) of
                           (Some e, m1, sent) \<Rightarrow> (ReadError e, m1, sent)
                         | (None, m1, sent) \<Rightarrow> (ReadError ErrEOF, retireIfComplete h m1, sent))
               else if mx_done m then (ReadError (sessionError m), m, [])
               else (ReadBlocked, m, []))"

definition mux_write_iteration ::
  "bytes \<Rightarrow> session_error option \<Rightarrow> nat \<Rightarrow> Mux \<Rightarrow> (write_status + nat) \<times> Mux \<times> bytes list" where
  "mux_write_iteration rest outcome h m =
     (case write_iteration rest (mx_heap m h) of
        (Inl WriteBlocked, s1) \<Rightarrow>
          (Inl (if mx_done m then WriteError (sessionError m) else WriteBlocked),
           bump (\<lambda>st. st\<lparr>flowControlStalls := flowControlStalls st + 1\<rparr>) (put_stream h s1 m), [])
      | (Inl status, s1) \<Rightarrow> (Inl status, put_stream h s1 m, [])
      | (Inr (n, cell), s1) \<Rightarrow>
          (case mux_send outcome cell (put_stream h s1 m) of
             (Some e, m1, sent) \<Rightarrow>
               (Inl (WriteError e), put_stream h (stream_fail (Some e) (mx_heap m1 h)) m1, sent)
           | (None, m1, sent) \<Rightarrow> (Inr n, m1, sent)))"

lemma mux_write_iteration_sends:
  assumes "mux_write_iteration rest outcome h m = (Inr n, m', sent)" and "rest \<noteq> []"
  shows "0 < n \<and> n \<le> length rest"
  using assms write_iteration_sends [of rest "mx_heap m h"]
  by (auto simp: mux_write_iteration_def split: prod.splits sum.splits option.splits write_status.splits)

function mux_write_loop ::
  "(nat \<Rightarrow> session_error option) \<Rightarrow> nat \<Rightarrow> bytes \<Rightarrow> nat \<Rightarrow> Mux \<Rightarrow> (nat \<times> write_status) \<times> Mux \<times> bytes list" where
  "mux_write_loop outcome k rest h m =
     (if rest = [] then ((0, WriteDone), m, [])
      else case mux_write_iteration rest (outcome k) h m of
             (Inl status, m1, sent) \<Rightarrow> ((0, status), m1, sent)
           | (Inr n, m1, sent) \<Rightarrow>
               (case mux_write_loop outcome (k + 1) (drop n rest) h m1 of
                  ((written, status), m2, sent2) \<Rightarrow> ((n + written, status), m2, sent @ sent2)))"
  by pat_completeness auto

termination
  by (relation "measure (\<lambda>(outcome, k, rest, h, m). length rest)")
     (auto dest!: mux_write_iteration_sends [OF sym])

declare mux_write_loop.simps [simp del]

definition mux_Write ::
  "(nat \<Rightarrow> session_error option) \<Rightarrow> bytes \<Rightarrow> nat \<Rightarrow> Mux \<Rightarrow> (nat \<times> write_status) \<times> Mux \<times> bytes list" where
  "mux_Write outcome payload h m =
     (if length payload = 0 then ((0, WriteDone), m, []) else mux_write_loop outcome 0 payload h m)"

definition mux_CloseWrite ::
  "session_error option \<Rightarrow> nat \<Rightarrow> Mux \<Rightarrow> session_error option \<times> Mux \<times> bytes list" where
  "mux_CloseWrite outcome h m =
     (let finishing = st_writeErr (mx_heap m h) = None \<and> \<not> st_localFIN (mx_heap m h) in
      case lift_send CloseWrite outcome h m of
        (err, m1, sent) \<Rightarrow>
          if finishing \<and> err = None then (err, retireIfComplete h m1, sent) else (err, m1, sent))"

definition mux_Close :: "session_error option \<Rightarrow> nat \<Rightarrow> Mux \<Rightarrow> session_error option \<times> Mux \<times> bytes list" where
  "mux_Close outcome h m =
     (let s = mx_heap m h in
      if st_localFIN s \<and> st_peerFIN s \<and> length (st_chunks s) = 0 then (None, retireIfComplete h m, [])
      else
        let s1 = (if st_readErr s = None then s\<lparr>st_readErr := Some ErrClosed\<rparr> else s);
            s2 = (if st_writeErr s1 = None then s1\<lparr>st_writeErr := Some ErrClosed\<rparr> else s1)
        in case lift_send (sendReset 0) outcome h (put_stream h s2 m) of
             (err, m1, sent) \<Rightarrow> (err, removeStream (st_id s) h m1, sent))"

section \<open>Opening a stream\<close>

definition parseOpenPayload :: "bytes \<Rightarrow> session_error + u64 \<times> bytes" where
  "parseOpenPayload payload =
     (case session_readCanonicalUvarint payload of
        Inl _ \<Rightarrow> Inl (ErrProtocol ''invalid OPEN payload'')
      | Inr (window, consumed) \<Rightarrow>
          if window = 0 \<or> window > MaxInitialWindow \<or> length payload - consumed > MaxOpenMetadata
          then Inl (ErrProtocol ''invalid OPEN payload'')
          else Inr (window, drop consumed payload))"

text \<open>
  \<open>Open\<close> up to its wait: the handle of the new stream, or the error returned. \<open>mux_Open_finish\<close> is
  the rest, for the event that ended the wait.
\<close>

definition mux_Open ::
  "bytes \<Rightarrow> session_error option \<Rightarrow> Mux \<Rightarrow> (session_error + nat) \<times> Mux \<times> bytes list" where
  "mux_Open metadata outcome m =
     (if length metadata > MaxOpenMetadata then (Inl (ErrProtocol ''''), m, [])
      else case mx_err m of
             Some e \<Rightarrow> (Inl e, m, [])
           | None \<Rightarrow>
               if length (mx_streams m) \<ge> mx_maxStreams m then (Inl ErrStreamLimit, m, [])
               else if mx_nextID m > MaxStreamID then (Inl ErrStreamLimit, m, [])
               else
                 let i = mx_nextID m;
                     h = mx_nextHandle m;
                     m1 = bump (\<lambda>st. st\<lparr>locallyOpenedStreams := locallyOpenedStreams st + 1\<rparr>)
                            (register (newStream i 0 (mx_initialWindow m) True) (m\<lparr>mx_nextID := i + 2\<rparr>));
                     payload = put_uvarint (mx_initialWindow m) @ metadata
                 in case mux_send outcome (mk_cell CellOpen i 0 payload) m1 of
                      (Some e, m2, sent) \<Rightarrow>
                        (let m3 = removeStream i h m2
                         in (Inl e, put_stream h (stream_fail (Some e) (mx_heap m3 h)) m3, sent))
                    | (None, m2, sent) \<Rightarrow> (Inr h, m2, sent))"

datatype wait_event = Answered | ContextDone | MuxDone

definition mux_Open_finish ::
  "wait_event \<Rightarrow> session_error option \<Rightarrow> nat \<Rightarrow> Mux
   \<Rightarrow> (session_error + nat) option \<times> Mux \<times> bytes list" where
  "mux_Open_finish event outcome h m =
     (let s = mx_heap m h in
      case event of
        Answered \<Rightarrow>
          (case st_openResult s of
             None \<Rightarrow> (None, m, [])
           | Some (Some e) \<Rightarrow> (Some (Inl e), removeStream (st_id s) h m, [])
           | Some None \<Rightarrow> (Some (Inr h), m, []))
      | ContextDone \<Rightarrow>
          (case lift_send (sendReset 1) outcome h m of
             (_, m1, sent) \<Rightarrow>
               (Some (Inl ErrCanceled),
                removeStream (st_id s) h (put_stream h (stream_fail (Some ErrCanceled) (mx_heap m1 h)) m1), sent))
      | MuxDone \<Rightarrow> (if mx_done m then (Some (Inl (sessionError m)), m, []) else (None, m, [])))"

definition validRemoteStreamID :: "u64 \<Rightarrow> Mux \<Rightarrow> bool" where
  "validRemoteStreamID i m =
     (if i = 0 \<or> i > MaxStreamID then False
      else if mx_role m = RoleServer then i mod 2 = 1 else i mod 2 = 0)"

definition handleOpen ::
  "Cell \<Rightarrow> session_error option \<Rightarrow> Mux \<Rightarrow> session_error option \<times> Mux \<times> bytes list" where
  "handleOpen cell outcome m =
     (if Sequence cell \<noteq> 0 \<or> \<not> validRemoteStreamID (StreamID cell) m
      then (Some (ErrProtocol ''invalid OPEN''), m, [])
      else case parseOpenPayload (Payload cell) of
             Inl e \<Rightarrow> (Some e, m, [])
           | Inr (window, metadata) \<Rightarrow>
               (case mx_err m of
                  Some e \<Rightarrow> (Some e, m, [])
                | None \<Rightarrow>
                    if map_of (mx_streams m) (StreamID cell) \<noteq> None
                    then (Some (ErrProtocol ''duplicate stream''), m, [])
                    else if StreamID cell \<in> mx_retired m then (Some (ErrProtocol ''reused stream''), m, [])
                    else if length (mx_streams m) \<ge> mx_maxStreams m
                    then mux_send outcome (mk_cell CellOpenFail (StreamID cell) 0 [1]) m
                    else
                      let h = mx_nextHandle m;
                          s = (newStream (StreamID cell) window (mx_initialWindow m) False)\<lparr>st_recvSequence := 1\<rparr>;
                          m1 = bump (\<lambda>st. st\<lparr>remotelyOpenedStreams := remotelyOpenedStreams st + 1\<rparr>) (register s m);
                          offer = \<lparr>in_stream = h, in_metadata = metadata, in_handled = False\<rparr>
                      in (None,
                          m1\<lparr>mx_offers := mx_offers m1 @ [offer],
                             mx_incoming := mx_incoming m1 @ [length (mx_offers m1)]\<rparr>, [])))"

text \<open>The read loop waits in \<open>handleOpen\<close> while the channel is full.\<close>

definition parked :: "Mux \<Rightarrow> bool" where
  "parked m \<longleftrightarrow> length (mx_incoming m) > mx_maxStreams m"

definition mux_Accept :: "wait_event \<Rightarrow> Mux \<Rightarrow> (session_error + nat) option \<times> Mux" where
  "mux_Accept event m =
     (case event of
        Answered \<Rightarrow>
          (case mx_incoming m of
             [] \<Rightarrow> (None, m)
           | i # rest \<Rightarrow> (Some (Inr i), m\<lparr>mx_incoming := rest\<rparr>))
      | ContextDone \<Rightarrow> (Some (Inl ErrCanceled), m)
      | MuxDone \<Rightarrow> (if mx_done m then (Some (Inl (sessionError m)), m) else (None, m)))"

definition claim :: "nat \<Rightarrow> Mux \<Rightarrow> bool \<times> Mux" where
  "claim i m =
     (if in_handled (mx_offers m ! i) then (False, m)
      else (True, m\<lparr>mx_offers := (mx_offers m)[i := (mx_offers m ! i)\<lparr>in_handled := True\<rparr>]\<rparr>))"

definition Incoming_Accept ::
  "session_error option \<Rightarrow> nat \<Rightarrow> Mux \<Rightarrow> (session_error + nat) \<times> Mux \<times> bytes list" where
  "Incoming_Accept outcome i m =
     (case claim i m of
        (False, m1) \<Rightarrow> (Inl ErrClosed, m1, [])
      | (True, m1) \<Rightarrow>
          let h = in_stream (mx_offers m ! i); sid = st_id (mx_heap m h);
              payload = put_uvarint (mx_initialWindow m)
          in case mux_send outcome (mk_cell CellOpenOK sid 0 payload) m1 of
               (Some e, m2, sent) \<Rightarrow>
                 (Inl e, removeStream sid h (put_stream h (stream_fail (Some e) (mx_heap m2 h)) m2), sent)
             | (None, m2, sent) \<Rightarrow> (Inr h, m2, sent))"

definition Incoming_Reject ::
  "byte \<Rightarrow> session_error option \<Rightarrow> nat \<Rightarrow> Mux \<Rightarrow> session_error option \<times> Mux \<times> bytes list" where
  "Incoming_Reject code outcome i m =
     (case claim i m of
        (False, m1) \<Rightarrow> (Some ErrClosed, m1, [])
      | (True, m1) \<Rightarrow>
          let h = in_stream (mx_offers m ! i); sid = st_id (mx_heap m h)
          in case mux_send outcome (mk_cell CellOpenFail sid 0 [code]) m1 of
               (err, m2, sent) \<Rightarrow>
                 (err, removeStream sid h (put_stream h (stream_fail (Some ErrRejected) (mx_heap m2 h)) m2), sent))"

section \<open>Pings\<close>

definition Ping ::
  "bytes \<Rightarrow> session_error option \<Rightarrow> Mux \<Rightarrow> (session_error + nat) \<times> Mux \<times> bytes list" where
  "Ping nonce outcome m =
     (if length (mx_pendingPings m) \<ge> maxPendingPings then (Inl ErrPingLimit, m, [])
      else
        let wait = mx_nextWait m;
            m1 = m\<lparr>mx_pendingPings := AList.update nonce wait (mx_pendingPings m), mx_nextWait := wait + 1\<rparr>
        in case mux_send outcome (mk_cell CellPing 0 0 nonce) m1 of
             (Some e, m2, sent) \<Rightarrow>
               (Inl e, m2\<lparr>mx_pendingPings := AList.delete nonce (mx_pendingPings m2)\<rparr>, sent)
           | (None, m2, sent) \<Rightarrow> (Inr wait, m2, sent))"

definition Ping_finish :: "wait_event \<Rightarrow> bytes \<Rightarrow> nat \<Rightarrow> Mux \<Rightarrow> session_error option option \<times> Mux" where
  "Ping_finish event nonce wait m =
     (let m1 = m\<lparr>mx_pendingPings := AList.delete nonce (mx_pendingPings m)\<rparr> in
      case event of
        Answered \<Rightarrow> (if wait \<in> mx_pongs m then (Some None, m1) else (None, m))
      | ContextDone \<Rightarrow> (Some (Some ErrCanceled), m1)
      | MuxDone \<Rightarrow> (if mx_done m then (Some (Some (sessionError m)), m1) else (None, m)))"

definition handlePong :: "bytes \<Rightarrow> Mux \<Rightarrow> Mux" where
  "handlePong payload m =
     (if length payload \<noteq> 16 then m
      else case map_of (mx_pendingPings m) payload of
             None \<Rightarrow> m
           | Some wait \<Rightarrow> m\<lparr>mx_pendingPings := AList.delete payload (mx_pendingPings m),
                              mx_pongs := insert wait (mx_pongs m)\<rparr>)"

section \<open>Extension messages\<close>

definition SendExtension ::
  "ExtensionEnvelope \<Rightarrow> session_error option \<Rightarrow> Mux \<Rightarrow> session_error option \<times> Mux \<times> bytes list" where
  "SendExtension envelope outcome m =
     (case Envelope_MarshalBinary envelope of
        Inl e \<Rightarrow> (Some (ErrCell e), m, [])
      | Inr payload \<Rightarrow> mux_send outcome (mk_cell CellProfile 0 (env_MessageID envelope) payload) m)"

definition ReceiveExtension ::
  "wait_event \<Rightarrow> Mux \<Rightarrow> (session_error + ExtensionEnvelope) option \<times> Mux" where
  "ReceiveExtension event m =
     (case event of
        Answered \<Rightarrow>
          (case mx_extensions m of
             [] \<Rightarrow> (None, m)
           | envelope # rest \<Rightarrow> (Some (Inr envelope), m\<lparr>mx_extensions := rest\<rparr>))
      | ContextDone \<Rightarrow> (Some (Inl ErrCanceled), m)
      | MuxDone \<Rightarrow> (if mx_done m then (Some (Inl (sessionError m)), m) else (None, m)))"

text \<open>The lines from the first lookup to the unlock: the identifier is remembered with its digest.\<close>

definition remember_extension :: "u64 \<Rightarrow> bytes \<Rightarrow> Mux \<Rightarrow> Mux" where
  "remember_extension i digest m =
     (let m1 = (if length (mx_extensionOrder m) = maxRememberedExtensionIDs
                then m\<lparr>mx_extensionSeen := AList.delete (hd (mx_extensionOrder m)) (mx_extensionSeen m),
                       mx_extensionOrder := tl (mx_extensionOrder m)\<rparr>
                else m)
      in m1\<lparr>mx_extensionSeen := AList.update i digest (mx_extensionSeen m1),
            mx_extensionOrder := mx_extensionOrder m1 @ [i], mx_highestExtensionID := i\<rparr>)"

definition handleExtensionPayload :: "bytes \<Rightarrow> Mux \<Rightarrow> session_error option \<times> Mux" where
  "handleExtensionPayload payload m =
     (if \<not> IsExtensionEnvelope payload then (None, m)
      else case ParseExtensionEnvelope payload of
             Inl _ \<Rightarrow> (Some (ErrProtocol ''extension envelope''), m)
           | Inr envelope \<Rightarrow>
               let digest = sha256 payload; i = env_MessageID envelope in
               (case map_of (mx_extensionSeen m) i of
                  Some previous \<Rightarrow>
                    if previous = digest then (None, m)
                    else (Some (ErrProtocol ''conflicting extension message id''), m)
                | None \<Rightarrow>
                    if i \<le> mx_highestExtensionID m then (None, m)
                    else
                      let m1 = remember_extension i digest m in
                      if length (mx_extensions m1) < maxQueuedExtensionMessages
                      then (None, m1\<lparr>mx_extensions := mx_extensions m1 @ [envelope]\<rparr>)
                      else if mx_done m1 then (Some (sessionError m1), m1)
                      else (Some (ErrProtocol ''extension receive queue full''), m1)))"

section \<open>Receiving\<close>

definition mux_stream_cell ::
  "Cell \<Rightarrow> session_error option \<Rightarrow> nat \<Rightarrow> Mux \<Rightarrow> session_error option \<times> Mux \<times> bytes list" where
  "mux_stream_cell cell outcome h m =
     (case stream_handleCell cell (mx_heap m h) of
        (err, s1) \<Rightarrow>
          let m1 = retireIfComplete h (put_stream h s1 m) in
          (case err of
             Some e \<Rightarrow>
               let m2 = put_stream h (stream_fail (Some e) s1) m1 in
               if is_ErrProtocol e
               then case lift_send (sendReset 2) outcome h
                           (bump (\<lambda>st. st\<lparr>protocolErrors := protocolErrors st + 1\<rparr>) m2) of
                      (_, m3, sent) \<Rightarrow> (None, removeStream (st_id s1) h m3, sent)
               else (None, m2, [])
           | None \<Rightarrow>
               if Kind cell = CellReset then (None, removeStream (st_id s1) h m1, []) else (None, m1, [])))"

definition mux_handleCell ::
  "Cell \<Rightarrow> session_error option \<Rightarrow> Mux \<Rightarrow> session_error option \<times> Mux \<times> bytes list" where
  "mux_handleCell cell outcome m =
     (if StreamID cell = 0
      then if Kind cell = CellDummy then (None, m, [])
           else if Kind cell = CellPong then (None, handlePong (Payload cell) m, [])
           else if Kind cell = CellProfile
           then case handleExtensionPayload (Payload cell) m of (err, m1) \<Rightarrow> (err, m1, [])
           else if Kind cell = CellPing then mux_send outcome (mk_cell CellPong 0 0 (Payload cell)) m
           else if Kind cell = CellGoAway then (None, terminate (Some ErrEOF) m, [])
           else (Some (ErrProtocol ''invalid connection-level cell''), m, [])
      else if Kind cell = CellOpen then handleOpen cell outcome m
      else case map_of (mx_streams m) (StreamID cell) of
             None \<Rightarrow>
               if StreamID cell \<in> mx_retired m then (None, m, [])
               else (Some (ErrProtocol ''unknown stream''), m, [])
           | Some h \<Rightarrow> mux_stream_cell cell outcome h m)"

text \<open>
  One round of \<open>readLoop\<close> on the result of \<open>carrier.Receive\<close>; the flag says whether the loop goes
  on. A failed receive terminates the session unless its context was cancelled, which \<open>terminate\<close>
  does when it closes \<open>done\<close>.
\<close>

definition readLoop_step ::
  "session_error + bytes \<Rightarrow> session_error option \<Rightarrow> Mux \<Rightarrow> bool \<times> Mux \<times> bytes list" where
  "readLoop_step received outcome m =
     (case received of
        Inl e \<Rightarrow> (False, if mx_done m then m else terminate (Some e) m, [])
      | Inr raw \<Rightarrow>
          (case DecodeCell (mx_typeMap m) raw of
             Inl _ \<Rightarrow>
               (False, terminate (Some (ErrProtocol ''decode cell''))
                         (bump (\<lambda>st. st\<lparr>protocolErrors := protocolErrors st + 1\<rparr>) m), [])
           | Inr cell \<Rightarrow>
               let m1 = bump (\<lambda>st. st\<lparr>receivedCells := receivedCells st + 1,
                          receivedPayloadBytes := receivedPayloadBytes st + of_nat (length (Payload cell)),
                          windowUpdatesReceived := (if Kind cell = CellWindowUpdate
                            then windowUpdatesReceived st + 1 else windowUpdatesReceived st)\<rparr>) m
               in case mux_handleCell cell outcome m1 of
                    (Some e, m2, sent) \<Rightarrow>
                      if is_ErrProtocol e
                      then (False, terminate (Some e) (bump (\<lambda>st. st\<lparr>protocolErrors := protocolErrors st + 1\<rparr>) m2), sent)
                      else (True, m2, sent)
                  | (None, m2, sent) \<Rightarrow> (True, m2, sent)))"

definition Mux_Close :: "Mux \<Rightarrow> Mux" where
  "Mux_Close m = terminate (Some ErrClosed) m"

end
