(* ===== verification/NP_Mux_Safety.thy ===== *)
theory NP_Mux_Safety
  imports NP_Mux
begin

text \<open>
  What a session guarantees whatever its peer sends. \<open>mux_step\<close> is one operation of the
  multiplexer: a record received by the read loop, or a call of the application, with any outcome of
  the carrier. Its invariants are proved once per operation from the primitives the operations are
  composed of (\<open>put_stream\<close>, \<open>removeStream\<close>, \<open>terminate\<close>, \<open>mux_send\<close>, \<open>register\<close>), collected in
  \<open>mux_intros\<close>.
\<close>

named_theorems mux_intros

section \<open>How a stream evolves\<close>

definition buffered :: "Stream \<Rightarrow> nat" where
  "buffered s = sum_list (map length (st_chunks s)) - st_chunkStart s"

definition str_ok :: "u64 \<Rightarrow> Stream \<Rightarrow> bool" where
  "str_ok iw s \<longleftrightarrow>
     unat (st_recvCredit s) + unat (st_pendingCredit s) + buffered s = unat iw
     \<and> (if st_chunks s = [] then st_chunkStart s = 0 else st_chunkStart s < length (hd (st_chunks s)))
     \<and> (\<forall>c\<in>set (st_chunks s). c \<noteq> [])"

definition evolves :: "u64 \<Rightarrow> Stream \<Rightarrow> Stream \<Rightarrow> bool" where
  "evolves iw s s' \<longleftrightarrow>
     st_id s' = st_id s \<and> (st_readErr s \<noteq> None \<longrightarrow> st_readErr s' \<noteq> None)
     \<and> (st_writeErr s \<noteq> None \<longrightarrow> st_writeErr s' \<noteq> None) \<and> (str_ok iw s \<longrightarrow> str_ok iw s')"

lemma evolves_refl [simp, intro]: "evolves iw s s"
  by (simp add: evolves_def)

lemma evolves_trans: "evolves iw s s' \<Longrightarrow> evolves iw s' s'' \<Longrightarrow> evolves iw s s''"
  by (simp add: evolves_def)

text \<open>A change that leaves the receive side of the stream alone.\<close>

lemma evolves_send_side:
  assumes "st_id s' = st_id s" "st_chunks s' = st_chunks s" "st_chunkStart s' = st_chunkStart s"
    and "st_recvCredit s' = st_recvCredit s" "st_pendingCredit s' = st_pendingCredit s"
    and "st_readErr s' = None \<Longrightarrow> st_readErr s = None" "st_writeErr s' = None \<Longrightarrow> st_writeErr s = None"
  shows "evolves iw s s'"
  using assms by (cases "st_readErr s'"; cases "st_writeErr s'") (auto simp: evolves_def str_ok_def buffered_def)

lemma str_ok_newStream: "str_ok iw (newStream i c iw opening)"
  by (simp add: str_ok_def buffered_def newStream_def)

lemma evolves_completeOpen: "evolves iw s (completeOpen e s)"
  by (rule evolves_send_side) (auto simp: completeOpen_def split: if_splits)

lemma evolves_fail: "evolves iw s (stream_fail e s)"
  by (rule evolves_send_side) (auto simp: stream_fail_def completeOpen_def Let_def split: if_splits)

lemma stream_fail_errors: "st_readErr (stream_fail e s) \<noteq> None" "st_writeErr (stream_fail e s) \<noteq> None"
  by (simp_all add: stream_fail_def completeOpen_def Let_def)

lemma evolves_nextSendSequence:
  "nextSendSequenceLocked s = (r, s') \<Longrightarrow> evolves iw s s'"
  by (rule evolves_send_side) (auto simp: nextSendSequenceLocked_def split: if_splits)

lemma evolves_sendWindowUpdate: "sendWindowUpdate c o' s = (r, s', cells) \<Longrightarrow> evolves iw s s'"
  by (rule evolves_send_side; cases "st_writeErr s")
     (auto simp: sendWindowUpdate_def nextSendSequenceLocked_def split: if_splits)

lemma evolves_CloseWrite: "CloseWrite o' s = (r, s', cells) \<Longrightarrow> evolves iw s s'"
  by (rule evolves_send_side; cases "st_writeErr s")
     (auto simp: CloseWrite_def nextSendSequenceLocked_def split: if_splits)

lemma evolves_sendReset: "sendReset c o' s = (r, s', cells) \<Longrightarrow> evolves iw s s'"
  by (rule evolves_send_side; cases "st_writeErr s")
     (auto simp: sendReset_def nextSendSequenceLocked_def split: if_splits)

lemma evolves_write_iteration:
  assumes "write_iteration rest s = (r, s')"
  shows "evolves iw s s'"
proof (cases "st_writeErr s = None \<and> \<not> st_localFIN s \<and> st_sendCredit s \<noteq> 0")
  case True
  define n where "n = min (length rest) (min (unat (st_sendCredit s)) MaxCellPayloadSize)"
  obtain q s2 where nx: "nextSendSequenceLocked (s\<lparr>st_sendCredit := st_sendCredit s - of_nat n\<rparr>) = (q, s2)"
    by (cases "nextSendSequenceLocked (s\<lparr>st_sendCredit := st_sendCredit s - of_nat n\<rparr>)")
  have "evolves iw s (s\<lparr>st_sendCredit := st_sendCredit s - of_nat n\<rparr>)" by (rule evolves_send_side) simp_all
  then have s2: "evolves iw s s2" using evolves_nextSendSequence [OF nx] evolves_trans by blast
  have "s' = s2 \<or> (\<exists>e. s' = stream_fail (Some e) s2)"
    using assms True nx by (cases q) (auto simp: write_iteration_def Let_def n_def)
  then show ?thesis using s2 evolves_trans evolves_fail by blast
next
  case False
  then show ?thesis using assms by (auto simp: write_iteration_def split: option.splits if_splits)
qed

lemma unat_add_of_nat:
  assumes "unat (a :: u64) + n < 2 ^ 64"
  shows "unat (a + of_nat n) = unat a + n"
proof -
  have n: "unat (of_nat n :: u64) = n" using assms by (intro unat_of_nat_small) simp
  show ?thesis using assms by (subst unat_add_nowrap) (simp_all add: n)
qed

lemma evolves_takePending:
  assumes "takePendingCreditLocked iw force s = (credit, s')"
  shows "evolves iw s s'"
proof -
  have "str_ok iw s'" if ok: "str_ok iw s"
  proof -
    have "unat iw < 2 ^ 64" using unsigned_less [of iw] by simp
    then have "unat (st_recvCredit s + st_pendingCredit s) = unat (st_recvCredit s) + unat (st_pendingCredit s)"
      using ok by (intro unat_add_nowrap) (simp add: str_ok_def)
    then show ?thesis
      using ok assms by (auto simp: str_ok_def buffered_def takePendingCreditLocked_def split: if_splits)
  qed
  then show ?thesis using assms by (auto simp: evolves_def takePendingCreditLocked_def split: if_splits)
qed

lemma evolves_read_take:
  assumes "read_take iw n s = ((copied, credit), s')" and "st_chunks s \<noteq> []"
  shows "evolves iw s s'"
proof -
  obtain chunk rest where cs: "st_chunks s = chunk # rest" using assms(2) by (cases "st_chunks s") auto
  define k where "k = length (take n (drop (st_chunkStart s) chunk))"
  define s1 where "s1 = (if st_chunkStart s + k = length chunk then s\<lparr>st_chunks := rest, st_chunkStart := 0\<rparr>
                         else s\<lparr>st_chunkStart := st_chunkStart s + k\<rparr>)"
  define s2 where "s2 = s1\<lparr>st_pendingCredit := st_pendingCredit s1 + of_nat k\<rparr>"
  have take: "takePendingCreditLocked iw (st_recvCredit s2 = 0 \<or> st_peerFIN s2 \<and> length (st_chunks s2) = 0) s2
              = (credit, s')"
    using assms(1) by (auto simp: read_take_def Let_def cs k_def s1_def s2_def split: prod.splits)
  have "str_ok iw s2" if ok: "str_ok iw s"
  proof -
    have start: "st_chunkStart s < length chunk" using ok by (simp add: str_ok_def cs)
    then have k: "k \<le> length chunk - st_chunkStart s" by (simp add: k_def)
    have sum: "unat (st_recvCredit s) + unat (st_pendingCredit s) + (length chunk + sum_list (map length rest) - st_chunkStart s) = unat iw"
      using ok by (simp add: str_ok_def buffered_def cs)
    have "unat iw < 2 ^ 64" using unsigned_less [of iw] by simp
    then have "unat (st_pendingCredit s) + k < 2 ^ 64" using sum k start by linarith
    then have "unat (st_pendingCredit s + of_nat k) = unat (st_pendingCredit s) + k" by (rule unat_add_of_nat)
    then show ?thesis
      using ok sum k start
      by (cases "st_chunkStart s + k = length chunk"; cases rest)
         (auto simp: str_ok_def buffered_def s1_def s2_def cs)
  qed
  then have "evolves iw s s2" by (simp add: evolves_def s1_def s2_def)
  then show ?thesis using evolves_takePending [OF take] evolves_trans by blast
qed

lemma str_ok_data:
  assumes ok: "str_ok iw s" and fits: "length p \<le> unat (st_recvCredit s)" and p: "p \<noteq> []"
  shows "str_ok iw (s\<lparr>st_recvSequence := q, st_recvCredit := st_recvCredit s - of_nat (length p), st_chunks := st_chunks s @ [p]\<rparr>)"
proof -
  have "unat (st_recvCredit s) < 2 ^ 64" using unsigned_less [of "st_recvCredit s"] by simp
  then have n: "unat (of_nat (length p) :: u64) = length p" using fits by (intro unat_of_nat_small) simp
  have "of_nat (length p) \<le> st_recvCredit s" using fits by (simp add: word_le_nat_alt n)
  then have "unat (st_recvCredit s - of_nat (length p)) = unat (st_recvCredit s) - length p"
    by (simp add: unat_sub n)
  moreover have "st_chunkStart s \<le> sum_list (map length (st_chunks s))"
    using ok by (cases "st_chunks s") (auto simp: str_ok_def)
  ultimately show ?thesis
    using ok fits p by (cases "st_chunks s") (auto simp: str_ok_def buffered_def)
qed

lemma evolves_handleCell:
  assumes "stream_handleCell cell s = (err, s')"
  shows "evolves iw s s'"
proof (cases "st_chunks s' = st_chunks s")
  case True
  then show ?thesis
    using assms by (intro evolves_send_side)
      (auto simp: stream_handleCell_def completeOpen_def Let_def split: if_splits sum.splits)
next
  case False
  then have "Payload cell \<noteq> []" "length (Payload cell) \<le> unat (st_recvCredit s)"
    and s': "s' = s\<lparr>st_recvSequence := st_recvSequence s + 1,
               st_recvCredit := st_recvCredit s - of_nat (length (Payload cell)), st_chunks := st_chunks s @ [Payload cell]\<rparr>"
    using assms by (auto simp: stream_handleCell_def completeOpen_def Let_def split: if_splits sum.splits)
  then show ?thesis using str_ok_data by (simp add: evolves_def s')
qed

section \<open>The invariant\<close>

text \<open>The identifiers a role may open itself have the parity of its counter.\<close>

definition local_id :: "Mux \<Rightarrow> u64 \<Rightarrow> bool" where
  "local_id m i \<longleftrightarrow> i mod 2 = (if mx_role m = RoleServer then 0 else 1)"

definition registry_inv :: "Mux \<Rightarrow> bool" where
  "registry_inv m \<longleftrightarrow>
     distinct (map fst (mx_streams m)) \<and> distinct (map snd (mx_streams m))
     \<and> length (mx_streams m) \<le> mx_maxStreams m
     \<and> (\<forall>(i, h)\<in>set (mx_streams m). h < mx_nextHandle m \<and> st_id (mx_heap m h) = i \<and> i \<noteq> 0 \<and> i \<le> MaxStreamID)
     \<and> local_id m (mx_nextID m) \<and> mx_nextID m \<noteq> 0 \<and> mx_nextID m \<le> MaxStreamID + 2
     \<and> (\<forall>i\<in>fst ` set (mx_streams m) \<union> set (mx_retiredOrder m). local_id m i \<longrightarrow> i < mx_nextID m)"

definition retired_inv :: "Mux \<Rightarrow> bool" where
  "retired_inv m \<longleftrightarrow>
     mx_retired m = set (mx_retiredOrder m) \<and> distinct (mx_retiredOrder m)
     \<and> length (mx_retiredOrder m) \<le> mx_retiredLimit m \<and> 0 < mx_retiredLimit m
     \<and> fst ` set (mx_streams m) \<inter> set (mx_retiredOrder m) = {}"

definition streams_inv :: "Mux \<Rightarrow> bool" where
  "streams_inv m \<longleftrightarrow> (\<forall>h. str_ok (mx_initialWindow m) (mx_heap m h))"

definition done_inv :: "Mux \<Rightarrow> bool" where
  "done_inv m \<longleftrightarrow>
     (mx_done m \<longleftrightarrow> mx_err m \<noteq> None)
     \<and> (mx_done m \<longrightarrow> (\<forall>h\<in>snd ` set (mx_streams m).
          st_readErr (mx_heap m h) \<noteq> None \<and> st_writeErr (mx_heap m h) \<noteq> None))"

definition extension_inv :: "Mux \<Rightarrow> bool" where
  "extension_inv m \<longleftrightarrow>
     distinct (map fst (mx_extensionSeen m)) \<and> distinct (mx_extensionOrder m)
     \<and> fst ` set (mx_extensionSeen m) = set (mx_extensionOrder m)
     \<and> length (mx_extensionOrder m) \<le> maxRememberedExtensionIDs
     \<and> length (mx_extensions m) \<le> maxQueuedExtensionMessages
     \<and> (\<forall>i\<in>set (mx_extensionOrder m). i \<le> mx_highestExtensionID m)
     \<and> length (mx_pendingPings m) \<le> maxPendingPings"

definition mux_inv :: "Mux \<Rightarrow> bool" where
  "mux_inv m \<longleftrightarrow> registry_inv m \<and> retired_inv m \<and> streams_inv m \<and> done_inv m \<and> extension_inv m"

lemmas mux_inv_defs = mux_inv_def registry_inv_def retired_inv_def streams_inv_def done_inv_def extension_inv_def

text \<open>A change of fields the invariant does not read.\<close>

lemma mux_inv_frame:
  assumes "mx_role m' = mx_role m" "mx_initialWindow m' = mx_initialWindow m" "mx_maxStreams m' = mx_maxStreams m"
    and "mx_done m' = mx_done m" "mx_streams m' = mx_streams m" "mx_retired m' = mx_retired m"
    and "mx_retiredOrder m' = mx_retiredOrder m" "mx_retiredLimit m' = mx_retiredLimit m" "mx_nextID m' = mx_nextID m"
    and "mx_err m' = mx_err m" "mx_heap m' = mx_heap m" "mx_nextHandle m' = mx_nextHandle m"
    and "extension_inv m \<Longrightarrow> extension_inv m'"
  shows "mux_inv m \<Longrightarrow> mux_inv m'"
proof -
  have "registry_inv m' = registry_inv m" "retired_inv m' = retired_inv m" "streams_inv m' = streams_inv m"
    "done_inv m' = done_inv m"
    by (simp_all only: registry_inv_def retired_inv_def streams_inv_def done_inv_def local_id_def assms(1-12))
  then show "mux_inv m \<Longrightarrow> mux_inv m'" using assms(13) by (simp add: mux_inv_def)
qed

lemma mux_inv_bump [mux_intros]: "mux_inv m \<Longrightarrow> mux_inv (bump f m)"
  by (rule mux_inv_frame) (simp_all add: extension_inv_def)

lemma mux_inv_put_stream [mux_intros]:
  assumes "mux_inv m" and "evolves (mx_initialWindow m) (mx_heap m h) s"
  shows "mux_inv (put_stream h s m)"
proof -
  have ids: "st_id (mx_heap (put_stream h s m) k) = st_id (mx_heap m k)" for k
    using assms(2) by (simp add: put_stream_def evolves_def)
  have errs: "st_readErr (mx_heap m k) \<noteq> None \<Longrightarrow> st_readErr (mx_heap (put_stream h s m) k) \<noteq> None"
    "st_writeErr (mx_heap m k) \<noteq> None \<Longrightarrow> st_writeErr (mx_heap (put_stream h s m) k) \<noteq> None" for k
    using assms(2) by (auto simp: put_stream_def evolves_def simp del: not_None_eq)
  have "registry_inv (put_stream h s m)"
    using assms(1) unfolding mux_inv_def registry_inv_def ids by (simp add: put_stream_def local_id_def)
  moreover have "retired_inv (put_stream h s m)" "extension_inv (put_stream h s m)"
    using assms(1) by (simp_all add: mux_inv_def retired_inv_def extension_inv_def put_stream_def)
  moreover have "streams_inv (put_stream h s m)"
    using assms by (simp add: mux_inv_def streams_inv_def put_stream_def evolves_def)
  moreover have "done_inv (put_stream h s m)"
  proof -
    have "done_inv m" using assms(1) by (simp add: mux_inv_def)
    moreover have "mx_done (put_stream h s m) = mx_done m" "mx_err (put_stream h s m) = mx_err m"
      "mx_streams (put_stream h s m) = mx_streams m" by (simp_all add: put_stream_def)
    ultimately show ?thesis unfolding done_inv_def using errs by (metis (no_types))
  qed
  ultimately show ?thesis by (simp add: mux_inv_def)
qed

lemma mux_inv_terminate [mux_intros]:
  assumes "mux_inv m"
  shows "mux_inv (terminate e m)"
proof (cases "mx_done m")
  case False
  define e' where "e' = (case e of None \<Rightarrow> ErrClosed | Some e \<Rightarrow> e)"
  have t: "terminate e m = m\<lparr>mx_err := Some e', mx_done := True,
     mx_heap := (\<lambda>h. if h \<in> snd ` set (mx_streams m) then stream_fail (Some e') (mx_heap m h) else mx_heap m h)\<rparr>"
    unfolding terminate_def e'_def Let_def using False by (simp only: if_False)
  have ev: "evolves (mx_initialWindow m) (mx_heap m h) (mx_heap (terminate e m) h)" for h
    by (simp add: t evolves_fail)
  then have ids: "st_id (mx_heap (terminate e m) h) = st_id (mx_heap m h)"
    and ok: "str_ok (mx_initialWindow m) (mx_heap m h) \<Longrightarrow> str_ok (mx_initialWindow m) (mx_heap (terminate e m) h)" for h
    by (simp_all add: evolves_def)
  have "registry_inv (terminate e m)"
    using assms ids by (simp add: mux_inv_def registry_inv_def local_id_def t)
  moreover have "streams_inv (terminate e m)"
    using assms ok by (simp add: mux_inv_def streams_inv_def t)
  moreover have "done_inv (terminate e m)"
    using stream_fail_errors by (simp add: done_inv_def t)
  moreover have "retired_inv (terminate e m)" "extension_inv (terminate e m)"
    using assms by (simp_all add: mux_inv_def retired_inv_def extension_inv_def t)
  ultimately show ?thesis by (simp add: mux_inv_def)
qed (use assms in \<open>simp add: terminate_def\<close>)

lemma mux_send_cases:
  assumes "mux_send outcome cell m = (e, m', sent)"
  obtains "m' = m" "sent = []" "e \<noteq> None" | err where "m' = terminate (Some err) m" "sent = []" "e = Some err" "\<not> mx_done m"
  | f raw where "m' = bump f m" "sent = [raw]" "e = None" "\<not> mx_done m"
proof (cases "fails (EncodeCell (mx_typeMap m) cell) \<or> mx_done m")
  case True
  then show thesis using assms by (intro that(1)) (auto simp: mux_send_def split: sum.split_asm if_split_asm)
next
  case False
  then obtain raw where raw: "EncodeCell (mx_typeMap m) cell = Inr raw" and alive: "\<not> mx_done m"
    by (auto simp: not_fails_iff)
  show thesis
  proof (cases outcome)
    case None
    show thesis
      by (rule that(3) [of "\<lambda>_. mx_stats m'" raw]) (use assms alive in \<open>auto simp: mux_send_def raw None\<close>)
  next
    case (Some err)
    show thesis by (rule that(2) [of err]) (use assms alive in \<open>auto simp: mux_send_def raw Some\<close>)
  qed
qed

lemma mux_inv_send [mux_intros]:
  assumes "mux_inv m" and "mux_send outcome cell m = (e, m', sent)"
  shows "mux_inv m'"
  using assms(2) by (rule mux_send_cases) (simp_all add: assms(1) mux_inv_terminate mux_inv_bump)

lemma initialWindow_terminate [simp]: "mx_initialWindow (terminate e m) = mx_initialWindow m"
  by (simp add: terminate_def Let_def)

lemma initialWindow_put [simp]: "mx_initialWindow (put_stream h s m) = mx_initialWindow m"
  by (simp add: put_stream_def)

lemma heap_put [simp]: "mx_heap (put_stream h s m) = (mx_heap m)(h := s)"
  by (simp add: put_stream_def)

lemma initialWindow_send: "mux_send outcome cell m = (e, m', sent) \<Longrightarrow> mx_initialWindow m' = mx_initialWindow m"
  by (erule mux_send_cases) simp_all

lemma mux_inv_removeStream [mux_intros]:
  assumes "mux_inv m"
  shows "mux_inv (removeStream i h m)"
proof (cases "map_of (mx_streams m) i = Some h")
  case True
  then have i: "(i, h) \<in> set (mx_streams m)" by (rule map_of_SomeD)
  then have mem: "i \<in> fst ` set (mx_streams m)" by force
  have reg: "registry_inv m" and ret: "retired_inv m" using assms by (simp_all add: mux_inv_def)
  from mem ret have fresh: "i \<notin> mx_retired m" unfolding retired_inv_def by blast
  define m1 where "m1 = m\<lparr>mx_streams := AList.delete i (mx_streams m)\<rparr>"
  have del: "fst ` set (AList.delete i (mx_streams m)) = fst ` set (mx_streams m) - {i}"
    by (auto simp: AList.delete_eq image_iff)
  have sub: "set (AList.delete i (mx_streams m)) \<subseteq> set (mx_streams m)"
    by (simp add: AList.delete_eq)
  have dist: "distinct (map fst (AList.delete i (mx_streams m)))" "distinct (map snd (AList.delete i (mx_streams m)))"
    using reg by (simp_all add: registry_inv_def AList.delete_eq distinct_map_filter)
  have len: "length (AList.delete i (mx_streams m)) \<le> mx_maxStreams m"
    using reg AList.length_delete_le [of i "mx_streams m"] by (simp add: registry_inv_def)
  define order where "order = mx_retiredOrder m @ [i]"
  define m2 where "m2 = retireStreamLocked i m1"
  have m2: "m2 = (if length order \<le> mx_retiredLimit m
                  then m1\<lparr>mx_retired := insert i (mx_retired m), mx_retiredOrder := order\<rparr>
                  else m1\<lparr>mx_retired := insert i (mx_retired m) - {hd order}, mx_retiredOrder := tl order\<rparr>)"
    using fresh by (simp add: m2_def retireStreamLocked_def m1_def order_def Let_def)
  have order: "set order = insert i (mx_retired m)" "distinct order" "order \<noteq> []"
    using ret fresh by (auto simp: retired_inv_def order_def)
  then have tl: "set (tl order) = set order - {hd order}" "distinct (tl order)" by (cases order; auto)+
  have tl_sub: "set (tl order) \<subseteq> set order" using tl(1) by blast
  have frame: "mx_streams m2 = AList.delete i (mx_streams m)" "mx_maxStreams m2 = mx_maxStreams m"
      "mx_nextHandle m2 = mx_nextHandle m" "mx_heap m2 = mx_heap m" "local_id m2 = local_id m" "mx_nextID m2 = mx_nextID m"
      by (simp_all add: m2 m1_def local_id_def fun_eq_iff)
  have "retired_inv m2"
  proof -
    note r = ret
    show ?thesis
    proof (cases "length order \<le> mx_retiredLimit m")
      case True
      then show ?thesis using r order del by (auto simp: m2 retired_inv_def m1_def)
    next
      case False
      have "length (tl order) \<le> mx_retiredLimit m" using r by (simp add: order_def retired_inv_def)
      then show ?thesis using False r tl order del by (auto simp: m2 retired_inv_def m1_def)
    qed
  qed
  moreover have "registry_inv m2"
  proof -
    have "local_id m j \<longrightarrow> j < mx_nextID m" if "j \<in> fst ` set (AList.delete i (mx_streams m)) \<union> set order" for j
    proof -
      have "j \<in> fst ` set (mx_streams m) \<union> set (mx_retiredOrder m)" using that mem del by (auto simp: order_def)
      then show ?thesis using reg unfolding registry_inv_def by blast
    qed
    then have below: "\<forall>j\<in>fst ` set (AList.delete i (mx_streams m)) \<union> set (mx_retiredOrder m2). local_id m j \<longrightarrow> j < mx_nextID m"
      using tl_sub by (auto simp: m2)
    show ?thesis
      using reg dist len below sub unfolding registry_inv_def frame by (intro conjI) blast+
  qed
  moreover have "streams_inv m2" "extension_inv m2" "done_inv m2"
    using assms sub unfolding mux_inv_def streams_inv_def extension_inv_def done_inv_def frame by (auto simp: m2 m1_def)
  ultimately have "mux_inv m2" by (simp add: mux_inv_def)
  then show ?thesis using True by (simp add: removeStream_def m1_def [symmetric] m2_def [symmetric] mux_inv_bump)
qed (use assms in \<open>simp add: removeStream_def\<close>)

lemma mux_inv_retire [mux_intros]: "mux_inv m \<Longrightarrow> mux_inv (retireIfComplete h m)"
  by (simp add: retireIfComplete_def mux_inv_removeStream)

section \<open>The operations keep it\<close>

text \<open>
  \<open>safe m sent m'\<close>: a transition keeps the invariant and the configuration, and a terminated session
  stays terminated with the same error and sends nothing.
\<close>

definition safe :: "Mux \<Rightarrow> bytes list \<Rightarrow> Mux \<Rightarrow> bool" where
  "safe m sent m' \<longleftrightarrow>
     (mux_inv m \<longrightarrow> mux_inv m') \<and> mx_initialWindow m' = mx_initialWindow m \<and> mx_maxStreams m' = mx_maxStreams m
     \<and> mx_role m' = mx_role m \<and> mx_typeMap m' = mx_typeMap m \<and> mx_retiredLimit m' = mx_retiredLimit m
     \<and> (mx_done m \<longrightarrow> sent = [] \<and> mx_done m' \<and> mx_err m' = mx_err m)"

lemma safe_refl [simp, intro]: "safe m [] m"
  by (simp add: safe_def)

lemma safe_trans: "safe m a m' \<Longrightarrow> safe m' b m'' \<Longrightarrow> safe m (a @ b) m''"
  by (auto simp: safe_def)

lemma safe_then: "safe m a m' \<Longrightarrow> safe m' [] m'' \<Longrightarrow> safe m a m''"
  using safe_trans [of m a m' "[]" m''] by simp

lemma safe_after: "safe m [] m' \<Longrightarrow> safe m' b m'' \<Longrightarrow> safe m b m''"
  using safe_trans [of m "[]" m' b m''] by simp

lemma safe_bump [mux_intros]: "safe m [] (bump f m)"
  by (simp add: safe_def mux_inv_bump)

lemma safe_put_stream [mux_intros]:
  "evolves (mx_initialWindow m) (mx_heap m h) s \<Longrightarrow> safe m [] (put_stream h s m)"
  by (simp add: safe_def mux_inv_put_stream) (simp add: put_stream_def)

lemma safe_fail [mux_intros]: "safe m [] (put_stream h (stream_fail e (mx_heap m h)) m)"
  by (rule safe_put_stream) (rule evolves_fail)

lemma safe_terminate [mux_intros]: "safe m [] (terminate e m)"
  by (simp add: safe_def mux_inv_terminate) (simp add: terminate_def Let_def)

lemma safe_removeStream [mux_intros]: "safe m [] (removeStream i h m)"
  by (simp add: safe_def mux_inv_removeStream) (simp add: removeStream_def retireStreamLocked_def Let_def)

lemma safe_retire [mux_intros]: "safe m [] (retireIfComplete h m)"
  by (simp add: retireIfComplete_def safe_removeStream)

lemma safe_send [mux_intros]:
  assumes "mux_send outcome cell m = (e, m', sent)"
  shows "safe m sent m'"
  using assms
proof (rule mux_send_cases)
  fix f raw assume "m' = bump f m" "sent = [raw]" "\<not> mx_done m"
  then show ?thesis by (simp add: safe_def mux_inv_bump)
next
  fix err assume "m' = terminate (Some err) m" "sent = []"
  then show ?thesis by (simp add: safe_terminate)
qed simp

lemma safe_lift_send:
  assumes "lift_send f outcome h m = (r, m', sent)"
    and "\<And>r s' cells. f None (mx_heap m h) = (r, s', cells) \<Longrightarrow> evolves (mx_initialWindow m) (mx_heap m h) s'"
  shows "safe m sent m'"
proof -
  obtain e s1 cells where f: "f None (mx_heap m h) = (e, s1, cells)" by (cases "f None (mx_heap m h)") auto
  have put: "safe m [] (put_stream h s1 m)" by (rule safe_put_stream) (rule assms(2) [OF f])
  show ?thesis
  proof (cases cells)
    case Nil
    then show ?thesis using assms(1) put by (auto simp: lift_send_def Let_def f)
  next
    case (Cons c rest)
    then obtain e' where "mux_send outcome c (put_stream h s1 m) = (e', m', sent)"
      using assms(1) by (auto simp: lift_send_def Let_def f split: prod.splits)
    then show ?thesis using put safe_send safe_after by blast
  qed
qed

lemma safe_Read:
  assumes "mux_Read n outcome h m = (r, m', sent)"
  shows "safe m sent m'"
proof -
  have update: "safe m sent' m2"
    if "evolves (mx_initialWindow m) (mx_heap m h) s1"
      and "lift_send (sendWindowUpdate credit) outcome h (put_stream h s1 m) = (e, m2, sent')" for s1 credit e m2 sent'
  proof -
    have "safe m [] (put_stream h s1 m)" by (rule safe_put_stream) (rule that(1))
    moreover have "safe (put_stream h s1 m) sent' m2"
      using that(2) by (rule safe_lift_send) (rule evolves_sendWindowUpdate)
    ultimately show ?thesis by (rule safe_after)
  qed
  have both: "safe m sent m'"
    if "evolves (mx_initialWindow m) (mx_heap m h) s1"
      and "(case lift_send (sendWindowUpdate credit) outcome h (put_stream h s1 m) of
              (Some e, m1, sent) \<Rightarrow> (bad e, m1, sent) | (None, m1, sent) \<Rightarrow> (good, retireIfComplete h m1, sent))
            = (r, m', sent)" for s1 credit bad good
  proof -
    obtain e m2 sent2 where l: "lift_send (sendWindowUpdate credit) outcome h (put_stream h s1 m) = (e, m2, sent2)"
      by (cases "lift_send (sendWindowUpdate credit) outcome h (put_stream h s1 m)") auto
    have m2: "safe m sent2 m2" by (rule update [OF that(1) l])
    show ?thesis using that(2) m2 safe_then [OF m2 safe_retire] by (cases e) (auto simp: l)
  qed
  show ?thesis
  proof (cases "n = 0 \<or> st_chunks (mx_heap m h) = [] \<and> \<not> (st_readErr (mx_heap m h) = None \<and> st_peerFIN (mx_heap m h))")
    case True
    then show ?thesis
      using assms by (cases "st_readErr (mx_heap m h)") (auto simp: mux_Read_def Let_def split: if_split_asm)
  next
    case False
    show ?thesis
    proof (cases "st_chunks (mx_heap m h) = []")
      case True
      obtain credit s1 where t: "takePendingCreditLocked (mx_initialWindow m) True (mx_heap m h) = (credit, s1)"
        by (cases "takePendingCreditLocked (mx_initialWindow m) True (mx_heap m h)")
      show ?thesis
        using assms False True by (intro both [OF evolves_takePending [OF t]]) (simp add: mux_Read_def Let_def t)
    next
      case chunks: False
      obtain copied credit s1 where t: "read_take (mx_initialWindow m) n (mx_heap m h) = ((copied, credit), s1)"
        by (metis prod.exhaust)
      show ?thesis
        using assms False chunks by (intro both [OF evolves_read_take [OF t chunks]]) (simp add: mux_Read_def Let_def t)
    qed
  qed
qed

lemma safe_write_iteration:
  assumes "mux_write_iteration rest outcome h m = (r, m', sent)"
  shows "safe m sent m'"
proof -
  obtain q s1 where it: "write_iteration rest (mx_heap m h) = (q, s1)" by (cases "write_iteration rest (mx_heap m h)")
  have put: "safe m [] (put_stream h s1 m)" by (rule safe_put_stream) (rule evolves_write_iteration [OF it])
  show ?thesis
  proof (cases q)
    case (Inl status)
    then show ?thesis
      using assms put safe_then [OF put safe_bump]
      by (cases status) (auto simp: mux_write_iteration_def it)
  next
    case (Inr nc)
    obtain n c where nc: "nc = (n, c)" by (cases nc)
    obtain e m1 sent1 where snd: "mux_send outcome c (put_stream h s1 m) = (e, m1, sent1)"
      by (cases "mux_send outcome c (put_stream h s1 m)") auto
    have m1: "safe m sent1 m1" using put safe_send [OF snd] by (rule safe_after)
    show ?thesis
      using assms m1 safe_then [OF m1 safe_fail] by (cases e) (auto simp: mux_write_iteration_def it Inr nc snd)
  qed
qed

lemma safe_write_loop:
  "mux_write_loop outcome k rest h m = (r, m', sent) \<Longrightarrow> safe m sent m'"
proof (induction outcome k rest h m arbitrary: r m' sent rule: mux_write_loop.induct)
  case (1 outcome k rest h m)
  show ?case
  proof (cases "rest = []")
    case True
    then show ?thesis using "1.prems" by (simp add: mux_write_loop.simps)
  next
    case False
    obtain q m1 sent1 where it: "mux_write_iteration rest (outcome k) h m = (q, m1, sent1)"
      by (cases "mux_write_iteration rest (outcome k) h m") auto
    have m1: "safe m sent1 m1" by (rule safe_write_iteration [OF it])
    show ?thesis
    proof (cases q)
      case (Inl status)
      then show ?thesis using "1.prems" False it m1 by (simp add: mux_write_loop.simps)
    next
      case (Inr n)
      obtain w st m2 sent2 where loop: "mux_write_loop outcome (k + 1) (drop n rest) h m1 = ((w, st), m2, sent2)"
        by (cases "mux_write_loop outcome (k + 1) (drop n rest) h m1") auto
      have "safe m1 sent2 m2" using "1.IH" [OF False it [symmetric] Inr refl loop] .
      then have "safe m (sent1 @ sent2) m2" using m1 safe_trans by blast
      then show ?thesis
        using "1.prems" False by (subst (asm) mux_write_loop.simps) (simp add: it Inr loop [simplified])
    qed
  qed
qed

lemma safe_CloseWrite:
  assumes "mux_CloseWrite outcome h m = (r, m', sent)"
  shows "safe m sent m'"
proof -
  obtain e m1 sent1 where l: "lift_send CloseWrite outcome h m = (e, m1, sent1)"
    by (cases "lift_send CloseWrite outcome h m") auto
  have "safe m sent1 m1" by (rule safe_lift_send [OF l]) (rule evolves_CloseWrite)
  then show ?thesis using assms safe_then [OF _ safe_retire]
    by (auto simp: mux_CloseWrite_def Let_def l split: if_split_asm)
qed

lemma safe_reset_remove:
  assumes "lift_send (sendReset code) outcome h m = (e, m1, sent)"
  shows "safe m sent (removeStream i h m1)" "safe m sent (removeStream i h (put_stream h (stream_fail x (mx_heap m1 h)) m1))"
proof -
  have m1: "safe m sent m1" by (rule safe_lift_send [OF assms]) (rule evolves_sendReset)
  then show "safe m sent (removeStream i h m1)" using safe_removeStream by (rule safe_then)
  show "safe m sent (removeStream i h (put_stream h (stream_fail x (mx_heap m1 h)) m1))"
    by (rule safe_then [OF safe_then [OF m1 safe_fail] safe_removeStream])
qed

lemma safe_Close:
  assumes "mux_Close outcome h m = (r, m', sent)"
  shows "safe m sent m'"
proof (cases "st_localFIN (mx_heap m h) \<and> st_peerFIN (mx_heap m h) \<and> length (st_chunks (mx_heap m h)) = 0")
  case True
  then show ?thesis using assms by (auto simp: mux_Close_def Let_def safe_retire)
next
  case False
  define s1 where "s1 = (if st_readErr (mx_heap m h) = None then (mx_heap m h)\<lparr>st_readErr := Some ErrClosed\<rparr> else mx_heap m h)"
  define s2 where "s2 = (if st_writeErr s1 = None then s1\<lparr>st_writeErr := Some ErrClosed\<rparr> else s1)"
  have "evolves (mx_initialWindow m) (mx_heap m h) s2"
    by (rule evolves_send_side) (auto simp: s1_def s2_def split: if_splits)
  then have put: "safe m [] (put_stream h s2 m)" by (rule safe_put_stream)
  obtain e m1 sent1 where l: "lift_send (sendReset 0) outcome h (put_stream h s2 m) = (e, m1, sent1)"
    by (cases "lift_send (sendReset 0) outcome h (put_stream h s2 m)") auto
  have "mux_Close outcome h m = (e, removeStream (st_id (mx_heap m h)) h m1, sent1)"
    unfolding mux_Close_def Let_def s1_def [symmetric] s2_def [symmetric] l by (simp only: if_not_P [OF False] prod.case)
  then show ?thesis using assms safe_after [OF put safe_reset_remove(1) [OF l]] by simp
qed

text \<open>Registration of a stream whose identifier is neither in use nor retired.\<close>

lemma mux_inv_register:
  assumes "mux_inv m" and room: "length (mx_streams m) < mx_maxStreams m" and "\<not> mx_done m"
    and new: "st_id s \<notin> fst ` set (mx_streams m)" "st_id s \<notin> mx_retired m" "st_id s \<noteq> 0" "st_id s \<le> MaxStreamID"
    and "str_ok (mx_initialWindow m) s"
    and next_id: "local_id m (st_id s) \<Longrightarrow> st_id s < n" "local_id m n" "n \<le> MaxStreamID + 2" "mx_nextID m \<le> n"
  shows "mux_inv (register s (m\<lparr>mx_nextID := n\<rparr>))"
proof -
  define m' where "m' = register s (m\<lparr>mx_nextID := n\<rparr>)"
  have reg: "registry_inv m" and ret: "retired_inv m" and str: "streams_inv m" and dn: "done_inv m"
    and ext: "extension_inv m"
    using assms(1) by (simp_all add: mux_inv_def)
  have frame: "mx_streams m' = (st_id s, mx_nextHandle m) # mx_streams m" "mx_nextHandle m' = mx_nextHandle m + 1"
    "mx_heap m' = (mx_heap m)(mx_nextHandle m := s)" "mx_nextID m' = n" "mx_maxStreams m' = mx_maxStreams m"
    "local_id m' = local_id m" "mx_retired m' = mx_retired m" "mx_retiredOrder m' = mx_retiredOrder m"
    "mx_retiredLimit m' = mx_retiredLimit m" "mx_initialWindow m' = mx_initialWindow m" "mx_done m' = mx_done m"
    "mx_err m' = mx_err m"
    by (simp_all add: m'_def register_def put_stream_def local_id_def fun_eq_iff)
  have old: "h < mx_nextHandle m" if "(i, h) \<in> set (mx_streams m)" for i h
    using reg that unfolding registry_inv_def by blast
  have "registry_inv m'"
  proof -
    have "mx_nextHandle m \<notin> snd ` set (mx_streams m)" using old by fastforce
    moreover have "local_id m i \<longrightarrow> i < n" if "i \<in> fst ` set (mx_streams m) \<union> set (mx_retiredOrder m)" for i
      using reg that next_id(4) unfolding registry_inv_def by (meson order_less_le_trans)
    moreover have "\<forall>(i, h)\<in>set (mx_streams m'). h < mx_nextHandle m' \<and> st_id (mx_heap m' h) = i \<and> i \<noteq> 0 \<and> i \<le> MaxStreamID"
      using reg new old unfolding registry_inv_def frame by fastforce
    ultimately show ?thesis
      using reg room new next_id unfolding registry_inv_def frame by (auto simp: word_neq_0_conv dest: order_less_le_trans)
  qed
  moreover have "retired_inv m'"
    using ret new unfolding retired_inv_def frame by auto
  moreover have "streams_inv m'"
    using str assms(8) unfolding streams_inv_def frame by simp
  moreover have "done_inv m'"
    using dn assms(3) unfolding done_inv_def frame by simp
  moreover have "extension_inv m'"
    using ext by (simp add: extension_inv_def m'_def register_def put_stream_def)
  ultimately show ?thesis by (simp add: mux_inv_def m'_def)
qed

lemma safe_alive:
  assumes "mux_inv m \<Longrightarrow> mux_inv m'" "\<not> mx_done m"
    and "mx_initialWindow m' = mx_initialWindow m" "mx_maxStreams m' = mx_maxStreams m" "mx_role m' = mx_role m"
      "mx_typeMap m' = mx_typeMap m" "mx_retiredLimit m' = mx_retiredLimit m"
  shows "safe m sent m'"
  using assms by (simp add: safe_def)

lemma mod_2_add_2: "(i + 2) mod 2 = i mod 2" for i :: u64
proof -
  have "unat ((i + 2) mod 2) = (unat i + 2) mod 2 ^ 64 mod 2" by (simp add: unat_mod unat_word_ariths(1))
  also have "\<dots> = (unat i + 2) mod 2" by (rule mod_mod_cancel) simp
  finally show ?thesis by (simp add: word_unat_eq_iff unat_mod)
qed

lemma local_id_add_2: "local_id m (i + 2) = local_id m i"
  by (simp add: local_id_def mod_2_add_2)

lemma nextID_step:
  fixes i :: u64
  assumes "i \<le> MaxStreamID"
  shows "i + 2 \<le> MaxStreamID + 2" and "i < i + 2"
proof -
  have "unat i \<le> unat (MaxStreamID :: u64)" using assms by (simp add: word_le_nat_alt)
  then have u: "unat i \<le> 4611686018427387903" by simp
  have "unat (i + 2) = unat i + unat (2 :: u64)" using u by (intro unat_add_nowrap) simp
  then show "i + 2 \<le> MaxStreamID + 2" "i < i + 2" using u by (simp_all add: word_le_nat_alt word_less_nat_alt)
qed

lemma mux_inv_open_local:
  assumes "mux_inv m" "mx_err m = None" "length (mx_streams m) < mx_maxStreams m" "mx_nextID m \<le> MaxStreamID"
  shows "mux_inv (register (newStream (mx_nextID m) 0 (mx_initialWindow m) True) (m\<lparr>mx_nextID := mx_nextID m + 2\<rparr>))"
proof (rule mux_inv_register)
  have reg: "registry_inv m" and ret: "retired_inv m" using assms(1) by (simp_all add: mux_inv_def)
  show "\<not> mx_done m" using assms(1,2) by (simp add: mux_inv_def done_inv_def)
  have own: "local_id m (mx_nextID m)" using reg by (simp add: registry_inv_def)
  show "st_id (newStream (mx_nextID m) 0 (mx_initialWindow m) True) \<notin> fst ` set (mx_streams m)"
    using reg own by (auto simp: registry_inv_def newStream_def)
  show "st_id (newStream (mx_nextID m) 0 (mx_initialWindow m) True) \<notin> mx_retired m"
    using reg ret own by (auto simp: registry_inv_def retired_inv_def newStream_def)
  show "st_id (newStream (mx_nextID m) 0 (mx_initialWindow m) True) \<noteq> 0"
    using reg by (simp add: registry_inv_def newStream_def)
qed (use assms nextID_step [OF assms(4)] in
  \<open>auto simp: newStream_def local_id_add_2 mux_inv_def registry_inv_def str_ok_def buffered_def\<close>)

lemma safe_Open:
  assumes "mux_Open metadata outcome m = (r, m', sent)"
  shows "safe m sent m'"
proof (cases "length metadata > MaxOpenMetadata \<or> mx_err m \<noteq> None \<or> length (mx_streams m) \<ge> mx_maxStreams m
              \<or> mx_nextID m > MaxStreamID")
  case True
  then show ?thesis using assms by (auto simp: mux_Open_def split: if_split_asm option.split_asm)
next
  case False
  define m1 where "m1 = register (newStream (mx_nextID m) 0 (mx_initialWindow m) True) (m\<lparr>mx_nextID := mx_nextID m + 2\<rparr>)"
  define m2 where "m2 = bump (\<lambda>st. st\<lparr>locallyOpenedStreams := locallyOpenedStreams st + 1\<rparr>) m1"
  define c where "c = mk_cell CellOpen (mx_nextID m) 0 (put_uvarint (mx_initialWindow m) @ metadata)"
  obtain e m3 sent3 where snd: "mux_send outcome c m2 = (e, m3, sent3)" by (cases "mux_send outcome c m2") auto
  have eq: "mux_Open metadata outcome m =
     (case mux_send outcome c m2 of
        (Some e, m2, sent) \<Rightarrow>
          (let m3 = removeStream (mx_nextID m) (mx_nextHandle m) m2
           in (Inl e, put_stream (mx_nextHandle m) (stream_fail (Some e) (mx_heap m3 (mx_nextHandle m))) m3, sent))
      | (None, m2, sent) \<Rightarrow> (Inr (mx_nextHandle m), m2, sent))"
    using False by (simp add: mux_Open_def Let_def c_def m2_def m1_def)
  have inv: "mux_inv m \<Longrightarrow> mux_inv m1" using False by (simp add: m1_def mux_inv_open_local not_less not_le)
  have frame: "mx_initialWindow m1 = mx_initialWindow m" "mx_maxStreams m1 = mx_maxStreams m" "mx_role m1 = mx_role m"
      "mx_typeMap m1 = mx_typeMap m" "mx_retiredLimit m1 = mx_retiredLimit m" "mx_done m1 = mx_done m"
      "mx_err m1 = mx_err m"
    by (simp_all add: m1_def register_def put_stream_def)
  have "safe m [] m1" using inv frame by (simp add: safe_def)
  then have "safe m [] m2" unfolding m2_def by (rule safe_then) (rule safe_bump)
  then have m3: "safe m sent3 m3" using safe_send [OF snd] by (rule safe_after)
  show ?thesis
  proof (cases e)
    case None
    then show ?thesis using assms m3 by (simp add: eq snd)
  next
    case (Some err)
    have "safe m sent3 (removeStream (mx_nextID m) (mx_nextHandle m) m3)" using m3 safe_removeStream by (rule safe_then)
    then have "safe m sent3 (put_stream (mx_nextHandle m) (stream_fail (Some err)
        (mx_heap (removeStream (mx_nextID m) (mx_nextHandle m) m3) (mx_nextHandle m))) (removeStream (mx_nextID m) (mx_nextHandle m) m3))"
      using safe_fail by (rule safe_then)
    then show ?thesis using assms by (simp add: eq snd Some Let_def)
  qed
qed

lemma safe_Open_finish:
  assumes "mux_Open_finish event outcome h m = (r, m', sent)"
  shows "safe m sent m'"
proof (cases event)
  case Answered
  then show ?thesis
    using assms by (auto simp: mux_Open_finish_def Let_def safe_removeStream split: option.split_asm)
next
  case ContextDone
  obtain e m1 sent1 where l: "lift_send (sendReset 1) outcome h m = (e, m1, sent1)"
    by (cases "lift_send (sendReset 1) outcome h m") auto
  show ?thesis using assms safe_reset_remove(2) [OF l] by (auto simp: mux_Open_finish_def Let_def ContextDone l)
next
  case MuxDone
  then show ?thesis using assms by (auto simp: mux_Open_finish_def Let_def split: if_split_asm)
qed

lemma validRemoteStreamID_not_local: "validRemoteStreamID i m \<Longrightarrow> \<not> local_id m i \<and> i \<noteq> 0 \<and> i \<le> MaxStreamID"
  by (auto simp: validRemoteStreamID_def local_id_def split: if_splits)

lemma mux_inv_open_remote:
  assumes inv: "mux_inv m" and "mx_err m = None" "length (mx_streams m) < mx_maxStreams m"
    and valid: "validRemoteStreamID i m" and "map_of (mx_streams m) i = None" "i \<notin> mx_retired m"
  shows "mux_inv (register ((newStream i window (mx_initialWindow m) False)\<lparr>st_recvSequence := 1\<rparr>) m)"
proof -
  have reg: "registry_inv m" using inv by (simp add: mux_inv_def)
  have "mux_inv (register ((newStream i window (mx_initialWindow m) False)\<lparr>st_recvSequence := 1\<rparr>) (m\<lparr>mx_nextID := mx_nextID m\<rparr>))"
  proof (rule mux_inv_register)
    show "\<not> mx_done m" using assms(1,2) by (simp add: mux_inv_def done_inv_def)
    show "st_id ((newStream i window (mx_initialWindow m) False)\<lparr>st_recvSequence := 1\<rparr>) \<notin> fst ` set (mx_streams m)"
      using assms(5) by (simp add: newStream_def map_of_eq_None_iff)
    show "st_id ((newStream i window (mx_initialWindow m) False)\<lparr>st_recvSequence := 1\<rparr>) \<notin> mx_retired m"
      using assms(6) by (simp add: newStream_def)
    show "str_ok (mx_initialWindow m) ((newStream i window (mx_initialWindow m) False)\<lparr>st_recvSequence := 1\<rparr>)"
      by (simp add: newStream_def str_ok_def buffered_def)
  qed (use assms reg validRemoteStreamID_not_local [OF valid] in \<open>auto simp: newStream_def registry_inv_def\<close>)
  then show ?thesis by simp
qed

lemma safe_offer: "safe m [] (m\<lparr>mx_offers := xs, mx_incoming := ys\<rparr>)"
  unfolding safe_def by (auto intro!: mux_inv_frame [of _ m] simp: extension_inv_def)

lemma safe_handleOpen:
  assumes "handleOpen cell outcome m = (r, m', sent)"
  shows "safe m sent m'"
proof (cases "\<exists>window metadata. parseOpenPayload (Payload cell) = Inr (window, metadata) \<and> Sequence cell = 0
    \<and> validRemoteStreamID (StreamID cell) m \<and> mx_err m = None \<and> map_of (mx_streams m) (StreamID cell) = None
    \<and> StreamID cell \<notin> mx_retired m \<and> length (mx_streams m) < mx_maxStreams m")
  case True
  then obtain window metadata where c: "parseOpenPayload (Payload cell) = Inr (window, metadata)" "Sequence cell = 0"
    "validRemoteStreamID (StreamID cell) m" "mx_err m = None" "map_of (mx_streams m) (StreamID cell) = None"
    "StreamID cell \<notin> mx_retired m" "length (mx_streams m) < mx_maxStreams m" by (elim exE conjE) (rule that)
  define m1 where "m1 = register ((newStream (StreamID cell) window (mx_initialWindow m) False)\<lparr>st_recvSequence := 1\<rparr>) m"
  have inv: "mux_inv m \<Longrightarrow> mux_inv m1" unfolding m1_def by (rule mux_inv_open_remote) (use c in auto)
  have "safe m [] m1"
    using inv by (simp add: safe_def) (simp add: m1_def register_def put_stream_def)
  then have "safe m [] ((bump f m1)\<lparr>mx_offers := xs, mx_incoming := ys\<rparr>)" for f xs ys
    using safe_then [OF safe_then [OF _ safe_bump] safe_offer] by blast
  moreover have "m' = (bump (\<lambda>st. st\<lparr>remotelyOpenedStreams := remotelyOpenedStreams st + 1\<rparr>) m1)
      \<lparr>mx_offers := mx_offers m1 @ [\<lparr>in_stream = mx_nextHandle m, in_metadata = metadata, in_handled = False\<rparr>],
       mx_incoming := mx_incoming m1 @ [length (mx_offers m1)]\<rparr>" "sent = []"
    using assms c by (simp_all add: handleOpen_def Let_def m1_def)
  ultimately show ?thesis by (simp only:)
next
  case False
  consider "m' = m" "sent = []" | "mux_send outcome (mk_cell CellOpenFail (StreamID cell) 0 [1]) m = (r, m', sent)"
    using assms False by (auto simp: handleOpen_def split: if_split_asm sum.split_asm option.split_asm prod.split_asm)
  then show ?thesis using safe_send by cases auto
qed

lemma safe_claim: "claim i m = (b, m') \<Longrightarrow> safe m [] m'"
  unfolding safe_def by (auto intro!: mux_inv_frame [of _ m] simp: extension_inv_def claim_def split: if_split_asm)

lemma safe_Incoming_Accept:
  assumes "Incoming_Accept outcome i m = (r, m', sent)"
  shows "safe m sent m'"
proof -
  obtain b m1 where cl: "claim i m = (b, m1)" by (cases "claim i m")
  have m1: "safe m [] m1" by (rule safe_claim [OF cl])
  define h where "h = in_stream (mx_offers m ! i)"
  define c where "c = mk_cell CellOpenOK (st_id (mx_heap m h)) 0 (put_uvarint (mx_initialWindow m))"
  obtain e m2 sent2 where snd: "mux_send outcome c m1 = (e, m2, sent2)" by (cases "mux_send outcome c m1") auto
  have m2: "safe m sent2 m2" using m1 safe_send [OF snd] by (rule safe_after)
  show ?thesis
    using assms m1 m2 safe_then [OF safe_then [OF m2 safe_fail] safe_removeStream]
    by (cases b; cases e) (auto simp: Incoming_Accept_def cl Let_def h_def [symmetric] c_def [symmetric] snd)
qed

lemma safe_Incoming_Reject:
  assumes "Incoming_Reject code outcome i m = (r, m', sent)"
  shows "safe m sent m'"
proof -
  obtain b m1 where cl: "claim i m = (b, m1)" by (cases "claim i m")
  have m1: "safe m [] m1" by (rule safe_claim [OF cl])
  define h where "h = in_stream (mx_offers m ! i)"
  define c where "c = mk_cell CellOpenFail (st_id (mx_heap m h)) 0 [code]"
  obtain e m2 sent2 where snd: "mux_send outcome c m1 = (e, m2, sent2)" by (cases "mux_send outcome c m1") auto
  have m2: "safe m sent2 m2" using m1 safe_send [OF snd] by (rule safe_after)
  show ?thesis
    using assms m1 safe_then [OF safe_then [OF m2 safe_fail] safe_removeStream]
    by (cases b) (auto simp: Incoming_Reject_def cl Let_def h_def [symmetric] c_def [symmetric] snd)
qed

lemma safe_Accept: "mux_Accept event m = (r, m') \<Longrightarrow> safe m [] m'"
  unfolding safe_def
  by (auto intro!: mux_inv_frame [of _ m] simp: extension_inv_def mux_Accept_def
      split: wait_event.split_asm list.split_asm if_split_asm)

lemma safe_extension_part:
  assumes "extension_inv m \<Longrightarrow> extension_inv m'"
    and "m' = m\<lparr>mx_extensions := a, mx_extensionSeen := b, mx_extensionOrder := c, mx_highestExtensionID := d,
             mx_pendingPings := e, mx_pongs := f, mx_nextWait := g\<rparr>"
  shows "safe m [] m'"
proof -
  have "mux_inv m \<Longrightarrow> mux_inv m'"
    by (rule mux_inv_frame [of m' m]) (use assms in simp_all)
  then show ?thesis using assms(2) by (simp add: safe_def)
qed

lemma extension_inv_pings:
  "length ps \<le> maxPendingPings \<Longrightarrow> extension_inv m \<Longrightarrow> extension_inv (m\<lparr>mx_pendingPings := ps, mx_pongs := f, mx_nextWait := g\<rparr>)"
  by (simp add: extension_inv_def)

lemma safe_pings:
  assumes "extension_inv m \<Longrightarrow> length ps \<le> maxPendingPings"
  shows "safe m [] (m\<lparr>mx_pendingPings := ps, mx_pongs := f, mx_nextWait := g\<rparr>)" "safe m [] (m\<lparr>mx_pendingPings := ps\<rparr>)"
    "safe m [] (m\<lparr>mx_pendingPings := ps, mx_nextWait := g\<rparr>)" "safe m [] (m\<lparr>mx_pendingPings := ps, mx_pongs := f\<rparr>)"
  using assms unfolding safe_def
  by (auto intro!: mux_inv_frame [of _ m] simp: extension_inv_def)

lemma safe_delete_ping: "safe m [] (m\<lparr>mx_pendingPings := AList.delete nonce (mx_pendingPings m)\<rparr>)"
    "safe m [] (m\<lparr>mx_pendingPings := AList.delete nonce (mx_pendingPings m), mx_pongs := f\<rparr>)"
  using safe_pings [of m "AList.delete nonce (mx_pendingPings m)"] AList.length_delete_le [of nonce "mx_pendingPings m"]
  by (auto simp: extension_inv_def intro: order_trans)

lemma length_alist_update: "length (AList.update k v xs) \<le> length xs + 1"
  by (induction xs) auto

lemma safe_Ping:
  assumes "Ping nonce outcome m = (r, m', sent)"
  shows "safe m sent m'"
proof (cases "length (mx_pendingPings m) \<ge> maxPendingPings")
  case True
  then show ?thesis using assms by (simp add: Ping_def)
next
  case False
  define m1 where "m1 = m\<lparr>mx_pendingPings := AList.update nonce (mx_nextWait m) (mx_pendingPings m), mx_nextWait := Suc (mx_nextWait m)\<rparr>"
  have "length (AList.update nonce (mx_nextWait m) (mx_pendingPings m)) \<le> maxPendingPings"
    using False length_alist_update [of nonce "mx_nextWait m" "mx_pendingPings m"] by simp
  then have m1: "safe m [] m1" unfolding m1_def by (rule safe_pings)
  obtain e m2 sent2 where snd: "mux_send outcome (mk_cell CellPing 0 0 nonce) m1 = (e, m2, sent2)"
    by (cases "mux_send outcome (mk_cell CellPing 0 0 nonce) m1") auto
  have m2: "safe m sent2 m2" using m1 safe_send [OF snd] by (rule safe_after)
  have "safe m sent2 (m2\<lparr>mx_pendingPings := AList.delete nonce (mx_pendingPings m2)\<rparr>)"
    using m2 safe_delete_ping(1) by (rule safe_then)
  then show ?thesis using assms False m2 by (cases e) (auto simp: Ping_def m1_def [symmetric] Let_def snd)
qed

lemma safe_Ping_finish: "Ping_finish event nonce wait m = (r, m') \<Longrightarrow> safe m [] m'"
  using safe_delete_ping by (auto simp: Ping_finish_def Let_def split: wait_event.split_asm if_split_asm)

lemma safe_handlePong: "safe m [] (handlePong payload m)"
  by (simp add: handlePong_def safe_delete_ping split: option.split)

lemma safe_SendExtension: "SendExtension envelope outcome m = (r, m', sent) \<Longrightarrow> safe m sent m'"
  using safe_send by (auto simp: SendExtension_def split: sum.split_asm)

lemma safe_ReceiveExtension: "ReceiveExtension event m = (r, m') \<Longrightarrow> safe m [] m'"
  unfolding safe_def
  by (auto intro!: mux_inv_frame [of _ m] simp: extension_inv_def ReceiveExtension_def
      split: wait_event.split_asm list.split_asm if_split_asm)

lemma remember_extension_frame [simp]:
  "mx_role (remember_extension i d m) = mx_role m" "mx_initialWindow (remember_extension i d m) = mx_initialWindow m"
  "mx_maxStreams (remember_extension i d m) = mx_maxStreams m" "mx_done (remember_extension i d m) = mx_done m"
  "mx_streams (remember_extension i d m) = mx_streams m" "mx_retired (remember_extension i d m) = mx_retired m"
  "mx_retiredOrder (remember_extension i d m) = mx_retiredOrder m"
  "mx_retiredLimit (remember_extension i d m) = mx_retiredLimit m" "mx_nextID (remember_extension i d m) = mx_nextID m"
  "mx_err (remember_extension i d m) = mx_err m" "mx_heap (remember_extension i d m) = mx_heap m"
  "mx_nextHandle (remember_extension i d m) = mx_nextHandle m" "mx_typeMap (remember_extension i d m) = mx_typeMap m"
  "mx_extensions (remember_extension i d m) = mx_extensions m" "mx_highestExtensionID (remember_extension i d m) = i"
  by (simp_all add: remember_extension_def Let_def)

lemma extension_inv_remember:
  assumes "extension_inv m" and "mx_highestExtensionID m < i"
  shows "extension_inv (remember_extension i digest m)"
proof -
  define m1 where "m1 = (if length (mx_extensionOrder m) = maxRememberedExtensionIDs
       then m\<lparr>mx_extensionSeen := AList.delete (hd (mx_extensionOrder m)) (mx_extensionSeen m),
              mx_extensionOrder := tl (mx_extensionOrder m)\<rparr> else m)"
  have "extension_inv m1 \<and> length (mx_extensionOrder m1) < maxRememberedExtensionIDs \<and> mx_highestExtensionID m1 = mx_highestExtensionID m"
  proof (cases "length (mx_extensionOrder m) = maxRememberedExtensionIDs")
    case True
    then obtain a rest where o: "mx_extensionOrder m = a # rest" by (cases "mx_extensionOrder m") auto
    have "fst ` set (AList.delete a (mx_extensionSeen m)) = fst ` set (mx_extensionSeen m) - {a}"
      by (auto simp: AList.delete_eq image_iff)
    moreover have "distinct (map fst (AList.delete a (mx_extensionSeen m)))"
      using assms(1) by (simp add: extension_inv_def AList.delete_eq distinct_map_filter)
    ultimately show ?thesis using assms(1) True by (auto simp: m1_def extension_inv_def o)
  next
    case False
    then show ?thesis using assms(1) by (auto simp: m1_def extension_inv_def)
  qed
  then have m1: "extension_inv m1" "length (mx_extensionOrder m1) < maxRememberedExtensionIDs"
    "mx_highestExtensionID m1 < i" using assms(2) by simp_all
  then have "i \<notin> set (mx_extensionOrder m1)" by (auto simp: extension_inv_def)
  moreover have "remember_extension i digest m =
    m1\<lparr>mx_extensionSeen := AList.update i digest (mx_extensionSeen m1), mx_extensionOrder := mx_extensionOrder m1 @ [i],
       mx_highestExtensionID := i\<rparr>"
    by (simp add: remember_extension_def m1_def Let_def)
  moreover have "fst ` set (AList.update i digest (mx_extensionSeen m1)) = insert i (fst ` set (mx_extensionSeen m1))"
    by (simp add: AList.dom_update)
  ultimately show ?thesis
    using m1 by (auto simp: extension_inv_def AList.distinct_update intro: order_trans less_imp_le)
qed

lemma safe_handleExtensionPayload:
  assumes "handleExtensionPayload payload m = (r, m')"
  shows "safe m [] m'"
proof -
  have rem: "safe m [] (remember_extension i digest m)"
    "length (mx_extensions m) < maxQueuedExtensionMessages \<Longrightarrow>
       safe m [] ((remember_extension i digest m)\<lparr>mx_extensions := mx_extensions m @ [x]\<rparr>)"
    if i: "mx_highestExtensionID m < i" for i digest x
  proof -
    have "mux_inv m \<Longrightarrow> mux_inv (remember_extension i digest m)"
      by (rule mux_inv_frame [of _ m]) (simp_all add: extension_inv_remember i)
    then show "safe m [] (remember_extension i digest m)" by (simp add: safe_def)
    assume room: "length (mx_extensions m) < maxQueuedExtensionMessages"
    have "extension_inv ((remember_extension i digest m)\<lparr>mx_extensions := mx_extensions m @ [x]\<rparr>)" if "extension_inv m"
      using extension_inv_remember [OF that i] room by (simp add: extension_inv_def)
    then have "mux_inv m \<Longrightarrow> mux_inv ((remember_extension i digest m)\<lparr>mx_extensions := mx_extensions m @ [x]\<rparr>)"
      by - (rule mux_inv_frame [of _ m], simp_all)
    then show "safe m [] ((remember_extension i digest m)\<lparr>mx_extensions := mx_extensions m @ [x]\<rparr>)"
      by (simp add: safe_def)
  qed
  show ?thesis
  proof (cases "\<exists>envelope. IsExtensionEnvelope payload \<and> ParseExtensionEnvelope payload = Inr envelope
      \<and> map_of (mx_extensionSeen m) (env_MessageID envelope) = None \<and> mx_highestExtensionID m < env_MessageID envelope")
    case True
    then obtain envelope where c: "IsExtensionEnvelope payload" "ParseExtensionEnvelope payload = Inr envelope"
      "map_of (mx_extensionSeen m) (env_MessageID envelope) = None" "\<not> env_MessageID envelope \<le> mx_highestExtensionID m"
      by (auto simp: not_le)
    show ?thesis
      using assms rem [where i = "env_MessageID envelope" and digest = "sha256 payload"] c(4)
      by (auto simp: handleExtensionPayload_def c(1,2,3) Let_def not_le split: if_split_asm)
  next
    case False
    then have "m' = m"
      using assms by (auto simp: handleExtensionPayload_def not_le Let_def split: if_split_asm sum.split_asm option.split_asm)
    then show ?thesis by simp
  qed
qed

lemma safe_stream_cell:
  assumes "mux_stream_cell cell outcome h m = (r, m', sent)"
  shows "safe m sent m'"
proof -
  obtain err s1 where hc: "stream_handleCell cell (mx_heap m h) = (err, s1)" by (cases "stream_handleCell cell (mx_heap m h)")
  define m1 where "m1 = retireIfComplete h (put_stream h s1 m)"
  have "safe m [] (put_stream h s1 m)" by (rule safe_put_stream) (rule evolves_handleCell [OF hc])
  then have m1: "safe m [] m1" unfolding m1_def using safe_retire by (rule safe_then)
  have heap: "mx_heap m1 h = s1"
    by (simp add: m1_def retireIfComplete_def removeStream_def retireStreamLocked_def Let_def)
  show ?thesis
  proof (cases err)
    case None
    then show ?thesis
      using assms m1 safe_then [OF m1 safe_removeStream]
      by (auto simp: mux_stream_cell_def hc Let_def m1_def [symmetric] split: if_split_asm)
  next
    case (Some e)
    define m2 where "m2 = put_stream h (stream_fail (Some e) s1) m1"
    have m2: "safe m [] m2" using safe_then [OF m1 safe_fail [of m1 h "Some e"]] by (simp add: heap m2_def)
    define m3 where "m3 = bump (\<lambda>st. st\<lparr>protocolErrors := protocolErrors st + 1\<rparr>) m2"
    have m3: "safe m [] m3" unfolding m3_def using m2 safe_bump by (rule safe_then)
    obtain e' m4 sent4 where l: "lift_send (sendReset 2) outcome h m3 = (e', m4, sent4)"
      by (cases "lift_send (sendReset 2) outcome h m3") auto
    show ?thesis
      using assms m2 safe_after [OF m3 safe_reset_remove(1) [OF l]]
      by (auto simp: mux_stream_cell_def hc Let_def m1_def [symmetric] Some m2_def [symmetric] m3_def [symmetric] l
          split: if_split_asm)
  qed
qed

lemma safe_handleCell:
  assumes "mux_handleCell cell outcome m = (r, m', sent)"
  shows "safe m sent m'"
proof -
  obtain e1 m1 where ext: "handleExtensionPayload (Payload cell) m = (e1, m1)"
    by (cases "handleExtensionPayload (Payload cell) m")
  consider "m' = m" "sent = []" | "m' = handlePong (Payload cell) m" "sent = []" | "m' = m1" "sent = []"
    | "mux_send outcome (mk_cell CellPong 0 0 (Payload cell)) m = (r, m', sent)"
    | "m' = terminate (Some ErrEOF) m" "sent = []" | "handleOpen cell outcome m = (r, m', sent)"
    | h where "mux_stream_cell cell outcome h m = (r, m', sent)"
    using assms unfolding mux_handleCell_def ext prod.case
    by (simp split: if_split_asm option.split_asm)
  then show ?thesis
    using safe_handlePong safe_handleExtensionPayload [OF ext] safe_send safe_terminate safe_handleOpen safe_stream_cell
    by cases simp_all
qed

lemma safe_readLoop:
  assumes "readLoop_step received outcome m = (go, m', sent)"
  shows "safe m sent m'"
proof (cases received)
  case (Inl e)
  then show ?thesis using assms safe_terminate by (auto simp: readLoop_step_def split: if_split_asm)
next
  case (Inr raw)
  show ?thesis
  proof (cases "DecodeCell (mx_typeMap m) raw")
    case (Inl e)
    then show ?thesis
      using assms safe_then [OF safe_bump safe_terminate] by (auto simp: readLoop_step_def Inr)
  next
    case Dec: (Inr cell)
    define m1 where "m1 = bump (\<lambda>st. st\<lparr>receivedCells := receivedCells st + 1,
        receivedPayloadBytes := receivedPayloadBytes st + of_nat (length (Payload cell)),
        windowUpdatesReceived := (if Kind cell = CellWindowUpdate then windowUpdatesReceived st + 1
                                  else windowUpdatesReceived st)\<rparr>) m"
    obtain e m2 sent2 where hc: "mux_handleCell cell outcome m1 = (e, m2, sent2)"
      by (cases "mux_handleCell cell outcome m1") auto
    have m2: "safe m sent2 m2" using safe_bump safe_handleCell [OF hc] unfolding m1_def by (rule safe_after)
    have step: "readLoop_step received outcome m =
      (case e of
         Some e \<Rightarrow> if is_ErrProtocol e
                   then (False, terminate (Some e) (bump (\<lambda>st. st\<lparr>protocolErrors := protocolErrors st + 1\<rparr>) m2), sent2)
                   else (True, m2, sent2)
       | None \<Rightarrow> (True, m2, sent2))"
      unfolding readLoop_step_def Inr sum.case Dec Let_def m1_def [symmetric] hc prod.case by (cases e) simp_all
    show ?thesis
      using assms m2 safe_then [OF safe_then [OF m2 safe_bump] safe_terminate]
      unfolding step by (auto split: option.split_asm if_split_asm)
  qed
qed

section \<open>Sessions\<close>

text \<open>
  One step of a session. The application holds handles of the streams it was given and of the
  offers it accepted; the read loop runs while it is not parked.
\<close>

inductive mux_step :: "Mux \<Rightarrow> bytes list \<Rightarrow> Mux \<Rightarrow> bool" where
  receive: "\<not> parked m \<Longrightarrow> readLoop_step received outcome m = (go, m', sent) \<Longrightarrow> mux_step m sent m'"
| open_begin: "mux_Open metadata outcome m = (r, m', sent) \<Longrightarrow> mux_step m sent m'"
| open_finish: "mux_Open_finish event outcome h m = (r', m', sent) \<Longrightarrow> mux_step m sent m'"
| accept: "mux_Accept event m = (a, m') \<Longrightarrow> mux_step m [] m'"
| incoming_accept: "Incoming_Accept outcome i m = (r, m', sent) \<Longrightarrow> mux_step m sent m'"
| incoming_reject: "Incoming_Reject code outcome i m = (e, m', sent) \<Longrightarrow> mux_step m sent m'"
| read_stream: "mux_Read n outcome h m = (rr, m', sent) \<Longrightarrow> mux_step m sent m'"
| write_stream: "mux_Write outcomes payload h m = (w, m', sent) \<Longrightarrow> mux_step m sent m'"
| close_write: "mux_CloseWrite outcome h m = (e, m', sent) \<Longrightarrow> mux_step m sent m'"
| close_stream: "mux_Close outcome h m = (e, m', sent) \<Longrightarrow> mux_step m sent m'"
| ping: "Ping nonce outcome m = (r, m', sent) \<Longrightarrow> mux_step m sent m'"
| ping_finish: "Ping_finish event nonce wait m = (p, m') \<Longrightarrow> mux_step m [] m'"
| send_extension: "SendExtension envelope outcome m = (e, m', sent) \<Longrightarrow> mux_step m sent m'"
| receive_extension: "ReceiveExtension event m = (x, m') \<Longrightarrow> mux_step m [] m'"
| close_mux: "m' = Mux_Close m \<Longrightarrow> mux_step m [] m'"

lemma mux_step_safe: "mux_step m sent m' \<Longrightarrow> safe m sent m'"
proof (induction rule: mux_step.induct)
  case (write_stream outcomes payload h m w m' sent)
  then show ?case using safe_write_loop by (auto simp: mux_Write_def split: if_split_asm)
next
  case (close_mux m' m)
  then show ?case by (simp add: Mux_Close_def safe_terminate)
qed (blast intro: safe_readLoop safe_Open safe_Open_finish safe_Accept safe_Incoming_Accept safe_Incoming_Reject safe_Read
      safe_CloseWrite safe_Close safe_Ping safe_Ping_finish safe_SendExtension safe_ReceiveExtension)+

inductive mux_run :: "Mux \<Rightarrow> bytes list \<Rightarrow> Mux \<Rightarrow> bool" where
  stop: "mux_run m [] m"
| step: "mux_run m sent m' \<Longrightarrow> mux_step m' sent' m'' \<Longrightarrow> mux_run m (sent @ sent') m''"

lemma mux_run_safe: "mux_run m sent m' \<Longrightarrow> safe m sent m'"
proof (induction rule: mux_run.induct)
  case (step m sent m' sent' m'')
  show ?case using step.IH mux_step_safe [OF step.hyps(2)] by (rule safe_trans)
qed simp

lemma mux_New_inv:
  assumes "mux_New role tm iw maxStreams = Inr m"
  shows "mux_inv m"
  using assms
  by (auto simp: mux_New_def mux_inv_defs local_id_def str_ok_newStream split: if_split_asm sum.split_asm)

lemma mux_New_fields:
  assumes "mux_New role tm iw maxStreams = Inr m"
  shows "mx_maxStreams m = nat maxStreams" "mx_initialWindow m = iw" "mx_role m = role" "mx_done m = False"
  using assms by (auto simp: mux_New_def split: if_split_asm sum.split_asm)

lemma mux_run_inv:
  assumes "mux_New role tm iw maxStreams = Inr m" and "mux_run m sent m'"
  shows "mux_inv m'" "mx_maxStreams m' = nat maxStreams" "mx_initialWindow m' = iw"
  using mux_New_inv [OF assms(1)] mux_New_fields [OF assms(1)] mux_run_safe [OF assms(2)] by (simp_all add: safe_def)

definition plain_type_map :: TypeMap where
  "plain_type_map = \<lparr>tm_encode = map of_nat [0..<13], tm_decode = map (\<lambda>w. if w < 13 then of_nat w else CellInvalid) [0..<256]\<rparr>"

lemma plain_type_map_wf: "wf_TypeMap plain_type_map"
proof -
  have "unat (of_nat k :: byte) = k" if "k < 13" for k using that by (intro unat_of_nat_small) simp
  then show ?thesis by (auto simp: wf_TypeMap_def plain_type_map_def kind_valid_unat word_unat_eq_iff)
qed

lemma plain_type_map_open: "EncodeKind plain_type_map CellOpen = Inr 1"
  by (simp add: EncodeKind_def kind_valid_def plain_type_map_def)

lemma sample_mux_New: "\<exists>m. mux_New RoleServer plain_type_map 65536 4 = Inr m"
  using plain_type_map_open by (auto simp: mux_New_def)

section \<open>One stream cannot disturb another\<close>

text \<open>What a step may have touched: the state and the registration of one stream only.\<close>

definition only_stream :: "u64 \<Rightarrow> nat \<Rightarrow> Mux \<Rightarrow> Mux \<Rightarrow> bool" where
  "only_stream i h m m' \<longleftrightarrow>
     mx_done m' = mx_done m \<and> (\<forall>j. j \<noteq> i \<longrightarrow> map_of (mx_streams m') j = map_of (mx_streams m) j)
     \<and> (\<forall>k. k \<noteq> h \<longrightarrow> mx_heap m' k = mx_heap m k)"

lemma only_stream_refl: "only_stream i h m m"
  by (simp add: only_stream_def)

lemma only_stream_trans: "only_stream i h m m' \<Longrightarrow> only_stream i h m' m'' \<Longrightarrow> only_stream i h m m''"
  by (simp add: only_stream_def)

lemma only_stream_put: "only_stream i h m (put_stream h s m)"
  by (simp add: only_stream_def put_stream_def)

lemma only_stream_bump: "only_stream i h m (bump f m)"
  by (simp add: only_stream_def)

lemma only_stream_remove: "only_stream i h m (removeStream i h m)"
  by (auto simp: only_stream_def removeStream_def retireStreamLocked_def Let_def AList.delete_conv)

lemma only_stream_send: "mux_send None cell m = (e, m', sent) \<Longrightarrow> only_stream i h m m'"
  by (auto simp: mux_send_def only_stream_def split: sum.split_asm if_split_asm)

lemma only_stream_lift:
  assumes "lift_send f None h m = (e, m', sent)"
  shows "only_stream i h m m'"
proof -
  obtain r s1 cells where f: "f None (mx_heap m h) = (r, s1, cells)" by (cases "f None (mx_heap m h)") auto
  show ?thesis
  proof (cases cells)
    case Nil
    then show ?thesis using assms only_stream_put by (auto simp: lift_send_def f)
  next
    case (Cons c cs)
    obtain e' where "mux_send None c (put_stream h s1 m) = (e', m', sent)"
      using assms by (auto simp: lift_send_def f Cons split: prod.split_asm)
    then show ?thesis using only_stream_put only_stream_send only_stream_trans by meson
  qed
qed

lemma stream_cell_only:
  assumes "mux_stream_cell cell None h m = (r, m', sent)" and i: "st_id (mx_heap m h) = i"
  shows "r = None \<and> only_stream i h m m'"
proof -
  obtain err s1 where hc: "stream_handleCell cell (mx_heap m h) = (err, s1)" by (cases "stream_handleCell cell (mx_heap m h)")
  have s1: "st_id s1 = i" using evolves_handleCell [OF hc] i by (simp add: evolves_def)
  define m1 where "m1 = retireIfComplete h (put_stream h s1 m)"
  have "only_stream i h (put_stream h s1 m) m1"
    by (simp add: m1_def retireIfComplete_def s1 only_stream_remove only_stream_refl)
  then have m1: "only_stream i h m m1" using only_stream_put only_stream_trans by blast
  show ?thesis
  proof (cases err)
    case None
    then show ?thesis
      using assms(1) m1 only_stream_trans [OF m1 only_stream_remove]
      by (auto simp: mux_stream_cell_def hc Let_def m1_def [symmetric] s1 split: if_split_asm)
  next
    case (Some e)
    define m2 where "m2 = put_stream h (stream_fail (Some e) s1) m1"
    have m2: "only_stream i h m m2" unfolding m2_def by (rule only_stream_trans [OF m1 only_stream_put])
    define m3 where "m3 = bump (\<lambda>st. st\<lparr>protocolErrors := protocolErrors st + 1\<rparr>) m2"
    have m3: "only_stream i h m m3" unfolding m3_def by (rule only_stream_trans [OF m2 only_stream_bump])
    obtain e' m4 sent4 where l: "lift_send (sendReset 2) None h m3 = (e', m4, sent4)"
      by (cases "lift_send (sendReset 2) None h m3") auto
    have "only_stream i h m (removeStream i h m4)"
      by (rule only_stream_trans [OF only_stream_trans [OF m3 only_stream_lift [OF l]] only_stream_remove])
    then show ?thesis
      using assms(1) m2
      by (auto simp: mux_stream_cell_def hc Let_def m1_def [symmetric] Some m2_def [symmetric] m3_def [symmetric] l s1
          split: if_split_asm)
  qed
qed

section \<open>Delivery of extension messages\<close>

text \<open>
  A history of the extension channel: \<open>Some payload\<close> is a PROFILE cell handled by the read loop, \<open>None\<close>
  a \<open>ReceiveExtension\<close> of the application that finds a message. The result is the first error and
  the messages the application got.
\<close>

fun extension_history ::
  "bytes option list \<Rightarrow> Mux \<Rightarrow> session_error option \<times> ExtensionEnvelope list \<times> Mux" where
  "extension_history [] m = (None, [], m)"
| "extension_history (Some payload # events) m =
     (case handleExtensionPayload payload m of
        (Some e, m1) \<Rightarrow> (Some e, [], m1)
      | (None, m1) \<Rightarrow> extension_history events m1)"
| "extension_history (None # events) m =
     (case ReceiveExtension Answered m of
        (Some (Inr x), m1) \<Rightarrow> (case extension_history events m1 of (e, xs, m2) \<Rightarrow> (e, x # xs, m2))
      | (_, m1) \<Rightarrow> extension_history events m1)"

text \<open>The reference: the messages whose identifier exceeds every identifier before it.\<close>

fun increasing :: "u64 \<Rightarrow> bytes list \<Rightarrow> ExtensionEnvelope list" where
  "increasing hi [] = []"
| "increasing hi (payload # payloads) =
     (if IsExtensionEnvelope payload
      then case ParseExtensionEnvelope payload of
             Inl _ \<Rightarrow> increasing hi payloads
           | Inr x \<Rightarrow> if hi < env_MessageID x then x # increasing (env_MessageID x) payloads else increasing hi payloads
      else increasing hi payloads)"

fun received_payloads :: "bytes option list \<Rightarrow> bytes list" where
  "received_payloads [] = []"
| "received_payloads (Some payload # events) = payload # received_payloads events"
| "received_payloads (None # events) = received_payloads events"

lemma increasing_sorted: "sorted_wrt (<) (map env_MessageID (increasing hi ps)) \<and> (\<forall>x\<in>set (increasing hi ps). hi < env_MessageID x)"
proof (induction ps arbitrary: hi)
  case (Cons p ps)
  show ?case
  proof (cases "\<exists>x. IsExtensionEnvelope p \<and> ParseExtensionEnvelope p = Inr x \<and> hi < env_MessageID x")
    case True
    then obtain x where c: "IsExtensionEnvelope p" "ParseExtensionEnvelope p = Inr x" "hi < env_MessageID x" by blast
    show ?thesis using Cons.IH [of "env_MessageID x"] less_trans [OF c(3)] by (simp add: c)
  next
    case False
    then show ?thesis using Cons.IH [of hi] by (auto split: sum.split)
  qed
qed simp

lemma handleExtensionPayload_spec:
  assumes "handleExtensionPayload payload m = (None, m')" and inv: "extension_inv m"
  shows "mx_extensions m' @ increasing (mx_highestExtensionID m') ps
         = mx_extensions m @ increasing (mx_highestExtensionID m) (payload # ps) \<and> extension_inv m'"
proof (cases "\<exists>x. IsExtensionEnvelope payload \<and> ParseExtensionEnvelope payload = Inr x
      \<and> map_of (mx_extensionSeen m) (env_MessageID x) = None \<and> mx_highestExtensionID m < env_MessageID x")
  case True
  then obtain x where c: "IsExtensionEnvelope payload" "ParseExtensionEnvelope payload = Inr x"
    "map_of (mx_extensionSeen m) (env_MessageID x) = None" "mx_highestExtensionID m < env_MessageID x"
    by blast
  then have "\<not> env_MessageID x \<le> mx_highestExtensionID m" by simp
  then have m': "length (mx_extensions m) < maxQueuedExtensionMessages"
    "m' = (remember_extension (env_MessageID x) (sha256 payload) m)\<lparr>mx_extensions := mx_extensions m @ [x]\<rparr>"
    using assms(1) by (auto simp: handleExtensionPayload_def c(1-3) Let_def split: if_split_asm)
  have "extension_inv m'"
    using extension_inv_remember [OF inv c(4), of "sha256 payload"] m'(1) by (simp add: m'(2) extension_inv_def)
  then show ?thesis by (simp add: m'(2) c)
next
  case False
  have seen: "i \<le> mx_highestExtensionID m" if "map_of (mx_extensionSeen m) i = Some d" for i d
  proof -
    have "i \<in> fst ` set (mx_extensionSeen m)" using map_of_SomeD [OF that] by force
    then show ?thesis using inv by (auto simp: extension_inv_def)
  qed
  have "m' = m"
    using assms(1) False by (auto simp: handleExtensionPayload_def not_le Let_def split: if_split_asm sum.split_asm option.split_asm)
  moreover have "increasing (mx_highestExtensionID m) (payload # ps) = increasing (mx_highestExtensionID m) ps"
    using False seen by (auto split: sum.split) (meson leD not_None_eq)
  ultimately show ?thesis using inv by simp
qed

lemma extension_history_increasing:
  "extension_history events m = (None, xs, m') \<Longrightarrow> extension_inv m \<Longrightarrow>
   xs @ mx_extensions m' = mx_extensions m @ increasing (mx_highestExtensionID m) (received_payloads events)"
proof (induction events arbitrary: m xs m')
  case (Cons event events)
  show ?case
  proof (cases event)
    case (Some payload)
    obtain e m1 where h: "handleExtensionPayload payload m = (e, m1)" by (cases "handleExtensionPayload payload m")
    then have e: "e = None" using Cons.prems(1) Some by (cases e) auto
    have s: "mx_extensions m1 @ increasing (mx_highestExtensionID m1) (received_payloads events)
           = mx_extensions m @ increasing (mx_highestExtensionID m) (payload # received_payloads events)" "extension_inv m1"
      using handleExtensionPayload_spec [of payload m m1] h Cons.prems(2) by (simp_all add: e)
    have "xs @ mx_extensions m' = mx_extensions m1 @ increasing (mx_highestExtensionID m1) (received_payloads events)"
      using Cons.prems(1) by (intro Cons.IH) (simp_all add: Some h e s(2))
    with s(1) show ?thesis by (simp add: Some)
  next
    case None
    show ?thesis
    proof (cases "mx_extensions m")
      case Nil
      then have "ReceiveExtension Answered m = (None, m)" by (simp add: ReceiveExtension_def)
      then show ?thesis using Cons.IH [of m xs m'] Cons.prems by (simp add: None)
    next
      case q: (Cons x rest)
      then have r: "ReceiveExtension Answered m = (Some (Inr x), m\<lparr>mx_extensions := rest\<rparr>)"
        by (simp add: ReceiveExtension_def)
      then obtain xs' where xs: "xs = x # xs'" and h: "extension_history events (m\<lparr>mx_extensions := rest\<rparr>) = (None, xs', m')"
        using Cons.prems(1) None by (auto split: prod.split_asm)
      have "extension_inv (m\<lparr>mx_extensions := rest\<rparr>)" using Cons.prems(2) q by (simp add: extension_inv_def)
      then show ?thesis using Cons.IH [OF h] q by (simp add: xs None)
    qed
  qed
qed simp

section \<open>Properties\<close>





text \<open>
  C11 (error). Termination is final: once a session has ended, with whatever error, no later
  operation sends a record or changes the error, and every stream still registered reports an error
  to its readers and writers.
\<close>

theorem mux_closed_final:
  assumes "mux_New role tm iw maxStreams = Inr m0" and "mux_run m0 sent m" and "mx_done m"
    and "mux_run m sent' m'"
  shows "sent' = [] \<and> Mux_Err m' = Mux_Err m \<and> Mux_Err m \<noteq> None
    \<and> (\<forall>i h. map_of (mx_streams m') i = Some h \<longrightarrow>
         st_readErr (mx_heap m' h) \<noteq> None \<and> st_writeErr (mx_heap m' h) \<noteq> None)"
proof -
  have safe: "safe m sent' m'" by (rule mux_run_safe [OF assms(4)])
  have inv: "mux_inv m'" using safe mux_run_inv(1) [OF assms(1,2)] by (simp add: safe_def)
  have fin: "sent' = []" "mx_done m'" "mx_err m' = mx_err m" using safe assms(3) by (simp_all add: safe_def)
  have "st_readErr (mx_heap m' h) \<noteq> None \<and> st_writeErr (mx_heap m' h) \<noteq> None"
    if "map_of (mx_streams m') i = Some h" for i h
  proof -
    have "h \<in> snd ` set (mx_streams m')" using map_of_SomeD [OF that] by force
    moreover have "done_inv m'" using inv by (simp add: mux_inv_def)
    ultimately show ?thesis using fin(2) unfolding done_inv_def by blast
  qed
  then show ?thesis using fin assms(3) by (simp add: Mux_Err_def sessionError_def)
qed

theorem mux_closed_final_witness:
  "\<exists>m0. mux_New RoleServer plain_type_map 65536 4 = Inr m0 \<and> Mux_Err (Mux_Close m0) \<noteq> None
     \<and> mux_Open [] None (Mux_Close m0) = (Inl ErrClosed, Mux_Close m0, [])"
proof -
  obtain m0 where m0: "mux_New RoleServer plain_type_map 65536 4 = Inr m0" using sample_mux_New by blast
  have run: "mux_run m0 [] (Mux_Close m0)" using mux_run.step [OF mux_run.stop mux_step.close_mux [OF refl]] by simp
  have alive: "mx_done m0 = False" by (rule mux_New_fields [OF m0])
  have closed: "mx_done (Mux_Close m0)" "mx_err (Mux_Close m0) = Some ErrClosed"
    by (simp_all add: Mux_Close_def terminate_def alive Let_def)
  have op: "mux_Open [] None (Mux_Close m0) = (Inl ErrClosed, Mux_Close m0, [])" by (simp add: mux_Open_def closed)
  have "mux_run (Mux_Close m0) [] (Mux_Close m0)" by (rule mux_run.stop)
  from mux_closed_final [OF m0 run closed(1) this] m0 op show ?thesis by blast
qed


lemma sample_mux_opened:
  "\<exists>m0 m sent. mux_New RoleClient plain_type_map 65536 4 = Inr m0 \<and> mux_run m0 sent m \<and> map_of (mx_streams m) 1 = Some 0"
proof -
  obtain m0 where m0: "mux_New RoleClient plain_type_map 65536 4 = Inr m0"
    using plain_type_map_open by (auto simp: mux_New_def)
  have "validateCell (mk_cell CellOpen 1 0 (put_uvarint 65536)) = None"
    using length_put_uvarint [of 65536] by (simp add: validateCell_None kind_valid_def controlOnly_def)
  then obtain raw where raw: "EncodeCell plain_type_map (mk_cell CellOpen 1 0 (put_uvarint 65536)) = Inr raw"
    using EncodeCell_total [OF plain_type_map_wf] by blast
  have f: "mx_typeMap m0 = plain_type_map" "mx_initialWindow m0 = 65536" "mx_nextID m0 = 1" "mx_streams m0 = []"
    "mx_maxStreams m0 = 4" "mx_err m0 = None" "mx_done m0 = False" "mx_nextHandle m0 = 0"
    using m0 plain_type_map_open by (auto simp: mux_New_def)
  obtain m where o: "mux_Open [] None m0 = (Inr 0, m, [raw])" "map_of (mx_streams m) 1 = Some 0"
    by (simp add: mux_Open_def mux_send_def register_def put_stream_def f raw Let_def newStream_def)
  have "mux_run m0 ([] @ [raw]) m" by (rule mux_run.step [OF mux_run.stop mux_step.open_begin [OF o(1)]])
  with m0 o(2) show ?thesis by blast
qed


text \<open>
  C22 (equivalence). Extension messages are delivered in order and at most once. The read loop keeps
  the digests of only the last 64 message identifiers; as long as it reports no violation, what
  \<open>ReceiveExtension\<close> has returned and what is still queued is exactly the reference sequence: the
  received messages whose identifier exceeds all earlier ones, in strictly increasing order.
\<close>

theorem extension_delivery:
  assumes "mux_New role tm iw maxStreams = Inr m" and "extension_history events m = (None, xs, m')"
  shows "xs @ mx_extensions m' = increasing 0 (received_payloads events)
    \<and> sorted_wrt (<) (map env_MessageID (xs @ mx_extensions m'))"
proof -
  have "extension_inv m" using mux_New_inv [OF assms(1)] by (simp add: mux_inv_def)
  moreover have "mx_extensions m = []" "mx_highestExtensionID m = 0"
    using assms(1) by (auto simp: mux_New_def split: if_split_asm sum.split_asm)
  ultimately have "xs @ mx_extensions m' = increasing 0 (received_payloads events)"
    using extension_history_increasing [OF assms(2)] by simp
  then show ?thesis using increasing_sorted [of 0 "received_payloads events"] by simp
qed

definition sample_envelope :: ExtensionEnvelope where
  "sample_envelope = \<lparr>env_Type = ExtensionOffer, env_MessageID = 1, env_TLVs = [\<lparr>tlv_Type = 1, tlv_Value = []\<rparr>]\<rparr>"

theorem extension_delivery_witness:
  "\<exists>m payload xs m'. mux_New RoleServer plain_type_map 65536 4 = Inr m \<and> Envelope_MarshalBinary sample_envelope = Inr payload
     \<and> extension_history [Some payload, Some payload, None] m = (None, xs, m')
     \<and> xs @ mx_extensions m' = [sample_envelope]"
proof -
  obtain m where m: "mux_New RoleServer plain_type_map 65536 4 = Inr m" using sample_mux_New by blast
  have f: "mx_extensionSeen m = []" "mx_extensionOrder m = []" "mx_highestExtensionID m = 0" "mx_extensions m = []"
    using m plain_type_map_open by (auto simp: mux_New_def)
  define payload where "payload = envelope_bytes sample_envelope"
  have mar: "Envelope_MarshalBinary sample_envelope = Inr payload"
    by (simp add: Envelope_MarshalBinary_eq_Inr payload_def sample_envelope_def envelope_ok_def ext_type_valid_def
        validExtensionTLVType_def envelope_bytes_def tlv_bytes_def put_uvarint_small)
  have par: "ParseExtensionEnvelope payload = Inr sample_envelope" by (rule ParseExtensionEnvelope_Marshal [OF mar])
  have env: "IsExtensionEnvelope payload"
    by (simp add: payload_def envelope_bytes_def IsExtensionEnvelope_def extensionMagic_def)
  have id: "env_MessageID sample_envelope = 1" by (simp add: sample_envelope_def)
  obtain xs m' where h: "extension_history [Some payload, Some payload, None] m = (None, xs, m')"
    by (simp add: handleExtensionPayload_def env par Let_def id f remember_extension_def ReceiveExtension_def)
  have "xs @ mx_extensions m' = [sample_envelope]"
    using extension_delivery [OF m h] by (simp add: env par id)
  with m mar h show ?thesis by blast
qed

end
