(* ===== verification/NP_Datagram.thy ===== *)
theory NP_Datagram
  imports NP_Mux NP_Record
begin

text \<open>
  Unreliable datagrams beside the reliable session (\<open>internal/session/datagram_mux.go\<close>): the envelope,
  the keys of both directions, the replay window, the endpoints and their queues, and
  \<open>Incoming.AcceptWithDatagrams\<close>. As in the record layer the AEAD is the pair of arguments \<open>seal\<close> and
  \<open>opn\<close>, an instance being the key it was made from. The carrier's current \<open>MaxDatagramPayload\<close> is the
  argument \<open>limit\<close> of the operations that ask for it. Endpoints are objects with pointers to them, so
  they live in the store \<open>dm_heap\<close>.
\<close>

abbreviation datagramEnvelopeVersion :: byte where "datagramEnvelopeVersion \<equiv> 1"
abbreviation datagramAssociationMaxSize :: int where "datagramAssociationMaxSize \<equiv> 10"
abbreviation datagramCounterSize :: nat where "datagramCounterSize \<equiv> 8"
abbreviation datagramReceiveQueue :: nat where "datagramReceiveQueue \<equiv> 64"
abbreviation minimumFastDatagramPayload :: int where "minimumFastDatagramPayload \<equiv> 512"
abbreviation datagramReplayWindow :: nat where "datagramReplayWindow \<equiv> 1024"

section \<open>The replay window\<close>

record datagramReplay =
  rp_highest :: u64
  rp_slots :: "u64 list"

definition new_replay :: datagramReplay where
  "new_replay = \<lparr>rp_highest = 0, rp_slots = replicate datagramReplayWindow 0\<rparr>"

definition replay_Accept :: "u64 \<Rightarrow> datagramReplay \<Rightarrow> bool \<times> datagramReplay" where
  "replay_Accept counter r =
     (if counter = 0 then (False, r)
      else if rp_highest r \<ge> counter \<and> rp_highest r - counter \<ge> of_nat datagramReplayWindow then (False, r)
      else
        let index = unat (counter mod of_nat datagramReplayWindow) in
        if rp_slots r ! index = counter then (False, r)
        else
          let r1 = r\<lparr>rp_slots := (rp_slots r)[index := counter]\<rparr>
          in (True, if counter > rp_highest r1 then r1\<lparr>rp_highest := counter\<rparr> else r1))"

definition replay_Reset :: "datagramReplay \<Rightarrow> datagramReplay" where
  "replay_Reset r = r\<lparr>rp_highest := 0, rp_slots := replicate (length (rp_slots r)) 0\<rparr>"

section \<open>The envelope\<close>

definition datagramAssociatedData :: "CarrierKind \<Rightarrow> byte \<Rightarrow> u64 \<Rightarrow> u64 \<Rightarrow> bytes" where
  "datagramAssociatedData kind direction streamID counter =
     str ''Neproto NP/2 datagram'' @ [datagramEnvelopeVersion, kind, direction] @ put_uvarint streamID @ put_uint64 counter"

definition deriveDatagramBytes :: "hash \<Rightarrow> bytes \<Rightarrow> string \<Rightarrow> nat \<Rightarrow> session_error + bytes" where
  "deriveDatagramBytes H key label n =
     (case hkdf_key H key (str ''Neproto NP/2 datagram'') (str label) n of
        None \<Rightarrow> Inl (ErrCell ErrDerive) | Some k \<Rightarrow> Inr k)"

definition parseDatagramEnvelope :: "bytes \<Rightarrow> nat \<Rightarrow> (u64 \<times> u64 \<times> bytes) option" where
  "parseDatagramEnvelope raw overhead =
     (if length raw < 1 + 1 + datagramCounterSize + overhead \<or> raw ! 0 \<noteq> datagramEnvelopeVersion then None
      else case uvarint (drop 1 raw) of
             (streamID, consumed) \<Rightarrow>
               if consumed \<le> 0 \<or> streamID = 0 \<or> streamID > MaxStreamID then None
               else
                 let canonical = put_uvarint streamID in
                 if nat consumed \<noteq> length canonical \<or> take (nat consumed) (drop 1 raw) \<noteq> canonical then None
                 else
                   let cursor = 1 + nat consumed in
                   if length raw - cursor < datagramCounterSize + overhead then None
                   else
                     let counter = be_value (take datagramCounterSize (drop cursor raw)) in
                     if counter = 0 then None
                     else Some (streamID, counter, drop (cursor + datagramCounterSize) raw))"

section \<open>State\<close>

record DatagramStats =
  dg_Sent :: u64
  dg_Received :: u64
  dg_AuthenticationDrops :: u64
  dg_ReplayDrops :: u64
  dg_UnknownAssociationDrops :: u64
  dg_QueueDrops :: u64

record DatagramEndpoint =
  ep_streamID :: u64
  ep_receive :: "bytes list"
  ep_done :: bool

record DatagramMux =
  dm_kind :: CarrierKind
  dm_ctxDone :: bool
  dm_sendAEAD :: bytes
  dm_receiveAEAD :: bytes
  dm_sendPrefix :: bytes
  dm_receivePrefix :: bytes
  dm_sendDirection :: byte
  dm_recvDirection :: byte
  dm_sendCounter :: u64
  dm_replay :: datagramReplay
  dm_endpoints :: "(u64 \<times> nat) list"
  dm_heap :: "nat \<Rightarrow> DatagramEndpoint"
  dm_nextEndpoint :: nat
  dm_enabled :: bool
  dm_maximum :: int
  dm_stats :: DatagramStats

definition CarrierDatagramPayloadLimit :: "int \<Rightarrow> int" where
  "CarrierDatagramPayloadLimit limit =
     (let overhead = 1 + datagramAssociationMaxSize + int datagramCounterSize + int aead_overhead;
          maximum = limit - overhead
      in if maximum < minimumFastDatagramPayload then 0 else maximum)"

text \<open>The four derivations and the assignment to the two directions, shared by the constructor and \<open>rekey\<close>.\<close>

definition datagram_keys :: "hash \<Rightarrow> bytes \<Rightarrow> bool \<Rightarrow> session_error + bytes \<times> bytes \<times> bytes \<times> bytes" where
  "datagram_keys H control server =
     res_bind (deriveDatagramBytes H control ''NP2 datagram c2s key'' 32) (\<lambda>clientKey.
     res_bind (deriveDatagramBytes H control ''NP2 datagram s2c key'' 32) (\<lambda>serverKey.
     res_bind (deriveDatagramBytes H control ''NP2 datagram c2s nonce'' 4) (\<lambda>clientNonce.
     res_bind (deriveDatagramBytes H control ''NP2 datagram s2c nonce'' 4) (\<lambda>serverNonce.
     let (sendKey, receiveKey, sendNonce, receiveNonce) =
           (if server then (serverKey, clientKey, serverNonce, clientNonce)
            else (clientKey, serverKey, clientNonce, serverNonce))
     in res_bind (newAEAD sendKey) (\<lambda>sendAEAD. res_bind (newAEAD receiveKey) (\<lambda>receiveAEAD.
        Inr (sendAEAD, receiveAEAD, sendNonce, receiveNonce)))))))"

definition newDatagramMux :: "hash \<Rightarrow> CarrierKind \<Rightarrow> int \<Rightarrow> Role \<Rightarrow> SessionKeys \<Rightarrow> session_error + DatagramMux" where
  "newDatagramMux H kind limit role keys =
     (if role \<noteq> RoleClient \<and> role \<noteq> RoleServer \<or> sk_Control keys = zero_bytes 32 \<or> CarrierDatagramPayloadLimit limit = 0
      then Inl ErrSessionConfig
      else
        let (sendDirection, receiveDirection) =
              (if role = RoleServer then (recordDirectionServerToClient, recordDirectionClientToServer)
               else (recordDirectionClientToServer, recordDirectionServerToClient))
        in res_bind (datagram_keys H (sk_Control keys) (role = RoleServer)) (\<lambda>(sendAEAD, receiveAEAD, sendNonce, receiveNonce).
           Inr \<lparr>dm_kind = kind, dm_ctxDone = False, dm_sendAEAD = sendAEAD, dm_receiveAEAD = receiveAEAD,
                dm_sendPrefix = sendNonce, dm_receivePrefix = receiveNonce, dm_sendDirection = sendDirection,
                dm_recvDirection = receiveDirection, dm_sendCounter = 0, dm_replay = new_replay, dm_endpoints = [],
                dm_heap = (\<lambda>_. \<lparr>ep_streamID = 0, ep_receive = [], ep_done = True\<rparr>), dm_nextEndpoint = 0,
                dm_enabled = False, dm_maximum = 0,
                dm_stats = \<lparr>dg_Sent = 0, dg_Received = 0, dg_AuthenticationDrops = 0, dg_ReplayDrops = 0,
                             dg_UnknownAssociationDrops = 0, dg_QueueDrops = 0\<rparr>\<rparr>))"

definition Enable :: "int \<Rightarrow> int \<Rightarrow> DatagramMux \<Rightarrow> bool \<times> DatagramMux" where
  "Enable limit maximum m =
     (if maximum < minimumFastDatagramPayload then (False, m)
      else
        let carrierMaximum = CarrierDatagramPayloadLimit limit;
            maximum' = (if maximum > carrierMaximum then carrierMaximum else maximum)
        in if maximum' < minimumFastDatagramPayload then (False, m)
           else (True, m\<lparr>dm_maximum := maximum', dm_enabled := True\<rparr>))"

definition Enabled :: "DatagramMux option \<Rightarrow> bool" where
  "Enabled m = (case m of None \<Rightarrow> False | Some m \<Rightarrow> dm_enabled m)"

definition DatagramMux_MaxPayload :: "DatagramMux option \<Rightarrow> int" where
  "DatagramMux_MaxPayload m = (case m of None \<Rightarrow> 0 | Some m \<Rightarrow> if \<not> dm_enabled m then 0 else dm_maximum m)"

definition OpenEndpoint :: "u64 \<Rightarrow> DatagramMux \<Rightarrow> (session_error + nat) \<times> DatagramMux" where
  "OpenEndpoint streamID m =
     (if \<not> dm_enabled m \<or> streamID = 0 \<or> streamID > MaxStreamID then (Inl ErrDatagramUnavailable, m)
      else if dm_ctxDone m then (Inl ErrDatagramUnavailable, m)
      else if map_of (dm_endpoints m) streamID \<noteq> None then (Inl ErrDatagramAssociationExists, m)
      else
        let h = dm_nextEndpoint m in
        (Inr h, m\<lparr>dm_heap := (dm_heap m)(h := \<lparr>ep_streamID = streamID, ep_receive = [], ep_done = False\<rparr>),
                  dm_nextEndpoint := h + 1, dm_endpoints := (streamID, h) # dm_endpoints m\<rparr>))"

abbreviation count_drop :: "(DatagramStats \<Rightarrow> DatagramStats) \<Rightarrow> DatagramMux \<Rightarrow> DatagramMux" where
  "count_drop f m \<equiv> m\<lparr>dm_stats := f (dm_stats m)\<rparr>"

definition DatagramMux_Stats :: "DatagramMux option \<Rightarrow> DatagramStats" where
  "DatagramMux_Stats m =
     (case m of
        None \<Rightarrow> \<lparr>dg_Sent = 0, dg_Received = 0, dg_AuthenticationDrops = 0, dg_ReplayDrops = 0,
                 dg_UnknownAssociationDrops = 0, dg_QueueDrops = 0\<rparr>
      | Some m \<Rightarrow> dm_stats m)"

section \<open>Sending\<close>

text \<open>\<open>canceled\<close>: the caller's context is done; \<open>outcome\<close>: the error of \<open>inner.SendDatagram\<close>.\<close>

definition datagram_send ::
  "(bytes \<Rightarrow> bytes \<Rightarrow> bytes \<Rightarrow> bytes \<Rightarrow> bytes) \<Rightarrow> int \<Rightarrow> bool \<Rightarrow> session_error option \<Rightarrow> u64 \<Rightarrow> bytes \<Rightarrow> DatagramMux
   \<Rightarrow> (session_error + bytes) \<times> DatagramMux" where
  "datagram_send seal limit canceled outcome streamID plaintext m =
     (if \<not> dm_enabled m \<or> int (length plaintext) > dm_maximum m then (Inl ErrDatagramTooLarge, m)
      else if canceled then (Inl ErrCanceled, m)
      else if dm_ctxDone m then (Inl ErrDatagramUnavailable, m)
      else if dm_sendCounter m = MaxUint64 then (Inl ErrRecordSequenceExhausted, m)
      else
        let counter = dm_sendCounter m + 1;
            m1 = m\<lparr>dm_sendCounter := counter\<rparr>;
            header = [datagramEnvelopeVersion] @ put_uvarint streamID @ put_uint64 counter;
            nonce = recordNonce (dm_sendPrefix m) counter;
            aad = datagramAssociatedData (dm_kind m) (dm_sendDirection m) streamID counter;
            sealed = header @ seal (dm_sendAEAD m) nonce plaintext aad
        in if int (length sealed) > limit then (Inl ErrDatagramTooLarge, m1)
           else case outcome of
                  Some e \<Rightarrow> (Inl e, m1)
                | None \<Rightarrow> (Inr sealed, count_drop (\<lambda>st. st\<lparr>dg_Sent := dg_Sent st + 1\<rparr>) m1))"

definition Endpoint_MaxPayload :: "DatagramMux \<Rightarrow> int" where
  "Endpoint_MaxPayload m = dm_maximum m"

definition Endpoint_Send ::
  "(bytes \<Rightarrow> bytes \<Rightarrow> bytes \<Rightarrow> bytes \<Rightarrow> bytes) \<Rightarrow> int \<Rightarrow> bool \<Rightarrow> session_error option \<Rightarrow> nat \<Rightarrow> bytes \<Rightarrow> DatagramMux
   \<Rightarrow> (session_error + bytes) \<times> DatagramMux" where
  "Endpoint_Send seal limit canceled outcome h plaintext m =
     (if ep_done (dm_heap m h) then (Inl ErrDatagramEndpointClosed, m)
      else if int (length plaintext) > Endpoint_MaxPayload m then (Inl ErrDatagramTooLarge, m)
      else datagram_send seal limit canceled outcome (ep_streamID (dm_heap m h)) plaintext m)"

definition datagram_rekey :: "hash \<Rightarrow> SessionKeys \<Rightarrow> DatagramMux \<Rightarrow> session_error + DatagramMux" where
  "datagram_rekey H keys m =
     (if sk_Control keys = zero_bytes 32 then Inl ErrSessionConfig
      else
        res_bind (datagram_keys H (sk_Control keys) (dm_sendDirection m = recordDirectionServerToClient))
          (\<lambda>(sendAEAD, receiveAEAD, sendNonce, receiveNonce).
             Inr (m\<lparr>dm_sendAEAD := sendAEAD, dm_receiveAEAD := receiveAEAD, dm_sendPrefix := sendNonce,
                    dm_receivePrefix := receiveNonce, dm_sendCounter := 0, dm_replay := replay_Reset (dm_replay m)\<rparr>)))"

section \<open>Receiving\<close>

definition Endpoint_Receive :: "wait_event \<Rightarrow> nat \<Rightarrow> DatagramMux \<Rightarrow> (session_error + bytes) option \<times> DatagramMux" where
  "Endpoint_Receive event h m =
     (let e = dm_heap m h in
      if ep_done e then (Some (Inl ErrDatagramEndpointClosed), m)
      else case event of
             Answered \<Rightarrow>
               (case ep_receive e of
                  [] \<Rightarrow> (None, m)
                | raw # rest \<Rightarrow> (Some (Inr raw), m\<lparr>dm_heap := (dm_heap m)(h := e\<lparr>ep_receive := rest\<rparr>)\<rparr>))
           | ContextDone \<Rightarrow> (Some (Inl ErrCanceled), m)
           | MuxDone \<Rightarrow> (if dm_ctxDone m then (Some (Inl ErrDatagramUnavailable), m) else (None, m)))"

definition Endpoint_Close :: "nat \<Rightarrow> DatagramMux \<Rightarrow> DatagramMux" where
  "Endpoint_Close h m =
     (if ep_done (dm_heap m h) then m
      else
        let e = dm_heap m h;
            m1 = (if map_of (dm_endpoints m) (ep_streamID e) = Some h
                  then m\<lparr>dm_endpoints := AList.delete (ep_streamID e) (dm_endpoints m)\<rparr> else m)
        in m1\<lparr>dm_heap := (dm_heap m1)(h := e\<lparr>ep_done := True\<rparr>)\<rparr>)"

definition closeEndpoints :: "DatagramMux \<Rightarrow> DatagramMux" where
  "closeEndpoints m = fold Endpoint_Close (map snd (dm_endpoints m)) m"

text \<open>
  One round of \<open>receiveLoop\<close> on a received datagram. The first component records what was accepted
  by the replay window: stream, counter and plaintext.
\<close>

definition receiveLoop_step ::
  "(bytes \<Rightarrow> bytes \<Rightarrow> bytes \<Rightarrow> bytes \<Rightarrow> bytes option) \<Rightarrow> bytes \<Rightarrow> DatagramMux
   \<Rightarrow> (u64 \<times> u64 \<times> bytes) option \<times> DatagramMux" where
  "receiveLoop_step opn raw m =
     (if \<not> dm_enabled m then (None, m)
      else case parseDatagramEnvelope raw aead_overhead of
             None \<Rightarrow> (None, count_drop (\<lambda>st. st\<lparr>dg_AuthenticationDrops := dg_AuthenticationDrops st + 1\<rparr>) m)
           | Some (streamID, counter, ciphertext) \<Rightarrow>
               let nonce = recordNonce (dm_receivePrefix m) counter;
                   aad = datagramAssociatedData (dm_kind m) (dm_recvDirection m) streamID counter
               in case opn (dm_receiveAEAD m) nonce ciphertext aad of
                    None \<Rightarrow> (None, count_drop (\<lambda>st. st\<lparr>dg_AuthenticationDrops := dg_AuthenticationDrops st + 1\<rparr>) m)
                  | Some plaintext \<Rightarrow>
                      if int (length plaintext) > dm_maximum m
                      then (None, count_drop (\<lambda>st. st\<lparr>dg_AuthenticationDrops := dg_AuthenticationDrops st + 1\<rparr>) m)
                      else case replay_Accept counter (dm_replay m) of
                             (False, r) \<Rightarrow>
                               (None, count_drop (\<lambda>st. st\<lparr>dg_ReplayDrops := dg_ReplayDrops st + 1\<rparr>) (m\<lparr>dm_replay := r\<rparr>))
                           | (True, r) \<Rightarrow>
                               (Some (streamID, counter, plaintext),
                                let m1 = m\<lparr>dm_replay := r\<rparr> in
                                case map_of (dm_endpoints m1) streamID of
                                  None \<Rightarrow> count_drop (\<lambda>st. st\<lparr>dg_UnknownAssociationDrops := dg_UnknownAssociationDrops st + 1\<rparr>) m1
                                | Some h \<Rightarrow>
                                    let e = dm_heap m1 h in
                                    if length (ep_receive e) < datagramReceiveQueue
                                    then count_drop (\<lambda>st. st\<lparr>dg_Received := dg_Received st + 1\<rparr>)
                                           (m1\<lparr>dm_heap := (dm_heap m1)(h := e\<lparr>ep_receive := ep_receive e @ [plaintext]\<rparr>)\<rparr>)
                                    else count_drop (\<lambda>st. st\<lparr>dg_QueueDrops := dg_QueueDrops st + 1\<rparr>) m1))"

section \<open>Accepting a stream together with its datagrams\<close>

definition AcceptWithDatagrams ::
  "session_error option \<Rightarrow> nat \<Rightarrow> DatagramMux option \<Rightarrow> Mux
   \<Rightarrow> (session_error + nat \<times> nat) \<times> DatagramMux option \<times> Mux \<times> bytes list" where
  "AcceptWithDatagrams outcome i datagrams m =
     (case datagrams of
        None \<Rightarrow> (Inl ErrDatagramUnavailable, None, m, [])
      | Some d \<Rightarrow>
          let h = in_stream (mx_offers m ! i); sid = st_id (mx_heap m h) in
          (case OpenEndpoint sid d of
             (Inl e, d1) \<Rightarrow> (Inl e, Some d1, m, [])
           | (Inr endpoint, d1) \<Rightarrow>
               (case claim i m of
                  (False, m1) \<Rightarrow> (Inl ErrClosed, Some (Endpoint_Close endpoint d1), m1, [])
                | (True, m1) \<Rightarrow>
                    (case mux_send outcome (mk_cell CellOpenOK sid 0 (put_uvarint (mx_initialWindow m))) m1 of
                       (Some e, m2, sent) \<Rightarrow>
                         (Inl e, Some (Endpoint_Close endpoint d1),
                          removeStream sid h (put_stream h (stream_fail (Some e) (mx_heap m2 h)) m2), sent)
                     | (None, m2, sent) \<Rightarrow> (Inr (h, endpoint), Some d1, m2, sent)))))"

section \<open>The replay window against a set\<close>

text \<open>
  What a replay guard promises its client: \<open>related s S\<close> says that \<open>S\<close> is the set of counters accepted
  so far. A counter is accepted only if it is new, and a rejected one changes nothing.
\<close>

fun accepted :: "('c \<Rightarrow> 's \<Rightarrow> bool \<times> 's) \<Rightarrow> 'c list \<Rightarrow> 's \<Rightarrow> 'c list" where
  "accepted acc [] s = []"
| "accepted acc (c # cs) s = (case acc c s of (True, s') \<Rightarrow> c # accepted acc cs s' | (False, s') \<Rightarrow> accepted acc cs s')"

locale replay_guard =
  fixes start :: 's
    and acc :: "u64 \<Rightarrow> 's \<Rightarrow> bool \<times> 's"
    and related :: "'s \<Rightarrow> u64 set \<Rightarrow> bool"
  assumes start_related: "related start {}"
    and accept_new: "related s S \<Longrightarrow> acc c s = (True, s') \<Longrightarrow> c \<notin> S \<and> related s' (insert c S)"
    and reject_same: "related s S \<Longrightarrow> acc c s = (False, s') \<Longrightarrow> related s' S"
begin

lemma accepted_once: "related s S \<Longrightarrow> distinct (accepted acc cs s) \<and> set (accepted acc cs s) \<inter> S = {}"
proof (induction cs arbitrary: s S)
  case (Cons c cs)
  obtain ok s' where step: "acc c s = (ok, s')" by (cases "acc c s")
  show ?case
  proof (cases ok)
    case True
    then have new: "c \<notin> S" "related s' (insert c S)" using accept_new [OF Cons.prems] step by auto
    from Cons.IH [OF new(2)] new(1) show ?thesis by (auto simp: step True)
  next
    case False
    then show ?thesis using Cons.IH [OF reject_same [OF Cons.prems]] step by simp
  qed
qed simp

lemma accepted_from_start: "distinct (accepted acc cs start)"
  using accepted_once [OF start_related] by blast

end

text \<open>The relation for the window of 1024 slots: the slots hold exactly the accepted counters of the window.\<close>

definition window_rel :: "datagramReplay \<Rightarrow> u64 set \<Rightarrow> bool" where
  "window_rel r S \<longleftrightarrow>
     length (rp_slots r) = datagramReplayWindow
     \<and> (\<forall>i<datagramReplayWindow. rp_slots r ! i = 0 \<or> rp_slots r ! i \<in> S)
     \<and> (\<forall>c\<in>S. c \<noteq> 0 \<and> unat c \<le> unat (rp_highest r)
          \<and> (unat (rp_highest r) < unat c + datagramReplayWindow \<longrightarrow> rp_slots r ! (unat c mod datagramReplayWindow) = c))"

lemma too_old_iff:
  "rp_highest r \<ge> c \<and> rp_highest r - c \<ge> of_nat datagramReplayWindow \<longleftrightarrow> unat c + datagramReplayWindow \<le> unat (rp_highest r)"
  for c :: u64
proof -
  have "of_nat datagramReplayWindow = (1024 :: u64)" by simp
  moreover have "unat (rp_highest r - c) = unat (rp_highest r) - unat c" if "c \<le> rp_highest r"
    using that by (rule unat_sub)
  ultimately show ?thesis by (auto simp: word_le_nat_alt)
qed

lemma window_index: "unat (c mod of_nat datagramReplayWindow) = unat c mod datagramReplayWindow" for c :: u64
proof -
  have "of_nat datagramReplayWindow = (1024 :: u64)" by simp
  then show ?thesis by (simp add: unat_mod)
qed

lemma replay_Accept_spec:
  assumes rel: "window_rel r S" and acc: "replay_Accept c r = (ok, r')"
  shows "ok = (c \<noteq> 0 \<and> unat (rp_highest r) < unat c + datagramReplayWindow \<and> c \<notin> S)
    \<and> window_rel r' (if ok then insert c S else S) \<and> rp_highest r' = (if ok then max (rp_highest r) c else rp_highest r)"
proof (cases "c = 0 \<or> unat c + datagramReplayWindow \<le> unat (rp_highest r)")
  case True
  then have "\<not> ok \<and> r' = r" using acc unfolding replay_Accept_def too_old_iff by (auto split: if_split_asm)
  then show ?thesis using rel True by auto
next
  case False
  define k where "k = unat c mod datagramReplayWindow"
  have k: "k < datagramReplayWindow" by (simp add: k_def)
  have slot: "rp_slots r ! k = c \<longleftrightarrow> c \<in> S"
  proof
    assume "rp_slots r ! k = c"
    then show "c \<in> S" using rel False k unfolding window_rel_def by blast
  next
    assume "c \<in> S"
    moreover have "unat (rp_highest r) < unat c + datagramReplayWindow" using False by linarith
    ultimately show "rp_slots r ! k = c" using rel unfolding window_rel_def k_def by blast
  qed
  show ?thesis
  proof (cases "c \<in> S")
    case True
    then have "\<not> ok \<and> r' = r"
      using acc False slot unfolding replay_Accept_def too_old_iff window_index k_def by (auto split: if_split_asm)
    then show ?thesis using rel True by simp
  next
    case new: False
    define hi where "hi = max (rp_highest r) c"
    have r': "ok" "rp_slots r' = (rp_slots r)[k := c]" "rp_highest r' = hi"
      using acc False new slot unfolding replay_Accept_def too_old_iff window_index k_def hi_def
      by (auto simp: Let_def max_def not_less split: if_split_asm)
    have hi: "unat hi = max (unat (rp_highest r)) (unat c)"
      by (simp add: hi_def max_def word_le_nat_alt)
    have "window_rel r' (insert c S)"
      unfolding window_rel_def r'
    proof (intro conjI allI ballI impI)
      show "length ((rp_slots r)[k := c]) = datagramReplayWindow" using rel by (simp add: window_rel_def)
      fix i assume "i < datagramReplayWindow"
      then show "(rp_slots r)[k := c] ! i = 0 \<or> (rp_slots r)[k := c] ! i \<in> insert c S"
        using rel by (cases "i = k") (auto simp: window_rel_def)
    next
      fix d assume d: "d \<in> insert c S"
      show "d \<noteq> 0" using d rel False by (auto simp: window_rel_def)
      show "unat d \<le> unat hi" using d rel hi by (auto simp: window_rel_def)
      assume near: "unat hi < unat d + datagramReplayWindow"
      show "(rp_slots r)[k := c] ! (unat d mod datagramReplayWindow) = d"
      proof (cases "d = c")
        case True
        then show ?thesis using rel k by (simp add: window_rel_def k_def)
      next
        case other: False
        then have dS: "d \<in> S" using d by simp
        then have dle: "unat d \<le> unat (rp_highest r)" using rel by (simp add: window_rel_def)
        have "unat d mod datagramReplayWindow \<noteq> k"
        proof
          assume "unat d mod datagramReplayWindow = k"
          then have "unat d = unat c"
            unfolding k_def
            by (rule congruent_close) (use dle near hi False in linarith)+
          then show False using other by (simp add: word_unat_eq_iff)
        qed
        moreover have "unat (rp_highest r) < unat d + datagramReplayWindow" using near hi by simp
        ultimately show ?thesis using dS rel by (simp add: window_rel_def)
      qed
    qed
    then show ?thesis using r' False new by (simp add: hi_def)
  qed
qed

lemma window_rel_new: "window_rel new_replay {}"
  by (simp add: window_rel_def new_replay_def)

interpretation replay: replay_guard new_replay replay_Accept window_rel
proof
  show "window_rel new_replay {}" by (rule window_rel_new)
  show "c \<notin> S \<and> window_rel s' (insert c S)" if "window_rel s S" "replay_Accept c s = (True, s')" for s S c s'
    using replay_Accept_spec [OF that] by auto
  show "window_rel s' S" if "window_rel s S" "replay_Accept c s = (False, s')" for s S c s'
    using replay_Accept_spec [OF that] by auto
qed

text \<open>The reference with an unbounded memory: reject zero, what fell out of the window, and repetitions.\<close>

fun replay_reference :: "u64 list \<Rightarrow> u64 \<Rightarrow> u64 set \<Rightarrow> u64 list" where
  "replay_reference [] hi S = []"
| "replay_reference (c # cs) hi S =
     (if c \<noteq> 0 \<and> unat hi < unat c + datagramReplayWindow \<and> c \<notin> S
      then c # replay_reference cs (max hi c) (insert c S) else replay_reference cs hi S)"

lemma accepted_reference:
  "window_rel r S \<Longrightarrow> accepted replay_Accept cs r = replay_reference cs (rp_highest r) S"
proof (induction cs arbitrary: r S)
  case (Cons c cs)
  obtain ok r' where a: "replay_Accept c r = (ok, r')" by (cases "replay_Accept c r")
  note s = replay_Accept_spec [OF Cons.prems a]
  show ?case
  proof (cases ok)
    case True
    then have "window_rel r' (insert c S)" "rp_highest r' = max (rp_highest r) c"
      using conjunct2 [OF s] by (simp_all only: if_True simp_thms)
    moreover have "c \<noteq> 0 \<and> unat (rp_highest r) < unat c + datagramReplayWindow \<and> c \<notin> S" using s True by simp
    ultimately show ?thesis using Cons.IH [of r' "insert c S"] True unfolding accepted.simps replay_reference.simps a by simp
  next
    case False
    then have "window_rel r' S" "rp_highest r' = rp_highest r"
      using conjunct2 [OF s] by (simp_all only: if_False simp_thms)
    moreover have "\<not> (c \<noteq> 0 \<and> unat (rp_highest r) < unat c + datagramReplayWindow \<and> c \<notin> S)" using s False by simp
    ultimately show ?thesis using Cons.IH [of r' S] False unfolding accepted.simps replay_reference.simps a by auto
  qed
qed simp

section \<open>Delivery\<close>

text \<open>The datagram that carries \<open>p\<close> on a stream under a counter.\<close>

definition datagram_raw :: "(bytes \<Rightarrow> bytes \<Rightarrow> bytes \<Rightarrow> bytes \<Rightarrow> bytes) \<Rightarrow> DatagramMux \<Rightarrow> u64 \<Rightarrow> u64 \<Rightarrow> bytes \<Rightarrow> bytes" where
  "datagram_raw seal m streamID counter p =
     [datagramEnvelopeVersion] @ put_uvarint streamID @ put_uint64 counter
     @ seal (dm_sendAEAD m) (recordNonce (dm_sendPrefix m) counter) p
         (datagramAssociatedData (dm_kind m) (dm_sendDirection m) streamID counter)"

lemma parse_datagram:
  assumes "aead_overhead \<le> length ct" "streamID \<noteq> 0" "streamID \<le> MaxStreamID" "counter \<noteq> 0"
  shows "parseDatagramEnvelope ([datagramEnvelopeVersion] @ put_uvarint streamID @ put_uint64 counter @ ct) aead_overhead
         = Some (streamID, counter, ct)"
proof -
  define pre where "pre = datagramEnvelopeVersion # put_uvarint streamID @ put_uint64 counter"
  have "drop (length pre) (pre @ ct) = ct" by simp
  moreover have "length pre = 9 + length (put_uvarint streamID)" by (simp add: pre_def)
  ultimately have "drop (9 + length (put_uvarint streamID)) (pre @ ct) = ct" by (simp only:)
  then have "drop (9 + length (put_uvarint streamID)) (datagramEnvelopeVersion # put_uvarint streamID @ put_uint64 counter @ ct) = ct"
    by (simp only: pre_def append_Cons append_assoc)
  then show ?thesis
    using assms length_put_uvarint_pos [of streamID]
    unfolding parseDatagramEnvelope_def
    by (simp add: uvarint_put be_value_be_bytes Let_def not_less)
qed

text \<open>Sender \<open>a\<close> and receiver \<open>b\<close> use the same key, nonce prefix, direction and carrier kind.\<close>

definition dg_sync :: "DatagramMux \<Rightarrow> DatagramMux \<Rightarrow> bool" where
  "dg_sync a b \<longleftrightarrow>
     dm_sendAEAD a = dm_receiveAEAD b \<and> dm_sendPrefix a = dm_receivePrefix b
     \<and> dm_sendDirection a = dm_recvDirection b \<and> dm_kind a = dm_kind b"

lemma datagram_keys_swap:
  assumes "datagram_keys H control False = Inr (sk, rk, sn, rn)"
  shows "datagram_keys H control True = Inr (rk, sk, rn, sn)"
  using assms by (auto simp: datagram_keys_def newAEAD_def Let_def split: if_split_asm)

lemma new_dg_sync:
  assumes "newDatagramMux H kind limit RoleClient keys = Inr a" and "newDatagramMux H kind limit' RoleServer keys = Inr b"
  shows "dg_sync a b" "dg_sync b a"
proof -
  from assms(1) obtain sk rk sn rn where k: "datagram_keys H (sk_Control keys) False = Inr (sk, rk, sn, rn)"
    by (auto simp: newDatagramMux_def split: if_split_asm)
  then show "dg_sync a b" "dg_sync b a"
    using assms datagram_keys_swap [OF k] by (auto simp: newDatagramMux_def dg_sync_def split: if_split_asm)
qed

text \<open>A loop of successful sends on one stream.\<close>

fun send_datagrams ::
  "(bytes \<Rightarrow> bytes \<Rightarrow> bytes \<Rightarrow> bytes \<Rightarrow> bytes) \<Rightarrow> int \<Rightarrow> u64 \<Rightarrow> bytes list \<Rightarrow> DatagramMux \<Rightarrow> bytes list option \<times> DatagramMux" where
  "send_datagrams seal limit streamID [] m = (Some [], m)"
| "send_datagrams seal limit streamID (p # ps) m =
     (case datagram_send seal limit False None streamID p m of
        (Inl e, m1) \<Rightarrow> (None, m1)
      | (Inr raw, m1) \<Rightarrow>
          (case send_datagrams seal limit streamID ps m1 of
             (None, m2) \<Rightarrow> (None, m2) | (Some raws, m2) \<Rightarrow> (Some (raw # raws), m2)))"

lemma datagram_send_Inr:
  assumes "datagram_send seal limit False None streamID p m = (Inr raw, m')"
  shows "raw = datagram_raw seal m streamID (dm_sendCounter m + 1) p \<and> dm_sendCounter m' = dm_sendCounter m + 1
    \<and> dm_sendCounter m \<noteq> MaxUint64 \<and> int (length p) \<le> dm_maximum m \<and> dm_maximum m' = dm_maximum m
    \<and> datagram_raw seal m' = datagram_raw seal m"
  using assms by (auto simp: datagram_send_def datagram_raw_def Let_def fun_eq_iff split: if_split_asm)

lemma send_datagrams_raw:
  "send_datagrams seal limit streamID ps m = (Some raws, m') \<Longrightarrow>
   length raws = length ps \<and> (\<forall>i<length ps. raws ! i = datagram_raw seal m streamID (dm_sendCounter m + of_nat (i + 1)) (ps ! i)
     \<and> int (length (ps ! i)) \<le> dm_maximum m)"
proof (induction ps arbitrary: m raws)
  case (Cons p ps)
  obtain raw m1 raws' where s: "datagram_send seal limit False None streamID p m = (Inr raw, m1)"
    and rest: "send_datagrams seal limit streamID ps m1 = (Some raws', m')" and raws: "raws = raw # raws'"
    using Cons.prems by (auto split: prod.split_asm sum.split_asm option.split_asm)
  note d = datagram_send_Inr [OF s]
  note IH = Cons.IH [OF rest]
  show ?case
  proof (intro conjI allI impI)
    show "length raws = length (p # ps)" using IH by (simp add: raws)
    fix i assume i: "i < length (p # ps)"
    show "raws ! i = datagram_raw seal m streamID (dm_sendCounter m + of_nat (i + 1)) ((p # ps) ! i)"
      using d IH i by (cases i) (auto simp: raws ac_simps)
    show "int (length ((p # ps) ! i)) \<le> dm_maximum m"
      using d IH i by (cases i) auto
  qed
qed simp

text \<open>The receive loop over a list of arrivals.\<close>

fun receive_datagrams ::
  "(bytes \<Rightarrow> bytes \<Rightarrow> bytes \<Rightarrow> bytes \<Rightarrow> bytes option) \<Rightarrow> bytes list \<Rightarrow> DatagramMux \<Rightarrow> (u64 \<times> u64 \<times> bytes) list \<times> DatagramMux" where
  "receive_datagrams opn [] m = ([], m)"
| "receive_datagrams opn (raw # raws) m =
     (case receiveLoop_step opn raw m of
        (None, m1) \<Rightarrow> receive_datagrams opn raws m1
      | (Some x, m1) \<Rightarrow> (case receive_datagrams opn raws m1 of (xs, m2) \<Rightarrow> (x # xs, m2)))"

lemma receiveLoop_guard:
  assumes "receiveLoop_step opn raw m = (x, m')" and "window_rel (dm_replay m) S"
  shows "(case x of None \<Rightarrow> window_rel (dm_replay m') S
          | Some (streamID, counter, p) \<Rightarrow> counter \<notin> S \<and> window_rel (dm_replay m') (insert counter S))"
proof (cases x)
  case None
  then consider "dm_replay m' = dm_replay m" | c where "replay_Accept c (dm_replay m) = (False, dm_replay m')"
    using assms(1) unfolding receiveLoop_step_def Let_def
    by (auto split: if_split_asm option.split_asm prod.split_asm bool.split_asm)
  then show ?thesis using None assms(2) replay.reject_same by cases auto
next
  case (Some y)
  obtain i c p where y: "y = (i, c, p)" by (cases y)
  have "replay_Accept c (dm_replay m) = (True, dm_replay m')"
    using assms(1) unfolding receiveLoop_step_def Let_def Some y
    by (auto split: if_split_asm option.split_asm prod.split_asm bool.split_asm)
  then show ?thesis using replay.accept_new [OF assms(2)] by (simp add: Some y)
qed

lemma receive_datagrams_once:
  "receive_datagrams opn raws m = (xs, m') \<Longrightarrow> window_rel (dm_replay m) S \<Longrightarrow>
   distinct (map (\<lambda>(i, c, p). c) xs) \<and> (\<lambda>(i, c, p). c) ` set xs \<inter> S = {}"
proof (induction raws arbitrary: m xs S)
  case (Cons raw raws)
  obtain x m1 where s: "receiveLoop_step opn raw m = (x, m1)" by (cases "receiveLoop_step opn raw m")
  note g = receiveLoop_guard [OF s Cons.prems(2)]
  show ?case
  proof (cases x)
    case None
    then show ?thesis using Cons.IH [of m1 xs S] Cons.prems(1) g by (simp add: s)
  next
    case (Some y)
    obtain i c p where y: "y = (i, c, p)" by (cases y)
    obtain xs' where rest: "receive_datagrams opn raws m1 = (xs', m')" and xs: "xs = y # xs'"
      using Cons.prems(1) by (auto simp: s Some split: prod.split_asm)
    show ?thesis using Cons.IH [OF rest, of "insert c S"] g by (auto simp: Some y xs)
  qed
qed simp

text \<open>What the receive loop does with an authentic datagram for an open endpoint.\<close>

lemma receiveLoop_authentic:
  assumes aead: "aead_correct seal opn" and sync: "dg_sync a b" and "dm_enabled b" "int (length p) \<le> dm_maximum b"
    and ids: "streamID \<noteq> 0" "streamID \<le> MaxStreamID" "counter \<noteq> 0" and h: "map_of (dm_endpoints b) streamID = Some h"
  shows "receiveLoop_step opn (datagram_raw seal a streamID counter p) b =
    (case replay_Accept counter (dm_replay b) of
       (False, r) \<Rightarrow> (None, count_drop (\<lambda>st. st\<lparr>dg_ReplayDrops := dg_ReplayDrops st + 1\<rparr>) (b\<lparr>dm_replay := r\<rparr>))
     | (True, r) \<Rightarrow>
         (Some (streamID, counter, p),
          if length (ep_receive (dm_heap b h)) < datagramReceiveQueue
          then count_drop (\<lambda>st. st\<lparr>dg_Received := dg_Received st + 1\<rparr>)
                 (b\<lparr>dm_replay := r, dm_heap := (dm_heap b)(h := (dm_heap b h)\<lparr>ep_receive := ep_receive (dm_heap b h) @ [p]\<rparr>)\<rparr>)
          else count_drop (\<lambda>st. st\<lparr>dg_QueueDrops := dg_QueueDrops st + 1\<rparr>) (b\<lparr>dm_replay := r\<rparr>)))"
proof -
  define ct where "ct = seal (dm_sendAEAD a) (recordNonce (dm_sendPrefix a) counter) p
      (datagramAssociatedData (dm_kind a) (dm_sendDirection a) streamID counter)"
  have "aead_overhead \<le> length ct" using aead by (simp add: ct_def aead_correct_def)
  then have parse: "parseDatagramEnvelope (datagram_raw seal a streamID counter p) aead_overhead = Some (streamID, counter, ct)"
    unfolding datagram_raw_def ct_def [symmetric] using ids by (rule parse_datagram)
  have op: "opn (dm_receiveAEAD b) (recordNonce (dm_receivePrefix b) counter) ct
      (datagramAssociatedData (dm_kind b) (dm_recvDirection b) streamID counter) = Some p"
    using aead sync unfolding ct_def by (simp add: aead_correct_def dg_sync_def)
  show ?thesis
    unfolding receiveLoop_step_def parse option.case prod.case Let_def op
    using assms(3,4) h by (auto simp: Let_def split: prod.split bool.split)
qed

abbreviation first_occurrences :: "'a list \<Rightarrow> 'a list" where
  "first_occurrences xs \<equiv> rev (remdups (rev xs))"

lemma first_occurrences_snoc:
  "first_occurrences (xs @ [x]) = (if x \<in> set xs then first_occurrences xs else first_occurrences xs @ [x])"
  by simp

lemma receive_datagrams_append:
  "receive_datagrams opn (xs @ ys) m =
     (case receive_datagrams opn xs m of (as, m1) \<Rightarrow> (case receive_datagrams opn ys m1 of (bs, m2) \<Rightarrow> (as @ bs, m2)))"
  by (induction xs arbitrary: m) (auto split: prod.split option.split)

definition counter_of :: "nat \<Rightarrow> u64" where
  "counter_of i = of_nat (i + 1)"

lemma counter_of_facts:
  assumes "i < datagramReceiveQueue"
  shows "unat (counter_of i) = i + 1" "counter_of i \<noteq> 0"
proof -
  show "unat (counter_of i) = i + 1"
    unfolding counter_of_def by (rule unat_of_nat_small) (use assms in simp)
  then show "counter_of i \<noteq> 0" by auto
qed

lemma counter_of_inject: "i < datagramReceiveQueue \<Longrightarrow> j < datagramReceiveQueue \<Longrightarrow> counter_of i = counter_of j \<Longrightarrow> i = j"
proof -
  assume ij: "i < datagramReceiveQueue" "j < datagramReceiveQueue" and eq: "counter_of i = counter_of j"
  from eq have "unat (counter_of i) = unat (counter_of j)" by (rule arg_cong)
  then show "i = j" by (simp only: counter_of_facts(1) [OF ij(1)] counter_of_facts(1) [OF ij(2)] add_right_cancel)
qed

text \<open>
  The state of the receiver after the arrivals \<open>js\<close> (indices into the datagrams sent): the window
  knows them, and the endpoint's queue holds the first occurrences.
\<close>

definition arrived :: "u64 \<Rightarrow> nat \<Rightarrow> bytes list \<Rightarrow> nat list \<Rightarrow> DatagramMux \<Rightarrow> DatagramMux \<Rightarrow> bool" where
  "arrived streamID h ps js b m \<longleftrightarrow>
     dm_enabled m \<and> dm_maximum m = dm_maximum b \<and> map_of (dm_endpoints m) streamID = Some h
     \<and> dm_receiveAEAD m = dm_receiveAEAD b \<and> dm_receivePrefix m = dm_receivePrefix b
     \<and> dm_recvDirection m = dm_recvDirection b \<and> dm_kind m = dm_kind b
     \<and> window_rel (dm_replay m) (counter_of ` set js) \<and> unat (rp_highest (dm_replay m)) \<le> datagramReceiveQueue
     \<and> ep_receive (dm_heap m h) = map ((!) ps) (first_occurrences js)"

lemma arrived_step:
  assumes aead: "aead_correct seal opn" and sync: "dg_sync a b" and inv: "arrived streamID h ps js b m"
    and ids: "streamID \<noteq> 0" "streamID \<le> MaxStreamID" and few: "length ps \<le> datagramReceiveQueue"
    and j: "j < length ps" "set js \<subseteq> {..<length ps}" and size: "int (length (ps ! j)) \<le> dm_maximum b"
  shows "arrived streamID h ps (js @ [j]) b (snd (receiveLoop_step opn (datagram_raw seal a streamID (counter_of j) (ps ! j)) m))"
proof -
  have jq: "j < datagramReceiveQueue" using j few by simp
  note c = counter_of_facts [OF jq]
  have sync': "dg_sync a m" using sync inv by (simp add: dg_sync_def arrived_def)
  obtain ok r where acc: "replay_Accept (counter_of j) (dm_replay m) = (ok, r)"
    by (cases "replay_Accept (counter_of j) (dm_replay m)")
  have rel: "window_rel (dm_replay m) (counter_of ` set js)" using inv by (simp add: arrived_def)
  note spec = replay_Accept_spec [OF rel acc]
  have mem: "counter_of j \<in> counter_of ` set js \<longleftrightarrow> j \<in> set js"
  proof
    assume "counter_of j \<in> counter_of ` set js"
    then obtain k where k: "k \<in> set js" "counter_of j = counter_of k" by blast
    then have "k < datagramReceiveQueue" using j few by auto
    then show "j \<in> set js" using counter_of_inject [OF jq _ k(2)] k(1) by simp
  qed simp
  have fresh: "unat (rp_highest (dm_replay m)) < unat (counter_of j) + datagramReplayWindow"
    using inv by (simp add: arrived_def)
  have ok: "ok = (j \<notin> set js)" using spec c fresh mem by simp
  have hi: "unat (rp_highest r) \<le> datagramReceiveQueue"
    using spec inv c jq by (auto simp: arrived_def max_def)
  have "card (set js) \<le> card ({..<length ps} - (if j \<in> set js then {} else {j}))"
    by (rule card_mono) (use j in auto)
  then have room: "j \<notin> set js \<Longrightarrow> length (first_occurrences js) < datagramReceiveQueue"
    using j(1) few by (simp add: length_remdups_card_conv)
  note step = receiveLoop_authentic [OF aead sync' _ _ ids c(2), of "ps ! j" h]
  show ?thesis
  proof (cases "j \<in> set js")
    case True
    then show ?thesis
      using inv step size spec hi ok acc by (simp add: arrived_def insert_absorb)
  next
    case False
    then show ?thesis
      using inv step size spec hi ok acc room by (simp add: arrived_def)
  qed
qed

lemma arrived_run:
  assumes aead: "aead_correct seal opn" and sync: "dg_sync a b" and start: "arrived streamID h ps [] b b"
    and ids: "streamID \<noteq> 0" "streamID \<le> MaxStreamID" and few: "length ps \<le> datagramReceiveQueue"
    and size: "\<And>j. j < length ps \<Longrightarrow> int (length (ps ! j)) \<le> dm_maximum b"
  shows "set js \<subseteq> {..<length ps} \<Longrightarrow>
    arrived streamID h ps js b (snd (receive_datagrams opn (map (\<lambda>j. datagram_raw seal a streamID (counter_of j) (ps ! j)) js) b))"
proof (induction js rule: rev_induct)
  case Nil
  then show ?case using start by simp
next
  case (snoc j js)
  define m where "m = snd (receive_datagrams opn (map (\<lambda>j. datagram_raw seal a streamID (counter_of j) (ps ! j)) js) b)"
  have "arrived streamID h ps js b m" unfolding m_def using snoc by simp
  then have "arrived streamID h ps (js @ [j]) b (snd (receiveLoop_step opn (datagram_raw seal a streamID (counter_of j) (ps ! j)) m))"
    by (rule arrived_step [OF aead sync _ ids few]) (use snoc.prems size in auto)
  moreover have "snd (receive_datagrams opn (map (\<lambda>j. datagram_raw seal a streamID (counter_of j) (ps ! j)) (js @ [j])) b)
      = snd (receiveLoop_step opn (datagram_raw seal a streamID (counter_of j) (ps ! j)) m)"
    unfolding map_append receive_datagrams_append m_def by (auto split: prod.split option.split)
  ultimately show ?case by simp
qed

section \<open>Properties\<close>

text \<open>
  C35 (refinement). The replay window of 1024 slots is exact: on every sequence of counters it accepts
  the same ones as a filter with unbounded memory that rejects zero, counters 1024 or more behind
  the highest accepted one, and repetitions; in particular no counter is accepted twice.
\<close>

theorem replay_window_exact:
  "accepted replay_Accept cs new_replay = replay_reference cs 0 {} \<and> distinct (accepted replay_Accept cs new_replay)"
  using accepted_reference [OF window_rel_new] replay.accepted_from_start by (simp add: new_replay_def)


context hash32
begin

lemma datagram_keys_total: "\<exists>ks. datagram_keys H control server = Inr ks"
proof -
  have "\<exists>k. deriveDatagramBytes H control label n = Inr k \<and> length k = n" if n: "n \<le> 255 * 32" for label n
  proof -
    obtain k where "hkdf_key H control (str ''Neproto NP/2 datagram'') (str label) n = Some k" "length k = n"
      using hkdf_key_total [OF n, of control] by blast
    then show ?thesis by (simp add: deriveDatagramBytes_def)
  qed
  note d = this
  obtain a b c e where "deriveDatagramBytes H control ''NP2 datagram c2s key'' 32 = Inr a" "length a = 32"
    "deriveDatagramBytes H control ''NP2 datagram s2c key'' 32 = Inr b" "length b = 32"
    "deriveDatagramBytes H control ''NP2 datagram c2s nonce'' 4 = Inr c"
    "deriveDatagramBytes H control ''NP2 datagram s2c nonce'' 4 = Inr e"
    using d [of 32 "''NP2 datagram c2s key''"] d [of 32 "''NP2 datagram s2c key''"]
      d [of 4 "''NP2 datagram c2s nonce''"] d [of 4 "''NP2 datagram s2c nonce''"] by auto
  then show ?thesis by (simp add: datagram_keys_def newAEAD_def)
qed

end

lemma sample_datagram_mux:
  assumes "role = RoleClient \<or> role = RoleServer"
  shows "\<exists>m0 m. newDatagramMux sha256 CarrierHTTPS 1400 role sample_keys = Inr m0 \<and> Enable 1400 1000 m0 = (True, m)
    \<and> dm_sendCounter m = 0 \<and> dm_maximum m = 1000 \<and> dm_enabled m \<and> \<not> dm_ctxDone m \<and> dm_endpoints m = []"
proof -
  obtain sa ra sp rp where "datagram_keys sha256 (sk_Control sample_keys) (role = RoleServer) = Inr (sa, ra, sp, rp)"
    using sha.datagram_keys_total [of "sk_Control sample_keys" "role = RoleServer"] by auto
  then show ?thesis
    using assms by (auto simp: newDatagramMux_def CarrierDatagramPayloadLimit_def Enable_def sample_keys_def
        SessionKeys.make_def)
qed




end
