(* ===== verification/NP_Negotiation.thy ===== *)
theory NP_Negotiation
  imports NP_Datagram NP_Continuity_Codec NP_Mux_Safety
begin

text \<open>
  What runs on the extension channel of a session: the negotiation of extension parameters
  (\<open>internal/session/negotiation.go\<close>), continuity messages (\<open>internal/session/continuity.go\<close>), and the
  error classification of \<open>internal/session/transport_stream.go\<close>. A function that sends and then waits
  for the peer is split at the wait: the result of \<open>ReceiveExtension\<close> is an argument of its second
  half. \<open>errors.Join(ErrX, err)\<close> keeps both errors; the model keeps the first and, where the code
  tests for it, the second.
\<close>

section \<open>Selecting parameters\<close>

definition selectExtensionParameters :: "ExtensionParameters \<Rightarrow> ExtensionParameters \<Rightarrow> ExtensionParameters" where
  "selectExtensionParameters offer request =
     (let selected = zero_parameters
            \<lparr>Capabilities := Capabilities offer AND Capabilities request,
             MaxSessionReceiveBytes := min (MaxSessionReceiveBytes offer) (MaxSessionReceiveBytes request),
             MaxStreamWindowBytes := min (MaxStreamWindowBytes offer) (MaxStreamWindowBytes request)\<rparr>;
          selected1 = (if Capabilities selected AND CapabilityForwardSecrecy \<noteq> 0
                       then selected\<lparr>ForwardSecretKeyShare := ForwardSecretKeyShare request\<rparr> else selected)
      in if Capabilities selected1 AND CapabilityReliableUDP = 0
         then selected1\<lparr>Capabilities := Capabilities selected1 AND NOT CapabilityUnreliableDatagrams\<rparr>
         else
           let selected2 = selected1
                 \<lparr>MaxUDPAssociations := min (MaxUDPAssociations offer) (MaxUDPAssociations request),
                  MaxUDPPayload := min (MaxUDPPayload offer) (MaxUDPPayload request),
                  UDPIdleTimeoutMS := min (UDPIdleTimeoutMS offer) (UDPIdleTimeoutMS request)\<rparr>
           in if Capabilities selected2 AND CapabilityUnreliableDatagrams \<noteq> 0
              then selected2\<lparr>UnreliableDatagramSize := min (UnreliableDatagramSize offer) (UnreliableDatagramSize request)\<rparr>
              else selected2)"

section \<open>The server's side\<close>

definition negotiate_server_offer ::
  "ExtensionParameters \<Rightarrow> u64 \<Rightarrow> session_error option \<Rightarrow> Mux \<Rightarrow> session_error option \<times> Mux \<times> bytes list" where
  "negotiate_server_offer offer messageID outcome m =
     (if messageID = 0 \<or> messageID \<ge> MaxSequence then (Some ErrExtensionNegotiation, m, [])
      else case parameters_Envelope offer ExtensionOffer messageID of
             Inl _ \<Rightarrow> (Some ErrExtensionNegotiation, m, [])
           | Inr envelope \<Rightarrow>
               (case SendExtension envelope outcome m of
                  (Some _, m1, sent) \<Rightarrow> (Some ErrExtensionNegotiation, m1, sent)
                | (None, m1, sent) \<Rightarrow> (None, m1, sent)))"

definition negotiate_server_accept ::
  "ExtensionParameters \<Rightarrow> u64 \<Rightarrow> session_error + ExtensionEnvelope \<Rightarrow> session_error + ExtensionParameters" where
  "negotiate_server_accept offer messageID received =
     (case received of
        Inl _ \<Rightarrow> Inl ErrExtensionNegotiation
      | Inr response \<Rightarrow>
          if env_Type response \<noteq> ExtensionAccept \<or> env_MessageID response \<noteq> messageID + 1
          then Inl ErrExtensionNegotiation
          else case ParseExtensionParameters response of
                 Inl _ \<Rightarrow> Inl ErrExtensionNegotiation
               | Inr accept \<Rightarrow>
                   (case ValidateExtensionAccept offer accept of
                      Some _ \<Rightarrow> Inl ErrExtensionNegotiation
                    | None \<Rightarrow> Inr accept))"

section \<open>The client's side\<close>

definition negotiateClientExtensions ::
  "ExtensionParameters \<Rightarrow> u64 \<Rightarrow> session_error + ExtensionEnvelope \<Rightarrow> session_error option \<Rightarrow> Mux
   \<Rightarrow> (session_error + ExtensionParameters \<times> ExtensionParameters) \<times> Mux \<times> bytes list" where
  "negotiateClientExtensions request required received outcome m =
     (case parameters_Envelope request ExtensionAccept 1 of
        Inl _ \<Rightarrow> (Inl ErrExtensionNegotiation, m, [])
      | Inr _ \<Rightarrow>
        (case received of
           Inl _ \<Rightarrow> (Inl ErrExtensionNegotiation, m, [])
         | Inr offerEnvelope \<Rightarrow>
           if env_Type offerEnvelope \<noteq> ExtensionOffer \<or> env_MessageID offerEnvelope \<ge> MaxSequence
           then (Inl ErrExtensionNegotiation, m, [])
           else case ParseExtensionParameters offerEnvelope of
                  Inl _ \<Rightarrow> (Inl ErrExtensionNegotiation, m, [])
                | Inr offer \<Rightarrow>
                  let selected = selectExtensionParameters offer request in
                  if required AND NOT (Capabilities selected) \<noteq> 0 then (Inl ErrRequiredExtension, m, [])
                  else case ValidateExtensionAccept offer selected of
                         Some _ \<Rightarrow> (Inl ErrExtensionNegotiation, m, [])
                       | None \<Rightarrow>
                         (case parameters_Envelope selected ExtensionAccept (env_MessageID offerEnvelope + 1) of
                            Inl _ \<Rightarrow> (Inl ErrExtensionNegotiation, m, [])
                          | Inr acceptEnvelope \<Rightarrow>
                            (case SendExtension acceptEnvelope outcome m of
                               (Some _, m1, sent) \<Rightarrow> (Inl ErrExtensionNegotiation, m1, sent)
                             | (None, m1, sent) \<Rightarrow> (Inr (selected, offer), m1, sent)))))"

definition NegotiateClientExtensions ::
  "ExtensionParameters \<Rightarrow> u64 \<Rightarrow> session_error + ExtensionEnvelope \<Rightarrow> session_error option \<Rightarrow> Mux
   \<Rightarrow> (session_error + ExtensionParameters) \<times> Mux \<times> bytes list" where
  "NegotiateClientExtensions request required received outcome m =
     (case negotiateClientExtensions request required received outcome m of
        (Inl e, m1, sent) \<Rightarrow> (Inl e, m1, sent)
      | (Inr (selected, _), m1, sent) \<Rightarrow> (Inr selected, m1, sent))"

section \<open>Continuity messages\<close>

definition SendContinuity ::
  "ContinuityFrame \<Rightarrow> session_error option \<Rightarrow> Mux \<Rightarrow> session_error option \<times> Mux \<times> bytes list" where
  "SendContinuity frame outcome m =
     (case NewContinuityTLV frame of
        Inl _ \<Rightarrow> (Some ErrContinuityControl, m, [])
      | Inr tlv \<Rightarrow>
          SendExtension \<lparr>env_Type = ExtensionUpdate, env_MessageID = cf_MessageID frame, env_TLVs = [tlv]\<rparr> outcome m)"

definition ReceiveContinuity :: "wait_event \<Rightarrow> Mux \<Rightarrow> (session_error + ContinuityFrame) option \<times> Mux" where
  "ReceiveContinuity event m =
     (case ReceiveExtension event m of
        (None, m1) \<Rightarrow> (None, m1)
      | (Some (Inl e), m1) \<Rightarrow> (Some (Inl e), m1)
      | (Some (Inr envelope), m1) \<Rightarrow>
          (if env_Type envelope \<noteq> ExtensionUpdate \<or> length (env_TLVs envelope) \<noteq> 1
              \<or> tlv_Type (env_TLVs envelope ! 0) \<noteq> ExtensionTLVContinuity
           then Some (Inl ErrContinuityControl)
           else case ParseContinuityTLV (env_TLVs envelope ! 0) of
                  Inl _ \<Rightarrow> Some (Inl ErrContinuityControl)
                | Inr frame \<Rightarrow>
                    if cf_MessageID frame \<noteq> env_MessageID envelope then Some (Inl ErrContinuityControl)
                    else Some (Inr frame), m1))"

section \<open>Errors of a transport stream\<close>

text \<open>\<open>CarrierLost err\<close> is \<open>errors.Join(ErrCarrierLost, err)\<close>.\<close>

datatype transport_error = Plain session_error | CarrierLost session_error

definition classify :: "session_error option \<Rightarrow> Mux \<Rightarrow> transport_error option" where
  "classify err m =
     (case err of
        None \<Rightarrow> None
      | Some e \<Rightarrow> if Mux_Err m = None \<or> e = ErrCarrierLost then Some (Plain e) else Some (CarrierLost e))"

definition TransportStream_Read ::
  "nat \<Rightarrow> session_error option \<Rightarrow> nat \<Rightarrow> Mux \<Rightarrow> (bytes \<times> transport_error option) option \<times> Mux \<times> bytes list" where
  "TransportStream_Read n outcome h m =
     (case mux_Read n outcome h m of
        (ReadBytes bs err, m1, sent) \<Rightarrow> (Some (bs, classify err m1), m1, sent)
      | (ReadError e, m1, sent) \<Rightarrow> (Some ([], classify (Some e) m1), m1, sent)
      | (ReadBlocked, m1, sent) \<Rightarrow> (None, m1, sent))"

definition TransportStream_Write ::
  "(nat \<Rightarrow> session_error option) \<Rightarrow> bytes \<Rightarrow> nat \<Rightarrow> Mux \<Rightarrow> (nat \<times> transport_error option) option \<times> Mux \<times> bytes list" where
  "TransportStream_Write outcome payload h m =
     (case mux_Write outcome payload h m of
        ((n, WriteDone), m1, sent) \<Rightarrow> (Some (n, None), m1, sent)
      | ((n, WriteError e), m1, sent) \<Rightarrow> (Some (n, classify (Some e) m1), m1, sent)
      | ((n, WriteBlocked), m1, sent) \<Rightarrow> (None, m1, sent))"

definition TransportStream_CloseWrite ::
  "session_error option \<Rightarrow> nat \<Rightarrow> Mux \<Rightarrow> transport_error option \<times> Mux \<times> bytes list" where
  "TransportStream_CloseWrite outcome h m =
     (case mux_CloseWrite outcome h m of (err, m1, sent) \<Rightarrow> (classify err m1, m1, sent))"

definition TransportStream_Close ::
  "session_error option \<Rightarrow> nat \<Rightarrow> Mux \<Rightarrow> session_error option \<times> Mux \<times> bytes list" where
  "TransportStream_Close outcome h m = mux_Close outcome h m"

section \<open>The selection is always acceptable\<close>

lemma and_part: "(a AND b) AND x \<noteq> 0 \<Longrightarrow> a AND x \<noteq> 0 \<and> b AND x \<noteq> 0" for a b x :: u64
proof -
  have "(a AND b) AND x = b AND (a AND x)" "(a AND b) AND x = a AND (b AND x)" by (simp_all add: ac_simps)
  then show "(a AND b) AND x \<noteq> 0 \<Longrightarrow> a AND x \<noteq> 0 \<and> b AND x \<noteq> 0" by auto
qed

lemma and_disjoint:
  "(c AND NOT CapabilityUnreliableDatagrams) AND CapabilityForwardSecrecy = c AND CapabilityForwardSecrecy"
  "(c AND NOT CapabilityUnreliableDatagrams) AND CapabilityReliableUDP = c AND CapabilityReliableUDP"
  "(c AND NOT CapabilityUnreliableDatagrams) AND CapabilityUnreliableDatagrams = 0"
  by (simp_all add: and.assoc)

lemma validate_None:
  "parameters_validate p = None \<longleftrightarrow>
     \<not> MaxSessionReceiveBytes p < minSessionReceiveBytes \<and> \<not> MaxSessionReceiveBytes p > maxSessionReceiveBytes
     \<and> \<not> MaxStreamWindowBytes p < minExtensionStreamWindow \<and> \<not> MaxStreamWindowBytes p > maxExtensionStreamWindow
     \<and> MaxStreamWindowBytes p \<le> MaxSessionReceiveBytes p
     \<and> (if Capabilities p AND CapabilityReliableUDP = 0
        then MaxUDPAssociations p = 0 \<and> MaxUDPPayload p = 0 \<and> UDPIdleTimeoutMS p = 0 \<and> UnreliableDatagramSize p = 0
             \<and> Capabilities p AND CapabilityUnreliableDatagrams = 0
        else \<not> MaxUDPAssociations p < minUDPAssociations \<and> \<not> MaxUDPAssociations p > maxUDPAssociations
             \<and> \<not> MaxUDPPayload p < minUDPPayload \<and> \<not> MaxUDPPayload p > maxUDPPayload
             \<and> \<not> UDPIdleTimeoutMS p < minUDPIdleTimeoutMS \<and> \<not> UDPIdleTimeoutMS p > maxUDPIdleTimeoutMS
             \<and> (if Capabilities p AND CapabilityUnreliableDatagrams = 0 then UnreliableDatagramSize p = 0
                else \<not> UnreliableDatagramSize p < minUnreliablePayload \<and> UnreliableDatagramSize p \<le> MaxUDPPayload p))
     \<and> (Capabilities p AND CapabilityForwardSecrecy \<noteq> 0 \<longleftrightarrow> ForwardSecretKeyShare p \<noteq> zero_bytes 32)"
  unfolding parameters_validate_def validateForwardSecretParameters_def not_le [symmetric]
  by (cases "Capabilities p AND CapabilityReliableUDP = 0"; cases "Capabilities p AND CapabilityUnreliableDatagrams = 0";
      cases "Capabilities p AND CapabilityForwardSecrecy = 0") (auto simp: not_le)

lemma select_fields:
  fixes offer request :: ExtensionParameters
  defines "c \<equiv> Capabilities offer AND Capabilities request"
  shows "selectExtensionParameters offer request =
    \<lparr>Capabilities = (if c AND CapabilityReliableUDP = 0 then c AND NOT CapabilityUnreliableDatagrams else c),
     MaxUDPAssociations = (if c AND CapabilityReliableUDP = 0 then 0 else min (MaxUDPAssociations offer) (MaxUDPAssociations request)),
     MaxUDPPayload = (if c AND CapabilityReliableUDP = 0 then 0 else min (MaxUDPPayload offer) (MaxUDPPayload request)),
     UDPIdleTimeoutMS = (if c AND CapabilityReliableUDP = 0 then 0 else min (UDPIdleTimeoutMS offer) (UDPIdleTimeoutMS request)),
     MaxSessionReceiveBytes = min (MaxSessionReceiveBytes offer) (MaxSessionReceiveBytes request),
     MaxStreamWindowBytes = min (MaxStreamWindowBytes offer) (MaxStreamWindowBytes request),
     UnreliableDatagramSize = (if c AND CapabilityReliableUDP = 0 \<or> c AND CapabilityUnreliableDatagrams = 0 then 0
       else min (UnreliableDatagramSize offer) (UnreliableDatagramSize request)),
     ForwardSecretKeyShare = (if c AND CapabilityForwardSecrecy \<noteq> 0 then ForwardSecretKeyShare request else zero_bytes 32)\<rparr>"
  unfolding selectExtensionParameters_def c_def zero_parameters_def Let_def
  by (cases "(Capabilities offer AND Capabilities request) AND CapabilityReliableUDP = 0";
      cases "(Capabilities offer AND Capabilities request) AND CapabilityUnreliableDatagrams = 0";
      cases "(Capabilities offer AND Capabilities request) AND CapabilityForwardSecrecy = 0") simp_all

lemma select_valid:
  assumes o: "parameters_validate offer = None" and r: "parameters_validate request = None"
  shows "parameters_validate (selectExtensionParameters offer request) = None"
proof -
  define c where "c = Capabilities offer AND Capabilities request"
  define s where "s = selectExtensionParameters offer request"
  note f = select_fields [of offer request, folded c_def s_def]
  note O = o [unfolded validate_None] and R = r [unfolded validate_None]
  have part: "c AND x \<noteq> 0 \<Longrightarrow> Capabilities offer AND x \<noteq> 0 \<and> Capabilities request AND x \<noteq> 0" for x
    unfolding c_def by (rule and_part)
  have caps: "Capabilities s AND CapabilityForwardSecrecy = c AND CapabilityForwardSecrecy"
    "Capabilities s AND CapabilityReliableUDP = c AND CapabilityReliableUDP"
    "Capabilities s AND CapabilityUnreliableDatagrams =
       (if c AND CapabilityReliableUDP = 0 then 0 else c AND CapabilityUnreliableDatagrams)"
    by (cases "c AND CapabilityReliableUDP = 0";
        simp only: f ExtensionParameters.select_convs and_disjoint if_True if_False simp_thms)+
  have share: "c AND CapabilityForwardSecrecy \<noteq> 0 \<longleftrightarrow> ForwardSecretKeyShare s \<noteq> zero_bytes 32"
    using part [of CapabilityForwardSecrecy] R by (auto simp: f)
  have window: "MaxStreamWindowBytes s \<le> MaxSessionReceiveBytes s"
    using O R by (auto simp: f min_def)
  have session: "\<not> MaxSessionReceiveBytes s < minSessionReceiveBytes" "\<not> MaxSessionReceiveBytes s > maxSessionReceiveBytes"
    "\<not> MaxStreamWindowBytes s < minExtensionStreamWindow" "\<not> MaxStreamWindowBytes s > maxExtensionStreamWindow"
    using O R by (simp_all add: f min_less_iff_disj min_less_iff_conj)
  have udp: "if c AND CapabilityReliableUDP = 0
        then MaxUDPAssociations s = 0 \<and> MaxUDPPayload s = 0 \<and> UDPIdleTimeoutMS s = 0 \<and> UnreliableDatagramSize s = 0
        else \<not> MaxUDPAssociations s < minUDPAssociations \<and> \<not> MaxUDPAssociations s > maxUDPAssociations
             \<and> \<not> MaxUDPPayload s < minUDPPayload \<and> \<not> MaxUDPPayload s > maxUDPPayload
             \<and> \<not> UDPIdleTimeoutMS s < minUDPIdleTimeoutMS \<and> \<not> UDPIdleTimeoutMS s > maxUDPIdleTimeoutMS"
    using O R part [of CapabilityReliableUDP]
    by (cases "c AND CapabilityReliableUDP = 0") (simp_all add: f min_def)
  have fast: "if c AND CapabilityReliableUDP = 0 \<or> c AND CapabilityUnreliableDatagrams = 0 then UnreliableDatagramSize s = 0
      else \<not> UnreliableDatagramSize s < minUnreliablePayload \<and> UnreliableDatagramSize s \<le> MaxUDPPayload s"
    using O R part [of CapabilityReliableUDP] part [of CapabilityUnreliableDatagrams]
    by (cases "c AND CapabilityReliableUDP = 0"; cases "c AND CapabilityUnreliableDatagrams = 0")
       (auto simp: f min_def)
  show ?thesis
    unfolding s_def [symmetric] validate_None caps
    using share window session udp fast
    by (cases "c AND CapabilityReliableUDP = 0"; cases "c AND CapabilityUnreliableDatagrams = 0") simp_all
qed

lemma select_accepted:
  assumes o: "parameters_validate offer = None" and r: "parameters_validate request = None"
  shows "ValidateExtensionAccept offer (selectExtensionParameters offer request) = None"
proof -
  define c where "c = Capabilities offer AND Capabilities request"
  define s where "s = selectExtensionParameters offer request"
  note f = select_fields [of offer request, folded c_def s_def]
  have "Capabilities s AND NOT (Capabilities offer) = 0"
    by (auto simp: f c_def intro!: bit_word_eqI simp: bit_simps)
  then show ?thesis
    unfolding ValidateExtensionAccept_def s_def [symmetric]
    using o select_valid [OF o r] by (simp add: s_def [symmetric]) (auto simp: f)
qed

lemma select_share: "length (ForwardSecretKeyShare request) = 32 \<Longrightarrow> length (ForwardSecretKeyShare (selectExtensionParameters offer request)) = 32"
  by (simp add: select_fields)

section \<open>Both sides over the wire\<close>

text \<open>
  What the peer's read loop gets from a record that carries an extension message: the payload of a
  PROFILE cell, parsed.
\<close>

definition wire_envelope :: "TypeMap \<Rightarrow> bytes \<Rightarrow> ExtensionEnvelope option" where
  "wire_envelope tm raw =
     (case DecodeCell tm raw of
        Inl _ \<Rightarrow> None
      | Inr cell \<Rightarrow>
          if Kind cell = CellProfile \<and> StreamID cell = 0 \<and> IsExtensionEnvelope (Payload cell)
          then case ParseExtensionEnvelope (Payload cell) of Inl _ \<Rightarrow> None | Inr e \<Rightarrow> Some e
          else None)"

lemma SendExtension_wire:
  assumes e: "Envelope_MarshalBinary e = Inr payload" and tm: "wf_TypeMap (mx_typeMap m)" and alive: "\<not> mx_done m"
  shows "\<exists>m' raw. SendExtension e None m = (None, m', [raw]) \<and> wire_envelope (mx_typeMap m) raw = Some e"
proof -
  let ?c = "mk_cell CellProfile 0 (env_MessageID e) payload"
  have ok: "envelope_ok e" "length payload \<le> MaxCellPayloadSize" "payload = envelope_bytes e"
    using e by (auto simp: Envelope_MarshalBinary_eq_Inr)
  then have "validateCell ?c = None"
    by (simp add: validateCell_None kind_valid_def controlOnly_def envelope_ok_def)
  then obtain raw where raw: "EncodeCell (mx_typeMap m) ?c = Inr raw" using EncodeCell_total [OF tm] by blast
  have "IsExtensionEnvelope payload"
    by (simp add: ok(3) envelope_bytes_def IsExtensionEnvelope_def extensionMagic_def)
  then have "wire_envelope (mx_typeMap m) raw = Some e"
    using DecodeCell_EncodeCell [OF tm raw] ParseExtensionEnvelope_Marshal [OF e] by (simp add: wire_envelope_def)
  then show ?thesis using alive by (simp add: SendExtension_def e mux_send_def raw)
qed

lemma parameters_wire:
  assumes "parameters_validate p = None" "ext_type_valid t" "mid \<noteq> 0" "mid \<le> MaxSequence" "length (ForwardSecretKeyShare p) = 32"
  obtains e raw where "parameters_Envelope p t mid = Inr e" "Envelope_MarshalBinary e = Inr raw"
    "ParseExtensionParameters e = Inr p" "env_Type e = t" "env_MessageID e = mid"
proof -
  note e = parameters_Envelope_eq [OF assms]
  note raw = parameter_tlvs_marshal [OF assms(2-5)]
  show thesis by (rule that [OF e raw ParseExtensionParameters_Envelope [OF assms e]]) simp_all
qed

text \<open>A multiplexer whose extension queue is empty and whose messages so far had identifiers up to \<open>hi\<close>.\<close>

definition ext_idle :: "TypeMap \<Rightarrow> u64 \<Rightarrow> Mux \<Rightarrow> bool" where
  "ext_idle tm hi m \<longleftrightarrow>
     mx_typeMap m = tm \<and> \<not> mx_done m \<and> mx_extensions m = [] \<and> mx_highestExtensionID m = hi
     \<and> (\<forall>i\<in>fst ` set (mx_extensionSeen m). i \<le> hi)"

lemma SendExtension_idle:
  assumes "Envelope_MarshalBinary e = Inr payload" and "wf_TypeMap tm" and "ext_idle tm hi m"
  obtains m' raw where "SendExtension e None m = (None, m', [raw])" "wire_envelope tm raw = Some e" "ext_idle tm hi m'"
    "mx_role m' = mx_role m"
  using SendExtension_wire [OF assms(1), of m] assms(2,3) that
  by (auto simp: SendExtension_def ext_idle_def assms(1) mux_send_def split: sum.split_asm)

lemma remember_idle:
  assumes "ext_idle tm hi m" and "hi < i"
  shows "ext_idle tm i (remember_extension i d m)" and "mx_role (remember_extension i d m) = mx_role m"
proof -
  have keep: "mx_typeMap (remember_extension i d m) = mx_typeMap m" "mx_done (remember_extension i d m) = mx_done m"
    "mx_extensions (remember_extension i d m) = mx_extensions m" "mx_highestExtensionID (remember_extension i d m) = i"
    by (simp_all add: remember_extension_def Let_def)
  have "fst ` set (mx_extensionSeen (remember_extension i d m)) \<subseteq> insert i (fst ` set (mx_extensionSeen m))"
    by (auto simp: remember_extension_def Let_def dom_update AList.delete_eq)
  with assms show "ext_idle tm i (remember_extension i d m)" unfolding ext_idle_def keep by fastforce
qed (simp add: remember_extension_def Let_def)

lemma handleExtensionPayload_idle:
  assumes "IsExtensionEnvelope p" "ParseExtensionEnvelope p = Inr e" and m: "ext_idle tm hi m" and hi: "hi < env_MessageID e"
  shows "handleExtensionPayload p m =
    (None, (remember_extension (env_MessageID e) (sha256 p) m)\<lparr>mx_extensions := [e]\<rparr>)"
proof -
  have "map_of (mx_extensionSeen m) (env_MessageID e) = None"
    using m hi unfolding ext_idle_def map_of_eq_None_iff by fastforce
  moreover have "mx_extensions (remember_extension (env_MessageID e) (sha256 p) m) = []"
    using remember_idle(1) [OF m hi] by (simp add: ext_idle_def)
  ultimately show ?thesis using assms by (simp add: handleExtensionPayload_def Let_def ext_idle_def)
qed

lemma deliver_idle:
  assumes w: "wire_envelope tm raw = Some e" and m: "ext_idle tm hi m" and hi: "hi < env_MessageID e"
  obtains m1 m2 where "readLoop_step (Inr raw) None m = (True, m1, [])" "ReceiveExtension Answered m1 = (Some (Inr e), m2)"
    "ext_idle tm (env_MessageID e) m2" "mx_role m2 = mx_role m"
proof -
  obtain c where c: "DecodeCell tm raw = Inr c" "Kind c = CellProfile" "StreamID c = 0" "IsExtensionEnvelope (Payload c)"
    "ParseExtensionEnvelope (Payload c) = Inr e"
    using w by (auto simp: wire_envelope_def split: sum.split_asm if_split_asm)
  define m0 where "m0 = bump (\<lambda>st. st\<lparr>receivedCells := receivedCells st + 1,
                          receivedPayloadBytes := receivedPayloadBytes st + of_nat (length (Payload c)),
                          windowUpdatesReceived := (if Kind c = CellWindowUpdate
                            then windowUpdatesReceived st + 1 else windowUpdatesReceived st)\<rparr>) m"
  have m0: "ext_idle tm hi m0" "mx_role m0 = mx_role m" using m by (simp_all add: m0_def ext_idle_def)
  define r where "r = remember_extension (env_MessageID e) (sha256 (Payload c)) m0"
  have r: "ext_idle tm (env_MessageID e) r" "mx_role r = mx_role m"
    using remember_idle [OF m0(1) hi] m0(2) by (simp_all add: r_def)
  have h: "handleExtensionPayload (Payload c) m0 = (None, r\<lparr>mx_extensions := [e]\<rparr>)"
    unfolding r_def by (rule handleExtensionPayload_idle [OF c(4,5) m0(1) hi])
  have "mux_handleCell c None m0 = (None, r\<lparr>mx_extensions := [e]\<rparr>, [])" by (simp add: mux_handleCell_def c h)
  moreover have "DecodeCell (mx_typeMap m) raw = Inr c" using m c(1) by (simp add: ext_idle_def)
  ultimately have "readLoop_step (Inr raw) None m = (True, r\<lparr>mx_extensions := [e]\<rparr>, [])"
    by (simp add: readLoop_step_def m0_def c(2))
  moreover have "ReceiveExtension Answered (r\<lparr>mx_extensions := [e]\<rparr>) = (Some (Inr e), r\<lparr>mx_extensions := []\<rparr>)"
    by (simp add: ReceiveExtension_def)
  moreover have "ext_idle tm (env_MessageID e) (r\<lparr>mx_extensions := []\<rparr>)" using r(1) by (simp add: ext_idle_def)
  ultimately show thesis using r(2) that by simp
qed

text \<open>
  Honest negotiation. The offer of a valid server configuration reaches the client as that offer; a client
  with a valid request then fails with \<open>ErrRequiredExtension\<close> exactly when a capability it requires is not
  selected, and otherwise answers with the selection, which the server accepts.
\<close>

lemma offer_honest:
  assumes "parameters_validate offer = None" "length (ForwardSecretKeyShare offer) = 32" and "mid \<noteq> 0" "mid < MaxSequence"
    and "wf_TypeMap tm" "ext_idle tm hi m"
  obtains m' raw e where "negotiate_server_offer offer mid None m = (None, m', [raw])" "wire_envelope tm raw = Some e"
    "ext_idle tm hi m'" "mx_role m' = mx_role m" "env_Type e = ExtensionOffer" "env_MessageID e = mid"
    "ParseExtensionParameters e = Inr offer"
proof -
  have t: "ext_type_valid ExtensionOffer" by (simp add: ext_type_valid_def)
  have "mid \<le> MaxSequence" using assms(4) by simp
  then obtain e payload where e: "parameters_Envelope offer ExtensionOffer mid = Inr e" "Envelope_MarshalBinary e = Inr payload"
    "ParseExtensionParameters e = Inr offer" "env_Type e = ExtensionOffer" "env_MessageID e = mid"
    by (rule parameters_wire [OF assms(1) t assms(3) _ assms(2)])
  obtain m' raw where s: "SendExtension e None m = (None, m', [raw])" "wire_envelope tm raw = Some e" "ext_idle tm hi m'"
    "mx_role m' = mx_role m"
    by (rule SendExtension_idle [OF e(2) assms(5,6)])
  have "negotiate_server_offer offer mid None m = (None, m', [raw])"
    using assms(3,4) by (simp add: negotiate_server_offer_def e s)
  from that [OF this s(2-4) e(4,5,3)] show thesis .
qed

lemma accept_honest:
  assumes o: "parameters_validate offer = None" and r: "parameters_validate request = None" "length (ForwardSecretKeyShare request) = 32"
    and mid: "mid \<noteq> 0" "mid < MaxSequence" and "wf_TypeMap tm" "ext_idle tm hi m"
    and e: "env_Type e = ExtensionOffer" "env_MessageID e = mid" "ParseExtensionParameters e = Inr offer"
    and sel: "sel = selectExtensionParameters offer request"
  shows "required AND NOT (Capabilities sel) \<noteq> 0 \<Longrightarrow>
      negotiateClientExtensions request required (Inr e) None m = (Inl ErrRequiredExtension, m, [])"
    and "required AND NOT (Capabilities sel) = 0 \<Longrightarrow>
      \<exists>m' raw a. negotiateClientExtensions request required (Inr e) None m = (Inr (sel, offer), m', [raw])
        \<and> wire_envelope tm raw = Some a \<and> ext_idle tm hi m' \<and> mx_role m' = mx_role m \<and> env_MessageID a = mid + 1
        \<and> negotiate_server_accept offer mid (Inr a) = Inr sel"
proof -
  have t: "ext_type_valid ExtensionAccept" by (simp add: ext_type_valid_def)
  have mid': "mid + 1 \<le> MaxSequence" "mid + 1 \<noteq> 0"
  proof -
    have u: "unat mid < 4611686018427387903" using mid(2) by (simp add: word_less_nat_alt)
    then have s: "unat (mid + 1) = unat mid + 1" by (intro unat_Suc_nowrap) simp
    show "mid + 1 \<le> MaxSequence" unfolding word_le_nat_alt s using u by simp
    show "mid + 1 \<noteq> 0" using s by auto
  qed
  have selv: "parameters_validate sel = None" "length (ForwardSecretKeyShare sel) = 32"
    unfolding sel using o r by (simp_all add: select_valid select_share)
  obtain envR payR where req: "parameters_Envelope request ExtensionAccept 1 = Inr envR"
    by (rule parameters_wire [OF r(1) t _ _ r(2), of 1]) simp_all
  obtain a payload where a: "parameters_Envelope sel ExtensionAccept (mid + 1) = Inr a" "Envelope_MarshalBinary a = Inr payload"
    "ParseExtensionParameters a = Inr sel" "env_Type a = ExtensionAccept" "env_MessageID a = mid + 1"
    by (rule parameters_wire [OF selv(1) t mid'(2,1) selv(2)])
  obtain m' raw where s: "SendExtension a None m = (None, m', [raw])" "wire_envelope tm raw = Some a" "ext_idle tm hi m'"
    "mx_role m' = mx_role m"
    by (rule SendExtension_idle [OF a(2) assms(6,7)])
  have acc: "ValidateExtensionAccept offer sel = None" unfolding sel using o r(1) by (rule select_accepted)
  have client: "negotiateClientExtensions request required (Inr e) None m =
      (if required AND NOT (Capabilities sel) \<noteq> 0 then (Inl ErrRequiredExtension, m, []) else (Inr (sel, offer), m', [raw]))"
    using mid(2) unfolding negotiateClientExtensions_def
    by (simp add: req e not_le sel [symmetric] Let_def acc a(1) s)
  have "negotiate_server_accept offer mid (Inr a) = Inr sel" by (simp add: negotiate_server_accept_def a acc)
  then show "required AND NOT (Capabilities sel) \<noteq> 0 \<Longrightarrow>
      negotiateClientExtensions request required (Inr e) None m = (Inl ErrRequiredExtension, m, [])"
    and "required AND NOT (Capabilities sel) = 0 \<Longrightarrow>
      \<exists>m' raw a. negotiateClientExtensions request required (Inr e) None m = (Inr (sel, offer), m', [raw])
        \<and> wire_envelope tm raw = Some a \<and> ext_idle tm hi m' \<and> mx_role m' = mx_role m \<and> env_MessageID a = mid + 1
        \<and> negotiate_server_accept offer mid (Inr a) = Inr sel"
    using client s a(5) by auto
qed

end
