(* ===== verification/NP_Journal.thy ===== *)
theory NP_Journal
  imports NP_Cell
begin

text \<open>
  The replay journal of a resumable stream (\<open>internal/continuity/journal.go\<close>): a circular byte buffer
  addressed by cumulative stream offsets. It is proved to implement a byte queue
  (\<open>journal_data\<close>): \<open>Append\<close> adds at the end, \<open>Ack\<close> drops from the front, \<open>Replay\<close> reads a slice. The
  interface that the resumable stream uses for replaying is the locale \<open>replay_log\<close>. The errors of the
  whole package (\<open>internal/continuity/errors.go\<close>) are declared here.
\<close>

datatype continuity_error =
    ErrReplayConfig | ErrReplayBudget | ErrReplayOffset | ErrReplayClosed | ErrReplayOverflow
  | ErrLeaseTicketConfig | ErrLeaseTicketBinding | ErrLeaseTicketCapacity | ErrLeaseTicketEntropy
  | ErrLeaseTicketInvalid | ErrLeaseTicketClosed
  | ErrFlowRegistryConfig | ErrFlowRegistryClosed | ErrFlowCapacity | ErrFlowBinding | ErrFlowConflict
  | ErrFlowNotFound | ErrFlowEntropy
  | ErrResumableConfig | ErrResumableClosed | ErrResumableState
  | ErrStreamEOF | ErrStreamClosedPipe | ErrNoProgress | ErrStreamContext | ErrPhysical

abbreviation MaxJournalCapacity :: int where "MaxJournalCapacity \<equiv> 67108864"

section \<open>Copying into a buffer\<close>

text \<open>\<open>copy(buf[at:at+len(xs)], xs)\<close> and \<open>clear(buf[at:at+n])\<close>.\<close>

definition copy_at :: "bytes \<Rightarrow> nat \<Rightarrow> bytes \<Rightarrow> bytes" where
  "copy_at buf at xs = take at buf @ xs @ drop (at + length xs) buf"

lemma length_copy_at [simp]: "at + length xs \<le> length buf \<Longrightarrow> length (copy_at buf at xs) = length buf"
  by (simp add: copy_at_def)

lemma nth_copy_at:
  assumes "at + length xs \<le> length buf" and "k < length buf"
  shows "copy_at buf at xs ! k = (if at \<le> k \<and> k < at + length xs then xs ! (k - at) else buf ! k)"
  using assms by (auto simp: copy_at_def nth_append min_def)

section \<open>The journal\<close>

record Journal =
  jr_buffer :: bytes
  jr_head :: nat
  jr_size :: nat
  jr_base :: u64
  jr_end :: u64
  jr_closed :: bool

record JournalState =
  js_BaseOffset :: u64
  js_EndOffset :: u64
  js_BufferedBytes :: nat
  js_CapacityBytes :: nat
  js_Closed :: bool

definition NewJournal :: "int \<Rightarrow> continuity_error + Journal" where
  "NewJournal capacity =
     (if capacity \<le> 0 \<or> capacity > MaxJournalCapacity then Inl ErrReplayConfig
      else Inr \<lparr>jr_buffer = zero_bytes (nat capacity), jr_head = 0, jr_size = 0, jr_base = 0, jr_end = 0, jr_closed = False\<rparr>)"

definition Journal_Append :: "bytes \<Rightarrow> Journal \<Rightarrow> (continuity_error + u64 \<times> u64) \<times> Journal" where
  "Journal_Append payload j =
     (if jr_closed j then (Inl ErrReplayClosed, j)
      else if length payload > length (jr_buffer j) - jr_size j then (Inl ErrReplayBudget, j)
      else if of_nat (length payload) > MaxSequence - jr_end j then (Inl ErrReplayOverflow, j)
      else
        let start = jr_end j in
        if length payload = 0 then (Inr (start, start), j)
        else
          let tail = (jr_head j + jr_size j) mod length (jr_buffer j);
              first = min (length payload) (length (jr_buffer j) - tail);
              buf1 = copy_at (jr_buffer j) tail (take first payload);
              buf2 = copy_at buf1 0 (drop first payload);
              end' = jr_end j + of_nat (length payload)
          in (Inr (start, end'), j\<lparr>jr_buffer := buf2, jr_size := jr_size j + length payload, jr_end := end'\<rparr>))"

definition clearLocked :: "nat \<Rightarrow> nat \<Rightarrow> bytes \<Rightarrow> bytes" where
  "clearLocked start n buf =
     (let first = min n (length buf - start)
      in copy_at (copy_at buf start (zero_bytes first)) 0 (zero_bytes (n - first)))"

definition Journal_Ack :: "u64 \<Rightarrow> Journal \<Rightarrow> continuity_error option \<times> Journal" where
  "Journal_Ack offset j =
     (if jr_closed j then (Some ErrReplayClosed, j)
      else if offset < jr_base j \<or> offset > jr_end j then (Some ErrReplayOffset, j)
      else
        let retire = unat (offset - jr_base j) in
        if retire = 0 then (None, j)
        else
          let j1 = j\<lparr>jr_buffer := clearLocked (jr_head j) retire (jr_buffer j),
                     jr_head := (jr_head j + retire) mod length (jr_buffer j),
                     jr_size := jr_size j - retire, jr_base := offset\<rparr>
          in (None, if jr_size j1 = 0 then j1\<lparr>jr_head := 0\<rparr> else j1))"

text \<open>\<open>n\<close> is the size of the destination; the bytes copied into it are part of the result.\<close>

definition Journal_Replay :: "u64 \<Rightarrow> nat \<Rightarrow> Journal \<Rightarrow> continuity_error + bytes \<times> u64" where
  "Journal_Replay offset n j =
     (if jr_closed j then Inl ErrReplayClosed
      else if offset < jr_base j \<or> offset > jr_end j then Inl ErrReplayOffset
      else
        let available = unat (jr_end j - offset);
            len = min n available
        in if len = 0 then Inr ([], offset)
           else
             let start = (jr_head j + unat (offset - jr_base j)) mod length (jr_buffer j);
                 first = min len (length (jr_buffer j) - start)
             in Inr (take first (drop start (jr_buffer j)) @ take (len - first) (jr_buffer j), offset + of_nat len))"

definition Journal_State :: "Journal \<Rightarrow> JournalState" where
  "Journal_State j =
     \<lparr>js_BaseOffset = jr_base j, js_EndOffset = jr_end j, js_BufferedBytes = jr_size j,
      js_CapacityBytes = length (jr_buffer j), js_Closed = jr_closed j\<rparr>"

definition Journal_Close :: "Journal \<Rightarrow> Journal" where
  "Journal_Close j =
     (if jr_closed j then j else j\<lparr>jr_buffer := [], jr_head := 0, jr_size := 0, jr_closed := True\<rparr>)"

section \<open>The byte queue it implements\<close>

definition journal_data :: "Journal \<Rightarrow> bytes" where
  "journal_data j = map (\<lambda>i. jr_buffer j ! ((jr_head j + i) mod length (jr_buffer j))) [0..<jr_size j]"

definition journal_ok :: "Journal \<Rightarrow> bool" where
  "journal_ok j \<longleftrightarrow>
     \<not> jr_closed j \<and> 0 < length (jr_buffer j) \<and> length (jr_buffer j) \<le> 67108864
     \<and> jr_head j < length (jr_buffer j) \<and> jr_size j \<le> length (jr_buffer j)
     \<and> unat (jr_base j) + jr_size j = unat (jr_end j) \<and> jr_end j \<le> MaxSequence"

lemma length_journal_data [simp]: "length (journal_data j) = jr_size j"
  by (simp add: journal_data_def)

lemma NewJournal_ok:
  assumes "NewJournal capacity = Inr j"
  shows "journal_ok j" "journal_data j = []" "jr_base j = 0" "jr_end j = 0" "length (jr_buffer j) = nat capacity"
  using assms by (auto simp: NewJournal_def journal_ok_def journal_data_def split: if_splits)

lemma ring_index_inject:
  fixes h i k c :: nat
  assumes "(h + i) mod c = (h + k) mod c" "i < c" "k < c"
  shows "i = k"
  using congruent_close [OF assms(1)] assms(2,3) by simp

lemma tail_index:
  fixes t m c :: nat
  assumes "t < c" "m < c"
  shows "(t + m) mod c = (if m < c - t then t + m else m - (c - t))"
  using assms by (auto simp: mod_if)

text \<open>The two copies of \<open>Append\<close> put byte \<open>m\<close> of the payload at ring position \<open>tail + m\<close> and leave the rest.\<close>

lemma nth_ring_write:
  assumes t: "t < length buf" and n: "length p \<le> length buf" and k: "k < length buf"
  defines "first \<equiv> min (length p) (length buf - t)"
  shows "copy_at (copy_at buf t (take first p)) 0 (drop first p) ! k =
    (if \<exists>m<length p. k = (t + m) mod length buf then p ! (if t \<le> k then k - t else k + (length buf - t)) else buf ! k)"
proof -
  have fits: "t + length (take first p) \<le> length buf" "0 + length (drop first p) \<le> length (copy_at buf t (take first p))"
    using t n by (auto simp: first_def)
  have len: "length (copy_at buf t (take first p)) = length buf" using fits(1) by simp
  have val: "copy_at (copy_at buf t (take first p)) 0 (drop first p) ! k =
     (if k < length p - first then p ! (first + k) else if t \<le> k \<and> k < t + first then p ! (k - t) else buf ! k)"
    using nth_copy_at [OF fits(2)] nth_copy_at [OF fits(1) k] k len by (auto simp: first_def min_def)
  have idx: "(\<exists>m<length p. k = (t + m) mod length buf) \<longleftrightarrow> (t \<le> k \<and> k < t + first) \<or> k < length p - first"
  proof
    assume "\<exists>m<length p. k = (t + m) mod length buf"
    then obtain m where m: "m < length p" "k = (t + m) mod length buf" by blast
    then have "k = (if m < length buf - t then t + m else m - (length buf - t))" using tail_index [OF t, of m] n by simp
    then show "(t \<le> k \<and> k < t + first) \<or> k < length p - first" using m(1) by (auto simp: first_def split: if_splits)
  next
    assume "(t \<le> k \<and> k < t + first) \<or> k < length p - first"
    then show "\<exists>m<length p. k = (t + m) mod length buf"
    proof
      assume "t \<le> k \<and> k < t + first"
      then show ?thesis using k by (intro exI [of _ "k - t"]) (auto simp: first_def)
    next
      assume low: "k < length p - first"
      then have "first = length buf - t" "k + (length buf - t) < length p" by (auto simp: first_def)
      then show ?thesis using t k by (intro exI [of _ "k + (length buf - t)"]) simp
    qed
  qed
  show ?thesis
    unfolding val idx using t n k by (auto simp: first_def add.commute)
qed

lemma Journal_Append_data:
  assumes ok: "journal_ok j" and app: "Journal_Append p j = (Inr (start, stop), j')"
  shows "journal_ok j' \<and> journal_data j' = journal_data j @ p \<and> jr_base j' = jr_base j \<and> start = jr_end j \<and> stop = jr_end j'
    \<and> unat (jr_end j') = unat (jr_end j) + length p \<and> length (jr_buffer j') = length (jr_buffer j)"
proof (cases "p = []")
  case True
  then show ?thesis using assms by (auto simp: Journal_Append_def Let_def split: if_splits)
next
  case False
  define c where "c = length (jr_buffer j)"
  define t where "t = (jr_head j + jr_size j) mod c"
  define first where "first = min (length p) (c - t)"
  define buf where "buf = copy_at (copy_at (jr_buffer j) t (take first p)) 0 (drop first p)"
  have room: "length p \<le> c - jr_size j" and lim: "\<not> of_nat (length p) > MaxSequence - jr_end j"
    and j': "j' = j\<lparr>jr_buffer := buf, jr_size := jr_size j + length p, jr_end := jr_end j + of_nat (length p)\<rparr>"
    and se: "start = jr_end j" "stop = jr_end j + of_nat (length p)"
    using app False by (auto simp: Journal_Append_def Let_def c_def t_def first_def buf_def split: if_splits)
  have c: "0 < c" "jr_head j < c" "jr_size j \<le> c" using ok by (simp_all add: journal_ok_def c_def)
  then have t: "t < c" by (simp add: t_def)
  have np: "length p \<le> c" using room by simp
  have blen: "length buf = c"
    using t np by (simp add: buf_def first_def c_def min_def)
  have nth: "buf ! ((jr_head j + i) mod c) = (journal_data j @ p) ! i" if i: "i < jr_size j + length p" for i
  proof -
    let ?k = "(jr_head j + i) mod c"
    have k: "?k < c" using c by simp
    have ic: "i < c" using i room c by simp
    have "(\<exists>m<length p. ?k = (t + m) mod c) \<longleftrightarrow> jr_size j \<le> i"
    proof
      assume "\<exists>m<length p. ?k = (t + m) mod c"
      then obtain m where m: "m < length p" "?k = (t + m) mod c" by blast
      have "(t + m) mod c = (jr_head j + (jr_size j + m)) mod c"
        unfolding t_def by (simp add: mod_add_left_eq add.assoc)
      then have "i = jr_size j + m" using m room c ic by (intro ring_index_inject [of "jr_head j" i c]) auto
      then show "jr_size j \<le> i" by simp
    next
      assume "jr_size j \<le> i"
      then have "?k = (t + (i - jr_size j)) mod c" by (simp only: t_def mod_add_left_eq) simp
      then show "\<exists>m<length p. ?k = (t + m) mod c" using i \<open>jr_size j \<le> i\<close> by (intro exI [of _ "i - jr_size j"]) auto
    qed
    moreover have "(if t \<le> ?k then ?k - t else ?k + (c - t)) = i - jr_size j" if "jr_size j \<le> i"
    proof -
      have "?k = (t + (i - jr_size j)) mod c" using that by (simp only: t_def mod_add_left_eq) simp
      then have "?k = (if i - jr_size j < c - t then t + (i - jr_size j) else i - jr_size j - (c - t))"
        using tail_index [OF t, of "i - jr_size j"] ic by simp
      then show ?thesis using t ic by auto
    qed
    ultimately show ?thesis
      using nth_ring_write [of t "jr_buffer j" p ?k] t np k i
      unfolding buf_def first_def c_def [symmetric]
      by (auto simp: nth_append journal_data_def c_def)
  qed
  have cap: "c \<le> 67108864" using ok by (simp add: journal_ok_def c_def)
  have u: "unat (jr_end j) \<le> 4611686018427387903" using ok by (simp add: journal_ok_def word_le_nat_alt)
  have pn: "unat (of_nat (length p) :: u64) = length p" using np cap by (intro unat_of_nat_small) simp
  have "jr_end j \<le> MaxSequence" using ok by (simp add: journal_ok_def)
  then have "unat (MaxSequence - jr_end j) = 4611686018427387903 - unat (jr_end j)" by (simp add: unat_sub)
  then have fit: "unat (jr_end j) + length p \<le> 4611686018427387903" using lim pn u by (simp add: word_less_nat_alt)
  then have e: "unat (jr_end j + of_nat (length p)) = unat (jr_end j) + length p"
    using pn by (subst unat_add_nowrap) simp_all
  have data: "journal_data j' = journal_data j @ p"
  proof (rule nth_equalityI)
    fix i assume "i < length (journal_data j')"
    then have i: "i < jr_size j + length p" by (simp add: j')
    then have "journal_data j' ! i = buf ! ((jr_head j + i) mod c)" by (simp add: journal_data_def j' blen)
    then show "journal_data j' ! i = (journal_data j @ p) ! i" using nth [OF i] by simp
  qed (simp add: j')
  have "jr_end j + of_nat (length p) \<le> MaxSequence" using e fit by (simp add: word_le_nat_alt)
  then show ?thesis
    using ok data se e room c blen by (auto simp: journal_ok_def j' c_def)
qed

lemma Journal_Append_total:
  assumes ok: "journal_ok j" and "length p \<le> length (jr_buffer j) - jr_size j" "unat (jr_end j) + length p \<le> unat (MaxSequence :: u64)"
  shows "\<exists>stop j'. Journal_Append p j = (Inr (jr_end j, stop), j')"
proof -
  have pn: "unat (of_nat (length p) :: u64) = length p"
    using assms(3) by (intro unat_of_nat_small) simp
  have "jr_end j \<le> MaxSequence" using ok by (simp add: journal_ok_def)
  then have "unat (MaxSequence - jr_end j) = unat (MaxSequence :: u64) - unat (jr_end j)" by (rule unat_sub)
  then have "\<not> of_nat (length p) > MaxSequence - jr_end j" using assms(3) pn by (simp add: word_less_nat_alt)
  then show ?thesis using ok assms(2) by (simp add: Journal_Append_def journal_ok_def Let_def)
qed

lemma Journal_Ack_data:
  assumes ok: "journal_ok j" and ack: "Journal_Ack offset j = (None, j')"
  shows "journal_ok j' \<and> jr_base j' = offset \<and> jr_end j' = jr_end j \<and> length (jr_buffer j') = length (jr_buffer j)
    \<and> jr_base j \<le> offset \<and> offset \<le> jr_end j
    \<and> journal_data j' = drop (unat offset - unat (jr_base j)) (journal_data j)"
proof -
  have range: "jr_base j \<le> offset" "offset \<le> jr_end j"
    using ack by (auto simp: Journal_Ack_def Let_def not_less split: if_splits)
  define n where "n = unat offset - unat (jr_base j)"
  have n: "unat (offset - jr_base j) = n" using range(1) by (simp add: n_def unat_sub)
  have nat: "unat (jr_base j) \<le> unat offset" "unat offset \<le> unat (jr_end j)" using range by (simp_all add: word_le_nat_alt)
  then have ns: "n \<le> jr_size j" using ok unfolding journal_ok_def n_def by linarith
  show ?thesis
  proof (cases "n = 0")
    case True
    then have "offset = jr_base j" using nat by (simp add: n_def word_unat_eq_iff)
    then show ?thesis using ok ack range True n by (auto simp: Journal_Ack_def Let_def n_def split: if_splits)
  next
    case False
    define c where "c = length (jr_buffer j)"
    define buf where "buf = clearLocked (jr_head j) n (jr_buffer j)"
    define h where "h = (if jr_size j - n = 0 then 0 else (jr_head j + n) mod c)"
    have j': "j' = j\<lparr>jr_buffer := buf, jr_head := h, jr_size := jr_size j - n, jr_base := offset\<rparr>"
      using ack range False n by (auto simp: Journal_Ack_def Let_def not_less buf_def c_def h_def split: if_splits)
    have c: "0 < c" "jr_head j < c" "jr_size j \<le> c" using ok by (simp_all add: journal_ok_def c_def)
    have clear: "buf = copy_at (copy_at (jr_buffer j) (jr_head j) (take (min (length (zero_bytes n)) (c - jr_head j)) (zero_bytes n))) 0
        (drop (min (length (zero_bytes n)) (c - jr_head j)) (zero_bytes n))"
      by (simp add: buf_def clearLocked_def c_def Let_def)
    have blen: "length buf = c" using c ns by (simp add: buf_def clearLocked_def c_def Let_def)
    have nth: "buf ! ((jr_head j + i) mod c) = jr_buffer j ! ((jr_head j + i) mod c)" if i: "n \<le> i" "i < jr_size j" for i
    proof -
      have "\<not> (\<exists>m<n. (jr_head j + i) mod c = (jr_head j + m) mod c)"
        using ring_index_inject [of "jr_head j" i c] i c ns by fastforce
      then show ?thesis
        using nth_ring_write [of "jr_head j" "jr_buffer j" "zero_bytes n" "(jr_head j + i) mod c"] c ns
        unfolding clear c_def by auto
    qed
    have data: "journal_data j' = drop n (journal_data j)"
    proof (rule nth_equalityI)
      fix i assume i: "i < length (journal_data j')"
      then have i': "i + n < jr_size j" by (simp add: j')
      then have "h = (jr_head j + n) mod c" by (simp add: h_def)
      then have "(h + i) mod c = (jr_head j + (i + n)) mod c" by (simp only: mod_add_left_eq) (simp add: ac_simps)
      then show "journal_data j' ! i = drop n (journal_data j) ! i"
        using i i' nth [of "i + n"] ns by (simp add: journal_data_def j' blen c_def [symmetric] ac_simps)
    qed (simp add: j')
    have "h < c" using c by (simp add: h_def)
    then show ?thesis
      using ok data range nat ns blen c by (auto simp: journal_ok_def j' c_def n_def)
  qed
qed

lemma Journal_Replay_data:
  assumes ok: "journal_ok j" and range: "jr_base j \<le> offset" "offset \<le> jr_end j"
  shows "\<exists>next_offset. Journal_Replay offset n j = Inr (take n (drop (unat offset - unat (jr_base j)) (journal_data j)), next_offset)
    \<and> unat next_offset = unat offset + length (take n (drop (unat offset - unat (jr_base j)) (journal_data j)))"
proof -
  define c where "c = length (jr_buffer j)"
  define d where "d = unat offset - unat (jr_base j)"
  define len where "len = min n (unat (jr_end j) - unat offset)"
  have nat: "unat (jr_base j) \<le> unat offset" "unat offset \<le> unat (jr_end j)" using range by (simp_all add: word_le_nat_alt)
  have u: "unat (offset - jr_base j) = d" "unat (jr_end j - offset) = unat (jr_end j) - unat offset"
    using range by (simp_all add: d_def unat_sub)
  have c: "0 < c" "jr_head j < c" "jr_size j \<le> c" "unat (jr_base j) + jr_size j = unat (jr_end j)"
    using ok by (simp_all add: journal_ok_def c_def)
  have dl: "d + len \<le> jr_size j" using nat c by (simp add: d_def len_def)
  have tk: "length (take n (drop d (journal_data j))) = len" using nat c by (simp add: d_def len_def)
  have journal_end: "unat (jr_end j) < 2 ^ 64" using unsigned_less [of "jr_end j"] by simp
  have end_bound: "unat offset + len < 2 ^ 64"
    using nat journal_end by (simp add: len_def)
  then have ln: "unat (of_nat len :: u64) = len" by (intro unat_of_nat_small) simp
  have off: "unat (offset + of_nat len) = unat offset + len"
    using end_bound ln by (subst unat_add_nowrap) simp_all
  show ?thesis
  proof (cases "len = 0")
    case True
    then have "Journal_Replay offset n j = Inr ([], offset)" "take n (drop d (journal_data j)) = []"
      using ok range u tk by (auto simp: Journal_Replay_def journal_ok_def Let_def len_def not_less)
    then show ?thesis by (auto simp: d_def)
  next
    case False
    define start where "start = (jr_head j + d) mod c"
    define first where "first = min len (c - start)"
    have rep: "Journal_Replay offset n j = Inr (take first (drop start (jr_buffer j)) @ take (len - first) (jr_buffer j), offset + of_nat len)"
      using ok range u False by (auto simp: Journal_Replay_def journal_ok_def Let_def len_def start_def first_def c_def not_less)
    have st: "start < c" using c by (simp add: start_def)
    have "take first (drop start (jr_buffer j)) @ take (len - first) (jr_buffer j) = take n (drop d (journal_data j))"
    proof (rule nth_equalityI)
      have wrap: "len - first \<le> c" "first \<le> c - start" using dl c by (auto simp: first_def)
      show "length (take first (drop start (jr_buffer j)) @ take (len - first) (jr_buffer j)) = length (take n (drop d (journal_data j)))"
        using tk wrap by (simp add: c_def [symmetric] first_def)
      fix i assume "i < length (take first (drop start (jr_buffer j)) @ take (len - first) (jr_buffer j))"
      then have i: "i < len" using wrap by (simp add: c_def [symmetric] first_def)
      have "(jr_head j + (d + i)) mod c = (start + i) mod c" unfolding start_def by (simp add: mod_add_left_eq add.assoc)
      also have "\<dots> = (if i < c - start then start + i else i - (c - start))" using i dl c st by (intro tail_index) auto
      finally have idx: "(jr_head j + (d + i)) mod c = (if i < c - start then start + i else i - (c - start))" .
      have di: "d + i < jr_size j" using i dl by linarith
      have "take n (drop d (journal_data j)) ! i = jr_buffer j ! ((jr_head j + (d + i)) mod c)"
        using di i by (simp add: journal_data_def c_def len_def)
      then show "(take first (drop start (jr_buffer j)) @ take (len - first) (jr_buffer j)) ! i = take n (drop d (journal_data j)) ! i"
        unfolding idx using i wrap by (auto simp: nth_append first_def c_def [symmetric] min_def)
    qed
    then show ?thesis using rep off tk by (auto simp: d_def)
  qed
qed

section \<open>The journal as a bounded byte log\<close>

text \<open>
  The specification: a log has the number of bytes acknowledged, the bytes kept and a capacity. It has
  neither ring nor machine integers.
\<close>

record byte_log =
  log_base :: nat
  log_data :: bytes
  log_capacity :: nat

definition log_end :: "byte_log \<Rightarrow> nat" where
  "log_end l = log_base l + length (log_data l)"

definition log_append :: "bytes \<Rightarrow> byte_log \<Rightarrow> (continuity_error + nat \<times> nat) \<times> byte_log" where
  "log_append p l =
     (if length p > log_capacity l - length (log_data l) then (Inl ErrReplayBudget, l)
      else if log_end l + length p > unat (MaxSequence :: u64) then (Inl ErrReplayOverflow, l)
      else (Inr (log_end l, log_end l + length p), l\<lparr>log_data := log_data l @ p\<rparr>))"

definition log_ack :: "nat \<Rightarrow> byte_log \<Rightarrow> continuity_error option \<times> byte_log" where
  "log_ack offset l =
     (if offset < log_base l \<or> offset > log_end l then (Some ErrReplayOffset, l)
      else (None, l\<lparr>log_base := offset, log_data := drop (offset - log_base l) (log_data l)\<rparr>))"

definition log_replay :: "nat \<Rightarrow> nat \<Rightarrow> byte_log \<Rightarrow> continuity_error + bytes \<times> nat" where
  "log_replay offset n l =
     (if offset < log_base l \<or> offset > log_end l then Inl ErrReplayOffset
      else let out = take n (drop (offset - log_base l) (log_data l)) in Inr (out, offset + length out))"

definition journal_abs :: "Journal \<Rightarrow> byte_log" where
  "journal_abs j = \<lparr>log_base = unat (jr_base j), log_data = journal_data j, log_capacity = length (jr_buffer j)\<rparr>"

lemma journal_abs_simps [simp]:
  "log_base (journal_abs j) = unat (jr_base j)" "log_data (journal_abs j) = journal_data j"
  "log_capacity (journal_abs j) = length (jr_buffer j)"
  by (simp_all add: journal_abs_def)

lemma journal_abs_eqI:
  assumes "unat (jr_base j) = log_base l" "journal_data j = log_data l" "length (jr_buffer j) = log_capacity l"
  shows "journal_abs j = l"
  using assms by (simp add: journal_abs_def)

lemma log_end_journal: "journal_ok j \<Longrightarrow> log_end (journal_abs j) = unat (jr_end j)"
  by (simp add: log_end_def journal_ok_def)

lemma Journal_Append_cases:
  assumes ok: "journal_ok j"
  shows "Journal_Append p j =
    (if length p > length (jr_buffer j) - jr_size j then (Inl ErrReplayBudget, j)
     else if unat (jr_end j) + length p > unat (MaxSequence :: u64) then (Inl ErrReplayOverflow, j)
     else (Inr (jr_end j, jr_end (snd (Journal_Append p j))), snd (Journal_Append p j)))"
proof (cases "length p > length (jr_buffer j) - jr_size j")
  case True
  then show ?thesis using ok by (simp add: Journal_Append_def journal_ok_def)
next
  case False
  have cap: "length p \<le> 67108864" using False ok unfolding journal_ok_def by linarith
  have pn: "unat (of_nat (length p) :: u64) = length p" using cap by (intro unat_of_nat_small) simp
  have "jr_end j \<le> MaxSequence" using ok by (simp add: journal_ok_def)
  then have "unat (MaxSequence - jr_end j) = unat (MaxSequence :: u64) - unat (jr_end j)"
    and "unat (jr_end j) \<le> unat (MaxSequence :: u64)"
    by (rule unat_sub, simp add: word_le_nat_alt)
  then have lim: "of_nat (length p) > MaxSequence - jr_end j \<longleftrightarrow> unat (jr_end j) + length p > unat (MaxSequence :: u64)"
    using pn by (simp add: word_less_nat_alt) linarith
  show ?thesis
  proof (cases "unat (jr_end j) + length p > unat (MaxSequence :: u64)")
    case True
    then show ?thesis using False ok lim by (simp only: Journal_Append_def journal_ok_def) simp
  next
    case small: False
    obtain stop j' where app: "Journal_Append p j = (Inr (jr_end j, stop), j')"
      using Journal_Append_total [OF ok, of p] False small by (auto simp: not_less)
    then show ?thesis using Journal_Append_data [OF ok app] False small by simp
  qed
qed

lemma Journal_Append_refines:
  assumes ok: "journal_ok j"
  shows "(map_sum id (map_prod unat unat) (fst (Journal_Append p j)), journal_abs (snd (Journal_Append p j)))
      = log_append p (journal_abs j)" and "journal_ok (snd (Journal_Append p j))"
proof -
  note c = Journal_Append_cases [OF ok, of p]
  consider (full) "length p > length (jr_buffer j) - jr_size j"
    | (over) "\<not> length p > length (jr_buffer j) - jr_size j" "unat (jr_end j) + length p > unat (MaxSequence :: u64)"
    | (fits) "\<not> length p > length (jr_buffer j) - jr_size j" "\<not> unat (jr_end j) + length p > unat (MaxSequence :: u64)"
    by blast
  then have "(map_sum id (map_prod unat unat) (fst (Journal_Append p j)), journal_abs (snd (Journal_Append p j)))
      = log_append p (journal_abs j) \<and> journal_ok (snd (Journal_Append p j))"
  proof cases
    case full
    then have "Journal_Append p j = (Inl ErrReplayBudget, j)" using c by simp
    then show ?thesis using full ok by (simp add: log_append_def)
  next
    case over
    then have "Journal_Append p j = (Inl ErrReplayOverflow, j)" using c by simp
    then show ?thesis using over ok by (simp add: log_append_def log_end_journal)
  next
    case fits
    then obtain stop j' where app: "Journal_Append p j = (Inr (jr_end j, stop), j')"
      using Journal_Append_total [OF ok, of p] by (auto simp: not_less)
    have "journal_abs j' = (journal_abs j)\<lparr>log_data := journal_data j @ p\<rparr>"
      using Journal_Append_data [OF ok app] by (intro journal_abs_eqI) simp_all
    then show ?thesis
      using Journal_Append_data [OF ok app] app fits ok by (simp add: log_append_def log_end_journal)
  qed
  then show "(map_sum id (map_prod unat unat) (fst (Journal_Append p j)), journal_abs (snd (Journal_Append p j)))
      = log_append p (journal_abs j)" and "journal_ok (snd (Journal_Append p j))" by simp_all
qed

lemma Journal_Ack_refines:
  assumes ok: "journal_ok j"
  shows "(fst (Journal_Ack offset j), journal_abs (snd (Journal_Ack offset j))) = log_ack (unat offset) (journal_abs j)"
    and "journal_ok (snd (Journal_Ack offset j))"
proof -
  have "(fst (Journal_Ack offset j), journal_abs (snd (Journal_Ack offset j))) = log_ack (unat offset) (journal_abs j)
      \<and> journal_ok (snd (Journal_Ack offset j))"
  proof (cases "offset < jr_base j \<or> offset > jr_end j")
    case True
    then have "Journal_Ack offset j = (Some ErrReplayOffset, j)" using ok by (auto simp: Journal_Ack_def journal_ok_def)
    then show ?thesis using True ok by (auto simp: log_ack_def log_end_journal word_less_nat_alt)
  next
    case False
    then have "fst (Journal_Ack offset j) = None" using ok by (auto simp: Journal_Ack_def journal_ok_def Let_def)
    then have ack: "Journal_Ack offset j = (None, snd (Journal_Ack offset j))" by (metis prod.collapse)
    have "journal_abs (snd (Journal_Ack offset j)) =
        (journal_abs j)\<lparr>log_base := unat offset, log_data := drop (unat offset - unat (jr_base j)) (journal_data j)\<rparr>"
      using Journal_Ack_data [OF ok ack] by (intro journal_abs_eqI) simp_all
    then show ?thesis
      using Journal_Ack_data [OF ok ack] False \<open>fst (Journal_Ack offset j) = None\<close> ok
      by (simp add: log_ack_def log_end_journal word_less_nat_alt)
  qed
  then show "(fst (Journal_Ack offset j), journal_abs (snd (Journal_Ack offset j))) = log_ack (unat offset) (journal_abs j)"
    and "journal_ok (snd (Journal_Ack offset j))" by simp_all
qed

lemma Journal_Replay_refines:
  assumes ok: "journal_ok j"
  shows "map_sum id (map_prod id unat) (Journal_Replay offset n j) = log_replay (unat offset) n (journal_abs j)"
proof (cases "offset < jr_base j \<or> offset > jr_end j")
  case True
  then have "Journal_Replay offset n j = Inl ErrReplayOffset" using ok by (auto simp: Journal_Replay_def journal_ok_def)
  then show ?thesis using True ok by (auto simp: log_replay_def log_end_journal word_less_nat_alt)
next
  case False
  then obtain following where
    "Journal_Replay offset n j = Inr (take n (drop (unat offset - unat (jr_base j)) (journal_data j)), following)"
    "unat following = unat offset + length (take n (drop (unat offset - unat (jr_base j)) (journal_data j)))"
    using Journal_Replay_data [OF ok, of offset n] by (auto simp: not_less)
  then show ?thesis using False ok by (auto simp: log_replay_def log_end_journal word_less_nat_alt Let_def)
qed

section \<open>The interface that the resumable stream uses\<close>

text \<open>
  A client of the journal knows all bytes \<open>h\<close> ever appended. \<open>log_holds h l\<close>: the log keeps exactly the
  bytes of \<open>h\<close> that are not acknowledged.
\<close>

definition log_holds :: "bytes \<Rightarrow> byte_log \<Rightarrow> bool" where
  "log_holds h l \<longleftrightarrow> log_base l \<le> length h \<and> log_data l = drop (log_base l) h"

lemma log_holds_end: "log_holds h l \<Longrightarrow> log_end l = length h"
  by (simp add: log_holds_def log_end_def)

locale replay_log =
  fixes append :: "bytes \<Rightarrow> 's \<Rightarrow> (continuity_error + u64 \<times> u64) \<times> 's"
    and ack :: "u64 \<Rightarrow> 's \<Rightarrow> continuity_error option \<times> 's"
    and replay :: "u64 \<Rightarrow> nat \<Rightarrow> 's \<Rightarrow> continuity_error + bytes \<times> u64"
    and good :: "'s \<Rightarrow> bool"
    and abs_log :: "'s \<Rightarrow> byte_log"
  assumes append_refines: "good s \<Longrightarrow>
      (map_sum id (map_prod unat unat) (fst (append p s)), abs_log (snd (append p s))) = log_append p (abs_log s)"
    and append_good: "good s \<Longrightarrow> good (snd (append p s))"
    and ack_refines: "good s \<Longrightarrow> (fst (ack i s), abs_log (snd (ack i s))) = log_ack (unat i) (abs_log s)"
    and ack_good: "good s \<Longrightarrow> good (snd (ack i s))"
    and replay_refines: "good s \<Longrightarrow> map_sum id (map_prod id unat) (replay i n s) = log_replay (unat i) n (abs_log s)"
begin

lemma append_holds:
  assumes s: "good s" "log_holds h (abs_log s)" and app: "append p s = (Inr (a, b), s')"
  shows "good s' \<and> log_holds (h @ p) (abs_log s') \<and> log_base (abs_log s') = log_base (abs_log s)
    \<and> unat a = length h \<and> unat b = length h + length p"
proof -
  have "good s'" using append_good [OF s(1), of p] app by simp
  moreover have "(Inr (unat a, unat b), abs_log s') = log_append p (abs_log s)"
    using append_refines [OF s(1), of p] app by simp
  ultimately show ?thesis
    using s(2) log_holds_end [OF s(2)] by (auto simp: log_append_def log_holds_def split: if_splits)
qed

lemma append_fails:
  assumes s: "good s" and app: "append p s = (Inl e, s')"
  shows "good s' \<and> abs_log s' = abs_log s \<and> (e = ErrReplayBudget \<or> e = ErrReplayOverflow)"
  using append_good [OF s, of p] append_refines [OF s, of p] app by (auto simp: log_append_def split: if_splits)

lemma ack_holds:
  assumes s: "good s" "log_holds h (abs_log s)" and ak: "ack i s = (e, s')"
  shows "good s' \<and> log_holds h (abs_log s') \<and> log_base (abs_log s) \<le> log_base (abs_log s')
    \<and> (case e of None \<Rightarrow> log_base (abs_log s') = unat i | Some _ \<Rightarrow> abs_log s' = abs_log s)"
proof -
  have "(e, abs_log s') = log_ack (unat i) (abs_log s)" using ack_refines [OF s(1), of i] ak by simp
  then show ?thesis
    using s ack_good [OF s(1), of i] ak log_holds_end [OF s(2)]
    by (auto simp: log_ack_def log_holds_def split: if_splits)
qed

lemma ack_succeeds:
  assumes s: "good s" "log_holds h (abs_log s)" and "log_base (abs_log s) \<le> unat i" "unat i \<le> length h"
  shows "fst (ack i s) = None"
  using ack_refines [OF s(1), of i] assms(3,4) log_holds_end [OF s(2)] by (auto simp: log_ack_def split: if_splits)

lemma replay_holds:
  assumes s: "good s" "log_holds h (abs_log s)" and rep: "replay i n s = Inr (out, k)"
  shows "out = take n (drop (unat i) h) \<and> unat k = unat i + length out \<and> unat k \<le> length h"
proof -
  have "Inr (out, unat k) = log_replay (unat i) n (abs_log s)" using replay_refines [OF s(1), of i n] rep by simp
  then show ?thesis
    using s(2) log_holds_end [OF s(2)] by (auto simp: log_replay_def log_holds_def Let_def split: if_splits)
qed

lemma replay_succeeds:
  assumes s: "good s" "log_holds h (abs_log s)" and "log_base (abs_log s) \<le> unat i" "unat i \<le> length h"
  shows "\<exists>k. replay i n s = Inr (take n (drop (unat i) h), k)"
proof -
  have "log_replay (unat i) n (abs_log s) = Inr (take n (drop (unat i) h), unat i + length (take n (drop (unat i) h)))"
    using assms(2-4) log_holds_end [OF s(2)] by (auto simp: log_replay_def log_holds_def Let_def)
  then show ?thesis using replay_refines [OF s(1), of i n] by (cases "replay i n s") auto
qed

end

interpretation journal: replay_log Journal_Append Journal_Ack Journal_Replay journal_ok journal_abs
  by unfold_locales (simp_all add: Journal_Append_refines Journal_Ack_refines Journal_Replay_refines)

lemma NewJournal_holds:
  assumes "NewJournal capacity = Inr j"
  shows "journal_ok j \<and> log_holds [] (journal_abs j) \<and> log_base (journal_abs j) = 0"
  using NewJournal_ok [OF assms] by (simp add: log_holds_def)

text \<open>
  C32 (refinement). Every operation of the journal is the operation of the bounded byte log, on every
  branch: \<open>Append\<close> refuses what does not fit (\<open>ErrReplayBudget\<close>) or passes the last offset
  (\<open>ErrReplayOverflow\<close>) and otherwise adds the payload at the end, \<open>Ack\<close> drops exactly the bytes below
  the offset and refuses one outside the kept range, and \<open>Replay\<close> returns the bytes at the offset wherever
  the ring wraps. The ring invariant is kept.
\<close>

theorem journal_refines_log:
  assumes "journal_ok j"
  shows "(map_sum id (map_prod unat unat) (fst (Journal_Append p j)), journal_abs (snd (Journal_Append p j)))
          = log_append p (journal_abs j) \<and> journal_ok (snd (Journal_Append p j))
    \<and> (fst (Journal_Ack offset j), journal_abs (snd (Journal_Ack offset j))) = log_ack (unat offset) (journal_abs j)
          \<and> journal_ok (snd (Journal_Ack offset j))
    \<and> map_sum id (map_prod id unat) (Journal_Replay position n j) = log_replay (unat position) n (journal_abs j)"
  using assms Journal_Append_refines Journal_Ack_refines Journal_Replay_refines by simp_all

definition sample_journal :: Journal where
  "sample_journal = \<lparr>jr_buffer = [5, 0, 3, 4], jr_head = 2, jr_size = 3, jr_base = 2, jr_end = 5, jr_closed = False\<rparr>"

theorem journal_refines_log_witness:
  "journal_ok sample_journal \<and> journal_data sample_journal = [3, 4, 5]
   \<and> log_data (journal_abs (snd (Journal_Append [6] sample_journal))) = [3, 4, 5, 6]
   \<and> log_base (journal_abs (snd (Journal_Ack 4 sample_journal))) = 4
   \<and> map_sum id (map_prod id unat) (Journal_Replay 3 9 sample_journal) = Inr ([4, 5], 5)"
proof -
  have ok: "journal_ok sample_journal" by (simp add: journal_ok_def sample_journal_def)
  have d: "journal_data sample_journal = [3, 4, 5]" by (simp add: journal_data_def sample_journal_def upt_rec)
  have e: "log_end (journal_abs sample_journal) = 5" by (simp add: log_end_def d) (simp add: sample_journal_def)
  show ?thesis
    using journal_refines_log [OF ok, of "[6]" 4 3 9] ok d e
    by (auto simp: log_append_def log_ack_def log_replay_def Let_def sample_journal_def prod_eq_iff)
qed

end
