(* ===== verification/NP_Resumable.thy ===== *)
theory NP_Resumable
  imports NP_Journal
begin

text \<open>
  The resumable stream (\<open>internal/continuity/stream.go\<close>): one byte stream over a sequence of physical
  streams, with the replay journal of \<open>NP_Journal\<close>. A physical stream is its identity (a number), and the
  answers of its \<open>Write\<close>, \<open>Read\<close> and \<open>CloseWrite\<close> are arguments. Every operation is split where the code
  releases \<open>s.mu\<close>, so that one definition is one critical section; \<open>NP_Resumable_System\<close> interleaves them.
  \<open>errors.Join(ErrResumableState, err)\<close> is represented by its first error. The functional behaviour of a
  whole undisturbed \<open>Replace\<close> is proved at the end.
\<close>

section \<open>State\<close>

record ResumableStreamConfig =
  rc_Context :: bool \<comment> \<open>not nil\<close>
  rc_Initial :: "nat option"
  rc_JournalBytes :: int
  rc_AckEveryBytes :: u64
  rc_OnReceiveOffset :: bool \<comment> \<open>not nil\<close>
  rc_RecoverableReadError :: "(continuity_error \<Rightarrow> bool) option"
  rc_RecoverableWriteError :: "(continuity_error \<Rightarrow> bool) option"

record ResumeState =
  PeerReceiveOffset :: u64
  ResumeReceiveOffset :: u64

record ResumableOffsets =
  SendBase :: u64
  SendEnd :: u64
  ReceiveEnd :: u64

text \<open>\<open>writeAttemptDone\<close> is kept as whether the channel is there; the wake-up channel \<open>notify\<close> is not state.\<close>

record ResumableStream =
  rs_journal :: Journal
  rs_recoverableRead :: "continuity_error \<Rightarrow> bool"
  rs_recoverableWrite :: "continuity_error \<Rightarrow> bool"
  rs_ackEvery :: u64
  rs_physical :: "nat option"
  rs_transmitted :: u64
  rs_receiveOffset :: u64
  rs_lastNotified :: u64
  rs_localFIN :: bool
  rs_finTransmitted :: bool
  rs_discard :: u64
  rs_writeAttemptEnd :: u64
  rs_writeAttemptDone :: bool
  rs_pendingAck :: u64
  rs_closed :: bool

definition NewResumableStream :: "ResumableStreamConfig \<Rightarrow> continuity_error + ResumableStream" where
  "NewResumableStream config =
     (case rc_Initial config of
        None \<Rightarrow> Inl ErrResumableConfig
      | Some p \<Rightarrow>
          if \<not> rc_Context config \<or> rc_JournalBytes config \<le> 0 \<or> rc_JournalBytes config > MaxJournalCapacity
             \<or> rc_AckEveryBytes config \<noteq> 0
               \<and> (\<not> rc_OnReceiveOffset config \<or> rc_AckEveryBytes config > of_int (rc_JournalBytes config))
          then Inl ErrResumableConfig
          else case NewJournal (rc_JournalBytes config) of
                 Inl _ \<Rightarrow> Inl ErrResumableConfig
               | Inr journal \<Rightarrow>
                   Inr \<lparr>rs_journal = journal,
                        rs_recoverableRead = (case rc_RecoverableReadError config of
                            None \<Rightarrow> (\<lambda>e. e \<noteq> ErrStreamEOF) | Some f \<Rightarrow> f),
                        rs_recoverableWrite = (case rc_RecoverableWriteError config of
                            None \<Rightarrow> (\<lambda>_. True) | Some f \<Rightarrow> f),
                        rs_ackEvery = rc_AckEveryBytes config, rs_physical = Some p,
                        rs_transmitted = 0, rs_receiveOffset = 0, rs_lastNotified = 0,
                        rs_localFIN = False, rs_finTransmitted = False, rs_discard = 0,
                        rs_writeAttemptEnd = 0, rs_writeAttemptDone = False, rs_pendingAck = 0, rs_closed = False\<rparr>)"

section \<open>Shared helpers\<close>

datatype wait_result = WaitBlocked | WaitFailed continuity_error u64 | WaitReady nat u64

text \<open>\<open>cancelled\<close>: the context of the stream is done. \<open>WaitBlocked\<close> is waiting for \<open>notify\<close>.\<close>

definition waitPhysical :: "bool \<Rightarrow> ResumableStream \<Rightarrow> wait_result" where
  "waitPhysical cancelled s =
     (if rs_closed s then WaitFailed ErrResumableClosed (rs_transmitted s)
      else case rs_physical s of
             Some p \<Rightarrow> WaitReady p (rs_transmitted s)
           | None \<Rightarrow> if cancelled then WaitFailed ErrStreamContext (rs_transmitted s) else WaitBlocked)"

definition markUnavailable :: "nat \<Rightarrow> ResumableStream \<Rightarrow> ResumableStream" where
  "markUnavailable failed s =
     (if rs_closed s \<or> rs_physical s \<noteq> Some failed then s
      else s\<lparr>rs_physical := None, rs_finTransmitted := (if rs_localFIN s then False else rs_finTransmitted s)\<rparr>)"

definition writtenForRange :: "u64 \<Rightarrow> u64 \<Rightarrow> u64 \<Rightarrow> nat" where
  "writtenForRange start stop transmitted =
     (if transmitted \<le> start then 0
      else if transmitted \<ge> stop then unat (stop - start)
      else unat (transmitted - start))"

definition ackJournal :: "u64 \<Rightarrow> bool \<Rightarrow> ResumableStream \<Rightarrow> continuity_error option \<times> ResumableStream" where
  "ackJournal offset deferred s =
     (if deferred \<and> offset \<le> js_BaseOffset (Journal_State (rs_journal s)) then (None, s)
      else case Journal_Ack offset (rs_journal s) of (e, j) \<Rightarrow> (e, s\<lparr>rs_journal := j\<rparr>))"

definition Offsets :: "ResumableStream \<Rightarrow> ResumableOffsets" where
  "Offsets s =
     (let st = Journal_State (rs_journal s)
      in \<lparr>SendBase = js_BaseOffset st, SendEnd = js_EndOffset st, ReceiveEnd = rs_receiveOffset s\<rparr>)"

section \<open>Writing\<close>

text \<open>
  \<open>Write\<close> of a non-empty payload: the entry (\<open>Write_begin\<close>), then rounds of choosing the physical stream
  (\<open>write_select\<close>), announcing the attempt (\<open>write_attempt\<close>), the physical write, its accounting
  (\<open>write_returned\<close>) and the decision what follows (\<open>write_resolve\<close>).
\<close>

definition Write_begin :: "bytes \<Rightarrow> ResumableStream \<Rightarrow> (continuity_error + u64 \<times> u64) \<times> ResumableStream" where
  "Write_begin payload s =
     (if rs_closed s then (Inl ErrResumableClosed, s)
      else if rs_localFIN s then (Inl ErrStreamClosedPipe, s)
      else case Journal_Append payload (rs_journal s) of (r, j) \<Rightarrow> (r, s\<lparr>rs_journal := j\<rparr>))"

datatype write_step =
    WriteWaits
  | WriteReturns nat "continuity_error option"
  | WriteTries nat u64 \<comment> \<open>the physical stream and \<open>transmitted\<close> seen by \<open>waitPhysical\<close>\<close>
  | WriteAttempts nat u64 \<comment> \<open>\<open>physical.Write(payload[position:])\<close> is called\<close>
  | WriteFails nat continuity_error \<comment> \<open>\<open>markUnavailable\<close> is called, then the next round\<close>
  | WriteAgain

definition write_select :: "bool \<Rightarrow> nat \<Rightarrow> u64 \<Rightarrow> u64 \<Rightarrow> ResumableStream \<Rightarrow> write_step" where
  "write_select cancelled len start stop s =
     (case waitPhysical cancelled s of
        WaitBlocked \<Rightarrow> WriteWaits
      | WaitFailed e transmitted \<Rightarrow> WriteReturns (writtenForRange start stop transmitted) (Some e)
      | WaitReady p transmitted \<Rightarrow>
          if transmitted \<ge> stop then WriteReturns len None
          else if transmitted < start then WriteReturns (writtenForRange start stop transmitted) (Some ErrResumableState)
          else WriteTries p transmitted)"

definition write_attempt :: "u64 \<Rightarrow> u64 \<Rightarrow> nat \<Rightarrow> u64 \<Rightarrow> ResumableStream \<Rightarrow> write_step \<times> ResumableStream" where
  "write_attempt start stop p transmitted s =
     (if rs_closed s then (WriteReturns (writtenForRange start stop transmitted) (Some ErrResumableClosed), s)
      else if rs_physical s \<noteq> Some p \<or> rs_transmitted s \<noteq> transmitted then (WriteAgain, s)
      else (WriteAttempts p transmitted, s\<lparr>rs_writeAttemptEnd := stop, rs_writeAttemptDone := True\<rparr>))"

record attempt_result =
  ar_n :: nat
  ar_err :: "continuity_error option"
  ar_deferredAck :: u64
  ar_invalidAck :: bool
  ar_current :: u64
  ar_closed :: bool

definition write_returned ::
  "nat \<Rightarrow> nat \<Rightarrow> u64 \<Rightarrow> int \<Rightarrow> continuity_error option \<Rightarrow> ResumableStream \<Rightarrow> attempt_result \<times> ResumableStream" where
  "write_returned remaining p transmitted n writeErr s =
     (let (n1, err1) = (if n < 0 \<or> n > int remaining then (0, Some ErrResumableState) else (nat n, writeErr));
          current = \<not> rs_closed s \<and> (rs_physical s = Some p \<or> rs_physical s = None) \<and> rs_transmitted s = transmitted;
          over = of_nat n1 > MaxSequence - rs_transmitted s;
          (n2, err2) = (if current \<and> over then (0, Some ErrResumableState) else (n1, err1));
          s1 = (if current \<and> \<not> over then s\<lparr>rs_transmitted := rs_transmitted s + of_nat n1\<rparr> else s);
          pending = rs_writeAttemptEnd s1 \<noteq> 0 \<and> rs_pendingAck s1 \<noteq> 0;
          deferred = (if pending \<and> rs_pendingAck s1 \<le> rs_transmitted s1 then rs_pendingAck s1 else 0);
          invalid = (pending \<and> \<not> rs_pendingAck s1 \<le> rs_transmitted s1 \<and> (err2 \<noteq> None \<or> n2 \<noteq> remaining));
          s2 = (if rs_writeAttemptEnd s1 \<noteq> 0
                then s1\<lparr>rs_writeAttemptEnd := 0, rs_writeAttemptDone := False, rs_pendingAck := 0\<rparr> else s1)
      in (\<lparr>ar_n = n2, ar_err = err2, ar_deferredAck = deferred, ar_invalidAck = invalid,
           ar_current = rs_transmitted s2, ar_closed = rs_closed s2\<rparr>, s2))"

definition write_resolve ::
  "nat \<Rightarrow> u64 \<Rightarrow> u64 \<Rightarrow> nat \<Rightarrow> attempt_result \<Rightarrow> ResumableStream \<Rightarrow> write_step \<times> ResumableStream" where
  "write_resolve len start stop p r s =
     (case (if ar_deferredAck r \<noteq> 0 then ackJournal (ar_deferredAck r) True s else (None, s)) of
        (Some e, s1) \<Rightarrow> (WriteReturns (writtenForRange start stop (ar_current r)) (Some e), s1)
      | (None, s1) \<Rightarrow>
          (if ar_invalidAck r then WriteReturns (writtenForRange start stop (ar_current r)) (Some ErrResumableState)
           else if ar_closed r then WriteReturns (writtenForRange start stop (ar_current r)) (Some ErrResumableClosed)
           else if ar_current r \<ge> stop then WriteReturns len None
           else if ar_err r \<noteq> None \<or> ar_n r = 0
           then let e = (case ar_err r of None \<Rightarrow> ErrNoProgress | Some e \<Rightarrow> e)
                in if \<not> rs_recoverableWrite s1 e then WriteReturns (writtenForRange start stop (ar_current r)) (Some e)
                   else WriteFails p e
           else WriteAgain, s1))"

section \<open>Half-close\<close>

datatype closewrite_step =
    CloseWaits
  | CloseReturns "continuity_error option"
  | CloseTries nat
  | CloseFails nat continuity_error

definition CloseWrite_begin :: "ResumableStream \<Rightarrow> closewrite_step option \<times> ResumableStream" where
  "CloseWrite_begin s =
     (if rs_closed s then (Some (CloseReturns (Some ErrResumableClosed)), s)
      else if rs_localFIN s \<and> rs_finTransmitted s then (Some (CloseReturns None), s)
      else (None, s\<lparr>rs_localFIN := True\<rparr>))"

definition closewrite_select :: "bool \<Rightarrow> ResumableStream \<Rightarrow> closewrite_step" where
  "closewrite_select cancelled s =
     (case waitPhysical cancelled s of
        WaitBlocked \<Rightarrow> CloseWaits
      | WaitFailed e _ \<Rightarrow> CloseReturns (Some e)
      | WaitReady p transmitted \<Rightarrow>
          if transmitted < js_EndOffset (Journal_State (rs_journal s)) then CloseReturns (Some ErrResumableState)
          else if rs_finTransmitted s then CloseReturns None
          else CloseTries p)"

text \<open>\<open>answer\<close>: \<open>None\<close> when the physical stream has no \<open>CloseWrite\<close>, otherwise its result.\<close>

definition closewrite_returned ::
  "nat \<Rightarrow> continuity_error option option \<Rightarrow> ResumableStream \<Rightarrow> closewrite_step \<times> ResumableStream" where
  "closewrite_returned p answer s =
     (case answer of
        None \<Rightarrow> (CloseReturns None, s)
      | Some (Some e) \<Rightarrow> (CloseFails p e, s)
      | Some None \<Rightarrow> (CloseReturns None, if rs_physical s = Some p then s\<lparr>rs_finTransmitted := True\<rparr> else s))"

section \<open>Reading\<close>

datatype read_step =
    ReadReturns bytes "continuity_error option"
  | ReadDelivers bytes "continuity_error option" "u64 option" \<comment> \<open>bytes, read error, offset to notify\<close>
  | ReadFails nat continuity_error
  | ReadAgain

text \<open>
  The physical stream \<open>p\<close> answered a read of \<open>room\<close> bytes with the count \<open>n\<close>, the bytes \<open>data\<close> at the
  start of the destination and \<open>readErr\<close>.
\<close>

definition read_returned ::
  "nat \<Rightarrow> nat \<Rightarrow> int \<Rightarrow> bytes \<Rightarrow> continuity_error option \<Rightarrow> ResumableStream \<Rightarrow> read_step \<times> ResumableStream" where
  "read_returned room p n data readErr s =
     (let (m, err) = (if n < 0 \<or> n > int room then (0, Some ErrResumableState) else (nat n, readErr)) in
      if m \<noteq> 0
      then
        if rs_closed s then (ReadReturns [] (Some ErrResumableClosed), s)
        else if rs_physical s \<noteq> Some p then (ReadReturns [] (Some ErrResumableState), s)
        else
          let discarded = min (of_nat m) (rs_discard s);
              s1 = s\<lparr>rs_discard := rs_discard s - discarded\<rparr>;
              out = drop (unat discarded) (take m data)
          in if of_nat (length out) > MaxSequence - rs_receiveOffset s1 then (ReadReturns [] (Some ErrResumableState), s1)
             else
               let offset = rs_receiveOffset s1 + of_nat (length out);
                   notify = rs_ackEvery s1 \<noteq> 0 \<and> offset - rs_lastNotified s1 \<ge> rs_ackEvery s1;
                   s2 = s1\<lparr>rs_receiveOffset := offset,
                           rs_lastNotified := (if notify then offset else rs_lastNotified s1)\<rparr>
               in (ReadDelivers out err (if notify then Some offset else None), s2)
      else
        let e = (case err of None \<Rightarrow> ErrNoProgress | Some e \<Rightarrow> e)
        in (if \<not> rs_recoverableRead s e then ReadReturns [] (Some e) else ReadFails p e, s))"

text \<open>What follows the delivery: \<open>notifyErr\<close> is the answer of \<open>onReceive\<close> when it is called.\<close>

definition read_resolve ::
  "nat \<Rightarrow> bytes \<Rightarrow> continuity_error option \<Rightarrow> u64 option \<Rightarrow> continuity_error option \<Rightarrow> ResumableStream
     \<Rightarrow> read_step \<times> ResumableStream" where
  "read_resolve p out readErr notify notifyErr s =
     (let s1 = (if notify \<noteq> None \<and> notifyErr \<noteq> None then markUnavailable p s else s);
          s2 = (case readErr of None \<Rightarrow> s1 | Some e \<Rightarrow> if rs_recoverableRead s e then markUnavailable p s1 else s1)
      in (if out \<noteq> [] then ReadReturns out None
          else case readErr of
                 None \<Rightarrow> ReadAgain
               | Some e \<Rightarrow> if \<not> rs_recoverableRead s e then ReadReturns [] (Some ErrResumableState) else ReadAgain,
          s2))"

section \<open>Replacing the physical stream\<close>

text \<open>\<open>writeAll\<close>: the \<open>k\<close>-th write of the destination answers \<open>answers k payload\<close>; the bytes it took are part of the result.\<close>

function writeAll ::
  "(nat \<Rightarrow> bytes \<Rightarrow> int \<times> continuity_error option) \<Rightarrow> nat \<Rightarrow> bytes \<Rightarrow> continuity_error option \<times> bytes \<times> nat" where
  "writeAll answers k payload =
     (if payload = [] then (None, [], k)
      else
        let (n, err) = answers k payload in
        if n < 0 \<or> n > int (length payload) then (Some ErrResumableState, [], k + 1)
        else
          let sent = take (nat n) payload in
          (case err of
             Some e \<Rightarrow> (Some e, sent, k + 1)
           | None \<Rightarrow>
               if n = 0 then (Some ErrNoProgress, sent, k + 1)
               else case writeAll answers (k + 1) (drop (nat n) payload) of
                      (e, out, k') \<Rightarrow> (e, sent @ out, k')))"
  by pat_completeness auto

termination
  by (relation "measure (\<lambda>(answers, k, payload). length payload)") auto

declare writeAll.simps [simp del]

definition Replace_begin :: "ResumeState \<Rightarrow> ResumableStream \<Rightarrow> continuity_error option" where
  "Replace_begin state s =
     (if rs_closed s then Some ErrResumableClosed
      else if rs_physical s \<noteq> None \<or> ResumeReceiveOffset state > rs_receiveOffset s
              \<or> PeerReceiveOffset state > rs_transmitted s
      then Some ErrResumableState
      else None)"

text \<open>The acknowledgement, the snapshot of the journal and the size of the copy buffer.\<close>

definition Replace_ack ::
  "ResumeState \<Rightarrow> ResumableStream \<Rightarrow> (continuity_error + u64 \<times> nat) \<times> ResumableStream" where
  "Replace_ack state s =
     (case ackJournal (PeerReceiveOffset state) False s of
        (Some _, s1) \<Rightarrow> (Inl ErrResumableState, s1)
      | (None, s1) \<Rightarrow>
          let st = Journal_State (rs_journal s1)
          in (Inr (js_EndOffset st, min 32768 (max 1 (js_BufferedBytes st))), s1))"

lemma Journal_Replay_progress:
  assumes "Journal_Replay offset n j = Inr (chunk, following)" and "chunk \<noteq> []"
  shows "offset < following \<and> following \<le> jr_end j"
proof -
  define len where "len = min n (unat (jr_end j - offset))"
  have r: "\<not> offset > jr_end j" and f: "following = offset + of_nat len" and pos: "0 < len"
    using assms by (auto simp: Journal_Replay_def Let_def len_def split: if_splits)
  have le: "unat offset + len \<le> unat (jr_end j)"
    using r by (auto simp: len_def unat_sub not_less word_le_nat_alt)
  have b: "unat (jr_end j) < 2 ^ 64" using unsigned_less [of "jr_end j"] by simp
  have "unat (of_nat len :: u64) = len" using le b by (intro unat_of_nat_small) simp
  then have "unat following = unat offset + len" unfolding f using le b by (subst unat_add_nowrap) simp_all
  then show ?thesis using pos le by (simp add: word_less_nat_alt word_le_nat_alt)
qed

lemma Journal_Replay_measure:
  assumes "Journal_Replay offset n j = Inr (chunk, following)" and "chunk \<noteq> []"
  shows "unat (jr_end j) - unat following < unat (jr_end j) - unat offset"
  using Journal_Replay_progress [OF assms] unfolding word_less_nat_alt word_le_nat_alt by linarith

text \<open>The replay loop, undisturbed by other goroutines.\<close>

function replace_loop ::
  "(nat \<Rightarrow> bytes \<Rightarrow> int \<times> continuity_error option) \<Rightarrow> nat \<Rightarrow> nat \<Rightarrow> u64 \<Rightarrow> u64 \<Rightarrow> Journal
     \<Rightarrow> continuity_error option \<times> bytes \<times> nat" where
  "replace_loop answers k room stop offset j =
     (if offset < stop
      then case Journal_Replay offset room j of
             Inl _ \<Rightarrow> (Some ErrResumableState, [], k)
           | Inr (chunk, following) \<Rightarrow>
               if chunk = [] then (Some ErrResumableState, [], k)
               else (case writeAll answers k chunk of
                       (Some _, out, k') \<Rightarrow> (Some ErrResumableState, out, k')
                     | (None, out, k') \<Rightarrow>
                         (case replace_loop answers k' room stop following j of
                            (e, out', k'') \<Rightarrow> (e, out @ out', k'')))
      else (None, [], k))"
  by pat_completeness auto

termination
  by (relation "measure (\<lambda>(answers, k, room, stop, offset, j). unat (jr_end j) - unat offset)")
     (auto simp: Journal_Replay_measure)

declare replace_loop.simps [simp del]

definition Replace_commit ::
  "nat \<Rightarrow> ResumeState \<Rightarrow> u64 \<Rightarrow> bool \<Rightarrow> ResumableStream \<Rightarrow> continuity_error option \<times> ResumableStream" where
  "Replace_commit p state stop localFIN s =
     (if rs_closed s \<or> rs_physical s \<noteq> None \<or> ResumeReceiveOffset state > rs_receiveOffset s
      then (Some ErrResumableClosed, s)
      else (None, s\<lparr>rs_physical := Some p, rs_transmitted := stop, rs_finTransmitted := localFIN,
                    rs_discard := rs_receiveOffset s - ResumeReceiveOffset state\<rparr>))"

text \<open>
  The whole of \<open>Replace\<close> when nothing interferes; \<open>fin\<close> is the answer of \<open>next.CloseWrite\<close> (\<open>None\<close>: it has
  none). The bytes written to the new stream are part of the result.
\<close>

definition Replace ::
  "nat option \<Rightarrow> ResumeState \<Rightarrow> (nat \<Rightarrow> bytes \<Rightarrow> int \<times> continuity_error option) \<Rightarrow> continuity_error option option
     \<Rightarrow> ResumableStream \<Rightarrow> continuity_error option \<times> ResumableStream \<times> bytes" where
  "Replace next_stream state answers fin s =
     (case next_stream of
        None \<Rightarrow> (Some ErrResumableState, s, [])
      | Some p \<Rightarrow>
          (case Replace_begin state s of
             Some e \<Rightarrow> (Some e, s, [])
           | None \<Rightarrow>
               (case Replace_ack state s of
                  (Inl e, s1) \<Rightarrow> (Some e, s1, [])
                | (Inr (stop, room), s1) \<Rightarrow>
                    (case replace_loop answers 0 room stop (PeerReceiveOffset state) (rs_journal s1) of
                       (Some e, out, _) \<Rightarrow> (Some e, s1, out)
                     | (None, out, _) \<Rightarrow>
                         (case (if rs_localFIN s1 then fin else None) of
                            Some (Some e) \<Rightarrow> (Some ErrResumableState, s1, out)
                          | _ \<Rightarrow>
                              (case Replace_commit p state stop (rs_localFIN s1) s1 of
                                 (e, s2) \<Rightarrow> (e, s2, out)))))))"

section \<open>Detaching, acknowledging, closing\<close>

text \<open>The flag of the result: the caller waits for the physical write in progress.\<close>

definition DetachPhysical :: "ResumableStream \<Rightarrow> (continuity_error option \<times> bool) \<times> ResumableStream" where
  "DetachPhysical s =
     (if rs_closed s then ((Some ErrResumableClosed, False), s)
      else ((None, rs_writeAttemptDone s), s\<lparr>rs_physical := None\<rparr>))"

definition Ack :: "u64 \<Rightarrow> ResumableStream \<Rightarrow> continuity_error option \<times> ResumableStream" where
  "Ack offset s =
     (if rs_closed s then (Some ErrResumableClosed, s)
      else if offset > rs_transmitted s
      then if rs_writeAttemptEnd s \<noteq> 0 \<and> offset \<le> rs_writeAttemptEnd s
           then (None, if offset > rs_pendingAck s then s\<lparr>rs_pendingAck := offset\<rparr> else s)
           else (Some ErrResumableState, s)
      else ackJournal offset False s)"

definition Resumable_Close :: "ResumableStream \<Rightarrow> ResumableStream" where
  "Resumable_Close s =
     (if rs_closed s then s
      else s\<lparr>rs_closed := True, rs_physical := None, rs_journal := Journal_Close (rs_journal s)\<rparr>)"

section \<open>A replacement restores the stream\<close>

text \<open>A destination that never fails and takes at least one byte of every write.\<close>

definition accepting :: "(nat \<Rightarrow> bytes \<Rightarrow> int \<times> continuity_error option) \<Rightarrow> bool" where
  "accepting answers \<longleftrightarrow>
     (\<forall>k payload. payload \<noteq> [] \<longrightarrow>
        snd (answers k payload) = None \<and> 0 < fst (answers k payload) \<and> fst (answers k payload) \<le> int (length payload))"

lemma acceptingE:
  assumes "accepting answers" and "payload \<noteq> []"
  obtains n where "answers k payload = (int n, None)" "0 < n" "n \<le> length payload"
proof -
  have "snd (answers k payload) = None" "0 < fst (answers k payload)" "fst (answers k payload) \<le> int (length payload)"
    using assms by (simp_all add: accepting_def)
  then show ?thesis by (intro that [of "nat (fst (answers k payload))"]) (simp_all add: prod_eq_iff)
qed

lemma writeAll_accepting:
  assumes acc: "accepting answers"
  shows "\<exists>k'. writeAll answers k payload = (None, payload, k')"
proof (induction "length payload" arbitrary: k payload rule: less_induct)
  case less
  show ?case
  proof (cases "payload = []")
    case True
    then show ?thesis by (simp add: writeAll.simps)
  next
    case False
    obtain n where a: "answers k payload = (int n, None)" "0 < n" "n \<le> length payload"
      by (rule acceptingE [OF acc False])
    then obtain k' where "writeAll answers (k + 1) (drop n payload) = (None, drop n payload, k')"
      using less [of "drop n payload" "k + 1"] False by auto
    then show ?thesis using a False by (subst writeAll.simps) simp
  qed
qed

lemma replace_loop_accepting:
  assumes acc: "accepting answers" and room: "0 < room" and j: "journal_ok j" "log_holds h (journal_abs j)"
    and stop: "unat stop = length h" and offset: "unat (jr_base j) \<le> unat offset" "unat offset \<le> length h"
  shows "\<exists>k'. replace_loop answers k room stop offset j = (None, drop (unat offset) h, k')"
  using offset
proof (induction "length h - unat offset" arbitrary: k offset rule: less_induct)
  case less
  show ?case
  proof (cases "unat offset = length h")
    case True
    then show ?thesis using stop by (subst replace_loop.simps) (simp add: word_less_nat_alt)
  next
    case False
    then have lt: "offset < stop" "unat offset < length h" using less(3) stop by (simp_all add: word_less_nat_alt)
    obtain f where rep: "Journal_Replay offset room j = Inr (take room (drop (unat offset) h), f)"
      using journal.replay_succeeds [OF j, of offset room] less(2,3) by auto
    have f: "unat f = unat offset + length (take room (drop (unat offset) h))" "unat f \<le> length h"
      using journal.replay_holds [OF j rep] by simp_all
    have ne: "take room (drop (unat offset) h) \<noteq> []" using lt room by simp
    have "length h - unat f < length h - unat offset" "unat (jr_base j) \<le> unat f" using f ne lt less(2) room by auto
    then have IH: "\<exists>k'. replace_loop answers k room stop f j = (None, drop (unat f) h, k')" for k
      using less(1) f(2) by simp
    obtain k1 where w: "writeAll answers k (take room (drop (unat offset) h)) = (None, take room (drop (unat offset) h), k1)"
      using writeAll_accepting [OF acc] by blast
    obtain k2 where l: "replace_loop answers k1 room stop f j = (None, drop (unat f) h, k2)" using IH by blast
    have "take room (drop (unat offset) h) @ drop (unat f) h = drop (unat offset) h"
      using f(1) by (simp add: min_def append_eq_conv_conj) (metis append_take_drop_id drop_drop add.commute)
    then show ?thesis using lt rep ne w l by (subst replace_loop.simps) simp
  qed
qed

lemma Replace_ack_ok:
  assumes j: "journal_ok (rs_journal s)" "log_holds h (journal_abs (rs_journal s))"
    and range: "unat (jr_base (rs_journal s)) \<le> unat (PeerReceiveOffset state)" "unat (PeerReceiveOffset state) \<le> length h"
  obtains j' where "Replace_ack state s = (Inr (jr_end j', min 32768 (max 1 (jr_size j'))), s\<lparr>rs_journal := j'\<rparr>)"
    "journal_ok j'" "log_holds h (journal_abs j')" "jr_base j' = PeerReceiveOffset state"
proof -
  obtain e j' where ak: "Journal_Ack (PeerReceiveOffset state) (rs_journal s) = (e, j')" by fastforce
  have "e = None" using journal.ack_succeeds [OF j, of "PeerReceiveOffset state"] range ak by simp
  with ak have "journal_ok j'" "log_holds h (journal_abs j')" "jr_base j' = PeerReceiveOffset state"
    using journal.ack_holds [OF j ak] by (simp_all add: word_unat_eq_iff)
  then show ?thesis using that ak \<open>e = None\<close> by (simp add: Replace_ack_def ackJournal_def Journal_State_def Let_def)
qed

lemma ackJournal_frame:
  assumes "ackJournal offset deferred s = (e, s')"
  shows "\<exists>j. s' = s\<lparr>rs_journal := j\<rparr>"
  using assms by (auto simp: ackJournal_def split: if_splits prod.splits) (metis ResumableStream.surjective ResumableStream.update_convs(1))

lemma Replace_failure_frame:
  assumes "Replace next_stream state answers fin s = (Some e, s', out)"
  shows "\<exists>j. s' = s\<lparr>rs_journal := j\<rparr>"
proof -
  have same: "\<exists>j. s = s\<lparr>rs_journal := j\<rparr>" by (rule exI [of _ "rs_journal s"]) simp
  have ak: "\<exists>j. s1 = s\<lparr>rs_journal := j\<rparr>" if "Replace_ack state s = (r, s1)" for r s1
    using that by (auto simp: Replace_ack_def Let_def split: prod.splits option.splits dest: ackJournal_frame)
  show ?thesis
    using assms same ak
    by (auto simp: Replace_def Replace_commit_def split: option.splits prod.splits sum.splits if_splits)
qed


definition sample_stream :: ResumableStream where
  "sample_stream =
     \<lparr>rs_journal = sample_journal, rs_recoverableRead = (\<lambda>_. True), rs_recoverableWrite = (\<lambda>_. True), rs_ackEvery = 0,
      rs_physical = None, rs_transmitted = 4, rs_receiveOffset = 7, rs_lastNotified = 0, rs_localFIN = False,
      rs_finTransmitted = False, rs_discard = 0, rs_writeAttemptEnd = 0, rs_writeAttemptDone = False,
      rs_pendingAck = 0, rs_closed = False\<rparr>"

lemma sample_journal_holds: "journal_ok sample_journal" "log_holds [1, 2, 3, 4, 5] (journal_abs sample_journal)"
  by (simp_all add: journal_ok_def log_holds_def journal_abs_def journal_data_def sample_journal_def upt_rec)


end
