(* ===== verification/NP_Resumable_System.thy ===== *)
theory NP_Resumable_System
  imports NP_Resumable "HOL-Library.Sublist"
begin

text \<open>
  Two resumable streams joined by a sequence of physical links. Every step is one critical section of
  \<open>NP_Resumable\<close>, a byte range crossing a link, or the set-up of a new link, in any order: writer, reader,
  replacer, acknowledgements, failures and closing of both ends interleave freely. A link keeps the order
  of its bytes and \<open>Write\<close> of a physical stream returns the number of bytes it took (the contract of
  \<open>io.Writer\<close>); it may take them in pieces and fail at any time. The offsets used for a new link are ones
  that the ends have received, as the resume metadata of the proxy has it.

  Proved: as long as no replay runs past its snapshot of the journal, the bytes delivered are a prefix of
  the bytes written, in both directions, and no byte leaves a journal before it is delivered. A replay
  can run past its snapshot when a \<open>Write\<close> appends during a long \<open>Replace\<close>, and the bytes appended are then
  delivered twice (\<open>replay_overrun_duplicates\<close>); it cannot while the journal holds at most 32 KiB.
\<close>

section \<open>The system\<close>

datatype writer =
    WIdle
  | WLoop bytes u64 u64
  | WTry bytes u64 u64 nat u64
  | WWrite bytes u64 u64 nat u64 nat \<comment> \<open>inside \<open>physical.Write\<close>, with the bytes taken so far\<close>
  | WEnd bytes u64 u64 nat attempt_result
  | WFail bytes u64 u64 nat

datatype reader =
    RIdle
  | RRead nat nat
  | RGot nat nat bytes "continuity_error option"
  | RAfter nat bytes "continuity_error option" "u64 option"
  | RFail nat

datatype replacer =
    PIdle
  | PAck nat ResumeState
  | PLoop nat ResumeState u64 nat u64 \<comment> \<open>link, offsets, snapshot end, buffer size, offset\<close>
  | PWrite nat ResumeState u64 nat u64 bytes nat \<comment> \<open>inside \<open>writeAll\<close>: following offset, chunk, bytes taken\<close>
  | PCommit nat ResumeState u64 bool

record endpoint =
  ep_rs :: ResumableStream
  ep_writer :: writer
  ep_reader :: reader
  ep_replacer :: replacer

text \<open>The histories and the links of the direction out of end \<open>x\<close> are indexed by \<open>x\<close>; \<open>sys_delivered x\<close> is what the reads of end \<open>x\<close> returned.\<close>

record system =
  sys_end :: "bool \<Rightarrow> endpoint"
  sys_content :: "bool \<Rightarrow> nat \<Rightarrow> bytes"
  sys_taken :: "bool \<Rightarrow> nat \<Rightarrow> nat"
  sys_start :: "bool \<Rightarrow> nat \<Rightarrow> nat"
  sys_links :: nat
  sys_attached :: "bool \<Rightarrow> nat set"
  sys_written :: "bool \<Rightarrow> bytes"
  sys_delivered :: "bool \<Rightarrow> bytes"
  sys_overrun :: bool

fun writer_next :: "bytes \<Rightarrow> u64 \<Rightarrow> u64 \<Rightarrow> write_step \<Rightarrow> writer" where
  "writer_next pl a b WriteWaits = WLoop pl a b"
| "writer_next pl a b (WriteReturns _ _) = WIdle"
| "writer_next pl a b (WriteTries p t) = WTry pl a b p t"
| "writer_next pl a b (WriteAttempts p t) = WWrite pl a b p t 0"
| "writer_next pl a b (WriteFails p _) = WFail pl a b p"
| "writer_next pl a b WriteAgain = WLoop pl a b"

fun reader_next :: "nat \<Rightarrow> read_step \<Rightarrow> reader" where
  "reader_next p (ReadReturns _ _) = RIdle"
| "reader_next p (ReadDelivers out err no) = RAfter p out err no"
| "reader_next p (ReadFails q _) = RFail q"
| "reader_next p ReadAgain = RIdle"

fun read_bytes :: "read_step \<Rightarrow> bytes" where
  "read_bytes (ReadDelivers out _ _) = out"
| "read_bytes _ = []"

text \<open>Steps of one end that touch only its own state; \<open>n\<close> is the number of bytes delivered to its peer.\<close>

inductive local_step :: "nat \<Rightarrow> endpoint \<Rightarrow> endpoint \<Rightarrow> bool" for n where
  w_select: "ep_writer e = WLoop pl a b \<Longrightarrow>
     local_step n e (e\<lparr>ep_writer := writer_next pl a b (write_select cancelled (length pl) a b (ep_rs e))\<rparr>)"
| w_attempt: "ep_writer e = WTry pl a b p t \<Longrightarrow> write_attempt a b p t (ep_rs e) = (st, s') \<Longrightarrow>
     local_step n e (e\<lparr>ep_rs := s', ep_writer := writer_next pl a b st\<rparr>)"
| w_returned: "ep_writer e = WWrite pl a b p t k \<Longrightarrow>
     write_returned (length pl - unat (t - a)) p t (int k) err (ep_rs e) = (r, s') \<Longrightarrow>
     local_step n e (e\<lparr>ep_rs := s', ep_writer := WEnd pl a b p r\<rparr>)"
| w_resolve: "ep_writer e = WEnd pl a b p r \<Longrightarrow> write_resolve (length pl) a b p r (ep_rs e) = (st, s') \<Longrightarrow>
     local_step n e (e\<lparr>ep_rs := s', ep_writer := writer_next pl a b st\<rparr>)"
| w_fail: "ep_writer e = WFail pl a b p \<Longrightarrow>
     local_step n e (e\<lparr>ep_rs := markUnavailable p (ep_rs e), ep_writer := WLoop pl a b\<rparr>)"
| half_close: "ep_writer e = WIdle \<Longrightarrow> local_step n e (e\<lparr>ep_rs := snd (CloseWrite_begin (ep_rs e))\<rparr>)"
| fin_sent: "local_step n e (e\<lparr>ep_rs := snd (closewrite_returned p answer (ep_rs e))\<rparr>)"
| fail: "local_step n e (e\<lparr>ep_rs := markUnavailable p (ep_rs e)\<rparr>)"
| detach: "local_step n e (e\<lparr>ep_rs := snd (DetachPhysical (ep_rs e))\<rparr>)"
| ack: "unat offset \<le> n \<Longrightarrow> local_step n e (e\<lparr>ep_rs := snd (Ack offset (ep_rs e))\<rparr>)"
| close: "local_step n e (e\<lparr>ep_rs := Resumable_Close (ep_rs e)\<rparr>)"
| r_select: "ep_reader e = RIdle \<Longrightarrow> waitPhysical cancelled (ep_rs e) = WaitReady p t \<Longrightarrow> 0 < room \<Longrightarrow>
     local_step n e (e\<lparr>ep_reader := RRead p room\<rparr>)"
| r_resolve: "ep_reader e = RAfter p out err no \<Longrightarrow> read_resolve p out err no notifyErr (ep_rs e) = (st, s') \<Longrightarrow>
     local_step n e (e\<lparr>ep_rs := s', ep_reader := RIdle\<rparr>)"
| r_fail: "ep_reader e = RFail p \<Longrightarrow>
     local_step n e (e\<lparr>ep_rs := markUnavailable p (ep_rs e), ep_reader := RIdle\<rparr>)"
| p_ack: "ep_replacer e = PAck p st \<Longrightarrow> Replace_ack st (ep_rs e) = (Inr (stop, room), s') \<Longrightarrow>
     local_step n e (e\<lparr>ep_rs := s', ep_replacer := PLoop p st stop room (PeerReceiveOffset st)\<rparr>)"
| p_round: "ep_replacer e = PLoop p st stop room offset \<Longrightarrow> offset < stop \<Longrightarrow>
     Journal_Replay offset room (rs_journal (ep_rs e)) = Inr (chunk, following) \<Longrightarrow> chunk \<noteq> [] \<Longrightarrow>
     local_step n e (e\<lparr>ep_replacer := PWrite p st stop room following chunk 0\<rparr>)"
| p_chunk: "ep_replacer e = PWrite p st stop room following chunk (length chunk) \<Longrightarrow>
     local_step n e (e\<lparr>ep_replacer := PLoop p st stop room following\<rparr>)"
| p_commit: "ep_replacer e = PCommit p st stop fin \<Longrightarrow> Replace_commit p st stop fin (ep_rs e) = (err, s') \<Longrightarrow>
     local_step n e (e\<lparr>ep_rs := s', ep_replacer := PIdle\<rparr>)"
| p_abort: "local_step n e (e\<lparr>ep_replacer := PIdle\<rparr>)"

definition put :: "bool \<Rightarrow> endpoint \<Rightarrow> system \<Rightarrow> system" where
  "put x e S = S\<lparr>sys_end := (sys_end S)(x := e)\<rparr>"

definition carry :: "bool \<Rightarrow> nat \<Rightarrow> bytes \<Rightarrow> system \<Rightarrow> system" where
  "carry x p bs S = S\<lparr>sys_content := (sys_content S)(x := (sys_content S x)(p := sys_content S x p @ bs))\<rparr>"

inductive rstep :: "system \<Rightarrow> system \<Rightarrow> bool" where
  local: "local_step (length (sys_delivered S (\<not> x))) (sys_end S x) e' \<Longrightarrow> rstep S (put x e' S)"
| write_call: "ep_writer (sys_end S x) = WIdle \<Longrightarrow> pl \<noteq> [] \<Longrightarrow>
     Write_begin pl (ep_rs (sys_end S x)) = (Inr (a, b), s') \<Longrightarrow>
     rstep S (put x ((sys_end S x)\<lparr>ep_rs := s', ep_writer := WLoop pl a b\<rparr>)
               (S\<lparr>sys_written := (sys_written S)(x := sys_written S x @ pl)\<rparr>))"
| wire_write: "ep_writer (sys_end S x) = WWrite pl a b p t k \<Longrightarrow>
     bs = take i (drop (unat (t - a) + k) pl) \<Longrightarrow>
     rstep S (put x ((sys_end S x)\<lparr>ep_writer := WWrite pl a b p t (k + length bs)\<rparr>) (carry x p bs S))"
| wire_replay: "ep_replacer (sys_end S x) = PWrite p st stop room following chunk m \<Longrightarrow>
     bs = take i (drop m chunk) \<Longrightarrow>
     rstep S (put x ((sys_end S x)\<lparr>ep_replacer := PWrite p st stop room following chunk (m + length bs)\<rparr>) (carry x p bs S))"
| read_take: "ep_reader (sys_end S x) = RRead p room \<Longrightarrow>
     data = take m (drop (sys_taken S x p) (sys_content S (\<not> x) p)) \<Longrightarrow> m \<le> room \<Longrightarrow>
     rstep S (put x ((sys_end S x)\<lparr>ep_reader := RGot p room data err\<rparr>)
               (S\<lparr>sys_taken := (sys_taken S)(x := (sys_taken S x)(p := sys_taken S x p + length data))\<rparr>))"
| deliver: "ep_reader (sys_end S x) = RGot p room data err \<Longrightarrow>
     read_returned room p (int (length data)) data err (ep_rs (sys_end S x)) = (st, s') \<Longrightarrow>
     rstep S (put x ((sys_end S x)\<lparr>ep_rs := s', ep_reader := reader_next p st\<rparr>)
               (S\<lparr>sys_delivered := (sys_delivered S)(x := sys_delivered S x @ read_bytes st)\<rparr>))"
| connect: "v True \<le> length (sys_delivered S False) \<Longrightarrow> v False \<le> length (sys_delivered S True) \<Longrightarrow>
     rstep S (S\<lparr>sys_links := sys_links S + 1, sys_start := (\<lambda>x. (sys_start S x)(sys_links S := v x))\<rparr>)"
| replace_begin: "ep_replacer (sys_end S x) = PIdle \<Longrightarrow> p < sys_links S \<Longrightarrow> p \<notin> sys_attached S x \<Longrightarrow>
     st = \<lparr>PeerReceiveOffset = of_nat (sys_start S x p), ResumeReceiveOffset = of_nat (sys_start S (\<not> x) p)\<rparr> \<Longrightarrow>
     Replace_begin st (ep_rs (sys_end S x)) = None \<Longrightarrow>
     rstep S (put x ((sys_end S x)\<lparr>ep_replacer := PAck p st\<rparr>)
               (S\<lparr>sys_attached := (sys_attached S)(x := insert p (sys_attached S x))\<rparr>))"
| replace_exit: "ep_replacer (sys_end S x) = PLoop p st stop room offset \<Longrightarrow> \<not> offset < stop \<Longrightarrow>
     rstep S (put x ((sys_end S x)\<lparr>ep_replacer := PCommit p st stop (rs_localFIN (ep_rs (sys_end S x)))\<rparr>)
               (S\<lparr>sys_overrun := (sys_overrun S \<or> offset \<noteq> stop)\<rparr>))"

text \<open>At the start both ends are fresh and hold link 0.\<close>

definition fresh_end :: "ResumableStream \<Rightarrow> endpoint" where
  "fresh_end s = \<lparr>ep_rs = s, ep_writer = WIdle, ep_reader = RIdle, ep_replacer = PIdle\<rparr>"

definition initial_system :: "ResumableStream \<Rightarrow> ResumableStream \<Rightarrow> system" where
  "initial_system s0 s1 =
     \<lparr>sys_end = (\<lambda>x. fresh_end (if x then s1 else s0)), sys_content = (\<lambda>_ _. []), sys_taken = (\<lambda>_ _. 0),
      sys_start = (\<lambda>_ _. 0), sys_links = 1, sys_attached = (\<lambda>_. {0}), sys_written = (\<lambda>_. []),
      sys_delivered = (\<lambda>_. []), sys_overrun = False\<rparr>"

inductive reachable :: "ResumableStream \<Rightarrow> ResumableStream \<Rightarrow> system \<Rightarrow> bool" for s0 s1 where
  start: "reachable s0 s1 (initial_system s0 s1)"
| step: "reachable s0 s1 S \<Longrightarrow> rstep S S' \<Longrightarrow> reachable s0 s1 S'"

section \<open>The invariant of one direction\<close>

text \<open>
  \<open>W\<close>: bytes written at the sending end; \<open>r\<close>, \<open>c\<close>: start offset and content of every link; \<open>att\<close>: links
  the end has used; \<open>n\<close>: number of bytes delivered at the receiving end.
\<close>

fun writing_on :: "nat \<Rightarrow> writer \<Rightarrow> bool" where
  "writing_on p (WWrite _ _ _ q _ _) \<longleftrightarrow> q = p"
| "writing_on p _ \<longleftrightarrow> False"

definition range_ok :: "bytes \<Rightarrow> bytes \<Rightarrow> u64 \<Rightarrow> u64 \<Rightarrow> bool" where
  "range_ok W pl a b \<longleftrightarrow> unat b = length W \<and> unat a + length pl = unat b \<and> drop (unat a) W = pl"

fun writer_ok :: "bytes \<Rightarrow> (nat \<Rightarrow> nat) \<Rightarrow> (nat \<Rightarrow> bytes) \<Rightarrow> nat set \<Rightarrow> nat \<Rightarrow> ResumableStream \<Rightarrow> writer \<Rightarrow> bool" where
  "writer_ok W r c att n s WIdle \<longleftrightarrow> True"
| "writer_ok W r c att n s (WLoop pl a b) \<longleftrightarrow> range_ok W pl a b"
| "writer_ok W r c att n s (WTry pl a b p t) \<longleftrightarrow> range_ok W pl a b \<and> a \<le> t \<and> t < b"
| "writer_ok W r c att n s (WWrite pl a b p t k) \<longleftrightarrow>
     range_ok W pl a b \<and> a \<le> t \<and> t < b \<and> p \<in> att \<and> unat t + k \<le> length W \<and> r p + length (c p) = unat t + k
     \<and> (rs_physical s = Some p \<longrightarrow> rs_transmitted s = t)"
| "writer_ok W r c att n s (WEnd pl a b p res) \<longleftrightarrow> range_ok W pl a b \<and> unat (ar_deferredAck res) \<le> n"
| "writer_ok W r c att n s (WFail pl a b p) \<longleftrightarrow> range_ok W pl a b"

fun replacer_ok ::
  "bytes \<Rightarrow> (nat \<Rightarrow> nat) \<Rightarrow> (nat \<Rightarrow> bytes) \<Rightarrow> nat set \<Rightarrow> ResumableStream \<Rightarrow> writer \<Rightarrow> replacer \<Rightarrow> bool" where
  "replacer_ok W r c att s w PIdle \<longleftrightarrow> True"
| "replacer_ok W r c att s w (PAck p st) \<longleftrightarrow>
     p \<in> att \<and> rs_physical s = None \<and> \<not> writing_on p w \<and> unat (PeerReceiveOffset st) = r p \<and> c p = []"
| "replacer_ok W r c att s w (PLoop p st stop room off) \<longleftrightarrow>
     p \<in> att \<and> rs_physical s = None \<and> \<not> writing_on p w \<and> unat stop \<le> length W \<and> r p + length (c p) = unat off"
| "replacer_ok W r c att s w (PWrite p st stop room f chunk m) \<longleftrightarrow>
     p \<in> att \<and> rs_physical s = None \<and> \<not> writing_on p w \<and> unat stop \<le> length W \<and> m \<le> length chunk
     \<and> r p + length (c p) + (length chunk - m) = unat f \<and> unat f \<le> length W
     \<and> drop m chunk = take (length chunk - m) (drop (r p + length (c p)) W)"
| "replacer_ok W r c att s w (PCommit p st stop fin) \<longleftrightarrow>
     p \<in> att \<and> rs_physical s = None \<and> \<not> writing_on p w \<and> unat stop \<le> length W \<and> r p + length (c p) = unat stop"

definition send_ok :: "bytes \<Rightarrow> (nat \<Rightarrow> nat) \<Rightarrow> (nat \<Rightarrow> bytes) \<Rightarrow> nat set \<Rightarrow> nat \<Rightarrow> endpoint \<Rightarrow> bool" where
  "send_ok W r c att n e \<longleftrightarrow>
     (if rs_closed (ep_rs e) then jr_closed (rs_journal (ep_rs e)) \<and> rs_physical (ep_rs e) = None
      else journal_ok (rs_journal (ep_rs e)) \<and> log_holds W (journal_abs (rs_journal (ep_rs e)))
           \<and> unat (jr_base (rs_journal (ep_rs e))) \<le> n)
     \<and> unat (rs_pendingAck (ep_rs e)) \<le> n
     \<and> length W \<le> unat (MaxSequence :: u64)
     \<and> unat (rs_transmitted (ep_rs e)) \<le> length W
     \<and> (\<forall>p. r p \<le> n \<and> prefix (c p) (drop (r p) W) \<and> (p \<notin> att \<longrightarrow> c p = []))
     \<and> (\<forall>p. rs_physical (ep_rs e) = Some p \<longrightarrow>
           p \<in> att \<and> (\<not> writing_on p (ep_writer e) \<longrightarrow> r p + length (c p) = unat (rs_transmitted (ep_rs e))))
     \<and> writer_ok W r c att n (ep_rs e) (ep_writer e)
     \<and> replacer_ok W r c att (ep_rs e) (ep_writer e) (ep_replacer e)"

text \<open>
  The receiving end: \<open>D\<close> are the bytes delivered, \<open>k p\<close> the bytes of link \<open>p\<close> that its reads have taken, of
  which the last ones may still be in the hands of the reader.
\<close>

fun in_hand :: "nat \<Rightarrow> reader \<Rightarrow> nat" where
  "in_hand p (RGot q _ data _) = (if q = p then length data else 0)"
| "in_hand p _ = 0"

fun reading_on :: "nat \<Rightarrow> reader \<Rightarrow> bool" where
  "reading_on p (RRead q _) \<longleftrightarrow> q = p"
| "reading_on p (RGot q _ _ _) \<longleftrightarrow> q = p"
| "reading_on p _ \<longleftrightarrow> False"

fun reader_ok :: "(nat \<Rightarrow> bytes) \<Rightarrow> (nat \<Rightarrow> nat) \<Rightarrow> reader \<Rightarrow> bool" where
  "reader_ok c k (RGot p room data _) \<longleftrightarrow>
     length data \<le> room \<and> length data \<le> k p \<and> data = take (length data) (drop (k p - length data) (c p))"
| "reader_ok c k _ \<longleftrightarrow> True"

fun replaced_link :: "replacer \<Rightarrow> (nat \<times> ResumeState) option" where
  "replaced_link PIdle = None"
| "replaced_link (PAck p st) = Some (p, st)"
| "replaced_link (PLoop p st _ _ _) = Some (p, st)"
| "replaced_link (PWrite p st _ _ _ _ _) = Some (p, st)"
| "replaced_link (PCommit p st _ _) = Some (p, st)"

definition recv_ok ::
  "bytes \<Rightarrow> (nat \<Rightarrow> nat) \<Rightarrow> (nat \<Rightarrow> bytes) \<Rightarrow> nat set \<Rightarrow> (nat \<Rightarrow> nat) \<Rightarrow> bytes \<Rightarrow> endpoint \<Rightarrow> bool" where
  "recv_ok W r c att k D e \<longleftrightarrow>
     prefix D W
     \<and> unat (rs_receiveOffset (ep_rs e)) = length D
     \<and> rs_discard (ep_rs e) \<le> rs_receiveOffset (ep_rs e)
     \<and> (\<forall>p. k p \<le> length (c p) \<and> (p \<notin> att \<longrightarrow> k p = 0 \<and> \<not> reading_on p (ep_reader e)))
     \<and> (\<forall>p. rs_physical (ep_rs e) = Some p \<longrightarrow>
           p \<in> att \<and> r p + (k p - in_hand p (ep_reader e)) + unat (rs_discard (ep_rs e)) = length D)
     \<and> reader_ok c k (ep_reader e)
     \<and> (\<forall>p st. replaced_link (ep_replacer e) = Some (p, st) \<longrightarrow>
           unat (ResumeReceiveOffset st) = r p \<and> k p = 0 \<and> p \<in> att \<and> \<not> reading_on p (ep_reader e))"

section \<open>Frame rules\<close>

lemma writer_ok_frame:
  assumes "writer_ok W r c att n s w" and "rs_transmitted s' = rs_transmitted s"
    and "rs_physical s' = rs_physical s \<or> rs_physical s' = None" and "n \<le> n'"
  shows "writer_ok W r c att n' s' w"
  using assms by (cases w) auto

lemma replacer_ok_frame:
  assumes "replacer_ok W r c att s w q" and "rs_physical s' = rs_physical s \<or> rs_physical s' = None"
  shows "replacer_ok W r c att s' w q"
  using assms by (cases q) auto

definition journal_part :: "bytes \<Rightarrow> nat \<Rightarrow> ResumableStream \<Rightarrow> bool" where
  "journal_part W n s \<longleftrightarrow>
     (if rs_closed s then jr_closed (rs_journal s) \<and> rs_physical s = None
      else journal_ok (rs_journal s) \<and> log_holds W (journal_abs (rs_journal s)) \<and> unat (jr_base (rs_journal s)) \<le> n)"

lemma send_okI:
  assumes "journal_part W n (ep_rs e)" and "unat (rs_pendingAck (ep_rs e)) \<le> n"
    and "length W \<le> unat (MaxSequence :: u64)" and "unat (rs_transmitted (ep_rs e)) \<le> length W"
    and "\<And>p. r p \<le> n \<and> prefix (c p) (drop (r p) W) \<and> (p \<notin> att \<longrightarrow> c p = [])"
    and "\<And>p. rs_physical (ep_rs e) = Some p \<Longrightarrow>
           p \<in> att \<and> (\<not> writing_on p (ep_writer e) \<longrightarrow> r p + length (c p) = unat (rs_transmitted (ep_rs e)))"
    and "writer_ok W r c att n (ep_rs e) (ep_writer e)"
    and "replacer_ok W r c att (ep_rs e) (ep_writer e) (ep_replacer e)"
  shows "send_ok W r c att n e"
  unfolding send_ok_def using assms(1) [unfolded journal_part_def] assms(2-5,7,8) by (intro conjI allI impI assms(6)) simp_all

lemma send_okD:
  assumes "send_ok W r c att n e"
  shows "journal_part W n (ep_rs e)" and "unat (rs_pendingAck (ep_rs e)) \<le> n"
    and "length W \<le> unat (MaxSequence :: u64)" and "unat (rs_transmitted (ep_rs e)) \<le> length W"
    and "r p \<le> n \<and> prefix (c p) (drop (r p) W) \<and> (p \<notin> att \<longrightarrow> c p = [])"
    and "rs_physical (ep_rs e) = Some p \<Longrightarrow>
           p \<in> att \<and> (\<not> writing_on p (ep_writer e) \<longrightarrow> r p + length (c p) = unat (rs_transmitted (ep_rs e)))"
    and "writer_ok W r c att n (ep_rs e) (ep_writer e)"
    and "replacer_ok W r c att (ep_rs e) (ep_writer e) (ep_replacer e)"
  using assms unfolding send_ok_def journal_part_def by blast+

lemma send_ok_core:
  assumes ok: "send_ok W r c att n e" and w: "ep_writer e' = ep_writer e"
    and q: "ep_replacer e' = ep_replacer e \<or> ep_replacer e' = PIdle"
    and tr: "rs_transmitted (ep_rs e') = rs_transmitted (ep_rs e)"
    and ph: "rs_physical (ep_rs e') = rs_physical (ep_rs e) \<or> rs_physical (ep_rs e') = None"
    and j: "journal_part W n' (ep_rs e')" and pend: "unat (rs_pendingAck (ep_rs e')) \<le> n'" and n: "n \<le> n'"
  shows "send_ok W r c att n' e'"
proof (rule send_okI [OF j pend])
  fix p
  show "r p \<le> n' \<and> prefix (c p) (drop (r p) W) \<and> (p \<notin> att \<longrightarrow> c p = [])"
    using send_okD(5) [OF ok, of p] n by auto
  show "p \<in> att \<and> (\<not> writing_on p (ep_writer e') \<longrightarrow> r p + length (c p) = unat (rs_transmitted (ep_rs e')))"
    if "rs_physical (ep_rs e') = Some p"
    using send_okD(6) [OF ok, of p] ph that by (simp add: w tr)
next
  show "replacer_ok W r c att (ep_rs e') (ep_writer e') (ep_replacer e')"
    using q replacer_ok_frame [OF send_okD(8) [OF ok] ph] by (auto simp: w)
qed (use send_okD(3,4) [OF ok] writer_ok_frame [OF send_okD(7) [OF ok] tr ph n] in \<open>simp_all add: w tr\<close>)

lemma send_ok_frame:
  assumes "send_ok W r c att n e" and "ep_writer e' = ep_writer e" and "ep_replacer e' = ep_replacer e \<or> ep_replacer e' = PIdle"
    and "rs_journal (ep_rs e') = rs_journal (ep_rs e)" and "rs_closed (ep_rs e') = rs_closed (ep_rs e)"
    and "rs_transmitted (ep_rs e') = rs_transmitted (ep_rs e)" and "rs_pendingAck (ep_rs e') = rs_pendingAck (ep_rs e)"
    and "rs_physical (ep_rs e') = rs_physical (ep_rs e) \<or> rs_physical (ep_rs e') = None"
  shows "send_ok W r c att n e'"
  by (rule send_ok_core [OF assms(1-3,6,8)])
     (use send_okD(1,2) [OF assms(1)] assms(4,5,7,8) in \<open>auto simp: journal_part_def\<close>)

lemma send_ok_mono: "send_ok W r c att n e \<Longrightarrow> n \<le> n' \<Longrightarrow> send_ok W r c att n' e"
  by (rule send_ok_core, assumption)
     (auto dest: send_okD(1,2) simp: journal_part_def split: if_splits)

lemma recv_ok_frame:
  assumes "recv_ok W r c att k D e" and "ep_reader e' = ep_reader e"
    and "replaced_link (ep_replacer e') = replaced_link (ep_replacer e) \<or> replaced_link (ep_replacer e') = None"
    and "rs_receiveOffset (ep_rs e') = rs_receiveOffset (ep_rs e)" and "rs_discard (ep_rs e') = rs_discard (ep_rs e)"
    and "rs_physical (ep_rs e') = rs_physical (ep_rs e) \<or> rs_physical (ep_rs e') = None"
  shows "recv_ok W r c att k D e'"
proof -
  have "replaced_link (ep_replacer e) = Some (p, st)" if "replaced_link (ep_replacer e') = Some (p, st)" for p st
    using assms(3) that by auto
  moreover have "rs_physical (ep_rs e) = Some p" if "rs_physical (ep_rs e') = Some p" for p
    using assms(6) that by auto
  ultimately show ?thesis using assms(1) unfolding recv_ok_def assms(2,4,5) by blast
qed

lemma replacing_detached:
  assumes "send_ok W r c att n e" and "replaced_link (ep_replacer e) \<noteq> None"
  shows "rs_physical (ep_rs e) = None"
  using assms by (cases "ep_replacer e") (auto simp: send_ok_def)

lemma send_ok_set_journal:
  assumes ok: "send_ok W r c att n e"
    and "rs_closed (ep_rs e) \<Longrightarrow> jr_closed j"
    and "\<not> rs_closed (ep_rs e) \<Longrightarrow> journal_ok j \<and> log_holds W (journal_abs j) \<and> unat (jr_base j) \<le> n"
  shows "send_ok W r c att n (e\<lparr>ep_rs := (ep_rs e)\<lparr>rs_journal := j\<rparr>\<rparr>)"
  by (rule send_ok_core [OF ok])
     (use send_okD(1,2) [OF ok] assms(2,3) in \<open>simp_all add: journal_part_def split: if_splits\<close>)

lemma ackJournal_send:
  assumes ok: "send_ok W r c att n e" and ak: "ackJournal offset d (ep_rs e) = (err, s')" and le: "unat offset \<le> n"
  shows "send_ok W r c att n (e\<lparr>ep_rs := s'\<rparr>)"
proof (cases "d \<and> offset \<le> js_BaseOffset (Journal_State (rs_journal (ep_rs e)))")
  case True
  then have "s' = ep_rs e" using ak by (simp add: ackJournal_def)
  then show ?thesis using ok by simp
next
  case False
  obtain x j where j: "Journal_Ack offset (rs_journal (ep_rs e)) = (x, j)" by fastforce
  then have s': "s' = (ep_rs e)\<lparr>rs_journal := j\<rparr>" using ak False by (simp add: ackJournal_def)
  show ?thesis unfolding s'
  proof (rule send_ok_set_journal [OF ok])
    assume "rs_closed (ep_rs e)"
    then have "jr_closed (rs_journal (ep_rs e))" using ok by (simp add: send_ok_def)
    then show "jr_closed j" using j by (simp add: Journal_Ack_def)
  next
    assume "\<not> rs_closed (ep_rs e)"
    then have g: "journal_ok (rs_journal (ep_rs e))" "log_holds W (journal_abs (rs_journal (ep_rs e)))"
      "unat (jr_base (rs_journal (ep_rs e))) \<le> n" using ok by (simp_all add: send_ok_def)
    show "journal_ok j \<and> log_holds W (journal_abs j) \<and> unat (jr_base j) \<le> n"
    proof (cases x)
      case None
      then show ?thesis using journal.ack_holds [OF g(1,2) j] le by simp
    next
      case (Some y)
      then have "journal_abs j = journal_abs (rs_journal (ep_rs e))" using journal.ack_holds [OF g(1,2) j] by simp
      then have "log_base (journal_abs j) = log_base (journal_abs (rs_journal (ep_rs e)))" by simp
      then show ?thesis using journal.ack_holds [OF g(1,2) j] g(3) by simp
    qed
  qed
qed

lemma markUnavailable_send:
  "send_ok W r c att n e \<Longrightarrow> send_ok W r c att n (e\<lparr>ep_rs := markUnavailable p (ep_rs e)\<rparr>)"
  by (erule send_ok_frame) (simp_all add: markUnavailable_def)

lemma writer_set:
  assumes "send_ok W r c att n e" and "writer_ok W r c att n (ep_rs e) w"
    and "\<And>p. writing_on p w = writing_on p (ep_writer e)"
  shows "send_ok W r c att n (e\<lparr>ep_writer := w\<rparr>)"
proof -
  have "replacer_ok W r c att (ep_rs e) w (ep_replacer e)"
    using assms(1,3) by (cases "ep_replacer e") (simp_all add: send_ok_def)
  then show ?thesis using assms by (simp add: send_ok_def)
qed

lemma write_select_send:
  assumes ok: "send_ok W r c att n e" and w: "ep_writer e = WLoop pl a b"
  shows "send_ok W r c att n (e\<lparr>ep_writer := writer_next pl a b (write_select cancelled (length pl) a b (ep_rs e))\<rparr>)"
proof -
  have "range_ok W pl a b" using ok w by (simp add: send_ok_def)
  then have "writer_ok W r c att n (ep_rs e) (writer_next pl a b (write_select cancelled (length pl) a b (ep_rs e)))"
    and "\<not> writing_on p (writer_next pl a b (write_select cancelled (length pl) a b (ep_rs e)))" for p
    by (auto simp: write_select_def waitPhysical_def not_less split: option.splits)
  then show ?thesis using w by (intro writer_set [OF ok]) simp_all
qed

lemma write_attempt_send:
  assumes ok: "send_ok W r c att n e" and w: "ep_writer e = WTry pl a b p t"
    and at: "write_attempt a b p t (ep_rs e) = (st, s')"
  shows "send_ok W r c att n (e\<lparr>ep_rs := s', ep_writer := writer_next pl a b st\<rparr>)"
proof (cases "rs_closed (ep_rs e) \<or> rs_physical (ep_rs e) \<noteq> Some p \<or> rs_transmitted (ep_rs e) \<noteq> t")
  case True
  then have "s' = ep_rs e" "writer_ok W r c att n (ep_rs e) (writer_next pl a b st)" "\<And>q. \<not> writing_on q (writer_next pl a b st)"
    using at ok w by (auto simp: write_attempt_def send_ok_def split: if_splits)
  then show ?thesis using writer_set [OF ok, of "writer_next pl a b st"] w by simp
next
  case False
  then have st: "st = WriteAttempts p t"
    and s': "s' = (ep_rs e)\<lparr>rs_writeAttemptEnd := b, rs_writeAttemptDone := True\<rparr>"
    using at by (auto simp: write_attempt_def)
  have nr: "replaced_link (ep_replacer e) = None"
    using replacing_detached [OF ok] False by (cases "replaced_link (ep_replacer e)") simp_all
  then have nr': "ep_replacer e = PIdle" by (cases "ep_replacer e") simp_all
  have "range_ok W pl a b" "a \<le> t" "t < b" "p \<in> att" "r p + length (c p) = unat t"
    using ok w False by (auto simp: send_ok_def)
  moreover from this have "unat t \<le> length W" by (simp add: range_ok_def word_less_nat_alt)
  ultimately have "writer_ok W r c att n s' (WWrite pl a b p t 0)" using False by (simp add: s')
  then show ?thesis using ok w False nr' \<open>p \<in> att\<close> unfolding st by (simp add: send_ok_def s')
qed

text \<open>The accounting after a physical write that really took \<open>k\<close> bytes.\<close>

definition still_current :: "nat \<Rightarrow> u64 \<Rightarrow> ResumableStream \<Rightarrow> bool" where
  "still_current p t s \<longleftrightarrow> \<not> rs_closed s \<and> (rs_physical s = Some p \<or> rs_physical s = None) \<and> rs_transmitted s = t"

lemma write_returned_fields:
  assumes k: "k \<le> remaining" and t: "unat t + k \<le> unat (MaxSequence :: u64)"
    and ret: "write_returned remaining p t (int k) err s = (res, s')"
  shows "rs_transmitted s' = (if still_current p t s then t + of_nat k else rs_transmitted s)"
    and "rs_journal s' = rs_journal s" "rs_closed s' = rs_closed s" "rs_physical s' = rs_physical s"
    "rs_receiveOffset s' = rs_receiveOffset s" "rs_discard s' = rs_discard s"
    "rs_pendingAck s' = rs_pendingAck s \<or> rs_pendingAck s' = 0"
    "ar_deferredAck res = rs_pendingAck s \<or> ar_deferredAck res = 0"
proof -
  have "unat (of_nat k :: u64) = k" using t by (intro unat_of_nat_small) simp
  moreover have "t \<le> MaxSequence" using t by (simp add: word_le_nat_alt)
  then have "unat (MaxSequence - t) = unat (MaxSequence :: u64) - unat t" by (rule unat_sub)
  ultimately have no: "\<not> of_nat k > MaxSequence - t" using t by (simp add: word_less_nat_alt)
  have rng: "\<not> (int k < 0 \<or> int k > int remaining)" using k by simp
  define s1 where "s1 = (if still_current p t s then s\<lparr>rs_transmitted := rs_transmitted s + of_nat k\<rparr> else s)"
  have s': "s' = (if rs_writeAttemptEnd s1 \<noteq> 0
      then s1\<lparr>rs_writeAttemptEnd := 0, rs_writeAttemptDone := False, rs_pendingAck := 0\<rparr> else s1)"
    and res: "ar_deferredAck res = (if (rs_writeAttemptEnd s1 \<noteq> 0 \<and> rs_pendingAck s1 \<noteq> 0) \<and> rs_pendingAck s1 \<le> rs_transmitted s1
      then rs_pendingAck s1 else 0)"
  proof (atomize(full), cases "still_current p t s")
    case True
    then have cur: "\<not> rs_closed s \<and> (rs_physical s = Some p \<or> rs_physical s = None) \<and> rs_transmitted s = t"
      by (simp add: still_current_def)
    then have c': "rs_transmitted s = t" by simp
    have "s1 = s\<lparr>rs_transmitted := rs_transmitted s + of_nat k\<rparr>" using True by (simp add: s1_def)
    then show "s' = (if rs_writeAttemptEnd s1 \<noteq> 0
      then s1\<lparr>rs_writeAttemptEnd := 0, rs_writeAttemptDone := False, rs_pendingAck := 0\<rparr> else s1)
      \<and> ar_deferredAck res = (if (rs_writeAttemptEnd s1 \<noteq> 0 \<and> rs_pendingAck s1 \<noteq> 0) \<and> rs_pendingAck s1 \<le> rs_transmitted s1
      then rs_pendingAck s1 else 0)"
      using ret no cur unfolding write_returned_def Let_def by (simp only: rng c' if_False if_True prod.case nat_int) auto
  next
    case False
    then have nc: "(\<not> rs_closed s \<and> (rs_physical s = Some p \<or> rs_physical s = None) \<and> rs_transmitted s = t) = False"
      by (simp add: still_current_def)
    have "s1 = s" using False by (simp add: s1_def)
    then show "s' = (if rs_writeAttemptEnd s1 \<noteq> 0
      then s1\<lparr>rs_writeAttemptEnd := 0, rs_writeAttemptDone := False, rs_pendingAck := 0\<rparr> else s1)
      \<and> ar_deferredAck res = (if (rs_writeAttemptEnd s1 \<noteq> 0 \<and> rs_pendingAck s1 \<noteq> 0) \<and> rs_pendingAck s1 \<le> rs_transmitted s1
      then rs_pendingAck s1 else 0)"
      using ret unfolding write_returned_def Let_def by (simp only: rng nc simp_thms if_False if_True prod.case nat_int) auto
  qed
  have s1: "rs_transmitted s1 = (if still_current p t s then t + of_nat k else rs_transmitted s)"
    "rs_journal s1 = rs_journal s" "rs_closed s1 = rs_closed s" "rs_physical s1 = rs_physical s"
    "rs_receiveOffset s1 = rs_receiveOffset s" "rs_discard s1 = rs_discard s" "rs_pendingAck s1 = rs_pendingAck s"
    by (auto simp: s1_def still_current_def)
  show "rs_transmitted s' = (if still_current p t s then t + of_nat k else rs_transmitted s)"
    "rs_journal s' = rs_journal s" "rs_closed s' = rs_closed s" "rs_physical s' = rs_physical s"
    "rs_receiveOffset s' = rs_receiveOffset s" "rs_discard s' = rs_discard s"
    "rs_pendingAck s' = rs_pendingAck s \<or> rs_pendingAck s' = 0"
    "ar_deferredAck res = rs_pendingAck s \<or> ar_deferredAck res = 0"
    unfolding s' res using s1 by simp_all
qed

lemma write_returned_send:
  assumes ok: "send_ok W r c att n e" and w: "ep_writer e = WWrite pl a b p t k"
    and ret: "write_returned (length pl - unat (t - a)) p t (int k) err (ep_rs e) = (res, s')"
  shows "send_ok W r c att n (e\<lparr>ep_rs := s', ep_writer := WEnd pl a b p res\<rparr>)"
proof -
  let ?s = "ep_rs e"
  have wk: "range_ok W pl a b" "a \<le> t" "p \<in> att" "unat t + k \<le> length W" "r p + length (c p) = unat t + k"
    "rs_physical ?s = Some p \<longrightarrow> rs_transmitted ?s = t" and max: "length W \<le> unat (MaxSequence :: u64)"
    and tr: "unat (rs_transmitted ?s) \<le> length W" and pend: "unat (rs_pendingAck ?s) \<le> n"
    using ok w by (simp_all add: send_ok_def)
  have sub: "unat (t - a) = unat t - unat a" "unat a \<le> unat t" using wk(2) by (simp_all add: unat_sub word_le_nat_alt)
  have k: "k \<le> length pl - unat (t - a)" using wk(1,4) sub unfolding range_ok_def by linarith
  have tk: "unat t + k \<le> unat (MaxSequence :: u64)" using wk(4) max by linarith
  note f = write_returned_fields [OF k tk ret]
  have kk: "unat (of_nat k :: u64) = k" using tk by (intro unat_of_nat_small) simp
  have moved: "unat (t + of_nat k) = unat t + k" using tk kk by (subst unat_add_nowrap) simp_all
  have a1: "unat (rs_transmitted s') \<le> length W" using f(1) moved tr wk(4) by (simp split: if_splits)
  have a2: "q \<in> att \<and> r q + length (c q) = unat (rs_transmitted s')" if q: "rs_physical ?s = Some q" for q
  proof (cases "q = p")
    case True
    then have "\<not> rs_closed ?s" using ok q by (auto simp: send_ok_def)
    then have "still_current p t ?s" using wk(6) q True by (simp add: still_current_def)
    then show ?thesis using f(1) moved wk(3,5) True by simp
  next
    case False
    then have "\<not> still_current p t ?s" using q by (simp add: still_current_def)
    moreover have "\<not> writing_on q (ep_writer e)" using w False by simp
    ultimately show ?thesis using f(1) ok q by (simp add: send_ok_def)
  qed
  have a3: "replacer_ok W r c att s' (WEnd pl a b p res) (ep_replacer e)"
    using ok f(4) by (cases "ep_replacer e") (simp_all add: send_ok_def)
  have a4: "unat (rs_pendingAck s') \<le> n" "unat (ar_deferredAck res) \<le> n" using f(7,8) pend by auto
  have a5: "journal_part W n s'" using send_okD(1) [OF ok] by (simp add: journal_part_def f(2-4))
  show ?thesis
    by (rule send_okI) (use a1 a2 a3 a4 a5 wk(1) max send_okD(5) [OF ok] f(4) in simp_all)
qed

lemma write_resolve_send:
  assumes ok: "send_ok W r c att n e" and w: "ep_writer e = WEnd pl a b p res"
    and rsv: "write_resolve (length pl) a b p res (ep_rs e) = (st, s')"
  shows "send_ok W r c att n (e\<lparr>ep_rs := s', ep_writer := writer_next pl a b st\<rparr>)"
proof -
  have wk: "range_ok W pl a b" "unat (ar_deferredAck res) \<le> n" using ok w by (simp_all add: send_ok_def)
  obtain err s1 where ak: "(if ar_deferredAck res \<noteq> 0 then ackJournal (ar_deferredAck res) True (ep_rs e) else (None, ep_rs e)) = (err, s1)"
    by fastforce
  have ok1: "send_ok W r c att n (e\<lparr>ep_rs := s1\<rparr>)"
  proof (cases "ar_deferredAck res = 0")
    case True
    then have "s1 = ep_rs e" using ak by simp
    then show ?thesis using ok by simp
  next
    case False
    then show ?thesis using ak wk(2) by (intro ackJournal_send [OF ok]) simp_all
  qed
  have s': "s' = s1" using rsv ak by (auto simp: write_resolve_def Let_def split: option.splits if_splits)
  have "range_ok W pl a b \<Longrightarrow> writer_ok W r c att n s1 (writer_next pl a b st)"
    and "\<not> writing_on q (writer_next pl a b st)" for q
    using rsv ak by (auto simp: write_resolve_def Let_def split: option.splits if_splits)
  then show ?thesis
    using writer_set [OF ok1, of "writer_next pl a b st"] wk(1) w by (simp add: s')
qed

lemma Ack_send:
  assumes ok: "send_ok W r c att n e" and le: "unat offset \<le> n"
  shows "send_ok W r c att n (e\<lparr>ep_rs := snd (Ack offset (ep_rs e))\<rparr>)"
proof (cases "rs_closed (ep_rs e) \<or> offset > rs_transmitted (ep_rs e)")
  case False
  obtain err s' where ak: "ackJournal offset False (ep_rs e) = (err, s')" by fastforce
  then have "snd (Ack offset (ep_rs e)) = s'" using False by (simp add: Ack_def)
  then show ?thesis using ackJournal_send [OF ok ak le] by simp
next
  case True
  define P where "P = rs_pendingAck (snd (Ack offset (ep_rs e)))"
  have "snd (Ack offset (ep_rs e)) = (ep_rs e)\<lparr>rs_pendingAck := P\<rparr>" "P = rs_pendingAck (ep_rs e) \<or> P = offset"
    using True by (auto simp: Ack_def P_def)
  moreover have "unat P \<le> n" using send_okD(2) [OF ok] le calculation(2) by auto
  ultimately show ?thesis
    by (intro send_ok_core [OF ok]) (use send_okD(1) [OF ok] in \<open>simp_all add: journal_part_def\<close>)
qed

lemma Close_send:
  assumes ok: "send_ok W r c att n e"
  shows "send_ok W r c att n (e\<lparr>ep_rs := Resumable_Close (ep_rs e)\<rparr>)"
  by (rule send_ok_core [OF ok])
     (use send_okD(1,2) [OF ok] in \<open>simp_all add: journal_part_def Resumable_Close_def Journal_Close_def\<close>)

lemma replacer_set:
  assumes ok: "send_ok W r c att n e" and q: "replacer_ok W r c att (ep_rs e) (ep_writer e) q"
  shows "send_ok W r c att n (e\<lparr>ep_replacer := q\<rparr>)"
  by (rule send_okI) (use send_okD [OF ok] q in simp_all)

lemma open_journal:
  assumes ok: "send_ok W r c att n e" and "\<not> jr_closed (rs_journal (ep_rs e))"
  shows "\<not> rs_closed (ep_rs e) \<and> journal_ok (rs_journal (ep_rs e)) \<and> log_holds W (journal_abs (rs_journal (ep_rs e)))"
  using send_okD(1) [OF ok] assms(2) by (auto simp: journal_part_def split: if_splits)

lemma Replace_ack_send:
  assumes ok: "send_ok W r c att n e" and q: "ep_replacer e = PAck p st"
    and ak: "Replace_ack st (ep_rs e) = (Inr (stop, room), s')"
  shows "send_ok W r c att n (e\<lparr>ep_rs := s', ep_replacer := PLoop p st stop room (PeerReceiveOffset st)\<rparr>)"
proof -
  have pk: "p \<in> att" "\<not> writing_on p (ep_writer e)" "unat (PeerReceiveOffset st) = r p" "c p = []" "rs_physical (ep_rs e) = None"
    using send_okD(8) [OF ok] q by simp_all
  have aj: "ackJournal (PeerReceiveOffset st) False (ep_rs e) = (None, s')"
    and stop: "stop = jr_end (rs_journal s')"
    using ak by (auto simp: Replace_ack_def Let_def Journal_State_def split: prod.splits option.splits)
  have ok1: "send_ok W r c att n (e\<lparr>ep_rs := s'\<rparr>)"
    using ackJournal_send [OF ok aj] pk(3) send_okD(5) [OF ok, of p] by simp
  have "fst (Journal_Ack (PeerReceiveOffset st) (rs_journal (ep_rs e))) = None"
    using aj by (auto simp: ackJournal_def split: prod.splits)
  then have "\<not> jr_closed (rs_journal (ep_rs e))" by (auto simp: Journal_Ack_def)
  then have "\<not> jr_closed (rs_journal s')"
    using open_journal [OF ok] journal.ack_good [of "rs_journal (ep_rs e)" "PeerReceiveOffset st"] aj
    by (auto simp: ackJournal_def journal_ok_def split: prod.splits)
  then have "journal_ok (rs_journal s')" "log_holds W (journal_abs (rs_journal s'))" using open_journal [OF ok1] by simp_all
  then have "unat stop = length W" using stop log_end_journal log_holds_end by metis
  moreover have "rs_physical s' = None" using ackJournal_frame [OF aj] pk(5) by auto
  ultimately show ?thesis
    using replacer_set [OF ok1, of "PLoop p st stop room (PeerReceiveOffset st)"] pk by simp
qed

lemma Replace_round_send:
  assumes ok: "send_ok W r c att n e" and q: "ep_replacer e = PLoop p st stop room offset"
    and rep: "Journal_Replay offset room (rs_journal (ep_rs e)) = Inr (chunk, f)"
  shows "send_ok W r c att n (e\<lparr>ep_replacer := PWrite p st stop room f chunk 0\<rparr>)"
proof (rule replacer_set [OF ok])
  have pk: "p \<in> att" "\<not> writing_on p (ep_writer e)" "unat stop \<le> length W" "r p + length (c p) = unat offset" "rs_physical (ep_rs e) = None"
    using send_okD(8) [OF ok] q by simp_all
  have "\<not> jr_closed (rs_journal (ep_rs e))" using rep by (auto simp: Journal_Replay_def)
  then have j: "journal_ok (rs_journal (ep_rs e))" "log_holds W (journal_abs (rs_journal (ep_rs e)))"
    using open_journal [OF ok] by simp_all
  have ch: "chunk = take room (drop (unat offset) W)" "unat f = unat offset + length chunk" "unat f \<le> length W"
    using journal.replay_holds [OF j rep] by blast+
  have "chunk = take (length chunk) (drop (unat offset) W)" unfolding ch(1) by (simp add: min_def)
  then show "replacer_ok W r c att (ep_rs e) (ep_writer e) (PWrite p st stop room f chunk 0)"
    using pk ch(2,3) by simp
qed

lemma Replace_chunk_send:
  assumes ok: "send_ok W r c att n e" and q: "ep_replacer e = PWrite p st stop room f chunk (length chunk)"
  shows "send_ok W r c att n (e\<lparr>ep_replacer := PLoop p st stop room f\<rparr>)"
  by (rule replacer_set [OF ok]) (use send_okD(8) [OF ok] q in simp)

lemma Replace_commit_send:
  assumes ok: "send_ok W r c att n e" and q: "ep_replacer e = PCommit p st stop fin"
    and cm: "Replace_commit p st stop fin (ep_rs e) = (err, s')"
  shows "send_ok W r c att n (e\<lparr>ep_rs := s', ep_replacer := PIdle\<rparr>)"
proof (cases "rs_closed (ep_rs e) \<or> rs_physical (ep_rs e) \<noteq> None \<or> ResumeReceiveOffset st > rs_receiveOffset (ep_rs e)")
  case True
  then have "s' = ep_rs e" using cm by (auto simp: Replace_commit_def)
  then show ?thesis using send_ok_frame [OF ok, of "e\<lparr>ep_rs := s', ep_replacer := PIdle\<rparr>"] by simp
next
  case False
  then have s': "s' = (ep_rs e)\<lparr>rs_physical := Some p, rs_transmitted := stop, rs_finTransmitted := fin,
      rs_discard := rs_receiveOffset (ep_rs e) - ResumeReceiveOffset st\<rparr>"
    using cm by (auto simp: Replace_commit_def)
  have pk: "p \<in> att" "\<not> writing_on p (ep_writer e)" "unat stop \<le> length W" "r p + length (c p) = unat stop"
    using send_okD(8) [OF ok] q by simp_all
  have "writer_ok W r c att n s' (ep_writer e)"
    using send_okD(7) [OF ok] pk(2) by (cases "ep_writer e") (simp_all add: s')
  moreover have "journal_part W n s'" using send_okD(1) [OF ok] False by (simp add: journal_part_def s')
  ultimately show ?thesis
    by (intro send_okI) (use send_okD(2,3,5) [OF ok] pk in \<open>simp_all add: s'\<close>)
qed

lemma local_step_send:
  assumes "local_step n e e'" and ok: "send_ok W r c att n e"
  shows "send_ok W r c att n e'"
  using assms(1)
proof cases
  case (w_select pl a b cancelled)
  then show ?thesis using write_select_send [OF ok] by simp
next
  case (w_attempt pl a b p t st s')
  then show ?thesis using write_attempt_send [OF ok] by simp
next
  case (w_returned pl a b p t k err res s')
  then show ?thesis using write_returned_send [OF ok] by simp
next
  case (w_resolve pl a b p res st s')
  then show ?thesis using write_resolve_send [OF ok] by simp
next
  case (w_fail pl a b p)
  have "writer_ok W r c att n (markUnavailable p (ep_rs e)) (WLoop pl a b)"
    using send_okD(7) [OF ok] w_fail by simp
  then show ?thesis using writer_set [OF markUnavailable_send [OF ok, of p], of "WLoop pl a b"] w_fail by simp
next
  case half_close
  then show ?thesis using ok by (auto intro!: send_ok_frame [OF ok] simp: CloseWrite_begin_def)
next
  case (fin_sent p answer)
  then show ?thesis by (auto intro!: send_ok_frame [OF ok] simp: closewrite_returned_def split: option.splits)
next
  case (fail p)
  then show ?thesis using markUnavailable_send [OF ok] by simp
next
  case detach
  then show ?thesis by (auto intro!: send_ok_frame [OF ok] simp: DetachPhysical_def)
next
  case (ack offset)
  then show ?thesis using Ack_send [OF ok] by simp
next
  case close
  then show ?thesis using Close_send [OF ok] by simp
next
  case (r_select cancelled p t room)
  then show ?thesis by (auto intro!: send_ok_frame [OF ok])
next
  case (r_resolve p out err no notifyErr st s')
  then show ?thesis
    by (auto intro!: send_ok_frame [OF ok] simp: read_resolve_def markUnavailable_def Let_def split: if_splits option.splits)
next
  case (r_fail p)
  then show ?thesis by (auto intro!: send_ok_frame [OF ok] simp: markUnavailable_def)
next
  case (p_ack p st stop room s')
  then show ?thesis using Replace_ack_send [OF ok] by simp
next
  case (p_round p st stop room offset chunk following)
  then show ?thesis using Replace_round_send [OF ok] by simp
next
  case (p_chunk p st stop room following chunk)
  then show ?thesis using Replace_chunk_send [OF ok] by simp
next
  case (p_commit p st stop fin err s')
  then show ?thesis using Replace_commit_send [OF ok] by simp
next
  case p_abort
  then show ?thesis by (auto intro!: send_ok_frame [OF ok])
qed

section \<open>The receiving end\<close>

lemma recv_okI:
  assumes "prefix D W" and "unat (rs_receiveOffset (ep_rs e)) = length D" and "rs_discard (ep_rs e) \<le> rs_receiveOffset (ep_rs e)"
    and "\<And>p. k p \<le> length (c p) \<and> (p \<notin> att \<longrightarrow> k p = 0 \<and> \<not> reading_on p (ep_reader e))"
    and "\<And>p. rs_physical (ep_rs e) = Some p \<Longrightarrow>
           p \<in> att \<and> r p + (k p - in_hand p (ep_reader e)) + unat (rs_discard (ep_rs e)) = length D"
    and "reader_ok c k (ep_reader e)"
    and "\<And>p st. replaced_link (ep_replacer e) = Some (p, st) \<Longrightarrow>
           unat (ResumeReceiveOffset st) = r p \<and> k p = 0 \<and> p \<in> att \<and> \<not> reading_on p (ep_reader e)"
  shows "recv_ok W r c att k D e"
  unfolding recv_ok_def using assms(1-4,6) by (intro conjI allI impI assms(5,7)) simp_all

lemma recv_okD:
  assumes "recv_ok W r c att k D e"
  shows "prefix D W" and "unat (rs_receiveOffset (ep_rs e)) = length D" and "rs_discard (ep_rs e) \<le> rs_receiveOffset (ep_rs e)"
    and "k p \<le> length (c p) \<and> (p \<notin> att \<longrightarrow> k p = 0 \<and> \<not> reading_on p (ep_reader e))"
    and "rs_physical (ep_rs e) = Some p \<Longrightarrow>
           p \<in> att \<and> r p + (k p - in_hand p (ep_reader e)) + unat (rs_discard (ep_rs e)) = length D"
    and "reader_ok c k (ep_reader e)"
    and "replaced_link (ep_replacer e) = Some (p, st) \<Longrightarrow>
           unat (ResumeReceiveOffset st) = r p \<and> k p = 0 \<and> p \<in> att \<and> \<not> reading_on p (ep_reader e)"
  using assms unfolding recv_ok_def by blast+

lemma reader_set:
  assumes ok: "recv_ok W r c att k D e" and "\<And>p. in_hand p rd = in_hand p (ep_reader e)" and "reader_ok c k rd"
    and "\<And>p. reading_on p rd \<Longrightarrow> p \<in> att \<and> (\<forall>st. replaced_link (ep_replacer e) \<noteq> Some (p, st))"
  shows "recv_ok W r c att k D (e\<lparr>ep_reader := rd\<rparr>)"
proof (rule recv_okI)
  fix p
  show "k p \<le> length (c p) \<and> (p \<notin> att \<longrightarrow> k p = 0 \<and> \<not> reading_on p (ep_reader (e\<lparr>ep_reader := rd\<rparr>)))"
    using recv_okD(4) [OF ok, of p] assms(4) [of p] by auto
  show "unat (ResumeReceiveOffset st) = r p \<and> k p = 0 \<and> p \<in> att \<and> \<not> reading_on p (ep_reader (e\<lparr>ep_reader := rd\<rparr>))"
    if "replaced_link (ep_replacer (e\<lparr>ep_reader := rd\<rparr>)) = Some (p, st)" for st
    using recv_okD(7) [OF ok, of p st] assms(4) [of p] that by auto
qed (use recv_okD(1-3,5) [OF ok] assms(2,3) in simp_all)

lemma Replace_commit_recv:
  assumes ok: "recv_ok W r c att k D e" and q: "ep_replacer e = PCommit p st stop fin"
    and cm: "Replace_commit p st stop fin (ep_rs e) = (err, s')"
  shows "recv_ok W r c att k D (e\<lparr>ep_rs := s', ep_replacer := PIdle\<rparr>)"
proof (cases "rs_closed (ep_rs e) \<or> rs_physical (ep_rs e) \<noteq> None \<or> ResumeReceiveOffset st > rs_receiveOffset (ep_rs e)")
  case True
  then have "s' = ep_rs e" using cm by (auto simp: Replace_commit_def)
  then show ?thesis using recv_ok_frame [OF ok, of "e\<lparr>ep_rs := s', ep_replacer := PIdle\<rparr>"] by simp
next
  case False
  then have s': "s' = (ep_rs e)\<lparr>rs_physical := Some p, rs_transmitted := stop, rs_finTransmitted := fin,
      rs_discard := rs_receiveOffset (ep_rs e) - ResumeReceiveOffset st\<rparr>"
    and le: "ResumeReceiveOffset st \<le> rs_receiveOffset (ep_rs e)"
    using cm by (auto simp: Replace_commit_def)
  have pk: "unat (ResumeReceiveOffset st) = r p" "k p = 0" "p \<in> att" using recv_okD(7) [OF ok, of p st] q by simp_all
  have sub: "unat (rs_receiveOffset (ep_rs e) - ResumeReceiveOffset st) = length D - r p" "r p \<le> length D"
    using le recv_okD(2) [OF ok] pk(1) by (simp_all add: unat_sub word_le_nat_alt)
  then have "rs_receiveOffset (ep_rs e) - ResumeReceiveOffset st \<le> rs_receiveOffset (ep_rs e)"
    using recv_okD(2) [OF ok] by (simp add: word_le_nat_alt)
  then show ?thesis
    by (intro recv_okI) (use recv_okD(1,2,4,6) [OF ok] sub pk in \<open>simp_all add: s'\<close>)
qed

lemma local_step_recv:
  assumes "local_step n e e'" and ok: "recv_ok W r c att k D e"
    and detached: "replaced_link (ep_replacer e) \<noteq> None \<Longrightarrow> rs_physical (ep_rs e) = None"
    and bounds: "\<And>pl a b p t k'. ep_writer e = WWrite pl a b p t k' \<Longrightarrow>
      k' \<le> length pl - unat (t - a) \<and> unat t + k' \<le> unat (MaxSequence :: u64)"
  shows "recv_ok W r c att k D e'"
  using assms(1)
proof cases
  case (w_attempt pl a b p t st s')
  then show ?thesis by (intro recv_ok_frame [OF ok]) (auto simp: write_attempt_def split: if_splits)
next
  case (w_returned pl a b p t k' err res s')
  have b: "k' \<le> length pl - unat (t - a)" "unat t + k' \<le> unat (MaxSequence :: u64)" using bounds [OF w_returned(2)] by simp_all
  show ?thesis using w_returned(1) write_returned_fields [OF b w_returned(3)] by (intro recv_ok_frame [OF ok]) simp_all
next
  case (w_resolve pl a b p res st s')
  have "\<exists>j. s' = (ep_rs e)\<lparr>rs_journal := j\<rparr>"
  proof (cases "ar_deferredAck res = 0")
    case True
    then have "s' = ep_rs e" using w_resolve(3) by (auto simp: write_resolve_def)
    then show ?thesis by (intro exI [of _ "rs_journal s'"]) simp
  next
    case False
    then obtain er where "ackJournal (ar_deferredAck res) True (ep_rs e) = (er, s')"
      using w_resolve(3) by (auto simp: write_resolve_def split: prod.splits option.splits)
    then show ?thesis by (rule ackJournal_frame)
  qed
  then show ?thesis using w_resolve(1) by (intro recv_ok_frame [OF ok]) auto
next
  case (fin_sent p answer)
  then show ?thesis by (intro recv_ok_frame [OF ok]) (auto simp: closewrite_returned_def split: option.splits)
next
  case (ack offset)
  have "\<exists>j P. snd (Ack offset (ep_rs e)) = (ep_rs e)\<lparr>rs_journal := j, rs_pendingAck := P\<rparr>"
  proof (cases "rs_closed (ep_rs e) \<or> offset > rs_transmitted (ep_rs e)")
    case True
    then show ?thesis
      by (intro exI [of _ "rs_journal (ep_rs e)"] exI [of _ "rs_pendingAck (snd (Ack offset (ep_rs e)))"]) (auto simp: Ack_def)
  next
    case False
    obtain er s' where aj: "ackJournal offset False (ep_rs e) = (er, s')" by fastforce
    obtain j where "s' = (ep_rs e)\<lparr>rs_journal := j\<rparr>" using ackJournal_frame [OF aj] by blast
    then show ?thesis using aj False
      by (intro exI [of _ j] exI [of _ "rs_pendingAck (ep_rs e)"]) (simp add: Ack_def)
  qed
  then show ?thesis using ack(1) by (intro recv_ok_frame [OF ok]) auto
next
  case (r_select cancelled p t room)
  then have ph: "rs_physical (ep_rs e) = Some p" by (auto simp: waitPhysical_def split: if_splits option.splits)
  then have "replaced_link (ep_replacer e) = None"
    using detached by (cases "replaced_link (ep_replacer e)") simp_all
  then show ?thesis
    using r_select ph recv_okD(5) [OF ok] by (auto intro!: reader_set [OF ok])
next
  case (r_resolve p out err no notifyErr st s')
  have s': "rs_receiveOffset s' = rs_receiveOffset (ep_rs e)" "rs_discard s' = rs_discard (ep_rs e)"
    "rs_physical s' = rs_physical (ep_rs e) \<or> rs_physical s' = None"
    using r_resolve(3) by (auto simp: read_resolve_def markUnavailable_def Let_def split: if_splits option.splits)
  have "recv_ok W r c att k D (e\<lparr>ep_reader := RIdle\<rparr>)" using r_resolve(2) by (intro reader_set [OF ok]) simp_all
  then show ?thesis using r_resolve(1) s' by (elim recv_ok_frame) simp_all
next
  case (r_fail p)
  have "recv_ok W r c att k D (e\<lparr>ep_reader := RIdle\<rparr>)" using r_fail(2) by (intro reader_set [OF ok]) simp_all
  then show ?thesis using r_fail(1) by (elim recv_ok_frame) (simp_all add: markUnavailable_def)
next
  case (p_ack p st stop room s')
  have "\<exists>er. ackJournal (PeerReceiveOffset st) False (ep_rs e) = (er, s')"
    using p_ack(3) by (auto simp: Replace_ack_def Let_def split: prod.splits option.splits)
  then obtain j where "s' = (ep_rs e)\<lparr>rs_journal := j\<rparr>" using ackJournal_frame by blast
  then show ?thesis using p_ack by (intro recv_ok_frame [OF ok]) simp_all
next
  case (p_commit p st stop fin err s')
  then show ?thesis using Replace_commit_recv [OF ok] by simp
qed (auto intro!: recv_ok_frame [OF ok] simp: markUnavailable_def CloseWrite_begin_def DetachPhysical_def Resumable_Close_def)

section \<open>Bytes crossing a link\<close>

lemma content_grows:
  assumes "prefix (c p) (drop (r p) W)" and "bs = take i (drop (r p + length (c p)) W)"
  shows "prefix (c p @ bs) (drop (r p) W)"
proof -
  obtain z where z: "drop (r p) W = c p @ z" using assms(1) by (auto simp: prefix_def)
  then have "drop (r p + length (c p)) W = z" by (metis add.commute append_eq_conv_conj drop_drop)
  then show ?thesis using z assms(2) by (simp add: take_is_prefix)
qed

lemma take_segment: "take (length (take i ys)) ys = take i ys"
  by (simp add: min_def)

lemma wire_write_send:
  assumes ok: "send_ok W r c att n e" and w: "ep_writer e = WWrite pl a b p t k"
    and bs: "bs = take i (drop (unat (t - a) + k) pl)"
  shows "send_ok W r (c(p := c p @ bs)) att n (e\<lparr>ep_writer := WWrite pl a b p t (k + length bs)\<rparr>)"
proof -
  have wk: "range_ok W pl a b" "a \<le> t" "t < b" "p \<in> att" "unat t + k \<le> length W" "r p + length (c p) = unat t + k"
    "rs_physical (ep_rs e) = Some p \<longrightarrow> rs_transmitted (ep_rs e) = t"
    using send_okD(7) [OF ok] w by simp_all
  have sub: "unat a + unat (t - a) = unat t" using wk(2) by (simp add: unat_sub word_le_nat_alt)
  have pl: "drop (unat (t - a) + k) pl = drop (unat t + k) W"
    using wk(1) sub by (auto simp: range_ok_def) (metis add.assoc add.commute)
  have bs': "bs = take i (drop (r p + length (c p)) W)" by (simp add: bs pl wk(6))
  then have len: "unat t + (k + length bs) \<le> length W" using wk(5,6) by simp
  have pre: "prefix (c p @ bs) (drop (r p) W)" using send_okD(5) [OF ok, of p] bs' by (intro content_grows) simp_all
  have q: "replacer_ok W r (c(p := c p @ bs)) att (ep_rs e) (WWrite pl a b p t (k + length bs)) (ep_replacer e)"
    using send_okD(8) [OF ok] w by (cases "ep_replacer e") auto
  show ?thesis
    by (rule send_okI) (use send_okD(1-6) [OF ok] wk len pre q w in \<open>auto\<close>)
qed

lemma wire_replay_send:
  assumes ok: "send_ok W r c att n e" and q: "ep_replacer e = PWrite p st stop room f chunk m"
    and bs: "bs = take i (drop m chunk)"
  shows "send_ok W r (c(p := c p @ bs)) att n (e\<lparr>ep_replacer := PWrite p st stop room f chunk (m + length bs)\<rparr>)"
proof -
  have qk: "p \<in> att" "rs_physical (ep_rs e) = None" "\<not> writing_on p (ep_writer e)" "unat stop \<le> length W" "m \<le> length chunk"
    "r p + length (c p) + (length chunk - m) = unat f" "unat f \<le> length W"
    "drop m chunk = take (length chunk - m) (drop (r p + length (c p)) W)"
    using send_okD(8) [OF ok] q by simp_all
  have bs': "bs = take (min i (length chunk - m)) (drop (r p + length (c p)) W)" by (simp add: bs qk(8) min.commute)
  have pre: "prefix (c p @ bs) (drop (r p) W)" using send_okD(5) [OF ok, of p] bs' by (intro content_grows) simp_all
  have len: "length bs \<le> length chunk - m" by (simp add: bs)
  have rest: "drop (m + length bs) chunk = take (length chunk - (m + length bs)) (drop (r p + (length (c p) + length bs)) W)"
  proof -
    have "drop (m + length bs) chunk = drop (length bs) (drop m chunk)" by (simp add: add.commute)
    also have "\<dots> = drop (length bs) (take (length chunk - m) (drop (r p + length (c p)) W))" by (simp only: qk(8))
    finally show ?thesis by (simp add: drop_take ac_simps)
  qed
  have w: "writer_ok W r (c(p := c p @ bs)) att n (ep_rs e) (ep_writer e)"
    using send_okD(7) [OF ok] qk(3) by (cases "ep_writer e") auto
  show ?thesis
    by (rule send_okI) (use send_okD(1-5) [OF ok] qk(1-7) len pre w rest in \<open>auto\<close>)
qed

lemma content_grows_recv:
  assumes ok: "recv_ok W r c att k D e"
  shows "recv_ok W r (c(p := c p @ bs)) att k D e"
proof -
  have "reader_ok (c(p := c p @ bs)) k (ep_reader e)"
    using recv_okD(6) [OF ok] recv_okD(4) [OF ok, of p] by (cases "ep_reader e") auto
  then show ?thesis
    by (intro recv_okI) (use recv_okD(1-5,7) [OF ok] in \<open>auto simp: le_Suc_eq trans_le_add1\<close>)
qed

lemma read_take_recv:
  assumes ok: "recv_ok W r c att k D e" and rd: "ep_reader e = RRead p room"
    and data: "data = take m (drop (k p) (c p))" and m: "m \<le> room"
  shows "recv_ok W r c att (k(p := k p + length data)) D (e\<lparr>ep_reader := RGot p room data err\<rparr>)"
proof -
  have kp: "k p \<le> length (c p)" "p \<in> att" using recv_okD(4) [OF ok, of p] rd by auto
  then have "reader_ok c (k(p := k p + length data)) (RGot p room data err)"
    using data m take_segment [of m "drop (k p) (c p)"] by simp
  moreover have "k p + length data \<le> length (c p)" using kp data by simp
  ultimately show ?thesis
    by (intro recv_okI) (use recv_okD(1-5,7) [OF ok] rd kp in \<open>auto\<close>)
qed

lemma written_grows_send:
  assumes ok: "send_ok W r c att n e" and w: "ep_writer e = WIdle" and wb: "Write_begin pl (ep_rs e) = (Inr (a, b), s')"
  shows "send_ok (W @ pl) r c att n (e\<lparr>ep_rs := s', ep_writer := WLoop pl a b\<rparr>)"
proof -
  obtain j where app: "Journal_Append pl (rs_journal (ep_rs e)) = (Inr (a, b), j)" and nc: "\<not> rs_closed (ep_rs e)"
    and s': "s' = (ep_rs e)\<lparr>rs_journal := j\<rparr>"
    using wb by (auto simp: Write_begin_def split: if_splits prod.splits)
  have g: "journal_ok (rs_journal (ep_rs e))" "log_holds W (journal_abs (rs_journal (ep_rs e)))"
    "unat (jr_base (rs_journal (ep_rs e))) \<le> n" using send_okD(1) [OF ok] nc by (simp_all add: journal_part_def)
  note h = journal.append_holds [OF g(1,2) app]
  have "unat (jr_end j) = length W + length pl"
    using h log_end_journal [of j] log_holds_end [of "W @ pl" "journal_abs j"] by simp
  then have max: "length (W @ pl) \<le> unat (MaxSequence :: u64)" using h by (simp add: journal_ok_def word_le_nat_alt)
  have rng: "range_ok (W @ pl) pl a b" using h by (simp add: range_ok_def)
  have pre: "prefix (c p) (drop (r p) (W @ pl))" for p
    using send_okD(5) [OF ok, of p] by (auto simp: prefix_def)
  have q: "replacer_ok (W @ pl) r c att s' (WLoop pl a b) (ep_replacer e)"
    using send_okD(8) [OF ok] w by (cases "ep_replacer e") (auto simp: s')
  have "journal_part (W @ pl) n s'" using h g(3) nc by (simp add: journal_part_def s')
  then show ?thesis
    by (intro send_okI) (use send_okD(2,4,5,6) [OF ok] max rng pre q w in \<open>auto simp: s'\<close>)
qed

lemma read_returned_fields:
  assumes rr: "read_returned room p (int (length data)) data err s = (st, s')" and room: "length data \<le> room"
  shows "rs_journal s' = rs_journal s" "rs_closed s' = rs_closed s" "rs_physical s' = rs_physical s"
    "rs_transmitted s' = rs_transmitted s" "rs_pendingAck s' = rs_pendingAck s"
  using rr by (auto simp: read_returned_def Let_def split: if_splits)

text \<open>The reader of the current link drops what was delivered before and delivers the rest.\<close>

lemma deliver_current:
  assumes rr: "read_returned room p (int (length data)) data err s = (st, s')" and room: "length data \<le> room"
    and data: "data \<noteq> []" and cur: "\<not> rs_closed s" "rs_physical s = Some p"
    and small: "unat (rs_receiveOffset s) + length data \<le> unat (MaxSequence :: u64) + unat (rs_discard s)"
    and small': "unat (rs_receiveOffset s) \<le> unat (MaxSequence :: u64)" "length data < 2 ^ 64"
  shows "read_bytes st = drop (unat (rs_discard s)) data"
    and "unat (rs_discard s') = unat (rs_discard s) - length data"
    and "unat (rs_receiveOffset s') = unat (rs_receiveOffset s) + length (drop (unat (rs_discard s)) data)"
    and "\<not> (\<exists>q. reading_on q (reader_next p st)) \<and> (\<forall>q. in_hand q (reader_next p st) = 0)"
proof -
  have ld: "unat (of_nat (length data) :: u64) = length data" using small'(2) by (intro unat_of_nat_small) simp
  define d where "d = min (of_nat (length data)) (rs_discard s)"
  have d: "unat d = min (length data) (unat (rs_discard s))"
    using ld by (simp add: d_def min_def word_le_nat_alt)
  define out where "out = drop (unat d) data"
  have out: "out = drop (unat (rs_discard s)) data" by (simp add: out_def d min_def)
  have lo: "unat (of_nat (length out) :: u64) = length out"
    using small'(2) by (intro unat_of_nat_small) (simp add: out)
  have "rs_receiveOffset s \<le> MaxSequence" using small'(1) by (simp add: word_le_nat_alt)
  then have ms: "unat (MaxSequence - rs_receiveOffset s) = unat (MaxSequence :: u64) - unat (rs_receiveOffset s)" by (rule unat_sub)
  have lout: "unat (rs_receiveOffset s) + length out \<le> unat (MaxSequence :: u64)" using small small'(1) by (simp add: out)
  then have no: "\<not> of_nat (length out) > MaxSequence - rs_receiveOffset s" using lo ms by (simp add: word_less_nat_alt)
  have rng: "\<not> (int (length data) < 0 \<or> int (length data) > int room)" using room by simp
  have tk: "take (length data) data = data" by simp
  obtain no' where st: "st = ReadDelivers out err no'"
    and s': "rs_receiveOffset s' = rs_receiveOffset s + of_nat (length out)" "rs_discard s' = rs_discard s - d"
    using rr data cur no rng unfolding read_returned_def
    by (auto simp: Let_def tk d_def [symmetric] out_def)
  show "read_bytes st = drop (unat (rs_discard s)) data" by (simp add: st out)
  have "d \<le> rs_discard s" by (simp add: d_def)
  then show "unat (rs_discard s') = unat (rs_discard s) - length data"
    by (simp add: s'(2) unat_sub d min_def)
  show "unat (rs_receiveOffset s') = unat (rs_receiveOffset s) + length (drop (unat (rs_discard s)) data)"
    unfolding s'(1) out [symmetric] using lo lout by (subst unat_add_nowrap) simp_all
  show "\<not> (\<exists>q. reading_on q (reader_next p st)) \<and> (\<forall>q. in_hand q (reader_next p st) = 0)" by (simp add: st)
qed

lemma deliver_stale:
  assumes rr: "read_returned room p (int (length data)) data err s = (st, s')" and room: "length data \<le> room"
    and "data = [] \<or> rs_closed s \<or> rs_physical s \<noteq> Some p"
  shows "read_bytes st = []" "s' = s" "\<not> (\<exists>q. reading_on q (reader_next p st)) \<and> (\<forall>q. in_hand q (reader_next p st) = 0)"
    "reader_ok c k (reader_next p st)"
  using rr assms(2,3) by (auto simp: read_returned_def Let_def split: if_splits)

lemma reader_next_ok: "reader_ok c k (reader_next p st)"
  by (cases st) simp_all

lemma delivered_prefix:
  assumes D: "prefix D W" and pre: "prefix (c p) (drop (r p) W)" and k: "length data \<le> k p" "k p \<le> length (c p)"
    and data: "data = take (length data) (drop (k p - length data) (c p))"
    and eq: "r p + (k p - length data) + (d :: nat) = length D"
  shows "prefix (D @ drop d data) W"
proof -
  obtain z where z: "drop (r p) W = c p @ z" using pre by (auto simp: prefix_def)
  have "drop (length D) W = drop (k p - length data + d) (drop (r p) W)" by (simp add: eq [symmetric] ac_simps)
  also have "\<dots> = drop d (drop (k p - length data) (c p) @ z)" using k by (simp add: z drop_append add.commute)
  also have "drop (k p - length data) (c p) = data @ drop (k p) (c p)"
    using append_take_drop_id [of "length data" "drop (k p - length data) (c p)"] data k by simp
  finally have "prefix (drop d data) (drop (length D) W)" by (simp add: drop_append)
  moreover have "W = D @ drop (length D) W" using D by (auto simp: prefix_def)
  ultimately show ?thesis by (metis same_prefix_prefix)
qed

lemma deliver_recv:
  assumes ok: "recv_ok W r c att k D e" and rd: "ep_reader e = RGot p room data err"
    and rr: "read_returned room p (int (length data)) data err (ep_rs e) = (st, s')"
    and W: "length W \<le> unat (MaxSequence :: u64)" and pre: "prefix (c p) (drop (r p) W)" and rW: "r p \<le> length W"
    and closed: "rs_closed (ep_rs e) \<Longrightarrow> rs_physical (ep_rs e) = None"
  shows "recv_ok W r c att k (D @ read_bytes st) (e\<lparr>ep_rs := s', ep_reader := reader_next p st\<rparr>)"
proof -
  have rk: "length data \<le> room" "length data \<le> k p" "data = take (length data) (drop (k p - length data) (c p))" "k p \<le> length (c p)"
    using recv_okD(4,6) [OF ok] rd by auto
  show ?thesis
  proof (cases "data = [] \<or> rs_closed (ep_rs e) \<or> rs_physical (ep_rs e) \<noteq> Some p")
    case True
    note f = deliver_stale [OF rr rk(1) True]
    have hand: "in_hand q (ep_reader e) = 0" if "rs_physical (ep_rs e) = Some q" for q
      using True that rd closed by auto
    show ?thesis
      by (rule recv_okI)
         (use recv_okD(1-5,7) [OF ok] f hand reader_next_ok in auto)
  next
    case False
    then have ph: "rs_physical (ep_rs e) = Some p" by simp
    have len: "r p + length (c p) \<le> length W" using pre rW by (auto dest: prefix_length_le)
    have eq: "r p + (k p - length data) + unat (rs_discard (ep_rs e)) = length D" using recv_okD(5) [OF ok ph] rd by simp
    have off: "unat (rs_receiveOffset (ep_rs e)) = length D" by (rule recv_okD(2) [OF ok])
    have DW: "length D \<le> length W" using recv_okD(1) [OF ok] by (rule prefix_length_le)
    have b: "length D + length data \<le> unat (MaxSequence :: u64) + unat (rs_discard (ep_rs e))"
      using eq len rk(2,4) W by linarith
    have "length data < 2 ^ 64" using rk(2,4) len W by simp
    note f = deliver_current [OF rr rk(1) _ _ ph, unfolded off, OF _ _ b _ this]
    have f': "read_bytes st = drop (unat (rs_discard (ep_rs e))) data"
      "unat (rs_discard s') = unat (rs_discard (ep_rs e)) - length data"
      "unat (rs_receiveOffset s') = length D + length (drop (unat (rs_discard (ep_rs e))) data)"
      "\<not> (\<exists>q. reading_on q (reader_next p st))" "\<And>q. in_hand q (reader_next p st) = 0"
      using f False DW W by auto
    have ph': "rs_physical s' = Some p" using read_returned_fields(3) [OF rr rk(1)] ph by simp
    have pD: "prefix (D @ drop (unat (rs_discard (ep_rs e))) data) W"
      by (rule delivered_prefix [of D W c p r data k, OF recv_okD(1) [OF ok] pre rk(2,4,3) eq])
    have dis: "rs_discard s' \<le> rs_receiveOffset s'" using f'(2,3) recv_okD(3) [OF ok] off by (simp add: word_le_nat_alt)
    have cur: "r p + k p + unat (rs_discard s') = length (D @ drop (unat (rs_discard (ep_rs e))) data)"
      using eq f'(2) rk(2) by auto
    show ?thesis
      by (rule recv_okI)
         (use recv_okD(4,7) [OF ok] recv_okD(5) [OF ok ph] f' ph' pD dis cur reader_next_ok in auto)
  qed
qed

lemma written_grows_recv: "recv_ok W r c att k D e \<Longrightarrow> recv_ok (W @ pl) r c att k D e"
  by (auto simp: recv_ok_def prefix_def)

lemma start_send:
  assumes ok: "send_ok W r c att n e" and l: "l \<notin> att" and v: "v \<le> n"
  shows "send_ok W (r(l := v)) c att n e"
proof -
  have c: "c l = []" using send_okD(5) [OF ok, of l] l by simp
  have "writer_ok W (r(l := v)) c att n (ep_rs e) (ep_writer e)"
    using send_okD(7) [OF ok] l by (cases "ep_writer e") auto
  moreover have "replacer_ok W (r(l := v)) c att (ep_rs e) (ep_writer e) (ep_replacer e)"
    using send_okD(8) [OF ok] l by (cases "ep_replacer e") auto
  ultimately show ?thesis
    by (intro send_okI) (use send_okD(1-6) [OF ok] l v c in auto)
qed

lemma start_recv:
  assumes ok: "recv_ok W r c att k D e" and l: "l \<notin> att"
  shows "recv_ok W (r(l := v)) c att k D e"
  by (rule recv_okI) (use recv_okD [OF ok] l in auto)

lemma attach_send:
  assumes ok: "send_ok W r c att n e" and l: "p \<notin> att" and q: "Replace_begin st (ep_rs e) = None"
    and st: "PeerReceiveOffset st = of_nat (r p)" and nW: "n \<le> length W"
  shows "send_ok W r c (insert p att) n (e\<lparr>ep_replacer := PAck p st\<rparr>)"
proof -
  have c: "c p = []" "r p \<le> n" using send_okD(5) [OF ok, of p] l by simp_all
  have "unat (PeerReceiveOffset st) = r p"
    unfolding st using c(2) nW send_okD(3) [OF ok] by (intro unat_of_nat_small) simp
  moreover have nw: "\<not> writing_on p (ep_writer e)" using send_okD(7) [OF ok] l by (cases "ep_writer e") auto
  moreover have "rs_physical (ep_rs e) = None" using q by (auto simp: Replace_begin_def split: if_splits)
  ultimately have "replacer_ok W r c (insert p att) (ep_rs e) (ep_writer e) (PAck p st)" using c by simp
  moreover have "writer_ok W r c (insert p att) n (ep_rs e) (ep_writer e)"
    using send_okD(7) [OF ok] by (cases "ep_writer e") auto
  ultimately show ?thesis
    by (intro send_okI) (use send_okD(1-6) [OF ok] in auto)
qed

lemma attach_recv:
  assumes ok: "recv_ok W r c att k D e" and l: "p \<notin> att" and st: "unat (ResumeReceiveOffset st) = r p"
  shows "recv_ok W r c (insert p att) k D (e\<lparr>ep_replacer := PAck p st\<rparr>)"
  by (rule recv_okI) (use recv_okD(1-6) [OF ok] l st in auto)

section \<open>The invariant of the system\<close>

definition send_at :: "system \<Rightarrow> bool \<Rightarrow> bool" where
  "send_at S x \<longleftrightarrow> send_ok (sys_written S x) (sys_start S x) (sys_content S x) (sys_attached S x)
     (length (sys_delivered S (\<not> x))) (sys_end S x)"

definition recv_at :: "system \<Rightarrow> bool \<Rightarrow> bool" where
  "recv_at S x \<longleftrightarrow> recv_ok (sys_written S (\<not> x)) (sys_start S (\<not> x)) (sys_content S (\<not> x)) (sys_attached S x)
     (sys_taken S x) (sys_delivered S x) (sys_end S x)"

definition system_ok :: "system \<Rightarrow> bool" where
  "system_ok S \<longleftrightarrow> (\<forall>x. send_at S x \<and> recv_at S x \<and> (\<forall>p\<in>sys_attached S x. p < sys_links S))"

lemma both_sides: "(\<forall>y :: bool. P y) \<longleftrightarrow> P x \<and> P (\<not> x)"
  by (cases x) (auto intro: bool.induct)

lemma system_okI:
  assumes "send_at S x" "send_at S (\<not> x)" "recv_at S x" "recv_at S (\<not> x)"
    and "\<And>y p. p \<in> sys_attached S y \<Longrightarrow> p < sys_links S"
  shows "system_ok S"
  unfolding system_ok_def by (subst both_sides [of _ x]) (use assms in simp)

lemma system_okD:
  assumes "system_ok S"
  shows "send_at S x" "recv_at S x" "p \<in> sys_attached S x \<Longrightarrow> p < sys_links S"
  using assms by (simp_all add: system_ok_def)

lemma writer_bounds:
  assumes "send_ok W r c att n e" and "ep_writer e = WWrite pl a b p t k"
  shows "k \<le> length pl - unat (t - a) \<and> unat t + k \<le> unat (MaxSequence :: u64)"
proof -
  have "range_ok W pl a b" "a \<le> t" "unat t + k \<le> length W" "length W \<le> unat (MaxSequence :: u64)"
    using send_okD(3,7) [OF assms(1)] assms(2) by simp_all
  moreover have "unat (t - a) = unat t - unat a" "unat a \<le> unat t"
    using calculation(2) by (simp_all add: unat_sub word_le_nat_alt)
  ultimately show ?thesis unfolding range_ok_def by linarith
qed

lemma put_simps [simp]:
  "sys_end (put x e S) = (sys_end S)(x := e)" "sys_content (put x e S) = sys_content S" "sys_taken (put x e S) = sys_taken S"
  "sys_start (put x e S) = sys_start S" "sys_links (put x e S) = sys_links S" "sys_attached (put x e S) = sys_attached S"
  "sys_written (put x e S) = sys_written S" "sys_delivered (put x e S) = sys_delivered S" "sys_overrun (put x e S) = sys_overrun S"
  by (simp_all add: put_def)

lemma carry_simps [simp]:
  "sys_content (carry x p bs S) = (sys_content S)(x := (sys_content S x)(p := sys_content S x p @ bs))"
  "sys_end (carry x p bs S) = sys_end S" "sys_taken (carry x p bs S) = sys_taken S" "sys_start (carry x p bs S) = sys_start S"
  "sys_links (carry x p bs S) = sys_links S" "sys_attached (carry x p bs S) = sys_attached S"
  "sys_written (carry x p bs S) = sys_written S" "sys_delivered (carry x p bs S) = sys_delivered S"
  "sys_overrun (carry x p bs S) = sys_overrun S"
  by (simp_all add: carry_def)

lemma rstep_overrun: "rstep S S' \<Longrightarrow> sys_overrun S \<Longrightarrow> sys_overrun S'"
  by (erule rstep.cases) simp_all

lemma delivered_bound:
  assumes "system_ok S"
  shows "length (sys_delivered S (\<not> x)) \<le> length (sys_written S x)"
  using recv_okD(1) [OF system_okD(2) [OF assms, of "\<not> x", unfolded recv_at_def]] by (auto dest: prefix_length_le)

lemma system_raw:
  assumes "system_ok S"
  shows "send_ok (sys_written S x) (sys_start S x) (sys_content S x) (sys_attached S x) (length (sys_delivered S (\<not> x))) (sys_end S x)"
    and "send_ok (sys_written S (\<not> x)) (sys_start S (\<not> x)) (sys_content S (\<not> x)) (sys_attached S (\<not> x)) (length (sys_delivered S x)) (sys_end S (\<not> x))"
    and "recv_ok (sys_written S (\<not> x)) (sys_start S (\<not> x)) (sys_content S (\<not> x)) (sys_attached S x) (sys_taken S x) (sys_delivered S x) (sys_end S x)"
    and "recv_ok (sys_written S x) (sys_start S x) (sys_content S x) (sys_attached S (\<not> x)) (sys_taken S (\<not> x)) (sys_delivered S (\<not> x)) (sys_end S (\<not> x))"
  using system_okD(1,2) [OF assms, of x] system_okD(1,2) [OF assms, of "\<not> x"] by (simp_all add: send_at_def recv_at_def)

lemma system_rawI:
  assumes "send_ok (sys_written S x) (sys_start S x) (sys_content S x) (sys_attached S x) (length (sys_delivered S (\<not> x))) (sys_end S x)"
    and "send_ok (sys_written S (\<not> x)) (sys_start S (\<not> x)) (sys_content S (\<not> x)) (sys_attached S (\<not> x)) (length (sys_delivered S x)) (sys_end S (\<not> x))"
    and "recv_ok (sys_written S (\<not> x)) (sys_start S (\<not> x)) (sys_content S (\<not> x)) (sys_attached S x) (sys_taken S x) (sys_delivered S x) (sys_end S x)"
    and "recv_ok (sys_written S x) (sys_start S x) (sys_content S x) (sys_attached S (\<not> x)) (sys_taken S (\<not> x)) (sys_delivered S (\<not> x)) (sys_end S (\<not> x))"
    and "\<forall>y. \<forall>p\<in>sys_attached S y. p < sys_links S"
  shows "system_ok S"
  by (rule system_okI [of _ x]) (use assms in \<open>simp_all add: send_at_def recv_at_def\<close>)

lemma other_side [simp]: "(f(x := v)) (\<not> x) = f (\<not> x)"
  by (cases x) simp_all

lemma local_system_ok:
  assumes ok: "system_ok S" and st: "local_step (length (sys_delivered S (\<not> x))) (sys_end S x) e'"
  shows "system_ok (put x e' S)"
proof -
  note raw = system_raw [OF ok, of x]
  have "recv_ok (sys_written S (\<not> x)) (sys_start S (\<not> x)) (sys_content S (\<not> x)) (sys_attached S x) (sys_taken S x) (sys_delivered S x) e'"
    by (rule local_step_recv [OF st raw(3)]) (erule replacing_detached [OF raw(1)], erule writer_bounds [OF raw(1)])
  then show ?thesis
    by (intro system_rawI [of _ x]) (use raw local_step_send [OF st raw(1)] ok in \<open>simp_all add: system_ok_def\<close>)
qed

lemma write_call_system_ok:
  assumes ok: "system_ok S" and w: "ep_writer (sys_end S x) = WIdle" and wb: "Write_begin pl (ep_rs (sys_end S x)) = (Inr (a, b), s')"
  shows "system_ok (put x ((sys_end S x)\<lparr>ep_rs := s', ep_writer := WLoop pl a b\<rparr>)
               (S\<lparr>sys_written := (sys_written S)(x := sys_written S x @ pl)\<rparr>))"
proof -
  note raw = system_raw [OF ok, of x]
  have "rs_receiveOffset s' = rs_receiveOffset (ep_rs (sys_end S x))" "rs_discard s' = rs_discard (ep_rs (sys_end S x))"
    "rs_physical s' = rs_physical (ep_rs (sys_end S x))"
    using wb by (auto simp: Write_begin_def split: if_splits prod.splits)
  then have "recv_ok (sys_written S (\<not> x)) (sys_start S (\<not> x)) (sys_content S (\<not> x)) (sys_attached S x) (sys_taken S x)
      (sys_delivered S x) ((sys_end S x)\<lparr>ep_rs := s', ep_writer := WLoop pl a b\<rparr>)"
    by (intro recv_ok_frame [OF raw(3)]) simp_all
  then show ?thesis
    by (intro system_rawI [of _ x])
       (use raw written_grows_send [OF raw(1) w wb] written_grows_recv [OF raw(4), of pl] ok in \<open>simp_all add: system_ok_def\<close>)
qed

lemma wire_write_system_ok:
  assumes ok: "system_ok S" and w: "ep_writer (sys_end S x) = WWrite pl a b p t k"
    and bs: "bs = take i (drop (unat (t - a) + k) pl)"
  shows "system_ok (put x ((sys_end S x)\<lparr>ep_writer := WWrite pl a b p t (k + length bs)\<rparr>) (carry x p bs S))"
proof -
  note raw = system_raw [OF ok, of x]
  have "recv_ok (sys_written S (\<not> x)) (sys_start S (\<not> x)) (sys_content S (\<not> x)) (sys_attached S x) (sys_taken S x)
      (sys_delivered S x) ((sys_end S x)\<lparr>ep_writer := WWrite pl a b p t (k + length bs)\<rparr>)"
    by (intro recv_ok_frame [OF raw(3)]) simp_all
  then show ?thesis
    by (intro system_rawI [of _ x])
       (use raw wire_write_send [OF raw(1) w bs] content_grows_recv [OF raw(4), of p bs] ok in \<open>simp_all add: system_ok_def\<close>)
qed

lemma wire_replay_system_ok:
  assumes ok: "system_ok S" and q: "ep_replacer (sys_end S x) = PWrite p st stop room f chunk m"
    and bs: "bs = take i (drop m chunk)"
  shows "system_ok (put x ((sys_end S x)\<lparr>ep_replacer := PWrite p st stop room f chunk (m + length bs)\<rparr>) (carry x p bs S))"
proof -
  note raw = system_raw [OF ok, of x]
  have "recv_ok (sys_written S (\<not> x)) (sys_start S (\<not> x)) (sys_content S (\<not> x)) (sys_attached S x) (sys_taken S x)
      (sys_delivered S x) ((sys_end S x)\<lparr>ep_replacer := PWrite p st stop room f chunk (m + length bs)\<rparr>)"
    using q by (intro recv_ok_frame [OF raw(3)]) simp_all
  then show ?thesis
    by (intro system_rawI [of _ x])
       (use raw wire_replay_send [OF raw(1) q bs] content_grows_recv [OF raw(4), of p bs] ok in \<open>simp_all add: system_ok_def\<close>)
qed

lemma read_take_system_ok:
  assumes ok: "system_ok S" and rd: "ep_reader (sys_end S x) = RRead p room"
    and data: "data = take m (drop (sys_taken S x p) (sys_content S (\<not> x) p))" and m: "m \<le> room"
  shows "system_ok (put x ((sys_end S x)\<lparr>ep_reader := RGot p room data err\<rparr>)
               (S\<lparr>sys_taken := (sys_taken S)(x := (sys_taken S x)(p := sys_taken S x p + length data))\<rparr>))"
proof -
  note raw = system_raw [OF ok, of x]
  have "send_ok (sys_written S x) (sys_start S x) (sys_content S x) (sys_attached S x) (length (sys_delivered S (\<not> x)))
      ((sys_end S x)\<lparr>ep_reader := RGot p room data err\<rparr>)"
    by (intro send_ok_frame [OF raw(1)]) simp_all
  then show ?thesis
    by (intro system_rawI [of _ x]) (use raw read_take_recv [OF raw(3) rd data m] ok in \<open>simp_all add: system_ok_def\<close>)
qed

lemma deliver_system_ok:
  assumes ok: "system_ok S" and rd: "ep_reader (sys_end S x) = RGot p room data err"
    and rr: "read_returned room p (int (length data)) data err (ep_rs (sys_end S x)) = (st, s')"
  shows "system_ok (put x ((sys_end S x)\<lparr>ep_rs := s', ep_reader := reader_next p st\<rparr>)
               (S\<lparr>sys_delivered := (sys_delivered S)(x := sys_delivered S x @ read_bytes st)\<rparr>))"
proof -
  note raw = system_raw [OF ok, of x]
  have "length data \<le> room" using recv_okD(6) [OF raw(3)] rd by simp
  note f = read_returned_fields [OF rr this]
  have st: "prefix (sys_content S (\<not> x) p) (drop (sys_start S (\<not> x) p) (sys_written S (\<not> x)))"
    "sys_start S (\<not> x) p \<le> length (sys_written S (\<not> x))"
    using send_okD(5) [OF raw(2), of p] delivered_bound [OF ok, of "\<not> x"] by simp_all
  have cl: "rs_closed (ep_rs (sys_end S x)) \<Longrightarrow> rs_physical (ep_rs (sys_end S x)) = None"
    using send_okD(1) [OF raw(1)] by (simp add: journal_part_def)
  have "send_ok (sys_written S x) (sys_start S x) (sys_content S x) (sys_attached S x) (length (sys_delivered S (\<not> x)))
      ((sys_end S x)\<lparr>ep_rs := s', ep_reader := reader_next p st\<rparr>)"
    using f by (intro send_ok_frame [OF raw(1)]) simp_all
  then show ?thesis
    by (intro system_rawI [of _ x])
       (use raw send_ok_mono [OF raw(2), of "length (sys_delivered S x @ read_bytes st)"]
          deliver_recv [OF raw(3) rd rr send_okD(3) [OF raw(2)] st cl] ok in \<open>simp_all add: system_ok_def\<close>)
qed

lemma connect_system_ok:
  assumes ok: "system_ok S" and v: "v True \<le> length (sys_delivered S False)" "v False \<le> length (sys_delivered S True)"
  shows "system_ok (S\<lparr>sys_links := sys_links S + 1, sys_start := (\<lambda>x. (sys_start S x)(sys_links S := v x))\<rparr>)"
proof -
  note raw = system_raw [OF ok, of True]
  have fresh: "sys_links S \<notin> sys_attached S y" for y using system_okD(3) [OF ok, of "sys_links S" y] by blast
  show ?thesis
    by (rule system_rawI [of _ True])
       (use start_send [OF raw(1) fresh, of "v True"] start_send [OF raw(2) fresh, of "v False"] start_recv [OF raw(3) fresh]
          start_recv [OF raw(4) fresh] ok v in \<open>auto simp: system_ok_def intro: less_SucI\<close>)
qed

lemma replace_begin_system_ok:
  assumes ok: "system_ok S" and p: "p < sys_links S" "p \<notin> sys_attached S x"
    and st: "st = \<lparr>PeerReceiveOffset = of_nat (sys_start S x p), ResumeReceiveOffset = of_nat (sys_start S (\<not> x) p)\<rparr>"
    and rb: "Replace_begin st (ep_rs (sys_end S x)) = None"
  shows "system_ok (put x ((sys_end S x)\<lparr>ep_replacer := PAck p st\<rparr>)
               (S\<lparr>sys_attached := (sys_attached S)(x := insert p (sys_attached S x))\<rparr>))"
proof -
  note raw = system_raw [OF ok, of x]
  have "sys_start S (\<not> x) p \<le> unat (MaxSequence :: u64)"
    using send_okD(3) [OF raw(2)] send_okD(5) [OF raw(2), of p] delivered_bound [OF ok, of "\<not> x"] by simp
  then have "unat (ResumeReceiveOffset st) = sys_start S (\<not> x) p"
    unfolding st by (simp add: unat_of_nat_small)
  then show ?thesis
    by (intro system_rawI [of _ x])
       (use raw attach_recv [OF raw(3) p(2)] attach_send [OF raw(1) p(2) rb] delivered_bound [OF ok, of x] ok p(1)
        in \<open>auto simp: system_ok_def st split: if_splits\<close>)
qed

lemma replace_exit_system_ok:
  assumes ok: "system_ok S" and q: "ep_replacer (sys_end S x) = PLoop p st stop room stop"
  shows "system_ok (put x ((sys_end S x)\<lparr>ep_replacer := PCommit p st stop fin\<rparr>) (S\<lparr>sys_overrun := u\<rparr>))"
proof -
  note raw = system_raw [OF ok, of x]
  have "replacer_ok (sys_written S x) (sys_start S x) (sys_content S x) (sys_attached S x) (ep_rs (sys_end S x))
      (ep_writer (sys_end S x)) (PCommit p st stop fin)"
    using send_okD(8) [OF raw(1)] q by simp
  note snd' = replacer_set [OF raw(1) this]
  have "recv_ok (sys_written S (\<not> x)) (sys_start S (\<not> x)) (sys_content S (\<not> x)) (sys_attached S x) (sys_taken S x)
      (sys_delivered S x) ((sys_end S x)\<lparr>ep_replacer := PCommit p st stop fin\<rparr>)"
    using q by (intro recv_ok_frame [OF raw(3)]) simp_all
  then show ?thesis
    by (intro system_rawI [of _ x]) (use raw snd' ok in \<open>simp_all add: system_ok_def\<close>)
qed

lemma rstep_system_ok:
  assumes "rstep S S'" and ok: "system_ok S" and no: "\<not> sys_overrun S'"
  shows "system_ok S'"
  using assms(1)
proof cases
  case (local x e')
  then show ?thesis using local_system_ok [OF ok] by simp
next
  case (write_call x pl a b s')
  then show ?thesis using write_call_system_ok [OF ok] by simp
next
  case (wire_write x pl a b p t k bs i)
  then show ?thesis using wire_write_system_ok [OF ok] by simp
next
  case (wire_replay x p st stop room following chunk m bs i)
  then show ?thesis using wire_replay_system_ok [OF ok] by simp
next
  case (read_take x p room data m err)
  then show ?thesis using read_take_system_ok [OF ok] by simp
next
  case (deliver x p room data err st s')
  then show ?thesis using deliver_system_ok [OF ok] by simp
next
  case (connect v)
  then show ?thesis using connect_system_ok [OF ok] by simp
next
  case (replace_begin x p st)
  then show ?thesis using replace_begin_system_ok [OF ok] by simp
next
  case (replace_exit x p st stop room offset)
  then have "offset = stop" using no by simp
  then show ?thesis unfolding replace_exit(1) using replace_exit(2) by (intro replace_exit_system_ok [OF ok]) simp
qed

section \<open>Small journals never overrun\<close>

definition small :: "endpoint \<Rightarrow> bool" where
  "small e \<longleftrightarrow> length (jr_buffer (rs_journal (ep_rs e))) \<le> 32768"

fun tight :: "replacer \<Rightarrow> bool" where
  "tight (PLoop p st stop room offset) \<longleftrightarrow> offset = stop \<or> unat offset + room = unat stop"
| "tight (PWrite p st stop room f chunk m) \<longleftrightarrow> f = stop"
| "tight _ \<longleftrightarrow> True"

lemma ackJournal_small:
  assumes "send_ok W r c att n e" and "ackJournal offset d (ep_rs e) = (er, s')"
  shows "length (jr_buffer (rs_journal s')) = length (jr_buffer (rs_journal (ep_rs e)))"
proof (cases "jr_closed (rs_journal (ep_rs e))")
  case True
  then show ?thesis using assms(2) by (auto simp: ackJournal_def Journal_Ack_def split: if_splits)
next
  case False
  then have "journal_ok (rs_journal (ep_rs e))" using open_journal [OF assms(1)] by simp
  then have "log_capacity (snd (fst (Journal_Ack offset (rs_journal (ep_rs e))), journal_abs (snd (Journal_Ack offset (rs_journal (ep_rs e))))))
      = log_capacity (snd (log_ack (unat offset) (journal_abs (rs_journal (ep_rs e)))))"
    by (simp only: Journal_Ack_refines)
  then have "length (jr_buffer (snd (Journal_Ack offset (rs_journal (ep_rs e))))) = length (jr_buffer (rs_journal (ep_rs e)))"
    by (simp add: log_ack_def split: if_splits)
  then show ?thesis using assms(2) by (auto simp: ackJournal_def split: if_splits prod.splits)
qed

lemma Replace_ack_tight:
  assumes ok: "send_ok W r c att n e" and sm: "small e" and ak: "Replace_ack st (ep_rs e) = (Inr (stop, room), s')"
  shows "tight (PLoop p st stop room (PeerReceiveOffset st))"
proof -
  obtain j where jk: "Journal_Ack (PeerReceiveOffset st) (rs_journal (ep_rs e)) = (None, j)"
    and stop: "stop = jr_end j" "room = min 32768 (max 1 (jr_size j))" "rs_journal s' = j"
    using ak by (auto simp: Replace_ack_def ackJournal_def Journal_State_def Let_def split: prod.splits option.splits)
  have "\<not> jr_closed (rs_journal (ep_rs e))" using jk by (auto simp: Journal_Ack_def)
  then have "journal_ok (rs_journal (ep_rs e))" using open_journal [OF ok] by simp
  note d = Journal_Ack_data [OF this jk]
  have "unat (jr_base j) + jr_size j = unat (jr_end j)" "jr_base j = PeerReceiveOffset st"
    using d unfolding journal_ok_def by blast+
  then have "unat (PeerReceiveOffset st) + jr_size j = unat stop" by (simp add: stop(1))
  moreover have "jr_size j \<le> 32768" using d sm by (simp add: journal_ok_def small_def)
  ultimately show ?thesis using stop(2) by (cases "jr_size j = 0") (simp_all add: word_unat_eq_iff)
qed

lemma Replace_round_tight:
  assumes ok: "send_ok W r c att n e" and q: "ep_replacer e = PLoop p st stop room offset" and t: "tight (ep_replacer e)"
    and lt: "offset < stop" and rep: "Journal_Replay offset room (rs_journal (ep_rs e)) = Inr (chunk, f)"
  shows "f = stop"
proof -
  have "\<not> jr_closed (rs_journal (ep_rs e))" using rep by (auto simp: Journal_Replay_def)
  then have j: "journal_ok (rs_journal (ep_rs e))" "log_holds W (journal_abs (rs_journal (ep_rs e)))"
    using open_journal [OF ok] by simp_all
  have ch: "chunk = take room (drop (unat offset) W)" "unat f = unat offset + length chunk"
    using journal.replay_holds [OF j rep] by blast+
  have "unat stop \<le> length W" using send_okD(8) [OF ok] q by simp
  moreover have "unat offset + room = unat stop" using t q lt by auto
  ultimately have "length chunk = room" by (simp add: ch(1))
  then show ?thesis using ch(2) \<open>unat offset + room = unat stop\<close> by (simp add: word_unat_eq_iff)
qed

lemma local_step_tight:
  assumes "local_step n e e'" and ok: "send_ok W r c att n e" and sm: "small e" and t: "tight (ep_replacer e)"
  shows "small e' \<and> tight (ep_replacer e')"
  using assms(1)
proof cases
  case (w_attempt pl a b p t st s')
  then show ?thesis using sm t by (auto simp: small_def write_attempt_def split: if_splits)
next
  case (w_returned pl a b p t' k' err res s')
  have b: "k' \<le> length pl - unat (t' - a)" "unat t' + k' \<le> unat (MaxSequence :: u64)" using writer_bounds [OF ok w_returned(2)] by simp_all
  show ?thesis using w_returned(1) write_returned_fields(2) [OF b w_returned(3)] sm t by (simp add: small_def)
next
  case (w_resolve pl a b p res st s')
  show ?thesis
  proof (cases "ar_deferredAck res = 0")
    case True
    then have "s' = ep_rs e" using w_resolve(3) by (auto simp: write_resolve_def)
    then show ?thesis using w_resolve(1) sm t by (simp add: small_def)
  next
    case False
    then obtain er where "ackJournal (ar_deferredAck res) True (ep_rs e) = (er, s')"
      using w_resolve(3) by (auto simp: write_resolve_def split: prod.splits option.splits)
    then show ?thesis using w_resolve(1) ackJournal_small [OF ok] sm t by (simp add: small_def)
  qed
next
  case (fin_sent p answer)
  then show ?thesis using sm t by (auto simp: small_def closewrite_returned_def split: option.splits)
next
  case (ack offset)
  show ?thesis
  proof (cases "rs_closed (ep_rs e) \<or> offset > rs_transmitted (ep_rs e)")
    case True
    then show ?thesis using ack(1) sm t by (auto simp: small_def Ack_def)
  next
    case False
    obtain er s' where aj: "ackJournal offset False (ep_rs e) = (er, s')" by fastforce
    then show ?thesis using ack(1) ackJournal_small [OF ok aj] False sm t by (simp add: small_def Ack_def)
  qed
next
  case (r_resolve p out err no notifyErr st s')
  then show ?thesis
    using sm t by (auto simp: small_def read_resolve_def markUnavailable_def Let_def split: if_splits option.splits)
next
  case (p_ack p st stop room s')
  have "\<exists>er. ackJournal (PeerReceiveOffset st) False (ep_rs e) = (er, s')"
    using p_ack(3) by (auto simp: Replace_ack_def Let_def split: prod.splits option.splits)
  then have "small e'" using p_ack(1) ackJournal_small [OF ok] sm by (auto simp: small_def)
  then show ?thesis using Replace_ack_tight [OF ok sm p_ack(3), of p] p_ack(1) by simp
next
  case (p_round p st stop room offset chunk following)
  then have "following = stop" using Replace_round_tight [OF ok p_round(2) t] by simp
  then show ?thesis using p_round(1) sm by (simp add: small_def)
next
  case (p_chunk p st stop room following chunk)
  then show ?thesis using sm t by (simp add: small_def)
next
  case (p_commit p st stop fin err s')
  then show ?thesis using sm by (auto simp: small_def Replace_commit_def split: if_splits)
qed (use sm t in \<open>auto simp: small_def markUnavailable_def CloseWrite_begin_def DetachPhysical_def Resumable_Close_def Journal_Close_def\<close>)

lemma rstep_small:
  assumes "rstep S S'" and ok: "system_ok S" and sm: "\<And>x. small (sys_end S x) \<and> tight (ep_replacer (sys_end S x))"
    and no: "\<not> sys_overrun S"
  shows "(\<forall>x. small (sys_end S' x) \<and> tight (ep_replacer (sys_end S' x))) \<and> \<not> sys_overrun S'"
  using assms(1)
proof cases
  case (local x e')
  have "small e' \<and> tight (ep_replacer e')" using local_step_tight [OF local(2) system_raw(1) [OF ok, of x]] sm [of x] by blast
  then show ?thesis using sm no unfolding local(1) by simp
next
  case (write_call x pl a b s')
  obtain j where app: "Journal_Append pl (rs_journal (ep_rs (sys_end S x))) = (Inr (a, b), j)"
    and s': "s' = (ep_rs (sys_end S x))\<lparr>rs_journal := j\<rparr>"
    using write_call(4) by (auto simp: Write_begin_def split: if_splits prod.splits)
  have "\<not> jr_closed (rs_journal (ep_rs (sys_end S x)))" using app by (auto simp: Journal_Append_def)
  then have "journal_ok (rs_journal (ep_rs (sys_end S x)))" using open_journal [OF system_raw(1) [OF ok, of x]] by simp
  then have "length (jr_buffer j) = length (jr_buffer (rs_journal (ep_rs (sys_end S x))))" using Journal_Append_data [OF _ app] by simp
  then show ?thesis using sm no unfolding write_call(1) by (auto simp: small_def s')
next
  case (wire_replay x p st stop room following chunk m bs i)
  then show ?thesis using sm [of x] sm no by (auto simp: small_def)
next
  case (deliver x p room data err st s')
  have "length data \<le> room" using recv_okD(6) [OF system_raw(3) [OF ok, of x]] deliver(2) by simp
  then have "rs_journal s' = rs_journal (ep_rs (sys_end S x))" using read_returned_fields(1) [OF deliver(3)] by simp
  then show ?thesis using sm no unfolding deliver(1) by (auto simp: small_def)
next
  case (replace_exit x p st stop room offset)
  have "tight (PLoop p st stop room offset)" using sm [of x] replace_exit(2) by simp
  then have "offset = stop" using replace_exit(3) by (auto simp: word_less_nat_alt word_unat_eq_iff)
  then show ?thesis using sm no unfolding replace_exit(1) by (auto simp: small_def)
qed (use sm no in \<open>auto simp: small_def\<close>)

section \<open>What the stream guarantees\<close>

lemma NewResumableStream_fields:
  assumes "NewResumableStream cfg = Inr s"
  shows "journal_ok (rs_journal s)" "log_holds [] (journal_abs (rs_journal s))" "jr_base (rs_journal s) = 0"
    "rs_physical s = rc_Initial cfg" "rs_transmitted s = 0" "rs_receiveOffset s = 0" "rs_discard s = 0"
    "rs_pendingAck s = 0" "\<not> rs_closed s" "length (jr_buffer (rs_journal s)) = nat (rc_JournalBytes cfg)"
proof -
  obtain j where "NewJournal (rc_JournalBytes cfg) = Inr j" "rs_journal s = j" "rs_physical s = rc_Initial cfg" "rs_transmitted s = 0"
    "rs_receiveOffset s = 0" "rs_discard s = 0" "rs_pendingAck s = 0" "\<not> rs_closed s"
    using assms by (auto simp: NewResumableStream_def split: option.splits if_splits sum.splits)
  with NewJournal_holds [of "rc_JournalBytes cfg" j] NewJournal_ok [of "rc_JournalBytes cfg" j]
  show "journal_ok (rs_journal s)" "log_holds [] (journal_abs (rs_journal s))" "jr_base (rs_journal s) = 0"
    "rs_physical s = rc_Initial cfg" "rs_transmitted s = 0" "rs_receiveOffset s = 0" "rs_discard s = 0"
    "rs_pendingAck s = 0" "\<not> rs_closed s" "length (jr_buffer (rs_journal s)) = nat (rc_JournalBytes cfg)"
    by simp_all
qed

lemma fresh_send:
  assumes "NewResumableStream cfg = Inr s" and "rc_Initial cfg = Some 0"
  shows "send_ok [] (\<lambda>_. 0) (\<lambda>_. []) {0} 0 (fresh_end s)"
  by (rule send_okI) (use NewResumableStream_fields [OF assms(1)] assms(2) in \<open>simp_all add: fresh_end_def journal_part_def\<close>)

lemma fresh_recv:
  assumes "NewResumableStream cfg = Inr s" and "rc_Initial cfg = Some 0"
  shows "recv_ok [] (\<lambda>_. 0) (\<lambda>_. []) {0} (\<lambda>_. 0) [] (fresh_end s)"
  by (rule recv_okI) (use NewResumableStream_fields [OF assms(1)] assms(2) in \<open>simp_all add: fresh_end_def\<close>)

lemma initial_system_ok:
  assumes "NewResumableStream cfg0 = Inr s0" "rc_Initial cfg0 = Some 0"
    and "NewResumableStream cfg1 = Inr s1" "rc_Initial cfg1 = Some 0"
  shows "system_ok (initial_system s0 s1)"
  by (rule system_rawI [of _ True])
     (use fresh_send [OF assms(1,2)] fresh_send [OF assms(3,4)] fresh_recv [OF assms(1,2)] fresh_recv [OF assms(3,4)]
      in \<open>simp_all add: initial_system_def\<close>)

lemma reachable_system_ok:
  assumes "reachable s0 s1 S" and "\<not> sys_overrun S" and "system_ok (initial_system s0 s1)"
  shows "system_ok S"
  using assms by (induction rule: reachable.induct) (auto dest: rstep_overrun rstep_system_ok)

lemma reachable_small:
  assumes "reachable s0 s1 S" and "system_ok (initial_system s0 s1)"
    and "\<And>x. small (sys_end (initial_system s0 s1) x)"
  shows "system_ok S \<and> (\<forall>x. small (sys_end S x) \<and> tight (ep_replacer (sys_end S x))) \<and> \<not> sys_overrun S"
  using assms
proof (induction rule: reachable.induct)
  case start
  then show ?case by (simp add: initial_system_def fresh_end_def)
next
  case (step S S')
  then have IH: "system_ok S" "\<And>x. small (sys_end S x) \<and> tight (ep_replacer (sys_end S x))" "\<not> sys_overrun S" by blast+
  then show ?case using rstep_small [OF step(2) IH] rstep_system_ok [OF step(2) IH(1)] by blast
qed


section \<open>A run with a lost link\<close>

definition sample_config :: ResumableStreamConfig where
  "sample_config =
     \<lparr>rc_Context = True, rc_Initial = Some 0, rc_JournalBytes = 8, rc_AckEveryBytes = 0, rc_OnReceiveOffset = False,
      rc_RecoverableReadError = None, rc_RecoverableWriteError = None\<rparr>"

definition sample_end :: ResumableStream where
  "sample_end =
     \<lparr>rs_journal = \<lparr>jr_buffer = zero_bytes 8, jr_head = 0, jr_size = 0, jr_base = 0, jr_end = 0, jr_closed = False\<rparr>,
      rs_recoverableRead = (\<lambda>e. e \<noteq> ErrStreamEOF), rs_recoverableWrite = (\<lambda>_. True), rs_ackEvery = 0,
      rs_physical = Some 0, rs_transmitted = 0, rs_receiveOffset = 0, rs_lastNotified = 0, rs_localFIN = False,
      rs_finTransmitted = False, rs_discard = 0, rs_writeAttemptEnd = 0, rs_writeAttemptDone = False,
      rs_pendingAck = 0, rs_closed = False\<rparr>"

lemma sample_end_new: "NewResumableStream sample_config = Inr sample_end"
  by (simp add: NewResumableStream_def sample_config_def sample_end_def NewJournal_def)

text \<open>Two bytes are written at one end, cross link 0 and are read at the other; then the first end loses the link.\<close>

lemma sample_run:
  "\<exists>S. reachable sample_end sample_end S \<and> sys_written S False = [1, 2] \<and> sys_delivered S True = [1, 2]
     \<and> rs_physical (ep_rs (sys_end S False)) = None"
proof -
  define S0 where "S0 = initial_system sample_end sample_end"
  obtain s1 where wb: "Write_begin [1, 2] sample_end = (Inr (0, 2), s1)"
    and s1: "s1 = sample_end\<lparr>rs_journal := rs_journal s1\<rparr>"
    by (simp add: Write_begin_def sample_end_def Journal_Append_def copy_at_def)
  define S1 where "S1 = put False ((sys_end S0 False)\<lparr>ep_rs := s1, ep_writer := WLoop [1, 2] 0 2\<rparr>)
               (S0\<lparr>sys_written := (sys_written S0)(False := sys_written S0 False @ [1, 2])\<rparr>)"
  have f1: "rs_closed s1 = False" "rs_physical s1 = Some 0" "rs_transmitted s1 = 0"
    by (subst s1, simp add: sample_end_def)+
  have r1: "rstep S0 S1" unfolding S1_def
    by (rule rstep.write_call) (simp_all add: S0_def initial_system_def fresh_end_def wb)
  define S2 where "S2 = put False ((sys_end S1 False)\<lparr>ep_writer := WTry [1, 2] 0 2 0 0\<rparr>) S1"
  have r2: "rstep S1 S2" unfolding S2_def
    using local_step.w_select [of "sys_end S1 False" "[1, 2]" 0 2 "length (sys_delivered S1 (\<not> False))" False]
    by (intro rstep.local) (simp add: S1_def write_select_def waitPhysical_def f1)
  define s2 where "s2 = s1\<lparr>rs_writeAttemptEnd := 2, rs_writeAttemptDone := True\<rparr>"
  define S3 where "S3 = put False ((sys_end S2 False)\<lparr>ep_rs := s2, ep_writer := WWrite [1, 2] 0 2 0 0 0\<rparr>) S2"
  have r3: "rstep S2 S3" unfolding S3_def
    using local_step.w_attempt [of "sys_end S2 False" "[1, 2]" 0 2 0 0 "WriteAttempts 0 0" s2 "length (sys_delivered S2 (\<not> False))"]
    by (intro rstep.local) (simp add: S2_def S1_def write_attempt_def f1 s2_def)
  define S4 where "S4 = put False ((sys_end S3 False)\<lparr>ep_writer := WWrite [1, 2] 0 2 0 0 (0 + length [1, 2 :: byte])\<rparr>) (carry False 0 [1, 2] S3)"
  have r4: "rstep S3 S4" unfolding S4_def
    by (rule rstep.wire_write [where i = 2]) (simp_all add: S3_def)
  define S5 where "S5 = put True ((sys_end S4 True)\<lparr>ep_reader := RRead 0 4\<rparr>) S4"
  have t4: "sys_end S4 True = fresh_end sample_end"
    by (simp add: S4_def S3_def S2_def S1_def S0_def initial_system_def)
  have r5: "rstep S4 S5" unfolding S5_def
    by (rule rstep.local, rule local_step.r_select [where cancelled = False])
       (simp_all add: t4 fresh_end_def waitPhysical_def sample_end_def)
  have c5: "sys_content S5 False 0 = [1, 2]" "sys_taken S5 True 0 = 0" "sys_delivered S5 True = []"
    by (simp_all add: S5_def S4_def S3_def S2_def S1_def S0_def initial_system_def)
  define S6 where "S6 = put True ((sys_end S5 True)\<lparr>ep_reader := RGot 0 4 [1, 2] None\<rparr>)
      (S5\<lparr>sys_taken := (sys_taken S5)(True := (sys_taken S5 True)(0 := sys_taken S5 True 0 + length [1, 2 :: byte]))\<rparr>)"
  have "ep_reader (sys_end S5 True) = RRead 0 4" by (simp add: S5_def)
  then have r6: "rstep S5 S6" unfolding S6_def
    by (rule rstep.read_take [where m = 2]) (simp_all add: c5)
  define s3 where "s3 = sample_end\<lparr>rs_receiveOffset := 2\<rparr>"
  have rr: "read_returned 4 0 (int (length [1, 2 :: byte])) [1, 2] None sample_end = (ReadDelivers [1, 2] None None, s3)"
    by (simp add: read_returned_def sample_end_def s3_def)
  define S7 where "S7 = put True ((sys_end S6 True)\<lparr>ep_rs := s3, ep_reader := reader_next 0 (ReadDelivers [1, 2] None None)\<rparr>)
      (S6\<lparr>sys_delivered := (sys_delivered S6)(True := sys_delivered S6 True @ read_bytes (ReadDelivers [1, 2] None None))\<rparr>)"
  have e6: "ep_reader (sys_end S6 True) = RGot 0 4 [1, 2] None" "ep_rs (sys_end S6 True) = sample_end"
    by (simp_all add: S6_def S5_def t4 fresh_end_def)
  have r7: "rstep S6 S7" unfolding S7_def by (rule rstep.deliver [OF e6(1)]) (simp only: e6(2) rr)
  define S8 where "S8 = put False ((sys_end S7 False)\<lparr>ep_rs := snd (DetachPhysical (ep_rs (sys_end S7 False)))\<rparr>) S7"
  have r8: "rstep S7 S8" unfolding S8_def by (intro rstep.local local_step.detach)
  have "rs_closed (ep_rs (sys_end S7 False)) = False"
    by (simp add: S7_def S6_def S5_def S4_def S3_def s2_def f1)
  then have "rs_physical (ep_rs (sys_end S8 False)) = None" by (simp add: S8_def DetachPhysical_def)
  moreover have "sys_delivered S8 True = [1, 2]" by (simp add: S8_def S7_def S6_def c5)
  moreover have "sys_written S8 False = [1, 2]"
    by (simp add: S8_def S7_def S6_def S5_def S4_def S3_def S2_def S1_def S0_def initial_system_def)
  moreover have "reachable sample_end sample_end S8"
    by (rule reachable.step [OF reachable.step [OF reachable.step [OF reachable.step [OF reachable.step [OF reachable.step
          [OF reachable.step [OF reachable.step [OF reachable.start r1 [unfolded S0_def]] r2] r3] r4] r5] r6] r7] r8])
  ultimately show ?thesis by blast
qed


section \<open>A replay that runs past its snapshot\<close>

text \<open>
  C37 (functional). The window that \<open>resumable_delivery\<close> excludes is real. \<open>Replace\<close> takes the end of the
  journal once, but every round of its loop replays up to the present end. When more than one buffer (32
  KiB) is to be replayed and a \<open>Write\<close> appends \<open>pl\<close> between the rounds, the last round also sends \<open>pl\<close>;
  \<open>Replace\<close> then counts only the old end as transmitted, and the waiting \<open>Write\<close> sends \<open>pl\<close> once more: the peer
  receives the bytes missing to it, \<open>pl\<close> and \<open>pl\<close> again.
\<close>

theorem replay_overrun_duplicates:
  assumes "journal_ok (rs_journal s)" and "log_holds h (journal_abs (rs_journal s))"
    and "\<not> rs_closed s" and "\<not> rs_localFIN s" and "rs_physical s = None"
    and "PeerReceiveOffset st = jr_base (rs_journal s)" and "jr_base (rs_journal s) \<le> rs_transmitted s"
    and "ResumeReceiveOffset st \<le> rs_receiveOffset s"
    and "32768 < jr_size (rs_journal s)" and "jr_size (rs_journal s) + length pl \<le> 65536" and "pl \<noteq> []"
    and "jr_size (rs_journal s) + length pl \<le> length (jr_buffer (rs_journal s))"
    and "length h + length pl \<le> unat (MaxSequence :: u64)"
  shows "\<exists>stop s1 c1 f1 a b s2 c2 f2 s3.
      Replace_begin st s = None \<and> Replace_ack st s = (Inr (stop, 32768), s1)
      \<and> PeerReceiveOffset st < stop \<and> Journal_Replay (PeerReceiveOffset st) 32768 (rs_journal s1) = Inr (c1, f1)
      \<and> Write_begin pl s1 = (Inr (a, b), s2)
      \<and> f1 < stop \<and> Journal_Replay f1 32768 (rs_journal s2) = Inr (c2, f2) \<and> \<not> f2 < stop
      \<and> Replace_commit p st stop False s2 = (None, s3)
      \<and> write_select cancelled (length pl) a b s3 = WriteTries p a
      \<and> c1 @ c2 @ drop (unat (a - a)) pl = drop (unat (PeerReceiveOffset st)) h @ pl @ pl"
proof -
  let ?o = "PeerReceiveOffset st" and ?j = "rs_journal s"
  have size: "unat ?o + jr_size ?j = length h"
    using log_holds_end [OF assms(2)] assms(1,6) log_end_journal [OF assms(1)] by (simp add: journal_ok_def)
  obtain j where ak: "Replace_ack st s = (Inr (jr_end j, min 32768 (max 1 (jr_size j))), s\<lparr>rs_journal := j\<rparr>)"
    and j: "journal_ok j" "log_holds h (journal_abs j)" "jr_base j = ?o"
    using Replace_ack_ok [OF assms(1,2), of st] size assms(6) by auto
  have stop: "unat (jr_end j) = length h" using log_holds_end [OF j(2)] log_end_journal [OF j(1)] by simp
  have js: "jr_size j = jr_size ?j" using j(1,3) stop size by (simp add: journal_ok_def)
  have cap: "length (jr_buffer j) = length (jr_buffer ?j)"
  proof -
    obtain x where x: "Journal_Ack ?o ?j = (None, x)" "s\<lparr>rs_journal := x\<rparr> = s\<lparr>rs_journal := j\<rparr>"
      using ak by (auto simp: Replace_ack_def ackJournal_def Let_def split: prod.splits option.splits)
    then have "x = j" using arg_cong [OF x(2), of rs_journal] by simp
    then show ?thesis using Journal_Ack_data [OF assms(1) x(1)] by simp
  qed
  obtain f1 where r1: "Journal_Replay ?o 32768 j = Inr (take 32768 (drop (unat ?o) h), f1)"
    using journal.replay_succeeds [OF j(1,2), of ?o 32768] j(3) size by auto
  have f1: "unat f1 = unat ?o + 32768" using journal.replay_holds [OF j(1,2) r1] size assms(9) by simp
  obtain stop' j2 where app: "Journal_Append pl j = (Inr (jr_end j, stop'), j2)"
    using Journal_Append_total [OF j(1), of pl] cap js stop assms(12,13) by (auto simp: le_diff_conv2)
  note h2 = journal.append_holds [OF j(1,2) app]
  obtain f2 where r2: "Journal_Replay f1 32768 j2 = Inr (take 32768 (drop (unat f1) (h @ pl)), f2)"
    using journal.replay_succeeds [of j2 "h @ pl" f1 32768] h2 f1 size assms(9) j(3) by auto
  have rest: "take 32768 (drop (unat f1) (h @ pl)) = drop (unat f1) h @ pl"
    using size assms(9,10) f1 by simp
  have f2: "unat f2 = length h + length pl"
    using journal.replay_holds [of j2 "h @ pl", OF _ _ r2] h2 f1 size assms(9) unfolding rest by simp
  have whole: "take 32768 (drop (unat ?o) h) @ drop (unat f1) h = drop (unat ?o) h"
    using f1 by (metis append_take_drop_id drop_drop add.commute)
  define s2 where "s2 = s\<lparr>rs_journal := j2\<rparr>"
  define s3 where "s3 = s2\<lparr>rs_physical := Some p, rs_transmitted := jr_end j, rs_finTransmitted := False,
      rs_discard := rs_receiveOffset s - ResumeReceiveOffset st\<rparr>"
  have b: "Replace_begin st s = None" using assms(3,5,6,7,8) by (auto simp: Replace_begin_def not_less)
  have w: "Write_begin pl (s\<lparr>rs_journal := j\<rparr>) = (Inr (jr_end j, stop'), s2)"
    using app assms(3,4) by (simp add: Write_begin_def s2_def)
  have cm: "Replace_commit p st (jr_end j) False s2 = (None, s3)"
    using assms(3,5,8) by (simp add: Replace_commit_def s2_def s3_def not_less)
  have sel: "write_select cancelled (length pl) (jr_end j) stop' s3 = WriteTries p (jr_end j)"
    using assms(3,11) h2 stop
    by (auto simp: write_select_def waitPhysical_def s3_def s2_def word_le_nat_alt)
  have cmp: "?o < jr_end j" "f1 < jr_end j" "\<not> f2 < jr_end j"
    using stop size f1 f2 assms(9) by (simp_all add: word_less_nat_alt)
  have ak': "Replace_ack st s = (Inr (jr_end j, 32768), s\<lparr>rs_journal := j\<rparr>)" using ak js assms(9) by (simp add: min_def max_def)
  have wire: "take 32768 (drop (unat ?o) h) @ (drop (unat f1) h @ pl) @ drop (unat (jr_end j - jr_end j)) pl = drop (unat ?o) h @ pl @ pl"
    using whole by (simp add: append_assoc [symmetric] del: append_assoc)
  show ?thesis
    by (rule exI [of _ "jr_end j"], rule exI [of _ "s\<lparr>rs_journal := j\<rparr>"], rule exI [of _ "take 32768 (drop (unat ?o) h)"],
        rule exI [of _ f1], rule exI [of _ "jr_end j"], rule exI [of _ stop'], rule exI [of _ s2],
        rule exI [of _ "drop (unat f1) h @ pl"], rule exI [of _ f2], rule exI [of _ s3])
       (use b ak' cmp r1 w r2 rest cm sel wire in \<open>simp add: s2_def\<close>)
qed

definition full_journal :: Journal where
  "full_journal = \<lparr>jr_buffer = replicate 65536 7, jr_head = 0, jr_size = 40000, jr_base = 0, jr_end = 40000, jr_closed = False\<rparr>"

lemma full_journal_holds: "journal_ok full_journal" "log_holds (replicate 40000 7) (journal_abs full_journal)"
proof -
  have "journal_data full_journal = replicate 40000 7"
    by (rule nth_equalityI) (simp_all add: journal_data_def full_journal_def)
  then show "log_holds (replicate 40000 7) (journal_abs full_journal)"
    by (simp add: log_holds_def) (simp add: full_journal_def)
  show "journal_ok full_journal" by (simp add: journal_ok_def full_journal_def)
qed

theorem replay_overrun_duplicates_witness:
  "\<exists>stop s1 c1 f1 a b s2 c2 f2 s3.
      Replace_ack \<lparr>PeerReceiveOffset = 0, ResumeReceiveOffset = 0\<rparr> (sample_stream\<lparr>rs_journal := full_journal\<rparr>) = (Inr (stop, 32768), s1)
      \<and> Journal_Replay 0 32768 (rs_journal s1) = Inr (c1, f1) \<and> Write_begin [1, 2, 3] s1 = (Inr (a, b), s2)
      \<and> Journal_Replay f1 32768 (rs_journal s2) = Inr (c2, f2)
      \<and> Replace_commit 5 \<lparr>PeerReceiveOffset = 0, ResumeReceiveOffset = 0\<rparr> stop False s2 = (None, s3)
      \<and> write_select False 3 a b s3 = WriteTries 5 a
      \<and> c1 @ c2 @ [1, 2, 3] = replicate 40000 7 @ [1, 2, 3, 1, 2, 3]"
proof -
  let ?s = "sample_stream\<lparr>rs_journal := full_journal\<rparr>" and ?st = "\<lparr>PeerReceiveOffset = 0, ResumeReceiveOffset = 0\<rparr>"
  have h: "journal_ok (rs_journal ?s)" "log_holds (replicate 40000 7) (journal_abs (rs_journal ?s))"
    using full_journal_holds by simp_all
  have f: "\<not> rs_closed ?s" "\<not> rs_localFIN ?s" "rs_physical ?s = None" "PeerReceiveOffset ?st = jr_base (rs_journal ?s)"
    "jr_base (rs_journal ?s) \<le> rs_transmitted ?s" "ResumeReceiveOffset ?st \<le> rs_receiveOffset ?s"
    "32768 < jr_size (rs_journal ?s)" "jr_size (rs_journal ?s) + length [1, 2, 3 :: byte] \<le> 65536" "[1, 2, 3 :: byte] \<noteq> []"
    "jr_size (rs_journal ?s) + length [1, 2, 3 :: byte] \<le> length (jr_buffer (rs_journal ?s))"
    "length (replicate 40000 (7 :: byte)) + length [1, 2, 3 :: byte] \<le> unat (MaxSequence :: u64)"
    by (simp_all add: sample_stream_def full_journal_def)
  from replay_overrun_duplicates [OF h f, of 5 False] obtain stop s1 c1 f1 a b s2 c2 f2 s3 where
    "Replace_ack ?st ?s = (Inr (stop, 32768), s1)" "Journal_Replay (PeerReceiveOffset ?st) 32768 (rs_journal s1) = Inr (c1, f1)"
    "Write_begin [1, 2, 3] s1 = (Inr (a, b), s2)" "Journal_Replay f1 32768 (rs_journal s2) = Inr (c2, f2)"
    "Replace_commit 5 ?st stop False s2 = (None, s3)" "write_select False (length [1, 2, 3 :: byte]) a b s3 = WriteTries 5 a"
    "c1 @ c2 @ drop (unat (a - a)) [1, 2, 3] = drop (unat (PeerReceiveOffset ?st)) (replicate 40000 7) @ [1, 2, 3] @ [1, 2, 3]"
    by (elim exE conjE) (rule that)
  moreover from this(6) have "write_select False 3 a b s3 = WriteTries 5 a" by (simp add: numeral_3_eq_3)
  moreover from calculation(7) have "c1 @ c2 @ [1, 2, 3] = replicate 40000 7 @ [1, 2, 3, 1, 2, 3]" by simp
  moreover from calculation(2) have "Journal_Replay 0 32768 (rs_journal s1) = Inr (c1, f1)" by simp
  ultimately show ?thesis by blast
qed

end
