(* ===== verification/NP_Registry.thy ===== *)
theory NP_Registry
  imports NP_Journal NP_Continuity_Codec "HOL-Library.AList" "HOL-Library.Multiset"
begin

text \<open>
  The two registries of the continuity engine: logical flows (\<open>internal/continuity/flow.go\<close>) and lease
  tickets (\<open>internal/continuity/ticket.go\<close>). Maps are association lists, the random source is the byte list
  still to be read, the clock is an argument, and an upstream is its identity; closing one is part of the
  result. Both registries are resource managers, and their correctness is stated as conservation: what
  comes in leaves exactly once.
\<close>

section \<open>Association lists as multisets\<close>

lemma mset_alist_delete:
  assumes "distinct (map fst al)" and "map_of al k = Some v"
  shows "mset al = add_mset (k, v) (mset (AList.delete k al))"
  using assms
proof (induction al)
  case (Cons p al)
  show ?case
  proof (cases "fst p = k")
    case True
    then have "AList.delete k al = al" using Cons(2) by (intro delete_id) auto
    then show ?thesis using True Cons(3) by (cases p) simp
  next
    case False
    then show ?thesis using Cons by (cases p) simp
  qed
qed simp

lemma mset_alist_update:
  assumes "distinct (map fst al)"
  shows "mset (AList.update k v al) = add_mset (k, v) (mset (AList.delete k al))"
  using assms
proof (induction al)
  case (Cons p al)
  show ?case
  proof (cases "fst p = k")
    case True
    then have "AList.delete k al = al" using Cons(2) by (intro delete_id) auto
    then show ?thesis using True by (cases p) simp
  next
    case False
    then show ?thesis using Cons by (cases p) simp
  qed
qed simp

section \<open>Logical flows\<close>

type_synonym PrincipalID = bytes

abbreviation zero_principal :: PrincipalID where "zero_principal \<equiv> zero_bytes 32"
abbreviation MaxLogicalFlows :: int where "MaxLogicalFlows \<equiv> 65536"

record FlowRegistryConfig =
  fc_MaxFlows :: int
  fc_MaxFlowsPerPrincipal :: int

record FlowCreateRequest =
  cr_Principal :: PrincipalID
  cr_ConstellationID :: ContinuityID
  cr_FlowID :: ContinuityID
  cr_LeaseKey :: ContinuityID
  cr_Upstream :: "nat option" \<comment> \<open>\<open>None\<close>: \<open>nilReadWriteCloser\<close>\<close>

record FlowAttachRequest =
  at_Principal :: PrincipalID
  at_ConstellationID :: ContinuityID
  at_FlowID :: ContinuityID
  at_LeaseKey :: ContinuityID
  at_Epoch :: u64

record Flow =
  flow_ID :: ContinuityID
  flow_ConstellationID :: ContinuityID
  flow_LeaseKey :: ContinuityID
  flow_Epoch :: u64
  flow_Upstream :: nat

record flowRecord =
  fl_principal :: PrincipalID
  fl_constellationID :: ContinuityID
  fl_leaseKey :: ContinuityID
  fl_epoch :: u64
  fl_upstream :: nat

record FlowRegistry =
  fr_maxFlows :: nat
  fr_maxFlowsPerPrincipal :: nat
  fr_random :: bytes
  fr_flows :: "(ContinuityID \<times> flowRecord) list"
  fr_principalCounts :: "(PrincipalID \<times> nat) list"
  fr_closed :: bool

definition NewFlowRegistry :: "FlowRegistryConfig \<Rightarrow> bytes \<Rightarrow> continuity_error + FlowRegistry" where
  "NewFlowRegistry config random =
     (if fc_MaxFlows config \<le> 0 \<or> fc_MaxFlows config > MaxLogicalFlows
         \<or> fc_MaxFlowsPerPrincipal config \<le> 0 \<or> fc_MaxFlowsPerPrincipal config > fc_MaxFlows config
      then Inl ErrFlowRegistryConfig
      else Inr \<lparr>fr_maxFlows = nat (fc_MaxFlows config), fr_maxFlowsPerPrincipal = nat (fc_MaxFlowsPerPrincipal config),
                fr_random = random, fr_flows = [], fr_principalCounts = [], fr_closed = False\<rparr>)"

definition principal_count :: "PrincipalID \<Rightarrow> FlowRegistry \<Rightarrow> nat" where
  "principal_count p r = (case map_of (fr_principalCounts r) p of None \<Rightarrow> 0 | Some k \<Rightarrow> k)"

definition snapshotFlow :: "ContinuityID \<Rightarrow> flowRecord \<Rightarrow> Flow" where
  "snapshotFlow i f =
     \<lparr>flow_ID = i, flow_ConstellationID = fl_constellationID f, flow_LeaseKey = fl_leaseKey f,
      flow_Epoch = fl_epoch f, flow_Upstream = fl_upstream f\<rparr>"

text \<open>\<open>newFlowIDLocked\<close> with the attempts that are left (8 at the start).\<close>

fun newFlowIDLocked :: "nat \<Rightarrow> FlowRegistry \<Rightarrow> (continuity_error + ContinuityID) \<times> FlowRegistry" where
  "newFlowIDLocked 0 r = (Inl ErrFlowEntropy, r)"
| "newFlowIDLocked (Suc k) r =
     (case read_full 16 (fr_random r) of
        (None, rest) \<Rightarrow> (Inl ErrFlowEntropy, r\<lparr>fr_random := rest\<rparr>)
      | (Some i, rest) \<Rightarrow>
          if i = zero_id \<or> map_of (fr_flows r) i \<noteq> None then newFlowIDLocked k (r\<lparr>fr_random := rest\<rparr>)
          else (Inr i, r\<lparr>fr_random := rest\<rparr>))"

definition flow_insert :: "ContinuityID \<Rightarrow> FlowCreateRequest \<Rightarrow> nat \<Rightarrow> FlowRegistry \<Rightarrow> Flow \<times> FlowRegistry" where
  "flow_insert i q up r =
     (let f = \<lparr>fl_principal = cr_Principal q, fl_constellationID = cr_ConstellationID q, fl_leaseKey = cr_LeaseKey q,
               fl_epoch = 1, fl_upstream = up\<rparr>
      in (snapshotFlow i f,
          r\<lparr>fr_flows := AList.update i f (fr_flows r),
            fr_principalCounts := AList.update (cr_Principal q) (principal_count (cr_Principal q) r + 1) (fr_principalCounts r)\<rparr>))"

definition Create :: "FlowCreateRequest \<Rightarrow> FlowRegistry \<Rightarrow> (continuity_error + Flow) \<times> FlowRegistry" where
  "Create q r =
     (case cr_Upstream q of
        None \<Rightarrow> (Inl ErrFlowBinding, r)
      | Some up \<Rightarrow>
          if cr_Principal q = zero_principal \<or> cr_ConstellationID q = zero_id \<or> cr_LeaseKey q = zero_id
          then (Inl ErrFlowBinding, r)
          else if fr_closed r then (Inl ErrFlowRegistryClosed, r)
          else if length (fr_flows r) \<ge> fr_maxFlows r \<or> principal_count (cr_Principal q) r \<ge> fr_maxFlowsPerPrincipal r
          then (Inl ErrFlowCapacity, r)
          else if cr_FlowID q = zero_id
          then case newFlowIDLocked 8 r of
                 (Inl e, r1) \<Rightarrow> (Inl e, r1)
               | (Inr i, r1) \<Rightarrow> (case flow_insert i q up r1 of (f, r2) \<Rightarrow> (Inr f, r2))
          else if map_of (fr_flows r) (cr_FlowID q) \<noteq> None then (Inl ErrFlowConflict, r)
          else (case flow_insert (cr_FlowID q) q up r of (f, r2) \<Rightarrow> (Inr f, r2)))"

definition decrementPrincipalLocked :: "PrincipalID \<Rightarrow> FlowRegistry \<Rightarrow> FlowRegistry" where
  "decrementPrincipalLocked p r =
     (let remaining = int (principal_count p r) - 1
      in if remaining \<le> 0 then r\<lparr>fr_principalCounts := AList.delete p (fr_principalCounts r)\<rparr>
         else r\<lparr>fr_principalCounts := AList.update p (nat remaining) (fr_principalCounts r)\<rparr>)"

text \<open>The second part of the result lists the upstreams that are closed.\<close>

definition flow_remove :: "ContinuityID \<Rightarrow> flowRecord \<Rightarrow> FlowRegistry \<Rightarrow> FlowRegistry" where
  "flow_remove i f r = decrementPrincipalLocked (fl_principal f) (r\<lparr>fr_flows := AList.delete i (fr_flows r)\<rparr>)"

definition Attach :: "FlowAttachRequest \<Rightarrow> FlowRegistry \<Rightarrow> (continuity_error + Flow) \<times> nat list \<times> FlowRegistry" where
  "Attach q r =
     (if at_Principal q = zero_principal \<or> at_ConstellationID q = zero_id \<or> at_FlowID q = zero_id
         \<or> at_LeaseKey q = zero_id \<or> at_Epoch q = 0
      then (Inl ErrFlowBinding, [], r)
      else if fr_closed r then (Inl ErrFlowRegistryClosed, [], r)
      else case map_of (fr_flows r) (at_FlowID q) of
             None \<Rightarrow> (Inl ErrFlowNotFound, [], r)
           | Some f \<Rightarrow>
               if fl_principal f \<noteq> at_Principal q \<or> fl_constellationID f \<noteq> at_ConstellationID q
               then (Inl ErrFlowBinding, [], r)
               else if at_Epoch q = fl_epoch f \<and> at_LeaseKey q = fl_leaseKey f
               then (Inr (snapshotFlow (at_FlowID q) f), [], r)
               else if fl_epoch f \<noteq> MaxUint64 \<and> at_Epoch q = fl_epoch f + 1
               then let f' = f\<lparr>fl_epoch := at_Epoch q, fl_leaseKey := at_LeaseKey q\<rparr>
                    in (Inr (snapshotFlow (at_FlowID q) f'), [], r\<lparr>fr_flows := AList.update (at_FlowID q) f' (fr_flows r)\<rparr>)
               else (Inl ErrFlowConflict, [fl_upstream f], flow_remove (at_FlowID q) f r))"

definition Flow_State :: "ContinuityID \<Rightarrow> FlowRegistry \<Rightarrow> Flow option" where
  "Flow_State i r =
     (if i = zero_id \<or> fr_closed r then None else map_option (snapshotFlow i) (map_of (fr_flows r) i))"

text \<open>\<open>closed\<close> is the result of \<open>upstream.Close()\<close>.\<close>

definition Release ::
  "PrincipalID \<Rightarrow> ContinuityID \<Rightarrow> ContinuityID \<Rightarrow> continuity_error option \<Rightarrow> FlowRegistry
     \<Rightarrow> continuity_error option \<times> nat list \<times> FlowRegistry" where
  "Release owner constellationID flowID closed r =
     (if fr_closed r then (Some ErrFlowRegistryClosed, [], r)
      else case map_of (fr_flows r) flowID of
             None \<Rightarrow> (Some ErrFlowNotFound, [], r)
           | Some f \<Rightarrow>
               if owner = zero_principal \<or> constellationID = zero_id \<or> fl_principal f \<noteq> owner
                  \<or> fl_constellationID f \<noteq> constellationID
               then (Some ErrFlowBinding, [], r)
               else (closed, [fl_upstream f], flow_remove flowID f r))"

definition Flow_Count :: "FlowRegistry \<Rightarrow> nat" where
  "Flow_Count r = length (fr_flows r)"

definition FlowRegistry_Close :: "FlowRegistry \<Rightarrow> nat list \<times> FlowRegistry" where
  "FlowRegistry_Close r =
     (if fr_closed r then ([], r)
      else (map (fl_upstream \<circ> snd) (fr_flows r), r\<lparr>fr_closed := True, fr_flows := [], fr_principalCounts := []\<rparr>))"

section \<open>What the flow registry conserves\<close>

definition owned_by :: "PrincipalID \<Rightarrow> FlowRegistry \<Rightarrow> nat" where
  "owned_by p r = size (filter_mset (\<lambda>(i, f). fl_principal f = p) (mset (fr_flows r)))"

definition flows_ok :: "FlowRegistry \<Rightarrow> bool" where
  "flows_ok r \<longleftrightarrow>
     distinct (map fst (fr_flows r)) \<and> length (fr_flows r) \<le> fr_maxFlows r
     \<and> (\<forall>p. principal_count p r = owned_by p r \<and> owned_by p r \<le> fr_maxFlowsPerPrincipal r)"

definition upstreams :: "FlowRegistry \<Rightarrow> nat multiset" where
  "upstreams r = image_mset (fl_upstream \<circ> snd) (mset (fr_flows r))"

lemma principal_count_update:
  "principal_count p (r\<lparr>fr_principalCounts := AList.update q k (fr_principalCounts r)\<rparr>) = (if p = q then k else principal_count p r)"
  "principal_count p (r\<lparr>fr_principalCounts := AList.delete q (fr_principalCounts r)\<rparr>) = (if p = q then 0 else principal_count p r)"
  by (simp_all add: principal_count_def update_conv' delete_conv')

lemma newFlowIDLocked_spec:
  assumes "newFlowIDLocked k r = (res, r')"
  shows "(\<exists>rest. r' = r\<lparr>fr_random := rest\<rparr>) \<and> (\<forall>i. res = Inr i \<longrightarrow> map_of (fr_flows r) i = None \<and> i \<noteq> zero_id)"
  using assms
proof (induction k arbitrary: r)
  case 0
  then show ?case by (auto intro: exI [of _ "fr_random r"])
next
  case (Suc k)
  obtain got rest where rf: "read_full 16 (fr_random r) = (got, rest)" by fastforce
  show ?case
  proof (cases got)
    case None
    then show ?thesis using Suc(2) rf by auto
  next
    case (Some i)
    show ?thesis
    proof (cases "i = zero_id \<or> map_of (fr_flows r) i \<noteq> None")
      case True
      then have "newFlowIDLocked k (r\<lparr>fr_random := rest\<rparr>) = (res, r')" using Suc(2) rf Some by simp
      from Suc(1) [OF this] show ?thesis by (elim conjE exE) auto
    next
      case False
      then have "res = Inr i" "r' = r\<lparr>fr_random := rest\<rparr>" using Suc(2) rf Some by simp_all
      then show ?thesis using False by auto
    qed
  qed
qed

lemma newFlowIDLocked_fields:
  assumes "newFlowIDLocked k r = (res, r')"
  shows "fr_flows r' = fr_flows r" "fr_principalCounts r' = fr_principalCounts r" "fr_maxFlows r' = fr_maxFlows r"
    "fr_maxFlowsPerPrincipal r' = fr_maxFlowsPerPrincipal r" "fr_closed r' = fr_closed r"
    "\<And>i. res = Inr i \<Longrightarrow> map_of (fr_flows r) i = None \<and> i \<noteq> zero_id"
  using newFlowIDLocked_spec [OF assms] by auto

lemma alist_absent:
  assumes "distinct (map fst al)" and "map_of al i = None"
  shows "AList.update i f al = al @ [(i, f)]"
  using assms by (induction al) auto

lemma flow_insert_ok:
  assumes ok: "flows_ok r" and fresh: "map_of (fr_flows r) i = None" and room: "length (fr_flows r) < fr_maxFlows r"
    "principal_count (cr_Principal q) r < fr_maxFlowsPerPrincipal r" and ins: "flow_insert i q up r = (f, r')"
  shows "flows_ok r' \<and> upstreams r' = add_mset up (upstreams r)"
proof -
  define g where "g = \<lparr>fl_principal = cr_Principal q, fl_constellationID = cr_ConstellationID q, fl_leaseKey = cr_LeaseKey q,
               fl_epoch = 1, fl_upstream = up\<rparr>"
  have d: "distinct (map fst (fr_flows r))" using ok by (simp add: flows_ok_def)
  have fl: "fr_flows r' = fr_flows r @ [(i, g)]"
    using ins alist_absent [OF d fresh] by (auto simp: flow_insert_def g_def Let_def)
  have pc: "principal_count p r' = (if p = cr_Principal q then principal_count p r + 1 else principal_count p r)" for p
    using ins principal_count_update(1) [where p = p and r = r and q = "cr_Principal q"]
    by (auto simp: flow_insert_def principal_count_def Let_def)
  have lim: "fr_maxFlows r' = fr_maxFlows r" "fr_maxFlowsPerPrincipal r' = fr_maxFlowsPerPrincipal r"
    using ins by (auto simp: flow_insert_def Let_def)
  have ow: "owned_by p r' = (if p = cr_Principal q then owned_by p r + 1 else owned_by p r)" for p
    by (simp add: owned_by_def fl g_def)
  have "i \<notin> fst ` set (fr_flows r)" using fresh by (simp add: map_of_eq_None_iff)
  then have "flows_ok r'" using ok d room by (auto simp: flows_ok_def fl pc ow lim)
  then show ?thesis by (simp add: upstreams_def fl g_def)
qed

lemma flow_remove_ok:
  assumes ok: "flows_ok r" and f: "map_of (fr_flows r) i = Some f"
  shows "flows_ok (flow_remove i f r) \<and> upstreams r = add_mset (fl_upstream f) (upstreams (flow_remove i f r))"
proof -
  let ?r = "flow_remove i f r"
  have d: "distinct (map fst (fr_flows r))" using ok by (simp add: flows_ok_def)
  have fl: "fr_flows ?r = AList.delete i (fr_flows r)" and lim: "fr_maxFlows ?r = fr_maxFlows r"
    "fr_maxFlowsPerPrincipal ?r = fr_maxFlowsPerPrincipal r"
    by (simp_all add: flow_remove_def decrementPrincipalLocked_def Let_def)
  note m = mset_alist_delete [OF d f]
  have ow: "owned_by p r = (if p = fl_principal f then owned_by p ?r + 1 else owned_by p ?r)" for p
    by (simp add: owned_by_def fl m)
  have pc: "principal_count p ?r = (if p = fl_principal f then principal_count p r - 1 else principal_count p r)" for p
    using ok ow [of "fl_principal f"]
    by (auto simp: flow_remove_def decrementPrincipalLocked_def Let_def principal_count_def update_conv' delete_conv' nat_diff_distrib
      split: option.splits)
  have po: "principal_count p r = owned_by p r" for p using ok by (simp add: flows_ok_def)
  have "principal_count p ?r = owned_by p ?r" for p
    by (cases "p = fl_principal f") (use ow [of p] in \<open>simp_all add: pc po\<close>)
  moreover have "owned_by p ?r \<le> fr_maxFlowsPerPrincipal r" for p
    using ok ow [of p] unfolding flows_ok_def by (metis le_trans le_add1 le_refl)
  moreover have "length (AList.delete i (fr_flows r)) \<le> length (fr_flows r)" by (rule length_delete_le)
  ultimately have "flows_ok ?r"
    using ok by (auto simp: flows_ok_def fl lim distinct_delete intro: le_trans)
  then show ?thesis by (simp add: upstreams_def fl m)
qed

lemma flow_update_ok:
  assumes ok: "flows_ok r" and f: "map_of (fr_flows r) i = Some f" and same: "fl_principal g = fl_principal f" "fl_upstream g = fl_upstream f"
  shows "flows_ok (r\<lparr>fr_flows := AList.update i g (fr_flows r)\<rparr>) \<and> upstreams (r\<lparr>fr_flows := AList.update i g (fr_flows r)\<rparr>) = upstreams r"
proof -
  let ?r = "r\<lparr>fr_flows := AList.update i g (fr_flows r)\<rparr>"
  have d: "distinct (map fst (fr_flows r))" using ok by (simp add: flows_ok_def)
  have m: "mset (fr_flows ?r) = add_mset (i, g) (mset (AList.delete i (fr_flows r)))" using mset_alist_update [OF d] by simp
  note m' = mset_alist_delete [OF d f]
  have "length (fr_flows ?r) = length (fr_flows r)" using arg_cong [OF m, of size] arg_cong [OF m', of size] by simp
  moreover have "owned_by p ?r = owned_by p r" for p by (simp only: owned_by_def m m') (simp add: same)
  moreover have "principal_count p ?r = principal_count p r" for p by (simp add: principal_count_def)
  moreover have "distinct (map fst (AList.update i g (fr_flows r)))" using d by (rule distinct_update)
  ultimately have "flows_ok ?r" using ok by (simp add: flows_ok_def)
  moreover have "upstreams ?r = upstreams r" by (simp only: upstreams_def m m') (simp add: same)
  ultimately show ?thesis by simp
qed

lemma Create_ok:
  assumes ok: "flows_ok r" and c: "Create q r = (res, r')"
  shows "flows_ok r' \<and> upstreams r' = (case res of Inl _ \<Rightarrow> upstreams r | Inr f \<Rightarrow> add_mset (the (cr_Upstream q)) (upstreams r))"
proof (cases "cr_Upstream q = None \<or> cr_Principal q = zero_principal \<or> cr_ConstellationID q = zero_id \<or> cr_LeaseKey q = zero_id
    \<or> fr_closed r \<or> length (fr_flows r) \<ge> fr_maxFlows r \<or> principal_count (cr_Principal q) r \<ge> fr_maxFlowsPerPrincipal r")
  case True
  then obtain e where "res = Inl e" "r' = r" using c by (auto simp: Create_def split: option.splits if_splits)
  then show ?thesis using ok by simp
next
  case False
  then obtain up where up: "cr_Upstream q = Some up" by auto
  have room: "length (fr_flows r) < fr_maxFlows r" "principal_count (cr_Principal q) r < fr_maxFlowsPerPrincipal r"
    using False by auto
  show ?thesis
  proof (cases "cr_FlowID q = zero_id")
    case True
    obtain ri r1 where n: "newFlowIDLocked 8 r = (ri, r1)" by fastforce
    note f = newFlowIDLocked_fields [OF n]
    have ok1: "flows_ok r1" "upstreams r1 = upstreams r"
      using ok by (simp_all add: flows_ok_def owned_by_def principal_count_def upstreams_def f(1-4))
    show ?thesis
    proof (cases ri)
      case (Inl e)
      then show ?thesis using c False True up n ok1 by (auto simp: Create_def)
    next
      case (Inr i)
      obtain g r2 where ins: "flow_insert i q up r1 = (g, r2)" by fastforce
      have "map_of (fr_flows r1) i = None" using f(6) [OF Inr] f(1) by simp
      then have "flows_ok r2 \<and> upstreams r2 = add_mset up (upstreams r1)"
        using room by (intro flow_insert_ok [OF ok1(1) _ _ _ ins]) (simp_all add: f(1-4) principal_count_def)
      then show ?thesis using c False True up n Inr ins ok1(2) by (auto simp: Create_def)
    qed
  next
    case nz: False
    obtain g r2 where ins: "flow_insert (cr_FlowID q) q up r = (g, r2)" by fastforce
    show ?thesis
    proof (cases "map_of (fr_flows r) (cr_FlowID q)")
      case None
      then show ?thesis using flow_insert_ok [OF ok None room ins] c False nz up ins by (auto simp: Create_def)
    next
      case (Some g)
      then show ?thesis using ok c False nz up by (auto simp: Create_def)
    qed
  qed
qed

lemma Attach_ok:
  assumes ok: "flows_ok r" and a: "Attach q r = (res, ups, r')"
  shows "flows_ok r' \<and> upstreams r = mset ups + upstreams r'"
proof (cases "map_of (fr_flows r) (at_FlowID q)")
  case None
  then show ?thesis using a ok by (auto simp: Attach_def split: if_splits)
next
  case (Some f)
  define g where "g = f\<lparr>fl_epoch := at_Epoch q, fl_leaseKey := at_LeaseKey q\<rparr>"
  have "(ups = [] \<and> r' = r) \<or> (ups = [] \<and> r' = r\<lparr>fr_flows := AList.update (at_FlowID q) g (fr_flows r)\<rparr>)
      \<or> (ups = [fl_upstream f] \<and> r' = flow_remove (at_FlowID q) f r)"
    using a Some by (auto simp: Attach_def g_def Let_def split: if_splits)
  then show ?thesis
  proof (elim disjE conjE)
    assume "ups = []" "r' = r\<lparr>fr_flows := AList.update (at_FlowID q) g (fr_flows r)\<rparr>"
    then show ?thesis using flow_update_ok [OF ok Some, of g] by (simp add: g_def)
  qed (use ok flow_remove_ok [OF ok Some] in simp_all)
qed

lemma Release_ok:
  assumes ok: "flows_ok r" and a: "Release p c i closed r = (res, ups, r')"
  shows "flows_ok r' \<and> upstreams r = mset ups + upstreams r'"
proof (cases "map_of (fr_flows r) i")
  case None
  then show ?thesis using a ok by (auto simp: Release_def split: if_splits)
next
  case (Some f)
  have "(ups = [] \<and> r' = r) \<or> (ups = [fl_upstream f] \<and> r' = flow_remove i f r)"
    using a Some by (auto simp: Release_def split: if_splits)
  then show ?thesis using ok flow_remove_ok [OF ok Some] by auto
qed

text \<open>A run of the registry: the upstreams it took and the upstreams it closed, in order.\<close>

datatype flow_op =
    FCreate FlowCreateRequest
  | FAttach FlowAttachRequest
  | FRelease PrincipalID ContinuityID ContinuityID "continuity_error option"
  | FClose

fun flow_exec :: "flow_op \<Rightarrow> FlowRegistry \<Rightarrow> nat list \<times> nat list \<times> FlowRegistry" where
  "flow_exec (FCreate q) r =
     (case Create q r of (Inl _, r') \<Rightarrow> ([], [], r') | (Inr f, r') \<Rightarrow> ([the (cr_Upstream q)], [], r'))"
| "flow_exec (FAttach q) r = (case Attach q r of (_, ups, r') \<Rightarrow> ([], ups, r'))"
| "flow_exec (FRelease p c i closed) r = (case Release p c i closed r of (_, ups, r') \<Rightarrow> ([], ups, r'))"
| "flow_exec FClose r = (case FlowRegistry_Close r of (ups, r') \<Rightarrow> ([], ups, r'))"

fun flow_run :: "flow_op list \<Rightarrow> FlowRegistry \<Rightarrow> nat list \<times> nat list \<times> FlowRegistry" where
  "flow_run [] r = ([], [], r)"
| "flow_run (op # ops) r =
     (case flow_exec op r of (took, gone, r1) \<Rightarrow>
        (case flow_run ops r1 of (took', gone', r2) \<Rightarrow> (took @ took', gone @ gone', r2)))"

lemma flow_exec_ok:
  assumes ok: "flows_ok r" and ex: "flow_exec op r = (took, gone, r')"
  shows "flows_ok r' \<and> mset took + upstreams r = mset gone + upstreams r'"
proof (cases op)
  case (FCreate q)
  then show ?thesis using ex Create_ok [OF ok] by (auto split: prod.splits sum.splits)
next
  case (FAttach q)
  then show ?thesis using ex Attach_ok [OF ok] by (auto split: prod.splits)
next
  case (FRelease p c i closed)
  then show ?thesis using ex Release_ok [OF ok] by (auto split: prod.splits)
next
  case FClose
  then show ?thesis
    using ex ok by (auto simp: FlowRegistry_Close_def flows_ok_def owned_by_def principal_count_def upstreams_def split: if_splits)
qed

lemma flow_run_ok:
  assumes "flows_ok r" and "flow_run ops r = (took, gone, r')"
  shows "flows_ok r' \<and> mset took + upstreams r = mset gone + upstreams r'"
  using assms
proof (induction ops arbitrary: r took gone)
  case (Cons op ops)
  obtain t1 g1 r1 where e1: "flow_exec op r = (t1, g1, r1)" by (metis prod_cases3)
  obtain t2 g2 where e2: "flow_run ops r1 = (t2, g2, r')" "took = t1 @ t2" "gone = g1 @ g2"
    using Cons(3) e1 by (auto split: prod.splits)
  have a: "flows_ok r1" "mset t1 + upstreams r = mset g1 + upstreams r1" using flow_exec_ok [OF Cons(2) e1] by simp_all
  have b: "flows_ok r'" "mset t2 + upstreams r1 = mset g2 + upstreams r'" using Cons(1) [OF a(1) e2(1)] by simp_all
  have "mset took + upstreams r = (mset t1 + upstreams r) + mset t2" by (simp add: e2)
  also have "\<dots> = mset g1 + (mset t2 + upstreams r1)" using a(2) by simp
  finally show ?case using b by (simp add: e2)
qed simp

lemma NewFlowRegistry_ok:
  assumes "NewFlowRegistry config random = Inr r"
  shows "flows_ok r \<and> upstreams r = {#}"
  using assms
  by (auto simp: NewFlowRegistry_def flows_ok_def owned_by_def principal_count_def upstreams_def split: if_splits)

lemma flow_run_append:
  "flow_run (xs @ ys) r =
     (case flow_run xs r of (t1, g1, r1) \<Rightarrow> (case flow_run ys r1 of (t2, g2, r2) \<Rightarrow> (t1 @ t2, g1 @ g2, r2)))"
  by (induction xs arbitrary: r) (auto split: prod.splits)

text \<open>A closed registry holds nothing.\<close>

lemma flow_exec_closed:
  assumes "fr_closed r \<longrightarrow> fr_flows r = []" and "flow_exec op r = (took, gone, r')"
  shows "fr_closed r' \<longrightarrow> fr_flows r' = []"
proof (cases op)
  case (FCreate q)
  have "fr_closed r' = fr_closed r \<and> (fr_closed r \<longrightarrow> r' = r)"
  proof -
    obtain res where c: "Create q r = (res, r')" using FCreate assms(2) by (auto split: prod.splits sum.splits)
    obtain ri r1 where n: "newFlowIDLocked 8 r = (ri, r1)" by fastforce
    show ?thesis
      using c n newFlowIDLocked_fields(5) [OF n]
      by (auto simp: Create_def flow_insert_def Let_def split: option.splits if_splits sum.splits)
  qed
  then show ?thesis using assms(1) by auto
next
  case (FAttach q)
  then have "fr_closed r' = fr_closed r \<and> (fr_closed r \<longrightarrow> r' = r)"
    using assms(2) by (auto simp: Attach_def flow_remove_def decrementPrincipalLocked_def Let_def split: prod.splits if_splits option.splits)
  then show ?thesis using assms(1) by auto
next
  case (FRelease p c i closed)
  then have "fr_closed r' = fr_closed r \<and> (fr_closed r \<longrightarrow> r' = r)"
    using assms(2) by (auto simp: Release_def flow_remove_def decrementPrincipalLocked_def Let_def split: prod.splits if_splits option.splits)
  then show ?thesis using assms(1) by auto
next
  case FClose
  then show ?thesis using assms by (auto simp: FlowRegistry_Close_def split: if_splits)
qed

lemma flow_run_closed:
  assumes "flow_run ops r = (took, gone, r')" and "fr_closed r \<longrightarrow> fr_flows r = []"
  shows "fr_closed r' \<longrightarrow> fr_flows r' = []"
  using assms
proof (induction ops arbitrary: r took gone)
  case (Cons op ops)
  obtain t1 g1 r1 where e1: "flow_exec op r = (t1, g1, r1)" by (metis prod_cases3)
  then obtain t2 g2 where e2: "flow_run ops r1 = (t2, g2, r')" using Cons(2) by (auto split: prod.splits)
  show ?case by (rule Cons(1) [OF e2 flow_exec_closed [OF Cons(3) e1]])
qed simp

lemma NewFlowRegistry_closed: "NewFlowRegistry config random = Inr r \<Longrightarrow> fr_closed r \<longrightarrow> fr_flows r = []"
  by (auto simp: NewFlowRegistry_def split: if_splits)

text \<open>
  C13 (invariant). The flow registry owns its upstreams: in every run from a new registry the upstreams it
  accepted are exactly those it has closed together with those it holds, each with its multiplicity, so
  none is leaked or closed twice; a run that ends with \<open>Close\<close> has closed them all. Meanwhile the number of
  flows stays within the limits, in total and for every principal, and the counters are exact.
\<close>

theorem flow_registry_conserves:
  assumes "NewFlowRegistry config random = Inr r" and "flow_run ops r = (took, gone, r')"
  shows "mset took = mset gone + upstreams r'
    \<and> length (fr_flows r') \<le> fr_maxFlows r' \<and> distinct (map fst (fr_flows r'))
    \<and> (\<forall>p. principal_count p r' = length (filter (\<lambda>(i, f). fl_principal f = p) (fr_flows r'))
           \<and> principal_count p r' \<le> fr_maxFlowsPerPrincipal r')
    \<and> mset (fst (snd (flow_run (ops @ [FClose]) r))) = mset took"
proof -
  note n = NewFlowRegistry_ok [OF assms(1)]
  have run: "flows_ok r'" "mset took = mset gone + upstreams r'" using flow_run_ok [OF _ assms(2)] n by auto
  have "mset (fst (snd (flow_run (ops @ [FClose]) r))) = mset took"
  proof -
    obtain ups r2 where c: "FlowRegistry_Close r' = (ups, r2)" by fastforce
    have "mset ups = upstreams r'"
    proof (cases "fr_closed r'")
      case True
      then show ?thesis using c flow_run_closed [OF assms(2)] NewFlowRegistry_closed [OF assms(1)]
        by (auto simp: FlowRegistry_Close_def upstreams_def)
    next
      case False
      then show ?thesis using c by (auto simp: FlowRegistry_Close_def upstreams_def)
    qed
    then show ?thesis using assms(2) c run(2) by (simp add: flow_run_append)
  qed
  moreover have "size (filter_mset P (mset xs)) = length (filter P xs)" for P and xs :: "'x list"
    by (metis mset_filter size_mset)
  ultimately show ?thesis using run by (auto simp: flows_ok_def owned_by_def)
qed

definition sample_create :: "byte \<Rightarrow> nat \<Rightarrow> FlowCreateRequest" where
  "sample_create b up =
     \<lparr>cr_Principal = replicate 32 1, cr_ConstellationID = replicate 16 2, cr_FlowID = replicate 16 b,
      cr_LeaseKey = replicate 16 3, cr_Upstream = Some up\<rparr>"

definition sample_attach :: FlowAttachRequest where
  "sample_attach =
     \<lparr>at_Principal = replicate 32 1, at_ConstellationID = replicate 16 2, at_FlowID = replicate 16 4,
      at_LeaseKey = replicate 16 5, at_Epoch = 7\<rparr>"

definition sample_flow_registry :: FlowRegistry where
  "sample_flow_registry =
     \<lparr>fr_maxFlows = 4, fr_maxFlowsPerPrincipal = 2, fr_random = [], fr_flows = [], fr_principalCounts = [], fr_closed = False\<rparr>"

definition sample_flow_ops :: "flow_op list" where
  "sample_flow_ops = [FCreate (sample_create 4 10), FCreate (sample_create 6 11), FCreate (sample_create 8 12), FAttach sample_attach]"

text \<open>The third flow of the principal is refused, and attaching with a wrong epoch ends the first.\<close>

theorem flow_registry_conserves_witness:
  "fst (flow_run sample_flow_ops sample_flow_registry) = [10, 11]
   \<and> fst (snd (flow_run sample_flow_ops sample_flow_registry)) = [10]
   \<and> mset [10, 11] = mset [10] + upstreams (snd (snd (flow_run sample_flow_ops sample_flow_registry)))
   \<and> mset (fst (snd (flow_run (sample_flow_ops @ [FClose]) sample_flow_registry))) = mset [10, 11]"
proof -
  have new: "NewFlowRegistry \<lparr>fc_MaxFlows = 4, fc_MaxFlowsPerPrincipal = 2\<rparr> [] = Inr sample_flow_registry"
    by (simp add: NewFlowRegistry_def sample_flow_registry_def)
  have took: "fst (flow_run sample_flow_ops sample_flow_registry) = [10, 11]" by code_simp
  have gone: "fst (snd (flow_run sample_flow_ops sample_flow_registry)) = [10]" by code_simp
  obtain r' where run: "flow_run sample_flow_ops sample_flow_registry = ([10, 11], [10], r')"
    using took gone by (metis prod.collapse)
  show ?thesis using flow_registry_conserves [OF new run] took gone run by simp
qed

section \<open>Lease tickets\<close>

type_synonym LeaseTicket = bytes
type_synonym TranscriptID = bytes

abbreviation zero_ticket :: LeaseTicket where "zero_ticket \<equiv> zero_bytes 32"
abbreviation zero_transcript :: TranscriptID where "zero_transcript \<equiv> zero_bytes 32"

text \<open>Times and durations are nanoseconds.\<close>

record TicketGrant =
  tg_ConstellationID :: ContinuityID
  tg_IssuerTranscript :: TranscriptID
  tg_ExpiresAt :: int

record ticketRecord =
  tk_principal :: PrincipalID
  tk_constellationID :: ContinuityID
  tk_issuerTranscript :: TranscriptID
  tk_expiresAt :: int

record TicketRegistry =
  tr_maxTickets :: nat
  tr_ttl :: int
  tr_random :: bytes
  tr_tickets :: "(LeaseTicket \<times> ticketRecord) list"
  tr_closed :: bool

definition NewTicketRegistry :: "int \<Rightarrow> int \<Rightarrow> bytes \<Rightarrow> continuity_error + TicketRegistry" where
  "NewTicketRegistry maxTickets ttl random =
     (if maxTickets \<le> 0 \<or> maxTickets > 4096 \<or> ttl < 5 * 10 ^ 9 \<or> ttl > 600 * 10 ^ 9 then Inl ErrLeaseTicketConfig
      else Inr \<lparr>tr_maxTickets = nat maxTickets, tr_ttl = ttl, tr_random = random, tr_tickets = [], tr_closed = False\<rparr>)"

definition cleanupLocked :: "int \<Rightarrow> TicketRegistry \<Rightarrow> TicketRegistry" where
  "cleanupLocked now r = r\<lparr>tr_tickets := filter (\<lambda>(t, k). now < tk_expiresAt k) (tr_tickets r)\<rparr>"

fun newTicketLocked :: "nat \<Rightarrow> TicketRegistry \<Rightarrow> (continuity_error + LeaseTicket) \<times> TicketRegistry" where
  "newTicketLocked 0 r = (Inl ErrLeaseTicketEntropy, r)"
| "newTicketLocked (Suc n) r =
     (case read_full 32 (tr_random r) of
        (None, rest) \<Rightarrow> (Inl ErrLeaseTicketEntropy, r\<lparr>tr_random := rest\<rparr>)
      | (Some t, rest) \<Rightarrow>
          if t = zero_ticket \<or> map_of (tr_tickets r) t \<noteq> None then newTicketLocked n (r\<lparr>tr_random := rest\<rparr>)
          else (Inr t, r\<lparr>tr_random := rest\<rparr>))"

definition grantFromRecord :: "ticketRecord \<Rightarrow> TicketGrant" where
  "grantFromRecord k =
     \<lparr>tg_ConstellationID = tk_constellationID k, tg_IssuerTranscript = tk_issuerTranscript k, tg_ExpiresAt = tk_expiresAt k\<rparr>"

definition Issue ::
  "int \<Rightarrow> PrincipalID \<Rightarrow> ContinuityID \<Rightarrow> TranscriptID \<Rightarrow> TicketRegistry \<Rightarrow> (continuity_error + LeaseTicket) \<times> TicketRegistry" where
  "Issue now p c transcript r =
     (if p = zero_principal \<or> c = zero_id \<or> transcript = zero_transcript then (Inl ErrLeaseTicketBinding, r)
      else if tr_closed r then (Inl ErrLeaseTicketClosed, r)
      else
        let r1 = cleanupLocked now r in
        if length (tr_tickets r1) \<ge> tr_maxTickets r1 then (Inl ErrLeaseTicketCapacity, r1)
        else case newTicketLocked 8 r1 of
               (Inl e, r2) \<Rightarrow> (Inl e, r2)
             | (Inr t, r2) \<Rightarrow>
                 (Inr t, r2\<lparr>tr_tickets := AList.update t \<lparr>tk_principal = p, tk_constellationID = c,
                    tk_issuerTranscript = transcript, tk_expiresAt = now + tr_ttl r2\<rparr> (tr_tickets r2)\<rparr>))"

text \<open>The test that \<open>Consume\<close> and \<open>Rotate\<close> share: the ticket is there and bound to the caller.\<close>

definition ticket_valid :: "LeaseTicket \<Rightarrow> PrincipalID \<Rightarrow> ContinuityID \<Rightarrow> TicketRegistry \<Rightarrow> ticketRecord option" where
  "ticket_valid t p c r =
     (case map_of (tr_tickets r) t of
        None \<Rightarrow> None
      | Some k \<Rightarrow>
          if t = zero_ticket \<or> p = zero_principal \<or> c = zero_id \<or> tk_principal k \<noteq> p \<or> tk_constellationID k \<noteq> c
          then None else Some k)"

definition Consume ::
  "int \<Rightarrow> LeaseTicket \<Rightarrow> PrincipalID \<Rightarrow> ContinuityID \<Rightarrow> TicketRegistry \<Rightarrow> (continuity_error + TicketGrant) \<times> TicketRegistry" where
  "Consume now t p c r =
     (if tr_closed r then (Inl ErrLeaseTicketClosed, r)
      else
        let r1 = cleanupLocked now r in
        case ticket_valid t p c r1 of
          None \<Rightarrow> (Inl ErrLeaseTicketInvalid, r1)
        | Some k \<Rightarrow> (Inr (grantFromRecord k), r1\<lparr>tr_tickets := AList.delete t (tr_tickets r1)\<rparr>))"

definition Rotate ::
  "int \<Rightarrow> LeaseTicket \<Rightarrow> PrincipalID \<Rightarrow> ContinuityID \<Rightarrow> TranscriptID \<Rightarrow> TicketRegistry
     \<Rightarrow> (continuity_error + LeaseTicket \<times> TicketGrant) \<times> TicketRegistry" where
  "Rotate now t p c transcript r =
     (if transcript = zero_transcript then (Inl ErrLeaseTicketBinding, r)
      else if tr_closed r then (Inl ErrLeaseTicketClosed, r)
      else
        let r1 = cleanupLocked now r in
        case ticket_valid t p c r1 of
          None \<Rightarrow> (Inl ErrLeaseTicketInvalid, r1)
        | Some k \<Rightarrow>
            (case newTicketLocked 8 r1 of
               (Inl e, r2) \<Rightarrow> (Inl e, r2)
             | (Inr t', r2) \<Rightarrow>
                 (Inr (t', grantFromRecord k),
                  r2\<lparr>tr_tickets := AList.update t' \<lparr>tk_principal = p, tk_constellationID = c, tk_issuerTranscript = transcript,
                       tk_expiresAt = now + tr_ttl r2\<rparr> (AList.delete t (tr_tickets r2))\<rparr>)))"

definition RollbackRotate ::
  "int \<Rightarrow> LeaseTicket \<Rightarrow> LeaseTicket \<Rightarrow> PrincipalID \<Rightarrow> ContinuityID \<Rightarrow> TicketGrant \<Rightarrow> TicketRegistry
     \<Rightarrow> continuity_error option \<times> TicketRegistry" where
  "RollbackRotate now current successor p c grant r =
     (if current = zero_ticket \<or> successor = zero_ticket \<or> p = zero_principal \<or> c = zero_id
         \<or> tg_IssuerTranscript grant = zero_transcript \<or> tg_ConstellationID grant \<noteq> c
      then (Some ErrLeaseTicketBinding, r)
      else if tr_closed r then (Some ErrLeaseTicketClosed, r)
      else
        let r1 = cleanupLocked now r in
        case map_of (tr_tickets r1) successor of
          None \<Rightarrow> (Some ErrLeaseTicketInvalid, r1)
        | Some k \<Rightarrow>
            if map_of (tr_tickets r1) current \<noteq> None \<or> tk_principal k \<noteq> p \<or> tk_constellationID k \<noteq> c
               \<or> \<not> now < tg_ExpiresAt grant
            then (Some ErrLeaseTicketInvalid, r1)
            else (None, r1\<lparr>tr_tickets := AList.update current \<lparr>tk_principal = p, tk_constellationID = c,
                   tk_issuerTranscript = tg_IssuerTranscript grant, tk_expiresAt = tg_ExpiresAt grant\<rparr>
                   (AList.delete successor (tr_tickets r1))\<rparr>))"

definition Revoke :: "int \<Rightarrow> LeaseTicket \<Rightarrow> PrincipalID \<Rightarrow> ContinuityID \<Rightarrow> TicketRegistry \<Rightarrow> bool \<times> TicketRegistry" where
  "Revoke now t p c r =
     (if t = zero_ticket \<or> p = zero_principal \<or> c = zero_id \<or> tr_closed r then (False, r)
      else
        let r1 = cleanupLocked now r in
        case map_of (tr_tickets r1) t of
          None \<Rightarrow> (False, r1)
        | Some k \<Rightarrow>
            if tk_principal k \<noteq> p \<or> tk_constellationID k \<noteq> c then (False, r1)
            else (True, r1\<lparr>tr_tickets := AList.delete t (tr_tickets r1)\<rparr>))"

definition Ticket_Count :: "int \<Rightarrow> TicketRegistry \<Rightarrow> nat \<times> TicketRegistry" where
  "Ticket_Count now r = (if tr_closed r then (0, r) else let r1 = cleanupLocked now r in (length (tr_tickets r1), r1))"

definition TicketRegistry_Close :: "TicketRegistry \<Rightarrow> TicketRegistry" where
  "TicketRegistry_Close r = (if tr_closed r then r else r\<lparr>tr_tickets := [], tr_closed := True\<rparr>)"

section \<open>Tickets are linear\<close>

text \<open>
  A grant names the ticket, the principal and constellation it is bound to and its expiry; a use adds
  the time. \<open>ticket_run\<close> collects the grants and the uses of a sequence of operations.
\<close>

type_synonym grant = "LeaseTicket \<times> PrincipalID \<times> ContinuityID \<times> int"

datatype ticket_op =
    TIssue int PrincipalID ContinuityID TranscriptID
  | TConsume int LeaseTicket PrincipalID ContinuityID
  | TRotate int LeaseTicket PrincipalID ContinuityID TranscriptID
  | TRollback int LeaseTicket LeaseTicket PrincipalID ContinuityID TicketGrant
  | TRevoke int LeaseTicket PrincipalID ContinuityID
  | TCount int
  | TClose

fun ticket_exec :: "ticket_op \<Rightarrow> TicketRegistry \<Rightarrow> grant list \<times> (grant \<times> int) list \<times> TicketRegistry" where
  "ticket_exec (TIssue now p c transcript) r =
     (case Issue now p c transcript r of
        (Inl _, r') \<Rightarrow> ([], [], r')
      | (Inr t, r') \<Rightarrow> ([(t, p, c, now + tr_ttl r)], [], r'))"
| "ticket_exec (TConsume now t p c) r =
     (case Consume now t p c r of
        (Inl _, r') \<Rightarrow> ([], [], r')
      | (Inr g, r') \<Rightarrow> ([], [((t, p, c, tg_ExpiresAt g), now)], r'))"
| "ticket_exec (TRotate now t p c transcript) r =
     (case Rotate now t p c transcript r of
        (Inl _, r') \<Rightarrow> ([], [], r')
      | (Inr (t', g), r') \<Rightarrow> ([(t', p, c, now + tr_ttl r)], [((t, p, c, tg_ExpiresAt g), now)], r'))"
| "ticket_exec (TRollback now t t' p c g) r =
     (case RollbackRotate now t t' p c g r of
        (Some _, r') \<Rightarrow> ([], [], r')
      | (None, r') \<Rightarrow> ([(t, p, c, tg_ExpiresAt g)], [], r'))"
| "ticket_exec (TRevoke now t p c) r = ([], [], snd (Revoke now t p c r))"
| "ticket_exec (TCount now) r = ([], [], snd (Ticket_Count now r))"
| "ticket_exec TClose r = ([], [], TicketRegistry_Close r)"

fun ticket_run :: "ticket_op list \<Rightarrow> TicketRegistry \<Rightarrow> grant list \<times> (grant \<times> int) list \<times> TicketRegistry" where
  "ticket_run [] r = ([], [], r)"
| "ticket_run (op # ops) r =
     (case ticket_exec op r of (gs, us, r1) \<Rightarrow>
        (case ticket_run ops r1 of (gs', us', r2) \<Rightarrow> (gs @ gs', us @ us', r2)))"

definition held :: "TicketRegistry \<Rightarrow> grant multiset" where
  "held r = image_mset (\<lambda>(t, k). (t, tk_principal k, tk_constellationID k, tk_expiresAt k)) (mset (tr_tickets r))"

definition tickets_ok :: "TicketRegistry \<Rightarrow> bool" where
  "tickets_ok r \<longleftrightarrow> distinct (map fst (tr_tickets r)) \<and> length (tr_tickets r) \<le> tr_maxTickets r"

lemma cleanup_ok:
  assumes "tickets_ok r"
  shows "tickets_ok (cleanupLocked now r)" "held (cleanupLocked now r) \<subseteq># held r"
    "map_of (tr_tickets (cleanupLocked now r)) t = Some k \<Longrightarrow> now < tk_expiresAt k"
    "tr_ttl (cleanupLocked now r) = tr_ttl r" "tr_maxTickets (cleanupLocked now r) = tr_maxTickets r"
    "tr_closed (cleanupLocked now r) = tr_closed r"
proof -
  let ?f = "filter (\<lambda>(t, k). now < tk_expiresAt k) (tr_tickets r)"
  have "length ?f \<le> tr_maxTickets r"
    using assms length_filter_le [of "\<lambda>(t, k). now < tk_expiresAt k" "tr_tickets r"] unfolding tickets_ok_def by linarith
  moreover have "distinct (map fst ?f)" using assms by (auto simp: tickets_ok_def intro: distinct_map_filter)
  ultimately show "tickets_ok (cleanupLocked now r)" by (simp add: tickets_ok_def cleanupLocked_def)
  show "held (cleanupLocked now r) \<subseteq># held r"
    by (simp add: held_def cleanupLocked_def image_mset_subseteq_mono)
  show "now < tk_expiresAt k" if "map_of (tr_tickets (cleanupLocked now r)) t = Some k"
    using map_of_SomeD [OF that] by (simp add: cleanupLocked_def)
qed (simp_all add: cleanupLocked_def)

lemma newTicketLocked_spec:
  assumes "newTicketLocked n r = (res, r')"
  shows "(\<exists>rest. r' = r\<lparr>tr_random := rest\<rparr>) \<and> (\<forall>t. res = Inr t \<longrightarrow> map_of (tr_tickets r) t = None \<and> t \<noteq> zero_ticket)"
  using assms
proof (induction n arbitrary: r)
  case 0
  then show ?case by (auto intro: exI [of _ "tr_random r"])
next
  case (Suc n)
  obtain got rest where rf: "read_full 32 (tr_random r) = (got, rest)" by fastforce
  show ?case
  proof (cases got)
    case None
    then show ?thesis using Suc(2) rf by auto
  next
    case (Some t)
    show ?thesis
    proof (cases "t = zero_ticket \<or> map_of (tr_tickets r) t \<noteq> None")
      case True
      then have "newTicketLocked n (r\<lparr>tr_random := rest\<rparr>) = (res, r')" using Suc(2) rf Some by simp
      from Suc(1) [OF this] show ?thesis by (elim conjE exE) auto
    next
      case False
      then have "res = Inr t" "r' = r\<lparr>tr_random := rest\<rparr>" using Suc(2) rf Some by simp_all
      then show ?thesis using False by auto
    qed
  qed
qed

lemma delete_held:
  assumes "tickets_ok r" and "map_of (tr_tickets r) t = Some k"
  shows "tickets_ok (r\<lparr>tr_tickets := AList.delete t (tr_tickets r)\<rparr>)"
    "held r = add_mset (t, tk_principal k, tk_constellationID k, tk_expiresAt k) (held (r\<lparr>tr_tickets := AList.delete t (tr_tickets r)\<rparr>))"
    "length (AList.delete t (tr_tickets r)) < length (tr_tickets r)"
proof -
  have d: "distinct (map fst (tr_tickets r))" using assms(1) by (simp add: tickets_ok_def)
  note m = mset_alist_delete [OF d assms(2)]
  show lt: "length (AList.delete t (tr_tickets r)) < length (tr_tickets r)" using arg_cong [OF m, of size] by simp
  show "tickets_ok (r\<lparr>tr_tickets := AList.delete t (tr_tickets r)\<rparr>)"
    using assms(1) lt by (simp add: tickets_ok_def distinct_delete)
  show "held r = add_mset (t, tk_principal k, tk_constellationID k, tk_expiresAt k) (held (r\<lparr>tr_tickets := AList.delete t (tr_tickets r)\<rparr>))"
    by (simp add: held_def m)
qed

lemma insert_held:
  assumes "tickets_ok r" and "map_of (tr_tickets r) t = None" and "length (tr_tickets r) < tr_maxTickets r"
  shows "tickets_ok (r\<lparr>tr_tickets := AList.update t k (tr_tickets r)\<rparr>)"
    "held (r\<lparr>tr_tickets := AList.update t k (tr_tickets r)\<rparr>) = add_mset (t, tk_principal k, tk_constellationID k, tk_expiresAt k) (held r)"
proof -
  have d: "distinct (map fst (tr_tickets r))" using assms(1) by (simp add: tickets_ok_def)
  note u = alist_absent [OF d assms(2), of k]
  show "tickets_ok (r\<lparr>tr_tickets := AList.update t k (tr_tickets r)\<rparr>)"
    using assms u by (auto simp: tickets_ok_def map_of_eq_None_iff)
  show "held (r\<lparr>tr_tickets := AList.update t k (tr_tickets r)\<rparr>) = add_mset (t, tk_principal k, tk_constellationID k, tk_expiresAt k) (held r)"
    by (simp add: held_def u)
qed

definition accounted :: "TicketRegistry \<Rightarrow> grant list \<times> (grant \<times> int) list \<times> TicketRegistry \<Rightarrow> bool" where
  "accounted r out \<longleftrightarrow>
     (case out of (gs, us, r') \<Rightarrow>
        tickets_ok r' \<and> tr_ttl r' = tr_ttl r \<and> mset (map fst us) + held r' \<subseteq># mset gs + held r
        \<and> (\<forall>(g, now)\<in>set us. now < snd (snd (snd g))))"

lemma accounted_drop: "tickets_ok r' \<Longrightarrow> held r' \<subseteq># held r \<Longrightarrow> tr_ttl r' = tr_ttl r \<Longrightarrow> accounted r ([], [], r')"
  by (simp add: accounted_def)

lemma Issue_accounted:
  assumes ok: "tickets_ok r"
  shows "accounted r (ticket_exec (TIssue now p c transcript) r)"
proof (cases "p = zero_principal \<or> c = zero_id \<or> transcript = zero_transcript \<or> tr_closed r")
  case True
  then show ?thesis using ok by (auto simp: Issue_def intro!: accounted_drop)
next
  case False
  let ?r = "cleanupLocked now r"
  note cl = cleanup_ok [OF ok, of now]
  obtain res r2 where n: "newTicketLocked 8 ?r = (res, r2)" by fastforce
  obtain rest where r2: "r2 = ?r\<lparr>tr_random := rest\<rparr>" using newTicketLocked_spec [OF n] by blast
  have same: "tickets_ok r2" "held r2 = held ?r" "tr_ttl r2 = tr_ttl r" using cl by (simp_all add: r2 tickets_ok_def held_def)
  show ?thesis
  proof (cases "length (tr_tickets ?r) \<ge> tr_maxTickets ?r")
    case True
    then show ?thesis using False cl by (auto simp: Issue_def Let_def intro!: accounted_drop)
  next
    case room: False
    show ?thesis
    proof (cases res)
      case (Inl e)
      then show ?thesis using False room n same cl(2) by (auto simp: Issue_def Let_def intro!: accounted_drop)
    next
      case (Inr t)
      have "map_of (tr_tickets r2) t = None" "length (tr_tickets r2) < tr_maxTickets r2"
        using newTicketLocked_spec [OF n] Inr room by (auto simp: r2)
      note ins = insert_held [OF same(1) this, of "\<lparr>tk_principal = p, tk_constellationID = c, tk_issuerTranscript = transcript,
          tk_expiresAt = now + tr_ttl r2\<rparr>"]
      show ?thesis using False room n Inr ins same cl(2) by (simp add: Issue_def Let_def accounted_def)
    qed
  qed
qed

lemma ticket_valid_Some:
  assumes "ticket_valid t p c r = Some k"
  shows "map_of (tr_tickets r) t = Some k" "tk_principal k = p" "tk_constellationID k = c"
  using assms by (auto simp: ticket_valid_def split: option.splits if_splits)

lemma Consume_accounted:
  assumes ok: "tickets_ok r"
  shows "accounted r (ticket_exec (TConsume now t p c) r)"
proof (cases "tr_closed r \<or> ticket_valid t p c (cleanupLocked now r) = None")
  case True
  then show ?thesis using ok cleanup_ok [OF ok, of now] by (auto simp: Consume_def Let_def intro!: accounted_drop)
next
  case False
  let ?r = "cleanupLocked now r"
  note cl = cleanup_ok [OF ok, of now]
  obtain k where v: "ticket_valid t p c ?r = Some k" using False by auto
  note k = ticket_valid_Some [OF v]
  note del = delete_held [OF cl(1) k(1)]
  have "now < tk_expiresAt k" by (rule cl(3) [OF k(1)])
  then show ?thesis
    using False v k del cl(2,4) by (simp add: Consume_def Let_def accounted_def grantFromRecord_def)
qed

lemma Rotate_accounted:
  assumes ok: "tickets_ok r"
  shows "accounted r (ticket_exec (TRotate now t p c transcript) r)"
proof (cases "transcript = zero_transcript \<or> tr_closed r \<or> ticket_valid t p c (cleanupLocked now r) = None")
  case True
  then show ?thesis using ok cleanup_ok [OF ok, of now] by (auto simp: Rotate_def Let_def intro!: accounted_drop)
next
  case False
  let ?r = "cleanupLocked now r"
  note cl = cleanup_ok [OF ok, of now]
  obtain k where v: "ticket_valid t p c ?r = Some k" using False by auto
  note k = ticket_valid_Some [OF v]
  obtain res r2 where n: "newTicketLocked 8 ?r = (res, r2)" by fastforce
  obtain rest where r2: "r2 = ?r\<lparr>tr_random := rest\<rparr>" using newTicketLocked_spec [OF n] by blast
  have same: "tickets_ok r2" "held r2 = held ?r" "tr_ttl r2 = tr_ttl r" "map_of (tr_tickets r2) t = Some k"
    using cl k by (simp_all add: r2 tickets_ok_def held_def)
  show ?thesis
  proof (cases res)
    case (Inl e)
    then show ?thesis using False v n same cl(2) by (auto simp: Rotate_def Let_def intro!: accounted_drop)
  next
    case (Inr t')
    let ?d = "r2\<lparr>tr_tickets := AList.delete t (tr_tickets r2)\<rparr>"
    note del = delete_held [OF same(1,4)]
    have "map_of (tr_tickets r2) t' = None" using newTicketLocked_spec [OF n] Inr by (simp add: r2)
    then have "map_of (tr_tickets ?d) t' = None" "length (tr_tickets ?d) < tr_maxTickets ?d"
      using del(3) same(1) by (auto simp: delete_conv' tickets_ok_def)
    note ins = insert_held [OF del(1) this, of "\<lparr>tk_principal = p, tk_constellationID = c, tk_issuerTranscript = transcript,
        tk_expiresAt = now + tr_ttl r2\<rparr>"]
    have "now < tk_expiresAt k" by (rule cl(3) [OF k(1)])
    moreover have "add_mset (t, p, c, tk_expiresAt k) (held ?d) \<subseteq># held r" using del(2) same(2) cl(2) k by simp
    ultimately show ?thesis
      using False v n Inr ins same(3) by (simp add: Rotate_def Let_def accounted_def grantFromRecord_def add_mset_commute)
  qed
qed

lemma Rollback_accounted:
  assumes ok: "tickets_ok r"
  shows "accounted r (ticket_exec (TRollback now t t' p c g) r)"
proof -
  let ?r = "cleanupLocked now r"
  note cl = cleanup_ok [OF ok, of now]
  define bad where "bad \<longleftrightarrow> t = zero_ticket \<or> t' = zero_ticket \<or> p = zero_principal \<or> c = zero_id
      \<or> tg_IssuerTranscript g = zero_transcript \<or> tg_ConstellationID g \<noteq> c"
  show ?thesis
  proof (cases "bad \<or> tr_closed r")
    case True
    then show ?thesis using ok by (auto simp: RollbackRotate_def bad_def intro!: accounted_drop)
  next
    case False
    have roll: "RollbackRotate now t t' p c g r = (case map_of (tr_tickets ?r) t' of
          None \<Rightarrow> (Some ErrLeaseTicketInvalid, ?r)
        | Some k \<Rightarrow>
            if map_of (tr_tickets ?r) t \<noteq> None \<or> tk_principal k \<noteq> p \<or> tk_constellationID k \<noteq> c \<or> \<not> now < tg_ExpiresAt g
            then (Some ErrLeaseTicketInvalid, ?r)
            else (None, ?r\<lparr>tr_tickets := AList.update t \<lparr>tk_principal = p, tk_constellationID = c,
                   tk_issuerTranscript = tg_IssuerTranscript g, tk_expiresAt = tg_ExpiresAt g\<rparr>
                   (AList.delete t' (tr_tickets ?r))\<rparr>))"
      using False unfolding bad_def by (simp add: RollbackRotate_def Let_def)
    show ?thesis
    proof (cases "map_of (tr_tickets ?r) t'")
      case None
      then show ?thesis using roll cl by (simp add: accounted_drop)
    next
      case (Some k)
      let ?d = "?r\<lparr>tr_tickets := AList.delete t' (tr_tickets ?r)\<rparr>"
      note del = delete_held [OF cl(1) Some]
      show ?thesis
      proof (cases "map_of (tr_tickets ?r) t \<noteq> None \<or> tk_principal k \<noteq> p \<or> tk_constellationID k \<noteq> c \<or> \<not> now < tg_ExpiresAt g")
        case True
        then show ?thesis using roll cl Some by (auto intro!: accounted_drop)
      next
        case good: False
        have "map_of (tr_tickets ?d) t = None" "length (tr_tickets ?d) < tr_maxTickets ?d"
          using good del(3) cl(1) by (auto simp: delete_conv' tickets_ok_def)
        note ins = insert_held [OF del(1) this, of "\<lparr>tk_principal = p, tk_constellationID = c,
            tk_issuerTranscript = tg_IssuerTranscript g, tk_expiresAt = tg_ExpiresAt g\<rparr>"]
        have "held ?d \<subseteq># held ?r" using del(2) by simp
        then have "held ?d \<subseteq># held r" using cl(2) by (rule subset_mset.order_trans)
        then show ?thesis using roll Some good ins cl(4) by (simp add: accounted_def)
      qed
    qed
  qed
qed

lemma ticket_exec_accounted:
  assumes ok: "tickets_ok r"
  shows "accounted r (ticket_exec op r)"
proof (cases op)
  case (TRevoke now t p c)
  let ?r = "cleanupLocked now r"
  note cl = cleanup_ok [OF ok, of now]
  show ?thesis
  proof (cases "t = zero_ticket \<or> p = zero_principal \<or> c = zero_id \<or> tr_closed r")
    case True
    then show ?thesis using ok TRevoke by (auto simp: Revoke_def intro!: accounted_drop)
  next
    case False
    show ?thesis
    proof (cases "map_of (tr_tickets ?r) t")
      case None
      then show ?thesis using False cl TRevoke by (simp add: Revoke_def Let_def accounted_drop)
    next
      case (Some k)
      have "held (?r\<lparr>tr_tickets := AList.delete t (tr_tickets ?r)\<rparr>) \<subseteq># held ?r" using delete_held(2) [OF cl(1) Some] by simp
      then have "held (?r\<lparr>tr_tickets := AList.delete t (tr_tickets ?r)\<rparr>) \<subseteq># held r" using cl(2) by (rule subset_mset.order_trans)
      then show ?thesis using False Some TRevoke cl delete_held(1) [OF cl(1) Some] by (simp add: Revoke_def Let_def accounted_drop)
    qed
  qed
next
  case (TCount now)
  then show ?thesis using ok cleanup_ok [OF ok, of now] by (simp add: Ticket_Count_def Let_def accounted_drop)
next
  case TClose
  then show ?thesis using ok by (auto simp: TicketRegistry_Close_def tickets_ok_def held_def intro!: accounted_drop)
qed (use Issue_accounted [OF ok] Consume_accounted [OF ok] Rotate_accounted [OF ok] Rollback_accounted [OF ok] in \<open>simp_all only:\<close>)

lemma ticket_run_accounted:
  assumes "tickets_ok r"
  shows "accounted r (ticket_run ops r)"
  using assms
proof (induction ops arbitrary: r)
  case Nil
  then show ?case by (simp add: accounted_def)
next
  case (Cons op ops)
  obtain g1 u1 r1 where e1: "ticket_exec op r = (g1, u1, r1)" by (metis prod_cases3)
  obtain g2 u2 r2 where e2: "ticket_run ops r1 = (g2, u2, r2)" by (metis prod_cases3)
  have a: "tickets_ok r1" "mset (map fst u1) + held r1 \<subseteq># mset g1 + held r" "tr_ttl r1 = tr_ttl r"
    "\<forall>(g, now)\<in>set u1. now < snd (snd (snd g))"
    using ticket_exec_accounted [OF Cons(2), of op] e1 by (simp_all add: accounted_def)
  have b: "tickets_ok r2" "mset (map fst u2) + held r2 \<subseteq># mset g2 + held r1" "tr_ttl r2 = tr_ttl r1"
    "\<forall>(g, now)\<in>set u2. now < snd (snd (snd g))"
    using Cons(1) [OF a(1)] e2 by (simp_all add: accounted_def)
  have "mset (map fst u1) + (mset (map fst u2) + held r2) \<subseteq># mset (map fst u1) + (mset g2 + held r1)"
    using b(2) by simp
  moreover have "(mset (map fst u1) + held r1) + mset g2 \<subseteq># (mset g1 + held r) + mset g2" using a(2) by simp
  ultimately have "mset (map fst u1) + (mset (map fst u2) + held r2) \<subseteq># (mset g1 + held r) + mset g2"
    by (metis (no_types, lifting) add.assoc add.commute subset_mset.order_trans)
  then show ?case using e1 e2 a b by (auto simp: accounted_def ac_simps)
qed

text \<open>
  C12 (safety). Lease tickets are linear: in every run of the ticket registry the successful uses
  (\<open>Consume\<close>, \<open>Rotate\<close>) together with the tickets still held are covered, with multiplicity, by the grants
  (\<open>Issue\<close>, the successor of a rotation, the ticket restored by a rollback), each for the same ticket,
  principal, constellation and expiry. So a ticket is used at most as often as it was granted, only by
  the principal it was granted to, and never after it expired; and the capacity is never exceeded.
\<close>

theorem tickets_linear:
  assumes "NewTicketRegistry maxTickets ttl random = Inr r" and "ticket_run ops r = (grants, uses, r')"
  shows "mset (map fst uses) + held r' \<subseteq># mset grants
    \<and> (\<forall>(g, now)\<in>set uses. now < snd (snd (snd g)))
    \<and> length (tr_tickets r') \<le> tr_maxTickets r' \<and> distinct (map fst (tr_tickets r'))"
proof -
  have "tickets_ok r \<and> held r = {#}"
    using assms(1) by (auto simp: NewTicketRegistry_def tickets_ok_def held_def split: if_splits)
  then show ?thesis using ticket_run_accounted [of r ops] assms(2) by (simp add: accounted_def tickets_ok_def)
qed

definition sample_tickets :: TicketRegistry where
  "sample_tickets =
     \<lparr>tr_maxTickets = 2, tr_ttl = 5 * 10 ^ 9, tr_random = replicate 32 1 @ replicate 32 2, tr_tickets = [], tr_closed = False\<rparr>"

definition sample_ticket_ops :: "ticket_op list" where
  "sample_ticket_ops =
     [TIssue 0 (replicate 32 7) (replicate 16 8) (replicate 32 9),
      TConsume 1 (replicate 32 1) (replicate 32 6) (replicate 16 8),
      TRotate 2 (replicate 32 1) (replicate 32 7) (replicate 16 8) (replicate 32 9),
      TConsume 3 (replicate 32 1) (replicate 32 7) (replicate 16 8),
      TConsume (6 * 10 ^ 9) (replicate 32 2) (replicate 32 7) (replicate 16 8)]"

text \<open>A stranger, a second use and a use after expiry are refused; one use succeeds.\<close>

theorem tickets_linear_witness:
  "fst (snd (ticket_run sample_ticket_ops sample_tickets)) = [((replicate 32 1, replicate 32 7, replicate 16 8, 5 * 10 ^ 9), 2)]
   \<and> mset (map fst (fst (snd (ticket_run sample_ticket_ops sample_tickets)))) + held (snd (snd (ticket_run sample_ticket_ops sample_tickets)))
      \<subseteq># mset (fst (ticket_run sample_ticket_ops sample_tickets))"
proof -
  have new: "NewTicketRegistry 2 (5 * 10 ^ 9) (replicate 32 1 @ replicate 32 2) = Inr sample_tickets"
    by (simp add: NewTicketRegistry_def sample_tickets_def)
  have uses: "fst (snd (ticket_run sample_ticket_ops sample_tickets)) = [((replicate 32 1, replicate 32 7, replicate 16 8, 5 * 10 ^ 9), 2)]"
    by code_simp
  obtain grants us r' where run: "ticket_run sample_ticket_ops sample_tickets = (grants, us, r')" by (metis prod_cases3)
  have "mset (map fst us) + held r' \<subseteq># mset grants" using tickets_linear [OF new run] by blast
  then show ?thesis using uses run by simp
qed

end
