(* ===== verification/NP_Cover.thy ===== *)
theory NP_Cover
  imports NP_Cell "HOL-Library.Monad_Syntax"
begin

text \<open>
  The cover-traffic engine (\<open>internal/cover/engine.go\<close>, \<open>profiles.go\<close>, \<open>profile_family.go\<close>, \<open>mosaic.go\<close>): the
  profiles, the derivation of a session's variants, the adaptive classifier and the planning of padding,
  delays and dummy cells under a byte budget. Times and durations are integers (nanoseconds), the zero
  time is \<open>None\<close>, the hash is an argument, and a draw that never ends is \<open>None\<close>. Proved: the overhead never
  exceeds the configured share of the real traffic, whatever the profile, the class and the random draws.
\<close>

section \<open>Profiles\<close>

datatype cover_error = ErrInvalidCellSize | ErrCoverConfig | ErrTransportClosed | ErrCoverCell protocol_error
  | ErrCoverWait | ErrCoverCarrier

type_synonym ProfileID = byte

abbreviation ProfileQuiet :: ProfileID where "ProfileQuiet \<equiv> 1"
abbreviation ProfileWeb :: ProfileID where "ProfileWeb \<equiv> 2"
abbreviation ProfileInteractive :: ProfileID where "ProfileInteractive \<equiv> 3"
abbreviation ProfileStream :: ProfileID where "ProfileStream \<equiv> 4"

abbreviation MaxWireCellBytes :: int where "MaxWireCellBytes \<equiv> 65535"
abbreviation millisecond :: int where "millisecond \<equiv> 1000000"
abbreviation jitterStep :: int where "jitterStep \<equiv> 250000"

datatype delayShape = delayUniform | delayFrontLoaded | delayTailLoaded

record Limits =
  MaxRealDelay :: int
  MaxPaddingBytes :: int

record profileDefinition =
  pd_limits :: Limits
  pd_buckets :: "int list"
  pd_dummySizes :: "int list"
  pd_delayShape :: delayShape
  pd_bucketLookahead :: byte
  pd_dummyGateNumerator :: byte
  pd_dummyGateDenominator :: byte
  pd_minDummyDelay :: int
  pd_maxDummyDelay :: int

definition profileDefinitions :: "ProfileID \<Rightarrow> profileDefinition option" where
  "profileDefinitions p =
     (if p = ProfileQuiet
      then Some \<lparr>pd_limits = \<lparr>MaxRealDelay = 0, MaxPaddingBytes = 0\<rparr>, pd_buckets = [], pd_dummySizes = [],
                 pd_delayShape = delayUniform, pd_bucketLookahead = 1, pd_dummyGateNumerator = 0,
                 pd_dummyGateDenominator = 1, pd_minDummyDelay = 0, pd_maxDummyDelay = 0\<rparr>
      else if p = ProfileWeb
      then Some \<lparr>pd_limits = \<lparr>MaxRealDelay = 12 * millisecond, MaxPaddingBytes = 8192\<rparr>,
                 pd_buckets = [128, 512, 1200, 4096, 16384, 32768, 49152], pd_dummySizes = [96, 256, 512, 1200],
                 pd_delayShape = delayUniform, pd_bucketLookahead = 2, pd_dummyGateNumerator = 1,
                 pd_dummyGateDenominator = 1, pd_minDummyDelay = 0, pd_maxDummyDelay = 12 * millisecond\<rparr>
      else if p = ProfileInteractive
      then Some \<lparr>pd_limits = \<lparr>MaxRealDelay = 20 * millisecond, MaxPaddingBytes = 1024\<rparr>,
                 pd_buckets = [96, 160, 256, 512, 1024, 1200, 4096], pd_dummySizes = [96, 160, 256],
                 pd_delayShape = delayUniform, pd_bucketLookahead = 2, pd_dummyGateNumerator = 1,
                 pd_dummyGateDenominator = 1, pd_minDummyDelay = 0, pd_maxDummyDelay = 20 * millisecond\<rparr>
      else if p = ProfileStream
      then Some \<lparr>pd_limits = \<lparr>MaxRealDelay = 0, MaxPaddingBytes = 256\<rparr>,
                 pd_buckets = [1200, 4096, 16384, 32768, 49152], pd_dummySizes = [],
                 pd_delayShape = delayUniform, pd_bucketLookahead = 2, pd_dummyGateNumerator = 0,
                 pd_dummyGateDenominator = 1, pd_minDummyDelay = 0, pd_maxDummyDelay = 0\<rparr>
      else None)"

definition ProfileLimits :: "ProfileID \<Rightarrow> Limits" where
  "ProfileLimits p =
     (case profileDefinitions p of None \<Rightarrow> \<lparr>MaxRealDelay = 0, MaxPaddingBytes = 0\<rparr> | Some d \<Rightarrow> pd_limits d)"

section \<open>Variants of the profiles\<close>

record derivedProfile =
  dp_variantID :: byte
  dp_definition :: profileDefinition

record profileFamily =
  pf_buckets :: "int list list"
  pf_dummies :: "int list list"
  pf_delayShapes :: "delayShape list"
  pf_bucketLookaheads :: "byte list"
  pf_dummyGates :: "(byte \<times> byte) list"
  pf_dummyDelays :: "(int \<times> int) list"

definition profileFamilies :: "ProfileID \<Rightarrow> profileFamily option" where
  "profileFamilies p =
     (if p = ProfileWeb
      then Some
        \<lparr>pf_buckets = [[128, 512, 1200, 4096, 16384, 32768, 49152], [96, 384, 768, 1200, 3072, 12288, 24576, 49152],
                       [160, 640, 1024, 1440, 8192, 16384, 32768, 57344], [256, 1024, 1200, 2048, 6144, 24576, 40960, 61440]],
         pf_dummies = [[96, 256, 512, 1200], [128, 384, 768, 1200], [160, 512, 1024], [96, 320, 640, 1024]],
         pf_delayShapes = [delayUniform, delayFrontLoaded, delayTailLoaded], pf_bucketLookaheads = [1, 2, 3],
         pf_dummyGates = [(1, 4), (1, 3), (1, 2), (2, 3)],
         pf_dummyDelays = [(12 * millisecond, 90 * millisecond), (20 * millisecond, 140 * millisecond),
                           (35 * millisecond, 220 * millisecond), (8 * millisecond, 60 * millisecond)]\<rparr>
      else if p = ProfileInteractive
      then Some
        \<lparr>pf_buckets = [[96, 160, 256, 512, 1024, 1200, 4096], [80, 128, 224, 384, 768, 1200, 2048, 4096],
                       [112, 192, 320, 640, 960, 1400, 3072], [128, 256, 384, 768, 1200, 2048, 4096]],
         pf_dummies = [[96, 160, 256], [80, 128, 224], [112, 192, 320], [128, 256, 384]],
         pf_delayShapes = [delayUniform, delayFrontLoaded, delayTailLoaded], pf_bucketLookaheads = [1, 2, 3],
         pf_dummyGates = [(1, 3), (1, 2), (2, 3), (3, 4)],
         pf_dummyDelays = [(8 * millisecond, 50 * millisecond), (12 * millisecond, 75 * millisecond),
                           (20 * millisecond, 110 * millisecond), (5 * millisecond, 40 * millisecond)]\<rparr>
      else if p = ProfileStream
      then Some
        \<lparr>pf_buckets = [[1200, 4096, 16384, 32768, 49152], [1200, 8192, 24576, 49152, 61440],
                       [1400, 4096, 12288, 32768, 57344], [1024, 6144, 16384, 40960, 61440]],
         pf_dummies = [[]], pf_delayShapes = [delayUniform], pf_bucketLookaheads = [1, 2, 3],
         pf_dummyGates = [(0, 1)], pf_dummyDelays = [(0, 0)]\<rparr>
      else None)"

fun valid_increasing :: "int \<Rightarrow> int list \<Rightarrow> bool" where
  "valid_increasing previous [] \<longleftrightarrow> True"
| "valid_increasing previous (n # ns) \<longleftrightarrow> \<not> (n \<le> previous \<or> n > MaxWireCellBytes) \<and> valid_increasing n ns"

definition validIncreasingSizes :: "int list \<Rightarrow> bool" where
  "validIncreasingSizes sizes = valid_increasing 0 sizes"

definition validateDerivedProfile :: "ProfileID \<Rightarrow> derivedProfile \<Rightarrow> cover_error option" where
  "validateDerivedProfile p profile =
     (let limits = ProfileLimits p; d = dp_definition profile in
      if dp_variantID profile = 0 \<or> MaxRealDelay (pd_limits d) > MaxRealDelay limits
         \<or> MaxPaddingBytes (pd_limits d) > MaxPaddingBytes limits
         \<or> pd_bucketLookahead d < 1 \<or> pd_bucketLookahead d > 3 \<or> pd_dummyGateDenominator d = 0
         \<or> pd_dummyGateNumerator d > pd_dummyGateDenominator d
         \<or> pd_minDummyDelay d < 0 \<or> pd_maxDummyDelay d < pd_minDummyDelay d \<or> pd_maxDummyDelay d > 250 * millisecond
         \<or> \<not> validIncreasingSizes (pd_buckets d) \<or> \<not> validIncreasingSizes (pd_dummySizes d)
      then Some ErrCoverConfig
      else if (p = ProfileQuiet \<or> p = ProfileStream)
              \<and> (pd_dummySizes d \<noteq> [] \<or> pd_dummyGateNumerator d \<noteq> 0 \<or> MaxRealDelay (pd_limits d) \<noteq> 0)
      then Some ErrCoverConfig
      else None)"

definition pick :: "byte \<Rightarrow> 'a list \<Rightarrow> 'a" where
  "pick b xs = xs ! (unat b mod length xs)"

definition deriveProfile :: "hash \<Rightarrow> bytes \<Rightarrow> ProfileID \<Rightarrow> cover_error + derivedProfile" where
  "deriveProfile H seed p =
     (case (profileFamilies p, profileDefinitions p) of
        (Some family, Some definition) \<Rightarrow>
          let material = hmac H seed (str ''NP2 Mosaic profile variant'' @ [p]);
              gate = pick (material ! 5) (pf_dummyGates family);
              dummyDelay = pick (material ! 6) (pf_dummyDelays family);
              d = definition\<lparr>pd_buckets := pick (material ! 1) (pf_buckets family),
                    pd_dummySizes := pick (material ! 2) (pf_dummies family),
                    pd_delayShape := pick (material ! 3) (pf_delayShapes family),
                    pd_bucketLookahead := pick (material ! 4) (pf_bucketLookaheads family),
                    pd_dummyGateNumerator := fst gate, pd_dummyGateDenominator := snd gate,
                    pd_minDummyDelay := fst dummyDelay, pd_maxDummyDelay := snd dummyDelay\<rparr>;
              derived = \<lparr>dp_variantID = (material ! 0 AND 63) + 1, dp_definition = d\<rparr>
          in (case validateDerivedProfile p derived of Some e \<Rightarrow> Inl ErrCoverConfig | None \<Rightarrow> Inr derived)
      | _ \<Rightarrow> Inl ErrCoverConfig)"

text \<open>The array \<open>profiles\<close> as the four entries that are set.\<close>

record profileSet =
  ps_quiet :: derivedProfile
  ps_web :: derivedProfile
  ps_interactive :: derivedProfile
  ps_stream :: derivedProfile

definition profileSet_definition :: "profileSet \<Rightarrow> ProfileID \<Rightarrow> derivedProfile option" where
  "profileSet_definition s p =
     (if p < ProfileQuiet \<or> p > ProfileStream then None
      else if p = ProfileQuiet then Some (ps_quiet s)
      else if p = ProfileWeb then Some (ps_web s)
      else if p = ProfileInteractive then Some (ps_interactive s)
      else Some (ps_stream s))"

definition deriveProfileSet :: "hash \<Rightarrow> bytes \<Rightarrow> cover_error + profileSet" where
  "deriveProfileSet H seed =
     (if seed = zero_bytes 32 then Inl ErrCoverConfig
      else
        res_bind (deriveProfile H seed ProfileWeb) (\<lambda>web.
        res_bind (deriveProfile H seed ProfileInteractive) (\<lambda>interactive.
        res_bind (deriveProfile H seed ProfileStream) (\<lambda>stream.
        Inr \<lparr>ps_quiet = \<lparr>dp_variantID = 1, dp_definition = the (profileDefinitions ProfileQuiet)\<rparr>,
             ps_web = web, ps_interactive = interactive, ps_stream = stream\<rparr>))))"

section \<open>The generator\<close>

record coverRandom =
  cv_key :: bytes
  cv_counter :: u64
  cv_block :: bytes
  cv_offset :: nat

definition newCoverRandom :: "bytes \<Rightarrow> coverRandom" where
  "newCoverRandom seed = \<lparr>cv_key = seed, cv_counter = 0, cv_block = zero_bytes 32, cv_offset = 32\<rparr>"

definition coverRandom_uint64 :: "hash \<Rightarrow> coverRandom \<Rightarrow> u64 \<times> coverRandom" where
  "coverRandom_uint64 H r =
     (let r1 = (if cv_offset r + 8 > length (cv_block r)
                then r\<lparr>cv_block := hmac H (cv_key r) (str ''NP2 cover schedule'' @ put_uint64 (cv_counter r)),
                       cv_counter := cv_counter r + 1, cv_offset := 0\<rparr>
                else r);
          value = be_value (take 8 (drop (cv_offset r1) (cv_block r1)))
      in (value, r1\<lparr>cv_offset := cv_offset r1 + 8\<rparr>))"

partial_function (option) cover_uniform_loop ::
  "hash \<Rightarrow> u64 \<Rightarrow> u64 \<Rightarrow> coverRandom \<Rightarrow> (u64 \<times> coverRandom) option" where
  "cover_uniform_loop H threshold limit r =
     (case coverRandom_uint64 H r of
        (candidate, r') \<Rightarrow>
          if candidate < threshold then Some (candidate mod limit, r')
          else cover_uniform_loop H threshold limit r')"

definition cover_uniform :: "hash \<Rightarrow> u64 \<Rightarrow> coverRandom \<Rightarrow> (u64 \<times> coverRandom) option" where
  "cover_uniform H limit r =
     (if limit = 0 then None else cover_uniform_loop H (MaxUint64 - (MaxUint64 mod limit)) limit r)"

section \<open>The engine\<close>

definition saturatingAdd :: "u64 \<Rightarrow> u64 \<Rightarrow> u64" where
  "saturatingAdd left right = (if MaxUint64 - left < right then MaxUint64 else left + right)"

definition boundedAdd :: "u64 \<Rightarrow> u64 \<Rightarrow> u64 \<Rightarrow> u64" where
  "boundedAdd value increment maximum =
     (if value \<ge> maximum \<or> increment \<ge> maximum - value then maximum else value + increment)"

datatype TrafficClass = TrafficUnknown | TrafficWeb | TrafficRealtime | TrafficStream

record mosaicState =
  ms_enabled :: bool
  ms_class :: TrafficClass
  ms_windowStart :: "int option"
  ms_lastObservation :: "int option"
  ms_windowBytes :: u64
  ms_windowCells :: u64
  ms_smallCells :: u64
  ms_candidate :: TrafficClass
  ms_candidateWindows :: byte
  ms_transitions :: u64

record CoverStats =
  cs_RealBytes :: u64
  cs_PaddingBytes :: u64
  cs_DummyBytes :: u64
  cs_BurstCount :: u64
  cs_DummyRequestsSelected :: u64
  cs_DummyRequestsRejected :: u64
  cs_AddedDelayMicros :: u64
  cs_MaxPlannedDelayMicros :: u64

record Engine =
  en_baselineProfile :: ProfileID
  en_activeProfile :: ProfileID
  en_activeVariantID :: byte
  en_profile :: profileDefinition
  en_profiles :: profileSet
  en_maxOverheadPercent :: u64
  en_maxCreditUnits :: u64
  en_creditUnits :: u64
  en_random :: coverRandom
  en_stats :: CoverStats
  en_mosaic :: mosaicState
  en_lastRealPlan :: "int option"

record CoverConfig =
  cc_Profile :: ProfileID
  cc_MaxOverheadPercent :: byte
  cc_MaxBudgetBytes :: int
  cc_Seed :: bytes

record RealDecision =
  rd_PaddingBytes :: int
  rd_SendAt :: int
  rd_ScheduleDummy :: bool

record DummyDecision =
  dd_Scheduled :: bool
  dd_Bytes :: int
  dd_SendAt :: int

abbreviation no_dummy :: DummyDecision where "no_dummy \<equiv> \<lparr>dd_Scheduled = False, dd_Bytes = 0, dd_SendAt = 0\<rparr>"

definition NewEngine :: "hash \<Rightarrow> CoverConfig \<Rightarrow> cover_error + Engine" where
  "NewEngine H config =
     (case profileDefinitions (cc_Profile config) of
        None \<Rightarrow> Inl ErrCoverConfig
      | Some profile \<Rightarrow>
          if cc_MaxOverheadPercent config > 100 \<or> cc_Seed config = zero_bytes 32 then Inl ErrCoverConfig
          else if cc_MaxBudgetBytes config < 0 \<or> cc_MaxBudgetBytes config > MaxWireCellBytes then Inl ErrCoverConfig
          else
            res_bind (deriveProfileSet H (cc_Seed config)) (\<lambda>profiles.
            let maxBudgetBytes = (if cc_MaxBudgetBytes config = 0 then 65535 else cc_MaxBudgetBytes config)
            in Inr \<lparr>en_baselineProfile = cc_Profile config, en_activeProfile = cc_Profile config, en_activeVariantID = 0,
                    en_profile = profile, en_profiles = profiles,
                    en_maxOverheadPercent = ucast (cc_MaxOverheadPercent config),
                    en_maxCreditUnits = of_int maxBudgetBytes * 100, en_creditUnits = 0,
                    en_random = newCoverRandom (cc_Seed config),
                    en_stats = \<lparr>cs_RealBytes = 0, cs_PaddingBytes = 0, cs_DummyBytes = 0, cs_BurstCount = 0,
                       cs_DummyRequestsSelected = 0, cs_DummyRequestsRejected = 0, cs_AddedDelayMicros = 0,
                       cs_MaxPlannedDelayMicros = 0\<rparr>,
                    en_mosaic = \<lparr>ms_enabled = False, ms_class = TrafficUnknown, ms_windowStart = None,
                       ms_lastObservation = None, ms_windowBytes = 0, ms_windowCells = 0, ms_smallCells = 0,
                       ms_candidate = TrafficUnknown, ms_candidateWindows = 0, ms_transitions = 0\<rparr>,
                    en_lastRealPlan = None\<rparr>))"

section \<open>Mosaic: the adaptive classifier\<close>

definition setMosaicClass :: "TrafficClass \<Rightarrow> Engine \<Rightarrow> Engine" where
  "setMosaicClass class e =
     (let profile = (case class of TrafficRealtime \<Rightarrow> ProfileInteractive | TrafficStream \<Rightarrow> ProfileStream | _ \<Rightarrow> ProfileWeb);
          e1 = e\<lparr>en_activeProfile := profile\<rparr>
      in case profileSet_definition (en_profiles e) profile of
           None \<Rightarrow> e1\<lparr>en_activeVariantID := 0, en_profile := the (profileDefinitions profile)\<rparr>
         | Some derived \<Rightarrow> e1\<lparr>en_activeVariantID := dp_variantID derived, en_profile := dp_definition derived\<rparr>)"

definition on_mosaic :: "(mosaicState \<Rightarrow> mosaicState) \<Rightarrow> Engine \<Rightarrow> Engine" where
  "on_mosaic f e = e\<lparr>en_mosaic := f (en_mosaic e)\<rparr>"

definition transitionMosaicClass :: "TrafficClass \<Rightarrow> Engine \<Rightarrow> Engine" where
  "transitionMosaicClass class e =
     (if class = TrafficUnknown \<or> ms_class (en_mosaic e) = class then e
      else setMosaicClass class
             (on_mosaic (\<lambda>s. s\<lparr>ms_class := class, ms_candidate := TrafficUnknown, ms_candidateWindows := 0,
                               ms_transitions := saturatingAdd (ms_transitions s) 1\<rparr>) e))"

definition proposeMosaicClass :: "TrafficClass \<Rightarrow> Engine \<Rightarrow> Engine" where
  "proposeMosaicClass candidate e =
     (let state = en_mosaic e in
      if candidate = ms_class state
      then on_mosaic (\<lambda>s. s\<lparr>ms_candidate := TrafficUnknown, ms_candidateWindows := 0\<rparr>) e
      else if candidate = TrafficStream then transitionMosaicClass candidate e
      else if ms_candidate state \<noteq> candidate
      then on_mosaic (\<lambda>s. s\<lparr>ms_candidate := candidate, ms_candidateWindows := 1\<rparr>) e
      else
        let e1 = (if ms_candidateWindows state < 2
                  then on_mosaic (\<lambda>s. s\<lparr>ms_candidateWindows := ms_candidateWindows s + 1\<rparr>) e else e)
        in if ms_candidateWindows (en_mosaic e1) \<ge> 2 then transitionMosaicClass candidate e1 else e1)"

definition rateAtLeast :: "u64 \<Rightarrow> int \<Rightarrow> u64 \<Rightarrow> bool" where
  "rateAtLeast bytes elapsed threshold \<longleftrightarrow> \<not> elapsed \<le> 0 \<and> bytes * 1000000000 \<ge> threshold * of_int elapsed"

definition rateAtMost :: "u64 \<Rightarrow> int \<Rightarrow> u64 \<Rightarrow> bool" where
  "rateAtMost bytes elapsed threshold \<longleftrightarrow> \<not> elapsed \<le> 0 \<and> bytes * 1000000000 \<le> threshold * of_int elapsed"

definition classifyMosaicWindow :: "mosaicState \<Rightarrow> int \<Rightarrow> TrafficClass" where
  "classifyMosaicWindow state elapsed =
     (if elapsed \<le> 0 then TrafficWeb
      else if rateAtLeast (ms_windowBytes state) elapsed 1048576 then TrafficStream
      else if ms_windowCells state \<ge> 10 \<and> ms_smallCells state * 100 \<ge> ms_windowCells state * 80
              \<and> rateAtMost (ms_windowBytes state) elapsed 524288
      then TrafficRealtime
      else TrafficWeb)"

definition resetWindow :: "int \<Rightarrow> mosaicState \<Rightarrow> mosaicState" where
  "resetWindow now s = s\<lparr>ms_windowStart := Some now, ms_windowBytes := 0, ms_windowCells := 0, ms_smallCells := 0\<rparr>"

definition mosaic_rewind :: "int \<Rightarrow> Engine \<Rightarrow> Engine" where
  "mosaic_rewind now e =
     (let e1 = (case ms_lastObservation (en_mosaic e) of
                  Some t \<Rightarrow> if now < t then on_mosaic (\<lambda>s. (resetWindow now s)\<lparr>ms_candidate := TrafficUnknown, ms_candidateWindows := 0\<rparr>) e else e
                | None \<Rightarrow> e)
      in if ms_windowStart (en_mosaic e1) = None then on_mosaic (resetWindow now) e1 else e1)"

definition mosaic_windows :: "int \<Rightarrow> Engine \<Rightarrow> Engine" where
  "mosaic_windows now e =
     (let e1 = (case ms_lastObservation (en_mosaic e) of
                  Some t \<Rightarrow> if now - t > 3000 * millisecond then on_mosaic (resetWindow now) (proposeMosaicClass TrafficWeb e) else e
                | None \<Rightarrow> e);
          elapsed = now - the (ms_windowStart (en_mosaic e1))
      in if elapsed \<ge> 500 * millisecond
         then on_mosaic (resetWindow now) (proposeMosaicClass (classifyMosaicWindow (en_mosaic e1) elapsed) e1)
         else e1)"

definition mosaic_record :: "int \<Rightarrow> int \<Rightarrow> Engine \<Rightarrow> Engine" where
  "mosaic_record now wireBytes e =
     (let e1 = on_mosaic (\<lambda>s. s\<lparr>ms_windowBytes := boundedAdd (ms_windowBytes s) (of_int wireBytes) 1073741824,
                                ms_windowCells := boundedAdd (ms_windowCells s) 1 1048576,
                                ms_smallCells := (if wireBytes \<le> 1200 then boundedAdd (ms_smallCells s) 1 1048576 else ms_smallCells s),
                                ms_lastObservation := Some now\<rparr>) e;
          elapsed = now - the (ms_windowStart (en_mosaic e1))
      in if elapsed \<ge> 0 \<and> elapsed \<le> 1000 * millisecond \<and> ms_windowBytes (en_mosaic e1) \<ge> 262144
         then transitionMosaicClass TrafficStream e1 else e1)"

definition observeMosaic :: "int \<Rightarrow> int \<Rightarrow> Engine \<Rightarrow> Engine" where
  "observeMosaic now wireBytes e = mosaic_record now wireBytes (mosaic_windows now (mosaic_rewind now e))"

definition EnableMosaic :: "Engine \<Rightarrow> bool \<times> Engine" where
  "EnableMosaic e =
     (if en_baselineProfile e = ProfileQuiet then (False, e)
      else if ms_enabled (en_mosaic e) then (True, e)
      else
        let class = (if en_baselineProfile e = ProfileInteractive then TrafficRealtime else TrafficWeb)
        in (True, setMosaicClass class (on_mosaic (\<lambda>s. s\<lparr>ms_enabled := True, ms_class := class\<rparr>) e)))"

section \<open>Planning\<close>

definition on_stats :: "(CoverStats \<Rightarrow> CoverStats) \<Rightarrow> Engine \<Rightarrow> Engine" where
  "on_stats f e = e\<lparr>en_stats := f (en_stats e)\<rparr>"

definition earnCredit :: "u64 \<Rightarrow> Engine \<Rightarrow> Engine" where
  "earnCredit units e =
     (if units \<ge> en_maxCreditUnits e - en_creditUnits e then e\<lparr>en_creditUnits := en_maxCreditUnits e\<rparr>
      else e\<lparr>en_creditUnits := en_creditUnits e + units\<rparr>)"

definition engine_uniform :: "hash \<Rightarrow> u64 \<Rightarrow> Engine \<Rightarrow> (u64 \<times> Engine) option" where
  "engine_uniform H limit e =
     map_option (\<lambda>(v, r). (v, e\<lparr>en_random := r\<rparr>)) (cover_uniform H limit (en_random e))"

fun first_bucket :: "int list \<Rightarrow> int \<Rightarrow> nat" where
  "first_bucket [] w = 0"
| "first_bucket (b # bs) w = (if b \<ge> w then 0 else Suc (first_bucket bs w))"

definition desiredPadding :: "hash \<Rightarrow> int \<Rightarrow> Engine \<Rightarrow> (int \<times> Engine) option" where
  "desiredPadding H wireBytes e =
     (let buckets = pd_buckets (en_profile e); first = first_bucket buckets wireBytes in
      if length buckets = 0 then Some (0, e)
      else if first = length buckets then Some (0, e)
      else
        let lookahead = max 1 (unat (pd_bucketLookahead (en_profile e)));
            choices = min lookahead (length buckets - first)
        in do {
          (i, e1) \<leftarrow> engine_uniform H (of_nat choices) e;
          Some (buckets ! (first + unat i) - wireBytes, e1)
        })"

definition shouldScheduleDummy :: "hash \<Rightarrow> Engine \<Rightarrow> (bool \<times> Engine) option" where
  "shouldScheduleDummy H e =
     (let p = en_profile e in
      if length (pd_dummySizes p) = 0 \<or> pd_dummyGateNumerator p = 0 then Some (False, e)
      else do {
        (selected, e1) \<leftarrow>
          (if pd_dummyGateNumerator p \<ge> pd_dummyGateDenominator p then Some (True, e)
           else do {
             (v, e1) \<leftarrow> engine_uniform H (ucast (pd_dummyGateDenominator p)) e;
             Some (v < ucast (pd_dummyGateNumerator p), e1)
           });
        Some (selected,
              on_stats (\<lambda>s. if selected then s\<lparr>cs_DummyRequestsSelected := saturatingAdd (cs_DummyRequestsSelected s) 1\<rparr>
                            else s\<lparr>cs_DummyRequestsRejected := saturatingAdd (cs_DummyRequestsRejected s) 1\<rparr>) e1)
      })"

definition randomDelayRange :: "hash \<Rightarrow> int \<Rightarrow> int \<Rightarrow> delayShape \<Rightarrow> Engine \<Rightarrow> (int \<times> Engine) option" where
  "randomDelayRange H minimum maximum shape e =
     (if maximum \<le> minimum then Some (minimum, e)
      else
        let slots = of_int ((maximum - minimum) div jitterStep) + 1 in
        do {
          (first, e1) \<leftarrow> engine_uniform H slots e;
          (selected, e2) \<leftarrow>
            (case shape of
               delayUniform \<Rightarrow> Some (first, e1)
             | delayFrontLoaded \<Rightarrow> do { (second, e2) \<leftarrow> engine_uniform H slots e1; Some (min first second, e2) }
             | delayTailLoaded \<Rightarrow> do { (second, e2) \<leftarrow> engine_uniform H slots e1; Some (max first second, e2) });
          Some (minimum + int (unat selected) * jitterStep, e2)
        })"

definition recordPlannedDelay :: "int \<Rightarrow> Engine \<Rightarrow> Engine" where
  "recordPlannedDelay delay e =
     (if delay \<le> 0 then e
      else
        let microseconds = of_int (delay div 1000)
        in on_stats (\<lambda>s. s\<lparr>cs_AddedDelayMicros := saturatingAdd (cs_AddedDelayMicros s) microseconds,
                           cs_MaxPlannedDelayMicros := max (cs_MaxPlannedDelayMicros s) microseconds\<rparr>) e)"

definition plan_padding :: "hash \<Rightarrow> int \<Rightarrow> Engine \<Rightarrow> (int \<times> Engine) option" where
  "plan_padding H wireBytes e =
     do {
       (desired, e1) \<leftarrow> desiredPadding H wireBytes e;
       let available = int (unat (en_creditUnits e1 div 100));
       let padding = min (min desired available) (MaxPaddingBytes (pd_limits (en_profile e1)));
       Some (padding,
             on_stats (\<lambda>s. s\<lparr>cs_PaddingBytes := saturatingAdd (cs_PaddingBytes s) (of_int padding)\<rparr>)
               (e1\<lparr>en_creditUnits := en_creditUnits e1 - of_int padding * 100\<rparr>))
     }"

definition plan_delay :: "hash \<Rightarrow> int \<Rightarrow> Engine \<Rightarrow> (int \<times> Engine) option" where
  "plan_delay H now e =
     (let burstStart = (case en_lastRealPlan e of None \<Rightarrow> True | Some t \<Rightarrow> now < t \<or> now - t \<ge> 50 * millisecond) in
      if burstStart
      then do {
        let e1 = on_stats (\<lambda>s. s\<lparr>cs_BurstCount := saturatingAdd (cs_BurstCount s) 1\<rparr>) e;
        (delay, e2) \<leftarrow> randomDelayRange H 0 (MaxRealDelay (pd_limits (en_profile e1))) (pd_delayShape (en_profile e1)) e1;
        Some (delay, recordPlannedDelay delay e2)
      }
      else Some (0, e))"

definition PlanReal :: "hash \<Rightarrow> int \<Rightarrow> int \<Rightarrow> Engine \<Rightarrow> ((cover_error + RealDecision) \<times> Engine) option" where
  "PlanReal H now wireBytes e =
     (if wireBytes \<le> 0 \<or> wireBytes > MaxWireCellBytes then Some (Inl ErrInvalidCellSize, e)
      else do {
        let e1 = (if ms_enabled (en_mosaic e) then observeMosaic now wireBytes e else e);
        let e2 = on_stats (\<lambda>s. s\<lparr>cs_RealBytes := saturatingAdd (cs_RealBytes s) (of_int wireBytes)\<rparr>) e1;
        let e3 = earnCredit (of_int wireBytes * en_maxOverheadPercent e2) e2;
        (padding, e4) \<leftarrow> plan_padding H wireBytes e3;
        (delay, e5) \<leftarrow> plan_delay H now e4;
        (dummy, e6) \<leftarrow> shouldScheduleDummy H (e5\<lparr>en_lastRealPlan := Some now\<rparr>);
        Some (Inr \<lparr>rd_PaddingBytes = padding, rd_SendAt = now + delay, rd_ScheduleDummy = dummy\<rparr>, e6)
      })"

definition PlanDummy :: "hash \<Rightarrow> int \<Rightarrow> Engine \<Rightarrow> (DummyDecision \<times> Engine) option" where
  "PlanDummy H now e =
     (let p = en_profile e in
      if length (pd_dummySizes p) = 0 then Some (no_dummy, e)
      else
        let available = int (unat (en_creditUnits e div 100));
            affordable = length (takeWhile (\<lambda>n. n \<le> available) (pd_dummySizes p))
        in if affordable = 0
           then Some (no_dummy, on_stats (\<lambda>s. s\<lparr>cs_DummyRequestsRejected := saturatingAdd (cs_DummyRequestsRejected s) 1\<rparr>) e)
           else do {
             (i, e1) \<leftarrow> engine_uniform H (of_nat affordable) e;
             let bytes = pd_dummySizes p ! unat i;
             let e2 = on_stats (\<lambda>s. s\<lparr>cs_DummyBytes := saturatingAdd (cs_DummyBytes s) (of_int bytes)\<rparr>)
                        (e1\<lparr>en_creditUnits := en_creditUnits e1 - of_int bytes * 100\<rparr>);
             (delay, e3) \<leftarrow> randomDelayRange H (pd_minDummyDelay p) (pd_maxDummyDelay p) (pd_delayShape p) e2;
             Some (\<lparr>dd_Scheduled = True, dd_Bytes = bytes, dd_SendAt = now + delay\<rparr>, recordPlannedDelay delay e3)
           })"

definition engine_Stats :: "Engine \<Rightarrow> CoverStats \<times> bool \<times> TrafficClass \<times> ProfileID \<times> u64 \<times> byte" where
  "engine_Stats e =
     (en_stats e, ms_enabled (en_mosaic e), ms_class (en_mosaic e), en_activeProfile e, ms_transitions (en_mosaic e),
      en_activeVariantID e)"

section \<open>Runs of the engine\<close>

definition OverheadBytes :: "CoverStats \<Rightarrow> u64" where
  "OverheadBytes s = saturatingAdd (cs_PaddingBytes s) (cs_DummyBytes s)"

text \<open>The calls a transport makes on its engine, and the bytes they account for: the real bytes that were
  admitted and the bytes added to them as padding and as dummy cells.\<close>

datatype cover_call = CallReal int int | CallDummy int | CallMosaic

fun cover_run :: "hash \<Rightarrow> cover_call list \<Rightarrow> Engine \<Rightarrow> (int \<times> int \<times> int \<times> Engine) option" where
  "cover_run H [] e = Some (0, 0, 0, e)"
| "cover_run H (CallReal now n # cs) e =
     do {
       (res, e1) \<leftarrow> PlanReal H now n e;
       (real, padding, dummy, e2) \<leftarrow> cover_run H cs e1;
       Some (case res of Inl _ \<Rightarrow> (real, padding, dummy, e2)
             | Inr d \<Rightarrow> (n + real, rd_PaddingBytes d + padding, dummy, e2))
     }"
| "cover_run H (CallDummy now # cs) e =
     do {
       (d, e1) \<leftarrow> PlanDummy H now e;
       (real, padding, dummy, e2) \<leftarrow> cover_run H cs e1;
       Some (real, padding, dd_Bytes d + dummy, e2)
     }"
| "cover_run H (CallMosaic # cs) e = cover_run H cs (snd (EnableMosaic e))"

section \<open>Draws\<close>

lemma cover_uniform_loop_bound:
  assumes "cover_uniform_loop H t limit r = Some res" and "limit \<noteq> 0"
  shows "fst res < limit"
proof -
  have "limit \<noteq> 0 \<longrightarrow> fst res < limit"
  proof (rule cover_uniform_loop.raw_induct [where P = "\<lambda>H t l r res. l \<noteq> 0 \<longrightarrow> fst res < l", OF _ assms(1)])
    fix f H t r res and l :: u64
    assume IH: "\<And>H t l r res. f H t l r = Some res \<Longrightarrow> l \<noteq> 0 \<longrightarrow> fst res < l"
      and eq: "(case coverRandom_uint64 H r of (candidate, r') \<Rightarrow>
            if candidate < t then Some (candidate mod l, r') else f H t l r') = Some res"
    show "l \<noteq> 0 \<longrightarrow> fst res < l"
      using eq IH by (auto split: prod.splits if_splits simp: word_mod_less_divisor word_gt_0)
  qed
  with assms(2) show ?thesis by simp
qed

lemma cover_uniform_bound: "cover_uniform H limit r = Some (v, r') \<Longrightarrow> v < limit"
  using cover_uniform_loop_bound [of H _ limit r "(v, r')"] by (auto simp: cover_uniform_def split: if_splits)

lemma engine_uniform_bound: "engine_uniform H limit e = Some (v, e') \<Longrightarrow> v < limit \<and> (\<exists>r. e' = e\<lparr>en_random := r\<rparr>)"
  by (auto simp: engine_uniform_def dest!: cover_uniform_bound)

section \<open>Frames\<close>

text \<open>What a plan may spend and report, and what every step that only draws or classifies keeps of it.\<close>

definition ledger :: "Engine \<Rightarrow> u64 \<times> u64 \<times> u64 \<times> u64 \<times> u64 \<times> u64 \<times> profileSet" where
  "ledger e = (en_creditUnits e, en_maxCreditUnits e, en_maxOverheadPercent e, cs_RealBytes (en_stats e),
               cs_PaddingBytes (en_stats e), cs_DummyBytes (en_stats e), en_profiles e)"

lemma ledger_random [simp]: "ledger (e\<lparr>en_random := r\<rparr>) = ledger e"
  by (simp add: ledger_def)

lemma ledger_lastReal [simp]: "ledger (e\<lparr>en_lastRealPlan := t\<rparr>) = ledger e"
  by (simp add: ledger_def)

lemma on_mosaic_frame [simp]: "ledger (on_mosaic f e) = ledger e" "en_profile (on_mosaic f e) = en_profile e"
  by (simp_all add: ledger_def on_mosaic_def)

lemma on_stats_profile [simp]: "en_profile (on_stats f e) = en_profile e"
  by (simp add: on_stats_def)

lemma burst_ledger [simp]: "ledger (on_stats (\<lambda>s. s\<lparr>cs_BurstCount := f s\<rparr>) e) = ledger e"
  by (simp add: ledger_def on_stats_def)

lemma recordPlannedDelay_frame [simp]:
  "ledger (recordPlannedDelay d e) = ledger e" "en_profile (recordPlannedDelay d e) = en_profile e"
  by (simp_all add: recordPlannedDelay_def on_stats_def ledger_def Let_def)

lemma setMosaicClass_ledger [simp]: "ledger (setMosaicClass c e) = ledger e"
  by (simp add: setMosaicClass_def ledger_def Let_def split: option.splits)

lemma transitionMosaicClass_ledger [simp]: "ledger (transitionMosaicClass c e) = ledger e"
  by (simp add: transitionMosaicClass_def)

lemma proposeMosaicClass_ledger [simp]: "ledger (proposeMosaicClass c e) = ledger e"
  by (simp add: proposeMosaicClass_def Let_def)

lemma observeMosaic_ledger [simp]: "ledger (observeMosaic now n e) = ledger e"
  by (simp add: observeMosaic_def mosaic_record_def mosaic_windows_def mosaic_rewind_def Let_def split: option.splits)

lemma EnableMosaic_ledger [simp]: "ledger (snd (EnableMosaic e)) = ledger e"
  by (simp add: EnableMosaic_def Let_def)

lemma randomDelayRange_frame:
  assumes "randomDelayRange H lo hi shape e = Some (d, e')"
  shows "ledger e' = ledger e \<and> en_profile e' = en_profile e"
  using assms
  by (auto simp: randomDelayRange_def Let_def split: if_splits delayShape.splits bind_splits
           dest!: engine_uniform_bound)

lemma desiredPadding_frame:
  assumes "desiredPadding H n e = Some (d, e')"
  shows "ledger e' = ledger e \<and> en_profile e' = en_profile e"
  using assms by (auto simp: desiredPadding_def Let_def split: if_splits bind_splits dest!: engine_uniform_bound)

lemma shouldScheduleDummy_frame:
  assumes "shouldScheduleDummy H e = Some (b, e')"
  shows "ledger e' = ledger e \<and> en_profile e' = en_profile e"
  using assms
  by (auto simp: shouldScheduleDummy_def Let_def ledger_def on_stats_def split: if_splits bind_splits
           dest!: engine_uniform_bound)

lemma plan_delay_frame:
  assumes "plan_delay H now e = Some (d, e')"
  shows "ledger e' = ledger e \<and> en_profile e' = en_profile e"
  using assms
  by (auto simp: plan_delay_def Let_def split: if_splits bind_splits dest!: randomDelayRange_frame)

section \<open>The invariant\<close>

definition profile_ok :: "profileDefinition \<Rightarrow> bool" where
  "profile_ok p \<longleftrightarrow>
     validIncreasingSizes (pd_buckets p) \<and> validIncreasingSizes (pd_dummySizes p)
     \<and> 0 \<le> MaxPaddingBytes (pd_limits p)
     \<and> 0 \<le> MaxRealDelay (pd_limits p) \<and> MaxRealDelay (pd_limits p) \<le> 20 * millisecond
     \<and> 0 \<le> pd_minDummyDelay p \<and> pd_minDummyDelay p \<le> pd_maxDummyDelay p \<and> pd_maxDummyDelay p \<le> 250 * millisecond"

definition profiles_ok :: "profileSet \<Rightarrow> bool" where
  "profiles_ok s \<longleftrightarrow>
     profile_ok (dp_definition (ps_quiet s)) \<and> profile_ok (dp_definition (ps_web s))
     \<and> profile_ok (dp_definition (ps_interactive s)) \<and> profile_ok (dp_definition (ps_stream s))"

definition engine_ok :: "Engine \<Rightarrow> bool" where
  "engine_ok e \<longleftrightarrow>
     profile_ok (en_profile e) \<and> profiles_ok (en_profiles e)
     \<and> en_creditUnits e \<le> en_maxCreditUnits e \<and> uint (en_maxCreditUnits e) \<le> 6553500
     \<and> uint (en_maxOverheadPercent e) \<le> 100"

lemma engine_ok_frame:
  "ledger e' = ledger e \<Longrightarrow> profile_ok (en_profile e') \<Longrightarrow> engine_ok e \<Longrightarrow> engine_ok e'"
  by (simp add: engine_ok_def ledger_def)

lemma valid_increasing_bounds:
  "valid_increasing k ns \<Longrightarrow> n \<in> set ns \<Longrightarrow> k < n \<and> n \<le> 65535"
  by (induction k ns rule: valid_increasing.induct) fastforce+

lemma valid_increasing_length:
  "valid_increasing k ns \<Longrightarrow> k \<le> 65535 \<Longrightarrow> int (length ns) \<le> 65535 - k"
  by (induction k ns rule: valid_increasing.induct) fastforce+

lemma profile_okD:
  assumes "profile_ok p"
  shows "\<And>n. n \<in> set (pd_buckets p) \<Longrightarrow> 0 < n \<and> n \<le> 65535"
    and "\<And>n. n \<in> set (pd_dummySizes p) \<Longrightarrow> 0 < n \<and> n \<le> 65535"
    and "length (pd_buckets p) \<le> 65535" and "length (pd_dummySizes p) \<le> 65535"
  using assms valid_increasing_bounds [of 0] valid_increasing_length [of 0]
  by (fastforce simp: profile_ok_def validIncreasingSizes_def)+

lemma profileDefinitions_ok: "profileDefinitions p = Some d \<Longrightarrow> profile_ok d"
  by (auto simp: profileDefinitions_def profile_ok_def validIncreasingSizes_def split: if_splits)

lemma deriveProfile_ok:
  assumes "deriveProfile H seed p = Inr d"
  shows "profile_ok (dp_definition d)"
proof -
  from assms obtain d0 where d0: "profileDefinitions p = Some d0"
    and eqs: "pd_limits (dp_definition d) = pd_limits d0" and v: "validateDerivedProfile p d = None"
    by (auto simp: deriveProfile_def Let_def split: option.splits)
  with profileDefinitions_ok [OF d0] show ?thesis
    by (auto simp: validateDerivedProfile_def profile_ok_def Let_def split: if_splits)
qed

lemma quiet_definition_ok: "profile_ok (the (profileDefinitions ProfileQuiet))"
  by (rule profileDefinitions_ok [of ProfileQuiet]) (simp add: profileDefinitions_def)

lemma deriveProfileSet_ok: "deriveProfileSet H seed = Inr s \<Longrightarrow> profiles_ok s"
  unfolding deriveProfileSet_def profiles_ok_def
  by (auto simp: res_bind_def quiet_definition_ok dest!: deriveProfile_ok split: sum.splits if_splits)

lemma NewEngine_ok:
  assumes "NewEngine H config = Inr e"
  shows "engine_ok e \<and> en_creditUnits e = 0 \<and> en_maxOverheadPercent e = ucast (cc_MaxOverheadPercent config)
         \<and> cs_RealBytes (en_stats e) = 0 \<and> cs_PaddingBytes (en_stats e) = 0 \<and> cs_DummyBytes (en_stats e) = 0
         \<and> en_random e = newCoverRandom (cc_Seed config)"
proof -
  from assms obtain profile profiles where p: "profileDefinitions (cc_Profile config) = Some profile"
    and guards: "\<not> 100 < cc_MaxOverheadPercent config" "\<not> cc_MaxBudgetBytes config < 0"
      "\<not> 65535 < cc_MaxBudgetBytes config"
    and ps: "deriveProfileSet H (cc_Seed config) = Inr profiles"
    and e: "en_profile e = profile" "en_profiles e = profiles" "en_creditUnits e = 0"
      "en_maxOverheadPercent e = ucast (cc_MaxOverheadPercent config)" "cs_RealBytes (en_stats e) = 0"
      "cs_PaddingBytes (en_stats e) = 0" "cs_DummyBytes (en_stats e) = 0"
      "en_random e = newCoverRandom (cc_Seed config)"
      "en_maxCreditUnits e = of_int (if cc_MaxBudgetBytes config = 0 then 65535 else cc_MaxBudgetBytes config) * 100"
    by (auto simp: NewEngine_def res_bind_def Let_def split: option.splits if_splits sum.splits)
  define b where "b = nat (if cc_MaxBudgetBytes config = 0 then 65535 else cc_MaxBudgetBytes config)"
  have b: "b \<le> 65535" and max: "en_maxCreditUnits e = of_nat (b * 100)"
    using guards e(9) by (auto simp: b_def)
  have "unat (en_maxCreditUnits e) = b * 100"
    unfolding max using b by (intro unat_of_nat_small) simp
  then have m: "uint (en_maxCreditUnits e) = int b * 100" by (metis int_nat_eq of_nat_mult of_nat_numeral uint_nat)
  have pct: "uint (en_maxOverheadPercent e) \<le> 100"
    using guards(1) by (simp add: e(4) uint_up_ucast is_up word_le_def linorder_not_less)
  show ?thesis
    using profileDefinitions_ok [OF p] deriveProfileSet_ok [OF ps] m b pct e by (simp add: engine_ok_def)
qed

lemma setMosaicClass_profile: "profiles_ok (en_profiles e) \<Longrightarrow> profile_ok (en_profile (setMosaicClass c e))"
  by (auto simp: setMosaicClass_def profiles_ok_def profileSet_definition_def Let_def split: TrafficClass.splits)

lemma on_mosaic_profiles [simp]: "en_profiles (on_mosaic f e) = en_profiles e"
  by (simp add: on_mosaic_def)

lemma transitionMosaicClass_ok: "engine_ok e \<Longrightarrow> engine_ok (transitionMosaicClass c e)"
  by (rule engine_ok_frame [of _ e])
     (auto simp: transitionMosaicClass_def engine_ok_def intro!: setMosaicClass_profile)

lemma on_mosaic_ok [simp]: "engine_ok (on_mosaic f e) = engine_ok e"
  by (simp add: engine_ok_def on_mosaic_def)

lemma proposeMosaicClass_ok: "engine_ok e \<Longrightarrow> engine_ok (proposeMosaicClass c e)"
  unfolding proposeMosaicClass_def Let_def by (simp add: transitionMosaicClass_ok)

lemma observeMosaic_ok:
  assumes "engine_ok e"
  shows "engine_ok (observeMosaic now n e)"
proof -
  have rewind: "engine_ok (mosaic_rewind now e)"
    using assms by (simp add: mosaic_rewind_def Let_def split: option.split)
  have "engine_ok (mosaic_windows now (mosaic_rewind now e))"
    unfolding mosaic_windows_def Let_def using rewind
    by (simp add: proposeMosaicClass_ok split: option.split)
  then show ?thesis
    unfolding observeMosaic_def mosaic_record_def Let_def by (simp add: transitionMosaicClass_ok)
qed

lemma EnableMosaic_ok: "engine_ok e \<Longrightarrow> engine_ok (snd (EnableMosaic e))"
  by (rule engine_ok_frame [of _ e])
     (auto simp: EnableMosaic_def engine_ok_def Let_def intro!: setMosaicClass_profile)

section \<open>The budget\<close>

lemma uint64_bounds: "0 \<le> uint (x :: u64)" "uint (x :: u64) < 18446744073709551616"
  using uint_lt2p [of x] by simp_all

lemma uint_add_nowrap: "uint a + uint b < 18446744073709551616 \<Longrightarrow> uint (a + b :: u64) = uint a + uint b"
  by (simp add: uint_word_ariths)

lemma uint_diff_nowrap:
  assumes "uint b \<le> uint a"
  shows "uint (a - b :: u64) = uint a - uint b"
proof -
  have "uint a - uint b < 18446744073709551616" using uint64_bounds [of a] uint64_bounds [of b] by linarith
  with assms have "(uint a - uint b) mod 18446744073709551616 = uint a - uint b" by (intro mod_pos_pos_trivial) simp_all
  then show ?thesis by (simp add: uint_word_ariths)
qed

lemma uint_of_int_small: "0 \<le> i \<Longrightarrow> i < 18446744073709551616 \<Longrightarrow> uint (of_int i :: u64) = i"
  by (simp add: uint_word_of_int)

lemma uint_saturatingAdd: "uint (saturatingAdd a b) = min (uint a + uint b) 18446744073709551615"
proof -
  have m: "uint (MaxUint64 - a) = 18446744073709551615 - uint a"
    using uint64_bounds [of a] by (subst uint_diff_nowrap) simp_all
  show ?thesis
    using uint64_bounds [of a] uint64_bounds [of b]
    by (auto simp: saturatingAdd_def word_less_def m uint_add_nowrap min_def)
qed

text \<open>One plan against the ledger: the real bytes earn credit, the overhead spends it.\<close>

definition settles :: "Engine \<Rightarrow> int \<Rightarrow> int \<Rightarrow> int \<Rightarrow> Engine \<Rightarrow> bool" where
  "settles e real padding dummy e' \<longleftrightarrow>
     engine_ok e' \<and> en_maxOverheadPercent e' = en_maxOverheadPercent e \<and> 0 \<le> padding \<and> 0 \<le> dummy \<and> 0 \<le> real
     \<and> 100 * (padding + dummy) + uint (en_creditUnits e') \<le> uint (en_maxOverheadPercent e) * real + uint (en_creditUnits e)
     \<and> uint (cs_RealBytes (en_stats e')) = min (uint (cs_RealBytes (en_stats e)) + real) 18446744073709551615
     \<and> uint (cs_PaddingBytes (en_stats e')) = min (uint (cs_PaddingBytes (en_stats e)) + padding) 18446744073709551615
     \<and> uint (cs_DummyBytes (en_stats e')) = min (uint (cs_DummyBytes (en_stats e)) + dummy) 18446744073709551615"

lemma settles_frame: "ledger e' = ledger e \<Longrightarrow> engine_ok e' \<Longrightarrow> settles e 0 0 0 e'"
  using uint64_bounds(2) [of "cs_RealBytes (en_stats e)"] uint64_bounds(2) [of "cs_PaddingBytes (en_stats e)"]
    uint64_bounds(2) [of "cs_DummyBytes (en_stats e)"]
  by (simp add: settles_def ledger_def)

lemma settles_trans:
  assumes "settles e r p d e1" and "settles e1 r' p' d' e2"
  shows "settles e (r + r') (p + p') (d + d') e2"
proof -
  have "uint (en_maxOverheadPercent e) * (r + r') = uint (en_maxOverheadPercent e) * r + uint (en_maxOverheadPercent e) * r'"
    by (simp add: distrib_left)
  with assms show ?thesis unfolding settles_def by (simp add: min_def)
qed

lemma spend_credit:
  assumes "0 \<le> n" and "n \<le> uint (c div 100)"
  shows "uint (c - of_int n * 100) = uint (c :: u64) - 100 * n"
proof -
  have d: "uint (c div 100) = uint c div 100" by (simp add: uint_div)
  then have le: "100 * n \<le> uint c" using assms by linarith
  have "uint (of_int (n * 100) :: u64) = n * 100"
    using le assms(1) uint64_bounds [of c] by (intro uint_of_int_small) linarith+
  then have "uint (of_int n * 100 :: u64) = n * 100" by simp
  with le show ?thesis by (subst uint_diff_nowrap) simp_all
qed

lemma earnCredit_frame [simp]:
  "en_profile (earnCredit u e) = en_profile e" "en_profiles (earnCredit u e) = en_profiles e"
  "en_maxCreditUnits (earnCredit u e) = en_maxCreditUnits e"
  "en_maxOverheadPercent (earnCredit u e) = en_maxOverheadPercent e" "en_stats (earnCredit u e) = en_stats e"
  by (simp_all add: earnCredit_def)

lemma earnCredit_credit:
  assumes "engine_ok e"
  shows "engine_ok (earnCredit u e) \<and> uint (en_creditUnits (earnCredit u e)) \<le> uint (en_creditUnits e) + uint u"
proof -
  have ok: "uint (en_creditUnits e) \<le> uint (en_maxCreditUnits e)" "uint (en_maxCreditUnits e) \<le> 6553500"
    using assms by (simp_all add: engine_ok_def word_le_def)
  have d: "uint (en_maxCreditUnits e - en_creditUnits e) = uint (en_maxCreditUnits e) - uint (en_creditUnits e)"
    using ok(1) by (rule uint_diff_nowrap)
  have s: "uint (en_creditUnits e + u) = uint (en_creditUnits e) + uint u" if "\<not> u \<ge> en_maxCreditUnits e - en_creditUnits e"
    using that ok uint64_bounds [of u] by (intro uint_add_nowrap) (simp add: word_le_def d)
  show ?thesis
    using assms d s ok by (auto simp: earnCredit_def engine_ok_def word_le_def)
qed

section \<open>The plans stay within the budget\<close>

lemma valid_increasing_sorted: "valid_increasing k ns \<Longrightarrow> sorted ns"
proof (induction k ns rule: valid_increasing.induct)
  case (2 k n ns)
  with valid_increasing_bounds [of n ns] show ?case by fastforce
qed simp

lemma first_bucket_le: "first_bucket bs w \<le> length bs"
  by (induction bs w rule: first_bucket.induct) simp_all

lemma first_bucket_ge: "first_bucket bs w < length bs \<Longrightarrow> w \<le> bs ! first_bucket bs w"
  by (induction bs w rule: first_bucket.induct) (auto split: if_splits)

lemma unat_less_of_nat: "v < (of_nat n :: u64) \<Longrightarrow> n \<le> 65535 \<Longrightarrow> unat v < n"
  by (simp add: word_less_nat_alt unat_of_nat_small)

lemma desiredPadding_range:
  assumes plan: "desiredPadding H n e = Some (d, e')" and ok: "profile_ok (en_profile e)" and n: "n \<le> 65535"
  shows "0 \<le> d \<and> n + d \<le> 65535"
proof -
  define bs where "bs = pd_buckets (en_profile e)"
  define k where "k = first_bucket bs n"
  define c where "c = min (max (Suc 0) (unat (pd_bucketLookahead (en_profile e)))) (length bs - k)"
  note okD = profile_okD [OF ok, folded bs_def]
  have "d = 0 \<or> (\<exists>v :: u64. k < length bs \<and> v < of_nat c \<and> d = bs ! (k + unat v) - n)"
    using plan first_bucket_le [of bs n]
    by (auto simp: desiredPadding_def Let_def bs_def [symmetric] k_def [symmetric] c_def [symmetric]
             split: if_splits bind_splits dest!: engine_uniform_bound)
  then consider "d = 0" | v :: u64 where "k < length bs" "v < of_nat c" "d = bs ! (k + unat v) - n" by blast
  then show ?thesis
  proof cases
    case (2 v)
    have c: "c \<le> length bs - k" "c \<le> 65535" using okD(3) by (auto simp: c_def)
    have v: "unat v < c" using unat_less_of_nat [OF 2(2) c(2)] .
    have i: "k + unat v < length bs" using v c(1) by linarith
    have "sorted bs" using ok valid_increasing_sorted by (auto simp: profile_ok_def validIncreasingSizes_def bs_def)
    then have "bs ! k \<le> bs ! (k + unat v)" using i by (simp add: sorted_nth_mono)
    moreover have "n \<le> bs ! k" using first_bucket_ge 2(1) unfolding k_def .
    moreover have "bs ! (k + unat v) \<le> 65535" using okD(1) i by simp
    ultimately show ?thesis using 2(3) by simp
  qed (use n in simp)
qed

lemma plan_padding_settles:
  assumes plan: "plan_padding H n e = Some (p, e')" and ok: "engine_ok e" and n: "n \<le> 65535"
  shows "settles e 0 p 0 e' \<and> en_profile e' = en_profile e \<and> n + p \<le> 65535
         \<and> p \<le> MaxPaddingBytes (pd_limits (en_profile e))"
proof -
  from plan obtain d e1 where d: "desiredPadding H n e = Some (d, e1)"
    and p: "p = min (min d (int (unat (en_creditUnits e1 div 100)))) (MaxPaddingBytes (pd_limits (en_profile e1)))"
    and e': "e' = on_stats (\<lambda>s. s\<lparr>cs_PaddingBytes := saturatingAdd (cs_PaddingBytes s) (of_int p)\<rparr>)
               (e1\<lparr>en_creditUnits := en_creditUnits e1 - of_int p * 100\<rparr>)"
    by (auto simp: plan_padding_def Let_def split: bind_splits)
  have fr: "ledger e1 = ledger e" "en_profile e1 = en_profile e" using desiredPadding_frame [OF d] by simp_all
  have dr: "0 \<le> d" "n + d \<le> 65535" using desiredPadding_range [OF d _ n] ok by (simp_all add: engine_ok_def)
  have p0: "0 \<le> p" "p \<le> d" "p \<le> uint (en_creditUnits e1 div 100)" "p \<le> MaxPaddingBytes (pd_limits (en_profile e))"
    using dr ok fr(2) by (auto simp: p engine_ok_def profile_ok_def)
  have c: "uint (en_creditUnits e1 - of_int p * 100) = uint (en_creditUnits e1) - 100 * p"
    using p0 by (intro spend_credit)
  have q: "uint (of_int p :: u64) = p"
    using p0 uint64_bounds [of "en_creditUnits e1 div 100"] by (intro uint_of_int_small) linarith+
  show ?thesis
    using fr p0 c q dr ok uint64_bounds [of "cs_RealBytes (en_stats e)"] uint64_bounds [of "cs_DummyBytes (en_stats e)"]
    by (simp add: settles_def ledger_def e' on_stats_def engine_ok_def uint_saturatingAdd word_le_def)
qed

lemma randomDelayRange_range:
  assumes plan: "randomDelayRange H lo hi shape e = Some (d, e')" and "lo \<le> hi" "hi - lo \<le> 250 * millisecond"
  shows "lo \<le> d \<and> d \<le> hi"
proof (cases "hi \<le> lo")
  case True
  with plan assms show ?thesis by (simp add: randomDelayRange_def)
next
  case False
  define s where "s = (hi - lo) div jitterStep"
  have s: "0 \<le> s" "s \<le> 1000" "s * jitterStep \<le> hi - lo" using False assms(3) by (auto simp: s_def)
  have slots: "uint (of_int s + 1 :: u64) = s + 1"
    using uint_of_int_small [of "s + 1"] s by simp
  from plan False obtain v where v: "v < (of_int s + 1 :: u64)" and d: "d = lo + int (unat v) * jitterStep"
    by (auto simp: randomDelayRange_def Let_def s_def [symmetric] min_def max_def
             split: delayShape.splits bind_splits if_splits dest!: engine_uniform_bound)
  have "uint v \<le> s" using v slots by (simp add: word_less_def)
  then have "uint v * jitterStep \<le> s * jitterStep" by simp
  with s(3) show ?thesis by (simp add: d)
qed

lemma plan_delay_range:
  assumes "plan_delay H now e = Some (d, e')" and "profile_ok (en_profile e)"
  shows "0 \<le> d \<and> d \<le> MaxRealDelay (pd_limits (en_profile e))"
  using assms
  by (auto simp: plan_delay_def profile_ok_def Let_def split: if_splits bind_splits
           dest!: randomDelayRange_range)

text \<open>A real plan: its decision, the class of profile it used and the ledger.\<close>

lemma PlanReal_settles:
  assumes plan: "PlanReal H now n e = Some (Inr d, e')" and ok: "engine_ok e"
  shows "settles e n (rd_PaddingBytes d) 0 e' \<and> 0 < n \<and> n + rd_PaddingBytes d \<le> 65535
         \<and> rd_PaddingBytes d \<le> MaxPaddingBytes (pd_limits (en_profile e'))
         \<and> now \<le> rd_SendAt d \<and> rd_SendAt d \<le> now + MaxRealDelay (pd_limits (en_profile e'))"
proof -
  define e1 where "e1 = (if ms_enabled (en_mosaic e) then observeMosaic now n e else e)"
  define e2 where "e2 = on_stats (\<lambda>s. s\<lparr>cs_RealBytes := saturatingAdd (cs_RealBytes s) (of_int n)\<rparr>) e1"
  define e3 where "e3 = earnCredit (of_int n * en_maxOverheadPercent e2) e2"
  from plan have n: "0 < n" "n \<le> 65535" by (auto simp: PlanReal_def split: if_splits)
  from plan n obtain p e4 delay e5 b where p: "plan_padding H n e3 = Some (p, e4)"
    and delay: "plan_delay H now e4 = Some (delay, e5)"
    and b: "shouldScheduleDummy H (e5\<lparr>en_lastRealPlan := Some now\<rparr>) = Some (b, e')"
    and d: "d = \<lparr>rd_PaddingBytes = p, rd_SendAt = now + delay, rd_ScheduleDummy = b\<rparr>"
    by (auto simp: PlanReal_def Let_def e1_def [symmetric] e2_def [symmetric] e3_def [symmetric] split: bind_splits)
  have fr1: "ledger e1 = ledger e" and ok1: "engine_ok e1" using ok by (simp_all add: e1_def observeMosaic_ok)
  have ok2: "engine_ok e2" using ok1 by (simp add: e2_def engine_ok_def on_stats_def)
  have pct: "en_maxOverheadPercent e2 = en_maxOverheadPercent e" "en_creditUnits e2 = en_creditUnits e"
    using fr1 by (simp_all add: e2_def on_stats_def ledger_def)
  have qn: "uint (of_int n :: u64) = n" using n by (intro uint_of_int_small) simp_all
  have le: "n * uint (en_maxOverheadPercent e) \<le> 65535 * 100"
    using n ok uint64_bounds(1) by (intro mult_mono) (simp_all add: engine_ok_def)
  have u: "uint (of_int n * en_maxOverheadPercent e) = n * uint (en_maxOverheadPercent e)"
    using le n uint64_bounds(1) [of "en_maxOverheadPercent e"] by (simp add: uint_word_ariths qn mod_pos_pos_trivial)
  note earn = earnCredit_credit [OF ok2, of "of_int n * en_maxOverheadPercent e2", folded e3_def]
  have fr3: "en_stats e3 = en_stats e2" "en_maxOverheadPercent e3 = en_maxOverheadPercent e" by (simp_all add: e3_def pct)
  have st: "en_stats e2 = (en_stats e1)\<lparr>cs_RealBytes := saturatingAdd (cs_RealBytes (en_stats e1)) (of_int n)\<rparr>"
    by (simp add: e2_def on_stats_def)
  have s3: "settles e n 0 0 e3"
    using earn fr1 n uint64_bounds(2) [of "cs_PaddingBytes (en_stats e)"] uint64_bounds(2) [of "cs_DummyBytes (en_stats e)"]
    by (simp add: settles_def ledger_def fr3 st pct u qn uint_saturatingAdd mult.commute)
  note pad = plan_padding_settles [OF p _ n(2)]
  have pad': "settles e3 0 p 0 e4" "en_profile e4 = en_profile e3" "n + p \<le> 65535"
    "p \<le> MaxPaddingBytes (pd_limits (en_profile e3))" using pad earn by simp_all
  have ok4: "engine_ok e4" using pad'(1) by (simp add: settles_def)
  then have prof4: "profile_ok (en_profile e4)" by (simp add: engine_ok_def)
  have f5: "ledger e5 = ledger e4" "en_profile e5 = en_profile e4" using plan_delay_frame [OF delay] by simp_all
  have f6: "ledger e' = ledger e4" "en_profile e' = en_profile e4" using shouldScheduleDummy_frame [OF b] f5 by simp_all
  have "settles e4 0 0 0 e'"
    using f6 prof4 ok4 by (intro settles_frame engine_ok_frame [of e' e4]) simp_all
  from settles_trans [OF settles_trans [OF s3 pad'(1)] this] plan_delay_range [OF delay prof4] pad' n f6
  show ?thesis by (simp add: d)
qed

lemma PlanReal_error: "PlanReal H now n e = Some (Inl err, e') \<Longrightarrow> e' = e"
  by (auto simp: PlanReal_def Let_def split: if_splits bind_splits)

lemma PlanDummy_settles:
  assumes plan: "PlanDummy H now e = Some (d, e')" and ok: "engine_ok e"
  shows "settles e 0 0 (dd_Bytes d) e' \<and> (dd_Scheduled d \<longrightarrow> dd_Bytes d \<in> set (pd_dummySizes (en_profile e))
         \<and> now + pd_minDummyDelay (en_profile e) \<le> dd_SendAt d \<and> dd_SendAt d \<le> now + pd_maxDummyDelay (en_profile e))
         \<and> en_profile e' = en_profile e"
proof -
  define k where "k = length (takeWhile (\<lambda>n. n \<le> int (unat (en_creditUnits e div 100))) (pd_dummySizes (en_profile e)))"
  have "(d = no_dummy \<and> ledger e' = ledger e \<and> en_profile e' = en_profile e)
      \<or> (\<exists>(v :: u64) r delay e3. v < of_nat k \<and> dd_Scheduled d \<and> dd_Bytes d = pd_dummySizes (en_profile e) ! unat v
          \<and> dd_SendAt d = now + delay \<and> e' = recordPlannedDelay delay e3
          \<and> randomDelayRange H (pd_minDummyDelay (en_profile e)) (pd_maxDummyDelay (en_profile e)) (pd_delayShape (en_profile e))
              (on_stats (\<lambda>s. s\<lparr>cs_DummyBytes := saturatingAdd (cs_DummyBytes s) (of_int (dd_Bytes d))\<rparr>)
                 (e\<lparr>en_random := r, en_creditUnits := en_creditUnits e - of_int (dd_Bytes d) * 100\<rparr>)) = Some (delay, e3))"
    using plan unfolding PlanDummy_def Let_def k_def [symmetric]
    by (auto simp: ledger_def on_stats_def split: if_splits bind_splits dest!: engine_uniform_bound)
  then show ?thesis
  proof (elim disjE exE conjE)
    assume "d = no_dummy" "ledger e' = ledger e" "en_profile e' = en_profile e"
    with ok show ?thesis by (auto intro!: settles_frame engine_ok_frame [of e' e] simp: engine_ok_def)
  next
    fix v :: u64 and r delay e3
    let ?b = "dd_Bytes d"
    let ?e2 = "on_stats (\<lambda>s. s\<lparr>cs_DummyBytes := saturatingAdd (cs_DummyBytes s) (of_int ?b)\<rparr>)
                 (e\<lparr>en_random := r, en_creditUnits := en_creditUnits e - of_int ?b * 100\<rparr>)"
    assume v: "v < of_nat k" and sch: "dd_Scheduled d" and b: "?b = pd_dummySizes (en_profile e) ! unat v"
      and at: "dd_SendAt d = now + delay" and e': "e' = recordPlannedDelay delay e3"
      and delay: "randomDelayRange H (pd_minDummyDelay (en_profile e)) (pd_maxDummyDelay (en_profile e))
                    (pd_delayShape (en_profile e)) ?e2 = Some (delay, e3)"
    have prof: "profile_ok (en_profile e)" using ok by (simp add: engine_ok_def)
    have kl: "k \<le> length (pd_dummySizes (en_profile e))" by (simp add: k_def length_takeWhile_le)
    have vk: "unat v < k" using v kl profile_okD(4) [OF prof] by (intro unat_less_of_nat) simp_all
    have mem: "?b \<in> set (pd_dummySizes (en_profile e))" using vk kl b by simp
    have "?b = takeWhile (\<lambda>n. n \<le> int (unat (en_creditUnits e div 100))) (pd_dummySizes (en_profile e)) ! unat v"
      using vk b by (simp add: k_def takeWhile_nth)
    then have "?b \<in> set (takeWhile (\<lambda>n. n \<le> int (unat (en_creditUnits e div 100))) (pd_dummySizes (en_profile e)))"
      using vk by (simp add: k_def)
    then have aff: "?b \<le> uint (en_creditUnits e div 100)" by (auto dest: set_takeWhileD)
    have pos: "0 < ?b" "?b \<le> 65535" using profile_okD(2) [OF prof mem] by simp_all
    have c: "uint (en_creditUnits e - of_int ?b * 100) = uint (en_creditUnits e) - 100 * ?b"
      using pos aff by (intro spend_credit) simp_all
    have q: "uint (of_int ?b :: u64) = ?b" using pos by (intro uint_of_int_small) simp_all
    have ok2: "engine_ok ?e2" using ok pos by (simp add: engine_ok_def on_stats_def word_le_def c)
    have s2: "settles e 0 0 ?b ?e2"
      using ok2 pos uint64_bounds(2) [of "cs_RealBytes (en_stats e)"] uint64_bounds(2) [of "cs_PaddingBytes (en_stats e)"]
      by (simp add: settles_def on_stats_def c q uint_saturatingAdd)
    have f3: "ledger e' = ledger ?e2" "en_profile e' = en_profile e"
      using randomDelayRange_frame [OF delay] by (simp_all add: e')
    then have "settles ?e2 0 0 0 e'" using ok2 prof by (intro settles_frame engine_ok_frame [of e' ?e2]) simp_all
    from settles_trans [OF s2 this] have "settles e 0 0 ?b e'" by simp
    moreover have "pd_minDummyDelay (en_profile e) \<le> delay \<and> delay \<le> pd_maxDummyDelay (en_profile e)"
      using randomDelayRange_range [OF delay] prof by (simp add: profile_ok_def)
    ultimately show ?thesis using mem at f3 by simp
  qed
qed

lemma cover_run_settles:
  "cover_run H cs e = Some (real, padding, dummy, e') \<Longrightarrow> engine_ok e \<Longrightarrow> settles e real padding dummy e'"
proof (induction H cs e arbitrary: real padding dummy rule: cover_run.induct)
  case (1 H e)
  then show ?case using settles_frame [of e e] by simp
next
  case (2 H now n cs e)
  from 2(2) obtain res e1 r p d where plan: "PlanReal H now n e = Some (res, e1)"
    and rest: "cover_run H cs e1 = Some (r, p, d, e')"
    and eq: "(real, padding, dummy) = (case res of Inl _ \<Rightarrow> (r, p, d) | Inr x \<Rightarrow> (n + r, rd_PaddingBytes x + p, d))"
    by (auto split: bind_splits sum.splits)
  show ?case
  proof (cases res)
    case (Inl err)
    then have "e1 = e" using plan PlanReal_error by blast
    then show ?thesis using Inl plan rest eq 2 by auto
  next
    case (Inr x)
    note s = PlanReal_settles [OF plan [unfolded Inr] 2(3), THEN conjunct1]
    then have "settles e1 r p d e'" using 2(1) plan rest by (auto simp: settles_def)
    from settles_trans [OF s this] eq Inr show ?thesis by simp
  qed
next
  case (3 H now cs e)
  from 3(2) obtain x e1 r p d where plan: "PlanDummy H now e = Some (x, e1)"
    and rest: "cover_run H cs e1 = Some (r, p, d, e')" and eq: "real = r" "padding = p" "dummy = dd_Bytes x + d"
    by (auto split: bind_splits)
  note s = PlanDummy_settles [OF plan 3(3), THEN conjunct1]
  then have "settles e1 r p d e'" using 3(1) plan rest by (auto simp: settles_def)
  from settles_trans [OF s this] eq show ?case by simp
next
  case (4 H cs e)
  have ok: "engine_ok (snd (EnableMosaic e))" using 4(3) by (rule EnableMosaic_ok)
  have "settles (snd (EnableMosaic e)) real padding dummy e'" using 4 ok by simp
  from settles_trans [OF settles_frame [OF EnableMosaic_ledger ok] this] show ?case by simp
qed

section \<open>The draws end\<close>

text \<open>
  The rejection loop has no bound of its own. Its counter runs through all of its 2^64 values, so it ends
  as soon as one block of the keyed stream opens with a word below the largest rejection threshold.
\<close>

definition schedule_block :: "hash \<Rightarrow> bytes \<Rightarrow> u64 \<Rightarrow> bytes" where
  "schedule_block H key c = hmac H key (str ''NP2 cover schedule'' @ put_uint64 c)"

definition draws_end :: "hash \<Rightarrow> bytes \<Rightarrow> bool" where
  "draws_end H key \<longleftrightarrow>
     hash32 H \<and> (\<exists>c. be_value (take 8 (schedule_block H key c)) < (0xffffffffffff0000 :: u64))"

definition live :: "hash \<Rightarrow> coverRandom \<Rightarrow> bool" where
  "live H r \<longleftrightarrow> draws_end H (cv_key r) \<and> length (cv_block r) = 32"

lemma live_step:
  assumes "live H r" and "coverRandom_uint64 H r = (v, r')"
  shows "live H r' \<and> cv_key r' = cv_key r
    \<and> (if cv_offset r + 8 > 32
       then v = be_value (take 8 (schedule_block H (cv_key r) (cv_counter r))) \<and> cv_counter r' = cv_counter r + 1 \<and> cv_offset r' = 8
       else cv_counter r' = cv_counter r \<and> cv_offset r' = cv_offset r + 8)"
proof -
  have len: "hash32 H" "length (cv_block r) = 32" using assms(1) by (simp_all add: live_def draws_end_def)
  show ?thesis
  proof (cases "cv_offset r + 8 > 32")
    case True
    with assms len show ?thesis
      unfolding coverRandom_uint64_def schedule_block_def [symmetric] live_def
      by (auto simp: schedule_block_def hash32.length_hmac Let_def)
  next
    case False
    with assms len show ?thesis unfolding coverRandom_uint64_def live_def by (auto simp: Let_def)
  qed
qed

lemma counter_closer: "c \<noteq> n \<Longrightarrow> unat (c - (n + 1)) < unat (c - n :: u64)"
  using measure_unat [of "c - n"] by (simp add: algebra_simps)

lemma cover_uniform_loop_returns:
  assumes "live H r" and "be_value (take 8 (schedule_block H (cv_key r) c)) < t"
  shows "\<exists>v r'. cover_uniform_loop H t limit r = Some (v, r') \<and> live H r' \<and> cv_key r' = cv_key r"
  using assms
proof (induction r rule: measure_induct_rule [where f = "\<lambda>r. 64 * unat (c - cv_counter r) + (32 - cv_offset r)"])
  case (less r)
  obtain v r' where draw: "coverRandom_uint64 H r = (v, r')" by force
  note st = live_step [OF less.prems(1) draw]
  show ?case
  proof (cases "v < t")
    case True
    then show ?thesis using draw st by (subst cover_uniform_loop.simps) simp
  next
    case False
    have ne: "c \<noteq> cv_counter r" if "cv_offset r + 8 > 32" using st False less.prems(2) that by auto
    have "64 * unat (c - cv_counter r') + (32 - cv_offset r') < 64 * unat (c - cv_counter r) + (32 - cv_offset r)"
    proof (cases "cv_offset r + 8 > 32")
      case True
      then have "unat (c - cv_counter r') < unat (c - cv_counter r)" "cv_offset r' = 8"
        using st counter_closer [OF ne] by simp_all
      then show ?thesis by linarith
    next
      case False
      then have "cv_counter r' = cv_counter r" "cv_offset r' = cv_offset r + 8" using st by simp_all
      with False show ?thesis by simp
    qed
    from less.IH [OF this] st less.prems(2)
    have "\<exists>v r''. cover_uniform_loop H t limit r' = Some (v, r'') \<and> live H r'' \<and> cv_key r'' = cv_key r'" by simp
    then show ?thesis using draw False st by (subst cover_uniform_loop.simps) simp
  qed
qed

lemma cover_uniform_returns:
  assumes "live H r" and "0 < limit" "limit \<le> 65536"
  shows "\<exists>v r'. cover_uniform H limit r = Some (v, r') \<and> live H r'"
proof -
  from assms(1) obtain c where c: "be_value (take 8 (schedule_block H (cv_key r) c)) < (0xffffffffffff0000 :: u64)"
    by (auto simp: live_def draws_end_def)
  have "uint (MaxUint64 mod limit) < 65536"
    using assms(2,3) by (simp add: uint_mod word_less_def word_le_def) (meson less_le_trans pos_mod_bound)
  then have "uint (MaxUint64 - MaxUint64 mod limit) \<ge> 0xffffffffffff0000"
    by (subst uint_diff_nowrap) simp_all
  with c have "be_value (take 8 (schedule_block H (cv_key r) c)) < MaxUint64 - MaxUint64 mod limit"
    by (simp add: word_less_def)
  from cover_uniform_loop_returns [OF assms(1) this, of limit] assms(2) show ?thesis by (auto simp: cover_uniform_def)
qed

definition engine_live :: "hash \<Rightarrow> Engine \<Rightarrow> bool" where
  "engine_live H e \<longleftrightarrow> live H (en_random e)"

lemma engine_live_frame [simp]:
  "engine_live H (on_stats f e) = engine_live H e" "engine_live H (on_mosaic g e) = engine_live H e"
  "engine_live H (e\<lparr>en_creditUnits := c\<rparr>) = engine_live H e" "engine_live H (e\<lparr>en_lastRealPlan := t\<rparr>) = engine_live H e"
  by (simp_all add: engine_live_def on_stats_def on_mosaic_def)

lemma setMosaicClass_live [simp]: "engine_live H (setMosaicClass c e) = engine_live H e"
  by (simp add: setMosaicClass_def engine_live_def Let_def split: option.split)

lemma transitionMosaicClass_live [simp]: "engine_live H (transitionMosaicClass c e) = engine_live H e"
  by (simp add: transitionMosaicClass_def)

lemma proposeMosaicClass_live [simp]: "engine_live H (proposeMosaicClass c e) = engine_live H e"
  unfolding proposeMosaicClass_def Let_def by simp

lemma observeMosaic_live [simp]: "engine_live H (observeMosaic now n e) = engine_live H e"
proof -
  have "engine_live H (mosaic_rewind now e) = engine_live H e"
    by (simp add: mosaic_rewind_def Let_def split: option.split)
  moreover have "engine_live H (mosaic_windows now e1) = engine_live H e1" for e1
    unfolding mosaic_windows_def Let_def by (simp split: option.split)
  ultimately show ?thesis unfolding observeMosaic_def mosaic_record_def Let_def by simp
qed

lemma EnableMosaic_live [simp]: "engine_live H (snd (EnableMosaic e)) = engine_live H e"
  by (simp add: EnableMosaic_def Let_def)

lemma recordPlannedDelay_live [simp]: "engine_live H (recordPlannedDelay d e) = engine_live H e"
  by (simp add: recordPlannedDelay_def Let_def)

lemma earnCredit_live [simp]: "engine_live H (earnCredit u e) = engine_live H e"
  by (simp add: earnCredit_def)

lemma engine_uniform_returns:
  assumes "engine_live H e" and "0 < limit" "limit \<le> 65536"
  obtains v e' where "engine_uniform H limit e = Some (v, e')" "engine_live H e'"
  using cover_uniform_returns [of H "en_random e" limit] assms that by (auto simp: engine_live_def engine_uniform_def)

lemma randomDelayRange_returns:
  assumes "engine_live H e" and "hi - lo \<le> 250 * millisecond"
  shows "\<exists>d e'. randomDelayRange H lo hi shape e = Some (d, e') \<and> engine_live H e'"
proof (cases "hi \<le> lo")
  case False
  define s where "s = (hi - lo) div jitterStep"
  have "0 \<le> s" "s \<le> 1000" using False assms(2) by (auto simp: s_def)
  then have u: "uint (of_int s + 1 :: u64) = s + 1" using uint_of_int_small [of "s + 1"] by simp
  have lim: "0 < (of_int s + 1 :: u64)" "(of_int s + 1 :: u64) \<le> 65536"
    using \<open>0 \<le> s\<close> \<open>s \<le> 1000\<close> by (simp_all only: word_less_def word_le_def u) simp_all
  obtain v e1 where 1: "engine_uniform H (of_int s + 1) e = Some (v, e1)" "engine_live H e1"
    using engine_uniform_returns [OF assms(1) lim] by blast
  obtain w e2 where 2: "engine_uniform H (of_int s + 1) e1 = Some (w, e2)" "engine_live H e2"
    using engine_uniform_returns [OF 1(2) lim] by blast
  show ?thesis using False 1 2 by (cases shape) (simp_all add: randomDelayRange_def Let_def s_def [symmetric])
qed (use assms in \<open>simp add: randomDelayRange_def\<close>)

lemma of_nat_limit: "0 < n \<Longrightarrow> n \<le> 65535 \<Longrightarrow> (0 :: u64) < of_nat n \<and> of_nat n \<le> (65536 :: u64)"
  by (simp add: word_less_nat_alt word_le_nat_alt unat_of_nat_small)

lemma desiredPadding_returns:
  assumes "engine_live H e" and ok: "profile_ok (en_profile e)"
  shows "\<exists>d e'. desiredPadding H n e = Some (d, e') \<and> engine_live H e'"
proof -
  define bs where "bs = pd_buckets (en_profile e)"
  define k where "k = first_bucket bs n"
  define c where "c = min (max (Suc 0) (unat (pd_bucketLookahead (en_profile e)))) (length bs - k)"
  show ?thesis
  proof (cases "k = length bs")
    case False
    then have "0 < c" "c \<le> 65535"
      using first_bucket_le [of bs n] profile_okD(3) [OF ok] by (auto simp: c_def k_def bs_def)
    from of_nat_limit [OF this] obtain v e1 where "engine_uniform H (of_nat c) e = Some (v, e1)" "engine_live H e1"
      using engine_uniform_returns [OF assms(1)] by blast
    with False show ?thesis
      by (simp add: desiredPadding_def Let_def bs_def [symmetric] k_def [symmetric] c_def [symmetric] assms(1))
  qed (simp add: desiredPadding_def Let_def bs_def [symmetric] k_def [symmetric] assms(1))
qed

lemma shouldScheduleDummy_returns:
  assumes "engine_live H e"
  shows "\<exists>b e'. shouldScheduleDummy H e = Some (b, e') \<and> engine_live H e'"
proof -
  let ?g = "pd_dummyGateDenominator (en_profile e)"
  have "\<exists>v e1. engine_uniform H (ucast ?g) e = Some (v, e1) \<and> engine_live H e1"
    if "pd_dummyGateNumerator (en_profile e) < ?g"
  proof -
    have "0 < uint ?g" using that uint_nonnegative [of "pd_dummyGateNumerator (en_profile e)"] unfolding word_less_def by linarith
    moreover have "uint ?g < 256" using uint_lt2p [of ?g] by simp
    ultimately have "(0 :: u64) < ucast ?g" "(ucast ?g :: u64) \<le> 65536"
      by (simp_all add: word_less_def word_le_def uint_up_ucast is_up)
    then show ?thesis using engine_uniform_returns [OF assms] by blast
  qed
  then show ?thesis using assms by (auto simp: shouldScheduleDummy_def Let_def linorder_not_le)
qed

lemma plan_delay_returns:
  assumes "engine_live H e" and "profile_ok (en_profile e)"
  shows "\<exists>d e'. plan_delay H now e = Some (d, e') \<and> engine_live H e'"
proof -
  let ?e1 = "on_stats (\<lambda>s. s\<lparr>cs_BurstCount := saturatingAdd (cs_BurstCount s) 1\<rparr>) e"
  have "\<exists>d e'. randomDelayRange H 0 (MaxRealDelay (pd_limits (en_profile ?e1))) (pd_delayShape (en_profile ?e1)) ?e1
        = Some (d, e') \<and> engine_live H e'"
    using assms by (intro randomDelayRange_returns) (simp_all add: profile_ok_def)
  then show ?thesis using assms(1) by (auto simp: plan_delay_def Let_def)
qed

lemma PlanReal_returns:
  assumes live: "engine_live H e" and ok: "engine_ok e"
  shows "\<exists>res e'. PlanReal H now n e = Some (res, e') \<and> engine_live H e'"
proof (cases "n \<le> 0 \<or> n > MaxWireCellBytes")
  case False
  define e1 where "e1 = (if ms_enabled (en_mosaic e) then observeMosaic now n e else e)"
  define e2 where "e2 = on_stats (\<lambda>s. s\<lparr>cs_RealBytes := saturatingAdd (cs_RealBytes s) (of_int n)\<rparr>) e1"
  define e3 where "e3 = earnCredit (of_int n * en_maxOverheadPercent e2) e2"
  have "engine_ok e1" using ok by (simp add: e1_def observeMosaic_ok)
  then have "engine_ok e2" by (simp add: e2_def engine_ok_def on_stats_def)
  then have ok3: "engine_ok e3" unfolding e3_def by (rule earnCredit_credit [THEN conjunct1])
  have live3: "engine_live H e3" using live by (simp add: e1_def e2_def e3_def)
  obtain d e4 where 4: "desiredPadding H n e3 = Some (d, e4)" "engine_live H e4"
    using desiredPadding_returns [OF live3, of n] ok3 by (auto simp: engine_ok_def)
  obtain p e5 where 5: "plan_padding H n e3 = Some (p, e5)" "engine_live H e5" using 4 by (simp add: plan_padding_def Let_def)
  have "profile_ok (en_profile e5)" using plan_padding_settles [OF 5(1) ok3] ok3 False by (simp add: engine_ok_def)
  then obtain delay e6 where 6: "plan_delay H now e5 = Some (delay, e6)" "engine_live H e6"
    using plan_delay_returns [OF 5(2)] by blast
  obtain b e7 where 7: "shouldScheduleDummy H (e6\<lparr>en_lastRealPlan := Some now\<rparr>) = Some (b, e7)" "engine_live H e7"
    using shouldScheduleDummy_returns [of H "e6\<lparr>en_lastRealPlan := Some now\<rparr>"] 6(2) by auto
  show ?thesis
    using False 5 6 7 by (simp add: PlanReal_def Let_def e1_def [symmetric] e2_def [symmetric] e3_def [symmetric])
qed (simp add: PlanReal_def live)

lemma PlanDummy_returns:
  assumes live: "engine_live H e" and ok: "engine_ok e"
  shows "\<exists>d e'. PlanDummy H now e = Some (d, e') \<and> engine_live H e'"
proof -
  let ?p = "en_profile e"
  define k where "k = length (takeWhile (\<lambda>n. n \<le> int (unat (en_creditUnits e div 100))) (pd_dummySizes ?p))"
  show ?thesis
  proof (cases "k = 0")
    case True
    then show ?thesis unfolding PlanDummy_def Let_def k_def [symmetric] using live by simp
  next
    case False
    have prof: "profile_ok ?p" using ok by (simp add: engine_ok_def)
    have kl: "k \<le> length (pd_dummySizes ?p)" by (simp add: k_def length_takeWhile_le)
    then have ne: "length (pd_dummySizes ?p) \<noteq> 0" using False by linarith
    have "0 < k" "k \<le> 65535" using False kl profile_okD(4) [OF prof] by simp_all
    from of_nat_limit [OF this] obtain i e1 where 1: "engine_uniform H (of_nat k) e = Some (i, e1)" "engine_live H e1"
      using engine_uniform_returns [OF live] by blast
    define b where "b = pd_dummySizes ?p ! unat i"
    define e2 where "e2 = on_stats (\<lambda>s. s\<lparr>cs_DummyBytes := saturatingAdd (cs_DummyBytes s) (of_int b)\<rparr>)
                        (e1\<lparr>en_creditUnits := en_creditUnits e1 - of_int b * 100\<rparr>)"
    have "\<exists>d e3. randomDelayRange H (pd_minDummyDelay ?p) (pd_maxDummyDelay ?p) (pd_delayShape ?p) e2 = Some (d, e3)
          \<and> engine_live H e3"
      using 1(2) prof by (intro randomDelayRange_returns) (simp_all add: e2_def profile_ok_def)
    then show ?thesis
      unfolding PlanDummy_def Let_def k_def [symmetric]
      using False ne 1(1) by (auto simp: b_def [symmetric] e2_def [symmetric])
  qed
qed

lemma cover_run_returns:
  "engine_live H e \<Longrightarrow> engine_ok e \<Longrightarrow> \<exists>res. cover_run H cs e = Some res"
proof (induction H cs e rule: cover_run.induct)
  case (2 H now n cs e)
  obtain res e1 where plan: "PlanReal H now n e = Some (res, e1)" "engine_live H e1"
    using PlanReal_returns [OF 2(2,3)] by blast
  have "engine_ok e1"
    using plan(1) 2(3) PlanReal_error [of H now n e] PlanReal_settles [of H now n e]
    by (cases res) (auto simp: settles_def)
  then obtain r where "cover_run H cs e1 = Some r" using 2(1) plan by force
  with plan show ?case by (cases r; cases res) simp_all
next
  case (3 H now cs e)
  obtain d e1 where plan: "PlanDummy H now e = Some (d, e1)" "engine_live H e1"
    using PlanDummy_returns [OF 3(2,3)] by blast
  have "engine_ok e1" using PlanDummy_settles [OF plan(1) 3(3)] by (simp add: settles_def)
  then obtain r where "cover_run H cs e1 = Some r" using 3(1) plan by force
  with plan show ?case by (cases r) simp
next
  case (4 H cs e)
  then show ?case using EnableMosaic_ok by simp
qed simp

section \<open>Properties of the engine\<close>

lemma uint_OverheadBytes:
  assumes "settles e0 real padding dummy e" and "cs_PaddingBytes (en_stats e0) = 0" "cs_DummyBytes (en_stats e0) = 0"
  shows "uint (OverheadBytes (en_stats e)) = min (padding + dummy) 18446744073709551615"
  using assms by (simp add: settles_def OverheadBytes_def uint_saturatingAdd min_def)

text \<open>
  C14 (bounds). Cover traffic stays within its budget. Take an engine that \<open>NewEngine\<close> accepted and any
  sequence of calls of \<open>PlanReal\<close>, \<open>PlanDummy\<close> and \<open>EnableMosaic\<close>, at any times, with any cell sizes and
  for any hash: the padding and dummy bytes that were planned are at most \<open>MaxOverheadPercent\<close> percent of
  the real bytes admitted so far, credit still to be spent included. The reported statistics are these
  sums, cut off at the largest \<open>uint64\<close>.
\<close>

theorem cover_overhead_bounded:
  assumes "NewEngine H config = Inr e0" and "cover_run H calls e0 = Some (real, padding, dummy, e)"
  shows "0 \<le> padding \<and> 0 \<le> dummy
    \<and> 100 * (padding + dummy) + uint (en_creditUnits e) \<le> uint (cc_MaxOverheadPercent config) * real
    \<and> uint (en_creditUnits e) \<le> 6553500
    \<and> uint (cs_RealBytes (fst (engine_Stats e))) = min real 18446744073709551615
    \<and> uint (OverheadBytes (fst (engine_Stats e))) = min (padding + dummy) 18446744073709551615"
proof -
  note new = NewEngine_ok [OF assms(1)]
  have s: "settles e0 real padding dummy e" using cover_run_settles [OF assms(2)] new by simp
  have pct: "uint (en_maxOverheadPercent e0) = uint (cc_MaxOverheadPercent config)"
    using new by (simp add: uint_up_ucast is_up)
  have "uint (en_creditUnits e) \<le> 6553500" using s by (simp add: settles_def engine_ok_def word_le_def)
  with s new pct uint_OverheadBytes [OF s] show ?thesis by (simp add: settles_def engine_Stats_def)
qed

declare cover_uniform_loop.simps [code]

definition zero_hash :: hash where
  "zero_hash m = zero_bytes 32"

definition sample_config :: CoverConfig where
  "sample_config = \<lparr>cc_Profile = ProfileWeb, cc_MaxOverheadPercent = 20, cc_MaxBudgetBytes = 0, cc_Seed = replicate 32 7\<rparr>"

definition sample_calls :: "cover_call list" where
  "sample_calls = [CallReal 0 1000, CallReal 10 1200, CallDummy 20, CallMosaic]"

definition sample_run :: "(int \<times> int \<times> int) option" where
  "sample_run =
     (case NewEngine zero_hash sample_config of Inl _ \<Rightarrow> None
      | Inr e0 \<Rightarrow> map_option (\<lambda>(r, p, d, e). (r, p, d)) (cover_run zero_hash sample_calls e0))"

lemma sample_run_value: "sample_run = Some (2200, 200, 96)"
  by code_simp

lemma sample_run_exists:
  obtains e0 e where "NewEngine zero_hash sample_config = Inr e0"
    and "cover_run zero_hash sample_calls e0 = Some (2200, 200, 96, e)"
  using sample_run_value by (auto simp: sample_run_def split: sum.splits)

theorem cover_overhead_bounded_witness:
  "\<exists>e0 e. NewEngine zero_hash sample_config = Inr e0 \<and> cover_run zero_hash sample_calls e0 = Some (2200, 200, 96, e)
     \<and> 100 * (200 + 96) + uint (en_creditUnits e) \<le> 20 * 2200 \<and> uint (OverheadBytes (fst (engine_Stats e))) = 296"
proof -
  obtain e0 e where new: "NewEngine zero_hash sample_config = Inr e0"
    and run: "cover_run zero_hash sample_calls e0 = Some (2200, 200, 96, e)" by (rule sample_run_exists)
  from cover_overhead_bounded [OF new run] new run show ?thesis by (simp add: sample_config_def)
qed

text \<open>
  C26 (termination). Planning always returns. The rejection loop of \<open>uniform\<close> has no bound, yet for an engine
  that \<open>NewEngine\<close> accepted every sequence of calls of \<open>PlanReal\<close>, \<open>PlanDummy\<close> and \<open>EnableMosaic\<close> gets its
  decisions, provided that the hash returns 32 bytes and that the keyed stream of the engine has, among
  its 2^64 blocks, one that opens with a word below 2^64 - 2^16. No call asks for a draw from an empty
  range, on which the code panics.
\<close>

theorem cover_planning_returns:
  assumes "NewEngine H config = Inr e0" and "draws_end H (cc_Seed config)"
  shows "\<exists>res. cover_run H calls e0 = Some res"
proof (rule cover_run_returns)
  show "engine_ok e0" using NewEngine_ok [OF assms(1)] by simp
  show "engine_live H e0"
    using NewEngine_ok [OF assms(1)] assms(2) by (simp add: engine_live_def live_def newCoverRandom_def)
qed

lemma zero_hash_draws_end: "draws_end zero_hash key"
proof -
  have "be_value (take 8 (zero_bytes 32)) = (0 :: u64)" by code_simp
  then show ?thesis by (auto simp: draws_end_def schedule_block_def hmac_def zero_hash_def Let_def hash32_def)
qed

theorem cover_planning_returns_witness:
  "\<exists>e0 res. NewEngine zero_hash sample_config = Inr e0 \<and> draws_end zero_hash (cc_Seed sample_config)
     \<and> cover_run zero_hash sample_calls e0 = Some res"
proof -
  obtain e0 e where new: "NewEngine zero_hash sample_config = Inr e0" by (rule sample_run_exists)
  with cover_planning_returns [OF new zero_hash_draws_end] zero_hash_draws_end show ?thesis by blast
qed

end
