(* ===== verification/NP_Cover_Transport.thy ===== *)
theory NP_Cover_Transport
  imports NP_Cover NP_Mux
begin

text \<open>
  The cover transport (\<open>internal/cover/transport.go\<close>), the carrier that pads cells, delays them and adds
  dummy cells. \<open>Send\<close> and one round of \<open>runDummies\<close> are split where the code waits or where another
  goroutine may run between two critical sections; the result of a wait and the outcome of the inner
  carrier are arguments. \<open>cover_step\<close> interleaves the sections, with the two mutexes of the code, and records
  what reached the inner carrier. Proved: the peer sees the cells that were sent, in order, and the bytes
  on the wire stay within the configured overhead.
\<close>

abbreviation dummyRequestQueue :: nat where "dummyRequestQueue \<equiv> 64"

section \<open>Padding bytes\<close>

record paddingRandom =
  pr_key :: bytes
  pr_counter :: u64

text \<open>\<open>Fill\<close> of \<open>n\<close> bytes; every block of the stream is the 32 bytes of one HMAC-SHA256.\<close>

function paddingRandom_Fill :: "hash \<Rightarrow> nat \<Rightarrow> paddingRandom \<Rightarrow> bytes \<times> paddingRandom" where
  "paddingRandom_Fill H n r =
     (if n = 0 then ([], r)
      else
        let block = hmac H (pr_key r) (str ''NP2 padding bytes'' @ put_uint64 (pr_counter r));
            copied = min n 32
        in case paddingRandom_Fill H (n - copied) (r\<lparr>pr_counter := pr_counter r + 1\<rparr>) of
             (rest, r') \<Rightarrow> (take copied block @ rest, r'))"
  by auto
termination by (relation "measure (\<lambda>(H, n, r). n)") auto

declare paddingRandom_Fill.simps [simp del]

section \<open>The transport\<close>

record Transport =
  ct_typeMap :: TypeMap
  ct_engine :: Engine
  ct_random :: paddingRandom
  ct_done :: bool
  ct_dummies :: nat
  ct_realMessages :: u64
  ct_dummyMessages :: u64
  ct_realWireBytes :: u64
  ct_paddingBytes :: u64
  ct_dummyWireBytes :: u64
  ct_dummySequence :: u64
  ct_dummiesPaused :: bool

definition NewTransport :: "TypeMap \<Rightarrow> Engine \<Rightarrow> bytes \<Rightarrow> cover_error + Transport" where
  "NewTransport typeMap engine seed =
     (if seed = zero_bytes 32 then Inl ErrCoverConfig
      else case EncodeKind typeMap CellDummy of
             Inl e \<Rightarrow> Inl ErrCoverConfig
           | Inr _ \<Rightarrow>
               Inr \<lparr>ct_typeMap = typeMap, ct_engine = engine, ct_random = \<lparr>pr_key = seed, pr_counter = 0\<rparr>,
                    ct_done = False, ct_dummies = 0, ct_realMessages = 0, ct_dummyMessages = 0, ct_realWireBytes = 0,
                    ct_paddingBytes = 0, ct_dummyWireBytes = 0, ct_dummySequence = 0, ct_dummiesPaused = False\<rparr>)"

definition transport_stop :: "Transport \<Rightarrow> Transport" where
  "transport_stop t = t\<lparr>ct_done := True\<rparr>"

definition uvarintSize :: "u64 \<Rightarrow> nat" where
  "uvarintSize value = length (put_uvarint value)"

definition cellWireSize :: "Cell \<Rightarrow> nat \<Rightarrow> nat" where
  "cellWireSize cell paddingLength =
     1 + uvarintSize (StreamID cell) + uvarintSize (Sequence cell) + uvarintSize (of_nat (length (Payload cell)))
     + uvarintSize (of_nat paddingLength) + length (Payload cell) + paddingLength"

text \<open>The loops that shorten the padding until the cell fits, in \<open>addPadding\<close> and \<open>makeDummy\<close>.\<close>

fun shrink :: "Cell \<Rightarrow> nat \<Rightarrow> nat \<Rightarrow> nat \<Rightarrow> nat" where
  "shrink cell existing target paddingLength =
     (if paddingLength > existing \<and> cellWireSize cell paddingLength > target
      then shrink cell existing target (paddingLength - 1) else paddingLength)"

declare shrink.simps [simp del]

definition addPadding :: "hash \<Rightarrow> bytes \<Rightarrow> int \<Rightarrow> Transport \<Rightarrow> (cover_error + bytes \<times> nat) \<times> Transport" where
  "addPadding H raw budget t =
     (if budget \<le> 0 then (Inr (raw, 0), t)
      else case DecodeCell (ct_typeMap t) raw of
             Inl e \<Rightarrow> (Inl (ErrCoverCell e), t)
           | Inr cell \<Rightarrow>
               let existing = length (Padding cell);
                   maximumPadding = min (existing + nat budget) MaxCellPaddingSize;
                   targetWireSize = min (length raw + nat budget) MaxCellSize;
                   paddingLength = shrink cell existing targetWireSize maximumPadding
               in if paddingLength = existing then (Inr (raw, 0), t)
                  else case paddingRandom_Fill H (paddingLength - existing) (ct_random t) of
                         (fresh, r) \<Rightarrow>
                           (case EncodeCell (ct_typeMap t) (cell\<lparr>Padding := Padding cell @ fresh\<rparr>) of
                              Inl e \<Rightarrow> (Inl (ErrCoverCell e), t\<lparr>ct_random := r\<rparr>)
                            | Inr padded \<Rightarrow> (Inr (padded, length padded - length raw), t\<lparr>ct_random := r\<rparr>)))"

definition makeDummy :: "hash \<Rightarrow> int \<Rightarrow> Transport \<Rightarrow> (cover_error + bytes) \<times> Transport" where
  "makeDummy H targetBytes t =
     (let sequence = ct_dummySequence t;
          t1 = t\<lparr>ct_dummySequence := ct_dummySequence t + 1\<rparr>
      in if sequence > MaxSequence then (Inl (ErrCoverCell ErrInvalidCell), t1)
         else
           let cell = \<lparr>Kind = CellDummy, StreamID = 0, Sequence = sequence, Payload = [], Padding = []\<rparr>;
               paddingLength = shrink cell 0 (nat targetBytes) (min (nat targetBytes) MaxCellPaddingSize)
           in if paddingLength = 0 then (Inl ErrInvalidCellSize, t1)
              else case paddingRandom_Fill H paddingLength (ct_random t1) of
                     (padding, r) \<Rightarrow>
                       (case EncodeCell (ct_typeMap t) (cell\<lparr>Padding := padding\<rparr>) of
                          Inl e \<Rightarrow> (Inl (ErrCoverCell e), t1\<lparr>ct_random := r\<rparr>)
                        | Inr raw \<Rightarrow> (Inr raw, t1\<lparr>ct_random := r\<rparr>)))"

text \<open>How a wait of \<open>waitUntil\<close> ends, and its result.\<close>

datatype wait_end = TimeReached | CallerDone | TransportDone

fun waitUntil :: "wait_end \<Rightarrow> cover_error option" where
  "waitUntil TimeReached = None"
| "waitUntil CallerDone = Some ErrCoverWait"
| "waitUntil TransportDone = Some ErrTransportClosed"

definition sendRaw :: "cover_error option \<Rightarrow> Transport \<Rightarrow> cover_error option" where
  "sendRaw outcome t = (if ct_done t then Some ErrTransportClosed else outcome)"

text \<open>\<open>Send\<close> up to its wait, and from there on. \<open>planMu\<close> is held from the one to the other.\<close>

record pendingSend =
  ps_raw :: bytes
  ps_padded :: bytes
  ps_padding :: nat
  ps_schedule :: bool

definition Send_begin :: "hash \<Rightarrow> int \<Rightarrow> bytes \<Rightarrow> Transport \<Rightarrow> ((cover_error + pendingSend) \<times> Transport) option" where
  "Send_begin H now raw t =
     (case PlanReal H now (int (length raw)) (ct_engine t) of
        None \<Rightarrow> None
      | Some (Inl e, engine) \<Rightarrow> Some (Inl e, transport_stop (t\<lparr>ct_engine := engine\<rparr>))
      | Some (Inr decision, engine) \<Rightarrow>
          Some (case addPadding H raw (rd_PaddingBytes decision) (t\<lparr>ct_engine := engine\<rparr>) of
                  (Inl e, t1) \<Rightarrow> (Inl e, transport_stop t1)
                | (Inr (padded, n), t1) \<Rightarrow>
                    (Inr \<lparr>ps_raw = raw, ps_padded = padded, ps_padding = n, ps_schedule = rd_ScheduleDummy decision\<rparr>, t1)))"

definition Send_finish :: "wait_end \<Rightarrow> cover_error option \<Rightarrow> pendingSend \<Rightarrow> Transport \<Rightarrow> cover_error option \<times> Transport" where
  "Send_finish w outcome p t =
     (case waitUntil w of
        Some e \<Rightarrow> (Some e, transport_stop t)
      | None \<Rightarrow>
          (case sendRaw outcome t of
             Some e \<Rightarrow> (Some e, transport_stop t)
           | None \<Rightarrow>
               (None,
                t\<lparr>ct_realMessages := ct_realMessages t + 1,
                  ct_realWireBytes := ct_realWireBytes t + of_nat (length (ps_raw p)),
                  ct_paddingBytes := ct_paddingBytes t + of_nat (ps_padding p),
                  ct_dummies := (if ps_schedule p \<and> ct_dummies t < dummyRequestQueue then ct_dummies t + 1 else ct_dummies t)\<rparr>)))"

text \<open>
  A round of \<open>runDummies\<close>: the request is taken, the plan is made under \<open>planMu\<close>, the cell is made, and
  after the wait it is sent.
\<close>

datatype dummyLoop = DummyIdle | DummyRequested | DummyPlanned int | DummyReady bytes | DummyStopped

definition dummy_request :: "Transport \<Rightarrow> dummyLoop \<times> Transport" where
  "dummy_request t =
     (if ct_dummies t = 0 then (DummyIdle, t)
      else
        let t1 = t\<lparr>ct_dummies := ct_dummies t - 1\<rparr>
        in (if ct_dummiesPaused t1 then DummyIdle else DummyRequested, t1))"

definition dummy_plan :: "hash \<Rightarrow> int \<Rightarrow> Transport \<Rightarrow> (dummyLoop \<times> Transport) option" where
  "dummy_plan H now t =
     (if ct_done t then Some (DummyStopped, t)
      else case PlanDummy H now (ct_engine t) of
             None \<Rightarrow> None
           | Some (decision, engine) \<Rightarrow>
               Some (if dd_Scheduled decision then DummyPlanned (dd_Bytes decision) else DummyIdle, t\<lparr>ct_engine := engine\<rparr>))"

definition dummy_make :: "hash \<Rightarrow> int \<Rightarrow> Transport \<Rightarrow> dummyLoop \<times> Transport" where
  "dummy_make H n t =
     (case makeDummy H n t of (Inl e, t1) \<Rightarrow> (DummyIdle, t1) | (Inr raw, t1) \<Rightarrow> (DummyReady raw, t1))"

definition dummy_finish :: "wait_end \<Rightarrow> cover_error option \<Rightarrow> bytes \<Rightarrow> Transport \<Rightarrow> bool \<times> dummyLoop \<times> Transport" where
  "dummy_finish w outcome raw t =
     (if waitUntil w \<noteq> None then (False, DummyStopped, t)
      else if ct_dummiesPaused t then (False, DummyIdle, t)
      else case sendRaw outcome t of
             Some e \<Rightarrow> (False, if ct_done t then DummyStopped else DummyIdle, t)
           | None \<Rightarrow>
               (True, DummyIdle,
                t\<lparr>ct_dummyMessages := ct_dummyMessages t + 1,
                  ct_dummyWireBytes := ct_dummyWireBytes t + of_nat (length raw)\<rparr>))"

definition PauseDummies :: "Transport \<Rightarrow> Transport" where
  "PauseDummies t = t\<lparr>ct_dummiesPaused := True\<rparr>"

definition ResumeDummies :: "Transport \<Rightarrow> Transport" where
  "ResumeDummies t = t\<lparr>ct_dummiesPaused := False\<rparr>"

definition transport_EnableMosaic :: "Transport \<Rightarrow> bool \<times> Transport" where
  "transport_EnableMosaic t = (case EnableMosaic (ct_engine t) of (b, e) \<Rightarrow> (b, t\<lparr>ct_engine := e\<rparr>))"

record TransportStats =
  ts_RealMessages :: u64
  ts_DummyMessages :: u64
  ts_RealWireBytes :: u64
  ts_PaddingBytes :: u64
  ts_DummyWireBytes :: u64
  ts_MosaicEnabled :: bool
  ts_TrafficClass :: TrafficClass
  ts_ActiveProfile :: ProfileID
  ts_ProfileTransitions :: u64
  ts_VariantID :: byte
  ts_BurstCount :: u64
  ts_DummyRequestsSelected :: u64
  ts_DummyRequestsRejected :: u64
  ts_AddedDelayMicros :: u64
  ts_MaxPlannedDelayMicros :: u64

definition transport_Stats :: "Transport \<Rightarrow> TransportStats" where
  "transport_Stats t =
     (case engine_Stats (ct_engine t) of
        (schedule, mosaicEnabled, trafficClass, activeProfile, profileTransitions, variantID) \<Rightarrow>
          \<lparr>ts_RealMessages = ct_realMessages t, ts_DummyMessages = ct_dummyMessages t, ts_RealWireBytes = ct_realWireBytes t,
           ts_PaddingBytes = ct_paddingBytes t, ts_DummyWireBytes = ct_dummyWireBytes t, ts_MosaicEnabled = mosaicEnabled,
           ts_TrafficClass = trafficClass, ts_ActiveProfile = activeProfile, ts_ProfileTransitions = profileTransitions,
           ts_VariantID = variantID, ts_BurstCount = cs_BurstCount schedule,
           ts_DummyRequestsSelected = cs_DummyRequestsSelected schedule,
           ts_DummyRequestsRejected = cs_DummyRequestsRejected schedule,
           ts_AddedDelayMicros = cs_AddedDelayMicros schedule, ts_MaxPlannedDelayMicros = cs_MaxPlannedDelayMicros schedule\<rparr>)"

text \<open>The zero value of the struct.\<close>

definition zero_TransportStats :: TransportStats where
  "zero_TransportStats =
     \<lparr>ts_RealMessages = 0, ts_DummyMessages = 0, ts_RealWireBytes = 0, ts_PaddingBytes = 0, ts_DummyWireBytes = 0,
      ts_MosaicEnabled = False, ts_TrafficClass = TrafficUnknown, ts_ActiveProfile = 0, ts_ProfileTransitions = 0,
      ts_VariantID = 0, ts_BurstCount = 0, ts_DummyRequestsSelected = 0, ts_DummyRequestsRejected = 0,
      ts_AddedDelayMicros = 0, ts_MaxPlannedDelayMicros = 0\<rparr>"

definition ActualOverheadBytes :: "TransportStats \<Rightarrow> u64" where
  "ActualOverheadBytes s = saturatingAdd (ts_PaddingBytes s) (ts_DummyWireBytes s)"

section \<open>Interleavings\<close>

text \<open>
  The sections of \<open>Send\<close> and of the dummy loop in any order the mutexes allow. \<open>sy_wire\<close> is what the
  inner carrier accepted, \<open>sy_sent\<close> the messages whose \<open>Send\<close> returned without an error.
\<close>

record cover_system =
  sy_transport :: Transport
  sy_sending :: "pendingSend option"
  sy_loop :: dummyLoop
  sy_wire :: "bytes list"
  sy_sent :: "bytes list"

inductive cover_step :: "hash \<Rightarrow> cover_system \<Rightarrow> cover_system \<Rightarrow> bool" for H where
  begin_ok: "sy_sending s = None \<Longrightarrow> Send_begin H now raw (sy_transport s) = Some (Inr p, t) \<Longrightarrow>
     cover_step H s (s\<lparr>sy_transport := t, sy_sending := Some p\<rparr>)"
| begin_error: "sy_sending s = None \<Longrightarrow> Send_begin H now raw (sy_transport s) = Some (Inl e, t) \<Longrightarrow>
     cover_step H s (s\<lparr>sy_transport := t\<rparr>)"
| finish_ok: "sy_sending s = Some p \<Longrightarrow> Send_finish w outcome p (sy_transport s) = (None, t) \<Longrightarrow>
     cover_step H s (s\<lparr>sy_transport := t, sy_sending := None, sy_wire := sy_wire s @ [ps_padded p], sy_sent := sy_sent s @ [ps_raw p]\<rparr>)"
| finish_error: "sy_sending s = Some p \<Longrightarrow> Send_finish w outcome p (sy_transport s) = (Some e, t) \<Longrightarrow>
     cover_step H s (s\<lparr>sy_transport := t, sy_sending := None\<rparr>)"
| request: "sy_loop s = DummyIdle \<Longrightarrow> dummy_request (sy_transport s) = (l, t) \<Longrightarrow>
     cover_step H s (s\<lparr>sy_transport := t, sy_loop := l\<rparr>)"
| plan: "sy_loop s = DummyRequested \<Longrightarrow> sy_sending s = None \<Longrightarrow> dummy_plan H now (sy_transport s) = Some (l, t) \<Longrightarrow>
     cover_step H s (s\<lparr>sy_transport := t, sy_loop := l\<rparr>)"
| make: "sy_loop s = DummyPlanned n \<Longrightarrow> dummy_make H n (sy_transport s) = (l, t) \<Longrightarrow>
     cover_step H s (s\<lparr>sy_transport := t, sy_loop := l\<rparr>)"
| dummy_sent: "sy_loop s = DummyReady raw \<Longrightarrow> dummy_finish w outcome raw (sy_transport s) = (True, l, t) \<Longrightarrow>
     cover_step H s (s\<lparr>sy_transport := t, sy_loop := l, sy_wire := sy_wire s @ [raw]\<rparr>)"
| dummy_dropped: "sy_loop s = DummyReady raw \<Longrightarrow> dummy_finish w outcome raw (sy_transport s) = (False, l, t) \<Longrightarrow>
     cover_step H s (s\<lparr>sy_transport := t, sy_loop := l\<rparr>)"
| loop_end: "sy_loop s = DummyIdle \<Longrightarrow> ct_done (sy_transport s) \<Longrightarrow> cover_step H s (s\<lparr>sy_loop := DummyStopped\<rparr>)"
| stop: "cover_step H s (s\<lparr>sy_transport := transport_stop (sy_transport s)\<rparr>)"
| pause: "cover_step H s (s\<lparr>sy_transport := PauseDummies (sy_transport s)\<rparr>)"
| resume: "cover_step H s (s\<lparr>sy_transport := ResumeDummies (sy_transport s)\<rparr>)"
| mosaic: "transport_EnableMosaic (sy_transport s) = (b, t) \<Longrightarrow> cover_step H s (s\<lparr>sy_transport := t\<rparr>)"

inductive cover_reach :: "hash \<Rightarrow> cover_system \<Rightarrow> cover_system \<Rightarrow> bool" for H where
  refl: "cover_reach H s s"
| trans: "cover_reach H s s' \<Longrightarrow> cover_step H s' s'' \<Longrightarrow> cover_reach H s s''"

definition fresh_system :: "Transport \<Rightarrow> cover_system" where
  "fresh_system t = \<lparr>sy_transport = t, sy_sending = None, sy_loop = DummyIdle, sy_wire = [], sy_sent = []\<rparr>"

section \<open>Padded cells and dummy cells\<close>

text \<open>What the peer's multiplexer makes of a record: the cell without its padding, and nothing for a dummy.\<close>

definition visible :: "TypeMap \<Rightarrow> bytes \<Rightarrow> Cell option" where
  "visible tm raw =
     (case DecodeCell tm raw of
        Inl _ \<Rightarrow> None
      | Inr cell \<Rightarrow> if Kind cell = CellDummy then None else Some (cell\<lparr>Padding := []\<rparr>))"

lemma length_Fill: "hash32 H \<Longrightarrow> length (fst (paddingRandom_Fill H n r)) = n"
proof (induction H n r rule: paddingRandom_Fill.induct)
  case (1 H n r)
  then show ?case
    by (subst paddingRandom_Fill.simps) (auto simp: Let_def hash32.length_hmac split: prod.splits)
qed

lemma shrink_bounds:
  "lo \<le> n \<Longrightarrow> lo \<le> shrink c lo target n \<and> shrink c lo target n \<le> n
     \<and> (shrink c lo target n = lo \<or> cellWireSize c (shrink c lo target n) \<le> target)"
proof (induction c lo target n rule: shrink.induct)
  case (1 c lo target n)
  show ?case
  proof (cases "n > lo \<and> cellWireSize c n > target")
    case True
    then have "shrink c lo target n = shrink c lo target (n - 1)" by (subst shrink.simps) simp
    with True 1(1) show ?thesis by fastforce
  next
    case False
    then have "shrink c lo target n = n" by (subst shrink.simps) auto
    with False 1(2) show ?thesis by auto
  qed
qed

lemma put_uvarint_mono: "x \<le> y \<Longrightarrow> length (put_uvarint x) \<le> length (put_uvarint y)"
proof (induction x arbitrary: y rule: put_uvarint.induct)
  case (1 x)
  show ?case
  proof (cases "x < 0x80")
    case True
    then show ?thesis using length_put_uvarint_pos [of y] by (simp add: put_uvarint_small)
  next
    case False
    then have y: "\<not> y < 0x80" using 1(2) by auto
    have "drop_bit 7 x \<le> drop_bit 7 y"
      using 1(2) by (simp add: word_le_nat_alt unat_drop_bit_7 div_le_mono)
    from 1(1) [OF False this] show ?thesis
      using False y by (subst (1 2) put_uvarint.simps) simp
  qed
qed

lemma length_padded: "length (cell_bytes w (c\<lparr>Padding := p\<rparr>)) = cellWireSize c (length p)"
  by (simp add: cell_bytes_def cellWireSize_def uvarintSize_def)

lemma cellWireSize_mono: "m \<le> n \<Longrightarrow> n < 2 ^ 64 \<Longrightarrow> cellWireSize c m \<le> cellWireSize c n"
  using put_uvarint_mono [of "of_nat m" "of_nat n"]
  by (simp add: cellWireSize_def uvarintSize_def word_le_nat_alt unat_of_nat_small)

lemma random_id:
  "\<exists>r. t = t\<lparr>ct_random := r\<rparr>" "\<exists>r. t\<lparr>ct_dummySequence := q\<rparr> = t\<lparr>ct_dummySequence := q, ct_random := r\<rparr>"
  by (rule exI [of _ "ct_random t"], simp)+

lemma addPadding_spec:
  assumes add: "addPadding H raw budget t = (Inr (padded, n), t')" and H: "hash32 H" and tm: "wf_TypeMap (ct_typeMap t)"
    and b: "0 \<le> budget"
  shows "length padded = length raw + n \<and> int n \<le> budget \<and> visible (ct_typeMap t) padded = visible (ct_typeMap t) raw
    \<and> (\<exists>r. t' = t\<lparr>ct_random := r\<rparr>)"
proof (cases "padded = raw \<and> n = 0 \<and> t' = t")
  case True
  with b random_id(1) [of t] show ?thesis by auto
next
  case False
  then obtain c where c: "DecodeCell (ct_typeMap t) raw = Inr c" and pos: "0 < budget"
    using add by (auto simp: addPadding_def split: if_splits sum.splits)
  define k where "k = length (Padding c)"
  define target where "target = min (length raw + nat budget) MaxCellSize"
  define m where "m = shrink c k target (min (k + nat budget) MaxCellPaddingSize)"
  obtain fresh r where fill: "paddingRandom_Fill H (m - k) (ct_random t) = (fresh, r)" by force
  from add False pos c fill have enc: "EncodeCell (ct_typeMap t) (c\<lparr>Padding := Padding c @ fresh\<rparr>) = Inr padded"
    and n: "n = length padded - length raw" and t': "t' = t\<lparr>ct_random := r\<rparr>" and mk: "m \<noteq> k"
    by (auto simp: addPadding_def Let_def k_def [symmetric] target_def [symmetric] m_def [symmetric] split: if_splits sum.splits)
  have valid: "validateCell c = None" using DecodeCell_valid [OF c] .
  then have "k \<le> MaxCellPaddingSize" by (simp add: validateCell_None k_def)
  then have m: "k \<le> m" "m \<le> MaxCellPaddingSize" "cellWireSize c m \<le> target"
    using shrink_bounds [of k "min (k + nat budget) MaxCellPaddingSize" c target] mk by (auto simp: m_def)
  have "length fresh = m - k" using length_Fill [OF H, of "m - k" "ct_random t"] fill by simp
  then have pl: "length (Padding c @ fresh) = m" using m(1) by (simp add: k_def)
  have lp: "length padded = cellWireSize c m"
    using enc length_padded [where c = c and p = "Padding c @ fresh"] pl by (auto simp: EncodeCell_eq_Inr)
  have "length raw = cellWireSize c k"
    using EncodeCell_DecodeCell [OF tm c] length_padded [where c = c and p = "Padding c"] by (auto simp: EncodeCell_eq_Inr k_def)
  moreover have "cellWireSize c k \<le> cellWireSize c m" using m by (intro cellWireSize_mono) simp_all
  ultimately have len: "length padded = length raw + n" using lp n by simp
  have "length padded \<le> length raw + nat budget" using lp m(3) by (simp add: target_def)
  then have "int n \<le> budget" using len pos by linarith
  moreover have "visible (ct_typeMap t) padded = visible (ct_typeMap t) raw"
    using DecodeCell_EncodeCell [OF tm enc] c by (simp add: visible_def)
  ultimately show ?thesis using len t' by auto
qed

lemma addPadding_error:
  "addPadding H raw budget t = (Inl e, t') \<Longrightarrow> \<exists>r. t' = t\<lparr>ct_random := r\<rparr>"
  by (auto simp: addPadding_def Let_def random_id split: if_splits sum.splits prod.splits)

lemma makeDummy_frame:
  "makeDummy H n t = (res, t') \<Longrightarrow> \<exists>r. t' = t\<lparr>ct_dummySequence := ct_dummySequence t + 1, ct_random := r\<rparr>"
  by (auto simp: makeDummy_def Let_def random_id split: if_splits sum.splits prod.splits)

lemma makeDummy_spec:
  assumes make: "makeDummy H n t = (Inr raw, t')" and H: "hash32 H" and tm: "wf_TypeMap (ct_typeMap t)" and n: "0 \<le> n"
  shows "int (length raw) \<le> n \<and> visible (ct_typeMap t) raw = None"
proof -
  define c where "c = \<lparr>Kind = CellDummy, StreamID = 0, Sequence = ct_dummySequence t, Payload = [], Padding = []\<rparr>"
  define m where "m = shrink c 0 (nat n) (min (nat n) MaxCellPaddingSize)"
  obtain p r where fill: "paddingRandom_Fill H m (ct_random t) = (p, r)" by force
  from make fill have enc: "EncodeCell (ct_typeMap t) (c\<lparr>Padding := p\<rparr>) = Inr raw" and m0: "m \<noteq> 0"
    by (auto simp: makeDummy_def Let_def c_def [symmetric] m_def [symmetric] split: if_splits sum.splits)
  have "length p = m" using length_Fill [OF H, of m "ct_random t"] fill by simp
  then have "length raw = cellWireSize c m"
    using enc length_padded [where c = c and p = p] by (auto simp: EncodeCell_eq_Inr)
  moreover have "cellWireSize c m \<le> nat n"
    using shrink_bounds [of 0 "min (nat n) MaxCellPaddingSize" c "nat n"] m0 by (auto simp: m_def)
  moreover have "visible (ct_typeMap t) raw = None"
    using DecodeCell_EncodeCell [OF tm enc] by (simp add: visible_def c_def)
  ultimately show ?thesis using n by linarith
qed

section \<open>The sections of the code\<close>

definition total_bytes :: "bytes list \<Rightarrow> nat" where
  "total_bytes rs = sum_list (map length rs)"

lemma total_bytes_simps [simp]: "total_bytes [] = 0" "total_bytes (xs @ ys) = total_bytes xs + total_bytes ys"
  "total_bytes [r] = length r"
  by (simp_all add: total_bytes_def)

lemma Send_begin_ok:
  assumes beg: "Send_begin H now raw t = Some (Inr p, t')" and H: "hash32 H" and tm: "wf_TypeMap (ct_typeMap t)"
    and ok: "engine_ok (ct_engine t)"
  shows "engine_ok (ct_engine t') \<and> en_maxOverheadPercent (ct_engine t') = en_maxOverheadPercent (ct_engine t)
    \<and> 100 * int (ps_padding p) + uint (en_creditUnits (ct_engine t'))
        \<le> uint (en_maxOverheadPercent (ct_engine t)) * int (length (ps_raw p)) + uint (en_creditUnits (ct_engine t))
    \<and> length (ps_padded p) = length (ps_raw p) + ps_padding p
    \<and> visible (ct_typeMap t) (ps_padded p) = visible (ct_typeMap t) (ps_raw p)
    \<and> (\<exists>r e. t' = t\<lparr>ct_engine := e, ct_random := r\<rparr>)"
proof -
  from beg obtain d e padded n where plan: "PlanReal H now (int (length raw)) (ct_engine t) = Some (Inr d, e)"
    and add: "addPadding H raw (rd_PaddingBytes d) (t\<lparr>ct_engine := e\<rparr>) = (Inr (padded, n), t')"
    and p: "p = \<lparr>ps_raw = raw, ps_padded = padded, ps_padding = n, ps_schedule = rd_ScheduleDummy d\<rparr>"
    by (auto simp: Send_begin_def split: option.splits prod.splits sum.splits)
  have s: "settles (ct_engine t) (int (length raw)) (rd_PaddingBytes d) 0 e" using PlanReal_settles [OF plan ok] by blast
  then have s': "engine_ok e" "en_maxOverheadPercent e = en_maxOverheadPercent (ct_engine t)" "0 \<le> rd_PaddingBytes d"
    "100 * rd_PaddingBytes d + uint (en_creditUnits e)
       \<le> uint (en_maxOverheadPercent (ct_engine t)) * int (length raw) + uint (en_creditUnits (ct_engine t))"
    by (simp_all add: settles_def)
  from addPadding_spec [OF add H _ s'(3)] tm obtain r where "length padded = length raw + n" "int n \<le> rd_PaddingBytes d"
    "visible (ct_typeMap t) padded = visible (ct_typeMap t) raw" "t' = t\<lparr>ct_engine := e, ct_random := r\<rparr>" by auto
  with s' p show ?thesis by auto
qed

lemma Send_begin_error:
  assumes "Send_begin H now raw t = Some (Inl e, t')" and "engine_ok (ct_engine t)"
  shows "engine_ok (ct_engine t') \<and> en_maxOverheadPercent (ct_engine t') = en_maxOverheadPercent (ct_engine t)
    \<and> (\<exists>r e. t' = t\<lparr>ct_engine := e, ct_random := r, ct_done := True\<rparr>)"
proof -
  have "(\<exists>e1. PlanReal H now (int (length raw)) (ct_engine t) = Some (Inl e, e1)
           \<and> t' = t\<lparr>ct_engine := e1, ct_random := ct_random t, ct_done := True\<rparr>)
      \<or> (\<exists>d e1 t1. PlanReal H now (int (length raw)) (ct_engine t) = Some (Inr d, e1)
           \<and> addPadding H raw (rd_PaddingBytes d) (t\<lparr>ct_engine := e1\<rparr>) = (Inl e, t1) \<and> t' = t1\<lparr>ct_done := True\<rparr>)"
    using assms(1) by (auto simp: Send_begin_def transport_stop_def split: option.splits prod.splits sum.splits)
  then show ?thesis
  proof (elim disjE exE conjE)
    fix e1
    assume "PlanReal H now (int (length raw)) (ct_engine t) = Some (Inl e, e1)"
      and t': "t' = t\<lparr>ct_engine := e1, ct_random := ct_random t, ct_done := True\<rparr>"
    then have "e1 = ct_engine t" by (auto dest: PlanReal_error)
    with t' assms(2) show ?thesis by (intro conjI exI [of _ "ct_random t"] exI [of _ "ct_engine t"]) simp_all
  next
    fix d e1 t1
    assume plan: "PlanReal H now (int (length raw)) (ct_engine t) = Some (Inr d, e1)"
      and add: "addPadding H raw (rd_PaddingBytes d) (t\<lparr>ct_engine := e1\<rparr>) = (Inl e, t1)" and t': "t' = t1\<lparr>ct_done := True\<rparr>"
    have "engine_ok e1 \<and> en_maxOverheadPercent e1 = en_maxOverheadPercent (ct_engine t)"
      using PlanReal_settles [OF plan assms(2)] by (simp add: settles_def)
    with addPadding_error [OF add] t' show ?thesis by auto
  qed
qed

lemma Send_finish_ok:
  assumes "Send_finish w outcome p t = (None, t')"
  shows "\<not> ct_done t \<and> t' = t\<lparr>ct_realMessages := ct_realMessages t + 1,
      ct_realWireBytes := ct_realWireBytes t + of_nat (length (ps_raw p)),
      ct_paddingBytes := ct_paddingBytes t + of_nat (ps_padding p),
      ct_dummies := (if ps_schedule p \<and> ct_dummies t < dummyRequestQueue then ct_dummies t + 1 else ct_dummies t)\<rparr>"
  using assms by (auto simp: Send_finish_def sendRaw_def split: option.splits if_splits)

lemma Send_finish_error: "Send_finish w outcome p t = (Some e, t') \<Longrightarrow> t' = t\<lparr>ct_done := True\<rparr>"
  by (auto simp: Send_finish_def transport_stop_def split: option.splits)

lemma dummies_id: "\<exists>n. t = t\<lparr>ct_dummies := n\<rparr>"
  by (rule exI [of _ "ct_dummies t"]) simp

lemma dummy_request_frame:
  "dummy_request t = (l, t') \<Longrightarrow> (l = DummyIdle \<or> l = DummyRequested) \<and> (\<exists>n. t' = t\<lparr>ct_dummies := n\<rparr>)"
  by (auto simp: dummy_request_def Let_def dummies_id split: if_splits)

lemma dummy_plan_spec:
  assumes "dummy_plan H now t = Some (l, t')" and "engine_ok (ct_engine t)"
  shows "(l = DummyStopped \<and> ct_done t \<and> t' = t)
     \<or> (\<exists>n e. (l = DummyIdle \<and> n = 0 \<or> l = DummyPlanned n) \<and> 0 \<le> n \<and> t' = t\<lparr>ct_engine := e\<rparr> \<and> engine_ok e
          \<and> en_maxOverheadPercent e = en_maxOverheadPercent (ct_engine t)
          \<and> 100 * n + uint (en_creditUnits e) \<le> uint (en_creditUnits (ct_engine t))
          \<and> 100 * n \<le> uint (en_creditUnits (ct_engine t)))"
proof -
  have "(l = DummyStopped \<and> ct_done t \<and> t' = t)
     \<or> (\<exists>d e. PlanDummy H now (ct_engine t) = Some (d, e) \<and> t' = t\<lparr>ct_engine := e\<rparr>
          \<and> l = (if dd_Scheduled d then DummyPlanned (dd_Bytes d) else DummyIdle))"
    using assms(1) by (auto simp: dummy_plan_def split: if_splits option.splits)
  then show ?thesis
  proof (elim disjE exE conjE)
    fix d e
    assume plan: "PlanDummy H now (ct_engine t) = Some (d, e)" and t': "t' = t\<lparr>ct_engine := e\<rparr>"
      and l: "l = (if dd_Scheduled d then DummyPlanned (dd_Bytes d) else DummyIdle)"
    have s: "settles (ct_engine t) 0 0 (dd_Bytes d) e" using PlanDummy_settles [OF plan assms(2)] by blast
    then have "0 \<le> dd_Bytes d" "engine_ok e" "en_maxOverheadPercent e = en_maxOverheadPercent (ct_engine t)"
      "100 * dd_Bytes d + uint (en_creditUnits e) \<le> uint (en_creditUnits (ct_engine t))" by (simp_all add: settles_def)
    moreover from this have "100 * dd_Bytes d \<le> uint (en_creditUnits (ct_engine t))"
      using uint64_bounds(1) [of "en_creditUnits e"] by linarith
    ultimately show ?thesis
      using t' l by (intro disjI2 exI [of _ "if dd_Scheduled d then dd_Bytes d else 0"] exI [of _ e]) auto
  qed simp
qed

lemma dummy_make_spec:
  assumes "dummy_make H n t = (l, t')" and "hash32 H" and "wf_TypeMap (ct_typeMap t)" and "0 \<le> n"
  shows "(\<exists>r q. t' = t\<lparr>ct_dummySequence := q, ct_random := r\<rparr>)
     \<and> (l = DummyIdle \<or> (\<exists>raw. l = DummyReady raw \<and> int (length raw) \<le> n \<and> visible (ct_typeMap t) raw = None))"
proof -
  obtain res t1 where make: "makeDummy H n t = (res, t1)" by force
  have "\<exists>r q. t1 = t\<lparr>ct_dummySequence := q, ct_random := r\<rparr>" using makeDummy_frame [OF make] by blast
  then show ?thesis
    using assms make makeDummy_spec [of H n t _ t1] by (cases res) (auto simp: dummy_make_def)
qed

lemma dummy_finish_sent:
  "dummy_finish w outcome raw t = (True, l, t') \<Longrightarrow> l = DummyIdle \<and> \<not> ct_done t
     \<and> t' = t\<lparr>ct_dummyMessages := ct_dummyMessages t + 1, ct_dummyWireBytes := ct_dummyWireBytes t + of_nat (length raw)\<rparr>"
  by (auto simp: dummy_finish_def sendRaw_def split: if_splits option.splits)

lemma dummy_finish_dropped:
  "dummy_finish w outcome raw t = (False, l, t') \<Longrightarrow> (l = DummyIdle \<or> l = DummyStopped) \<and> t' = t"
  by (auto simp: dummy_finish_def split: if_splits option.splits)

section \<open>The invariant\<close>

definition pending_real :: "cover_system \<Rightarrow> int" where
  "pending_real s = (case sy_sending s of None \<Rightarrow> 0 | Some p \<Rightarrow> int (length (ps_raw p)))"

definition pending_padded :: "cover_system \<Rightarrow> int" where
  "pending_padded s = (case sy_sending s of None \<Rightarrow> 0 | Some p \<Rightarrow> int (length (ps_padded p)))"

definition pending_dummy :: "cover_system \<Rightarrow> int" where
  "pending_dummy s = (case sy_loop s of DummyPlanned n \<Rightarrow> n | DummyReady raw \<Rightarrow> int (length raw) | _ \<Rightarrow> 0)"

text \<open>The cells: what is on its way is what was asked for, and a dummy is not a message.\<close>

definition cells_ok :: "TypeMap \<Rightarrow> cover_system \<Rightarrow> bool" where
  "cells_ok tm s \<longleftrightarrow>
     ct_typeMap (sy_transport s) = tm
     \<and> (\<forall>p. sy_sending s = Some p \<longrightarrow> length (ps_padded p) = length (ps_raw p) + ps_padding p \<and> visible tm (ps_padded p) = visible tm (ps_raw p))
     \<and> (\<forall>raw. sy_loop s = DummyReady raw \<longrightarrow> visible tm raw = None)
     \<and> (\<forall>n. sy_loop s = DummyPlanned n \<longrightarrow> 0 \<le> n)
     \<and> List.map_filter (visible tm) (sy_wire s) = List.map_filter (visible tm) (sy_sent s)"

lemma stats_fields:
  "ts_RealMessages (transport_Stats t) = ct_realMessages t" "ts_DummyMessages (transport_Stats t) = ct_dummyMessages t"
  "ts_RealWireBytes (transport_Stats t) = ct_realWireBytes t" "ts_PaddingBytes (transport_Stats t) = ct_paddingBytes t"
  "ts_DummyWireBytes (transport_Stats t) = ct_dummyWireBytes t"
  by (simp_all add: transport_Stats_def split: prod.split)

definition counts_ok :: "cover_system \<Rightarrow> bool" where
  "counts_ok s \<longleftrightarrow>
     (let st = transport_Stats (sy_transport s) in
      ts_RealMessages st = of_nat (length (sy_sent s)) \<and> ts_RealWireBytes st = of_nat (total_bytes (sy_sent s))
      \<and> ts_RealMessages st + ts_DummyMessages st = of_nat (length (sy_wire s))
      \<and> ts_RealWireBytes st + ts_PaddingBytes st + ts_DummyWireBytes st = of_nat (total_bytes (sy_wire s)))"

text \<open>
  The bytes. A dummy is only planned while no \<open>Send\<close> holds \<open>planMu\<close>, so its bytes are paid by messages
  that were sent; the padding of the message in progress is paid by that message and the rest of the credit.
\<close>

definition bytes_ok :: "int \<Rightarrow> cover_system \<Rightarrow> bool" where
  "bytes_ok pct s \<longleftrightarrow>
     engine_ok (ct_engine (sy_transport s)) \<and> uint (en_maxOverheadPercent (ct_engine (sy_transport s))) = pct
     \<and> 100 * int (total_bytes (sy_wire s)) \<le> (100 + pct) * int (total_bytes (sy_sent s))
     \<and> (\<not> ct_done (sy_transport s) \<longrightarrow>
          100 * (int (total_bytes (sy_wire s)) + pending_dummy s) \<le> (100 + pct) * int (total_bytes (sy_sent s))
          \<and> 100 * (int (total_bytes (sy_wire s)) + pending_dummy s + pending_padded s)
              + uint (en_creditUnits (ct_engine (sy_transport s)))
            \<le> (100 + pct) * (int (total_bytes (sy_sent s)) + pending_real s))"

lemma map_filter_snoc [simp]:
  "List.map_filter f (xs @ [x]) = List.map_filter f xs @ (case f x of None \<Rightarrow> [] | Some y \<Rightarrow> [y])"
  by (simp add: List.map_filter_def split: option.splits)

lemmas pending_defs = pending_real_def pending_padded_def pending_dummy_def

lemma EnableMosaic_transport:
  assumes "transport_EnableMosaic t = (b, t')" and "engine_ok (ct_engine t)"
  shows "\<exists>e. t' = t\<lparr>ct_engine := e\<rparr> \<and> engine_ok e \<and> ledger e = ledger (ct_engine t)"
  using assms EnableMosaic_ok [OF assms(2)]
  by (intro exI [of _ "snd (EnableMosaic (ct_engine t))"]) (auto simp: transport_EnableMosaic_def case_prod_beta)

lemma cover_step_cells:
  assumes "cover_step H s s'" and inv: "cells_ok tm s" and ok: "engine_ok (ct_engine (sy_transport s))"
    and H: "hash32 H" and tm: "wf_TypeMap tm"
  shows "cells_ok tm s'"
  using assms(1)
proof cases
  case (begin_ok now raw p t)
  then show ?thesis using Send_begin_ok [OF begin_ok(3) H _ ok] inv tm by (auto simp: cells_ok_def)
next
  case (begin_error now raw e t)
  then show ?thesis using Send_begin_error [OF begin_error(3) ok] inv by (auto simp: cells_ok_def)
next
  case (finish_ok p w outcome t)
  then show ?thesis using Send_finish_ok [OF finish_ok(3)] inv by (auto simp: cells_ok_def)
next
  case (finish_error p w outcome e t)
  then show ?thesis using Send_finish_error [OF finish_error(3)] inv by (auto simp: cells_ok_def)
next
  case (request l t)
  then show ?thesis using dummy_request_frame [OF request(3)] inv by (auto simp: cells_ok_def)
next
  case (plan now l t)
  then show ?thesis using dummy_plan_spec [OF plan(4) ok] inv by (auto simp: cells_ok_def)
next
  case (make n l t)
  then show ?thesis using dummy_make_spec [OF make(3) H] inv tm by (auto simp: cells_ok_def)
next
  case (dummy_sent raw w outcome l t)
  then show ?thesis using dummy_finish_sent [OF dummy_sent(3)] inv by (auto simp: cells_ok_def)
next
  case (dummy_dropped raw w outcome l t)
  then show ?thesis using dummy_finish_dropped [OF dummy_dropped(3)] inv by (auto simp: cells_ok_def)
next
  case (mosaic b t)
  then show ?thesis using EnableMosaic_transport [OF mosaic(2) ok] inv by (auto simp: cells_ok_def)
qed (use inv in \<open>auto simp: cells_ok_def transport_stop_def PauseDummies_def ResumeDummies_def\<close>)

lemma counts_okD:
  assumes "counts_ok s"
  shows "of_nat (length (sy_sent s)) = ct_realMessages (sy_transport s)"
    and "of_nat (total_bytes (sy_sent s)) = ct_realWireBytes (sy_transport s)"
    and "of_nat (length (sy_wire s)) = ct_realMessages (sy_transport s) + ct_dummyMessages (sy_transport s)"
    and "of_nat (total_bytes (sy_wire s))
       = ct_realWireBytes (sy_transport s) + ct_paddingBytes (sy_transport s) + ct_dummyWireBytes (sy_transport s)"
  using assms by (auto simp: counts_ok_def stats_fields Let_def)

lemma cover_step_counts:
  assumes "cover_step H s s'" and inv: "counts_ok s" and cells: "cells_ok tm s" and ok: "engine_ok (ct_engine (sy_transport s))"
    and H: "hash32 H" and tm: "wf_TypeMap tm"
  shows "counts_ok s'"
  using assms(1)
proof cases
  case (begin_ok now raw p t)
  then show ?thesis using Send_begin_ok [OF begin_ok(3) H _ ok] cells inv tm
    by (auto simp: cells_ok_def counts_ok_def stats_fields Let_def)
next
  case (begin_error now raw e t)
  then show ?thesis using Send_begin_error [OF begin_error(3) ok] inv by (auto simp: counts_ok_def stats_fields Let_def)
next
  case (finish_ok p w outcome t)
  then have "length (ps_padded p) = length (ps_raw p) + ps_padding p" using cells by (simp add: cells_ok_def)
  with finish_ok Send_finish_ok [OF finish_ok(3)] show ?thesis
    by (simp add: counts_ok_def stats_fields Let_def counts_okD [OF inv])
next
  case (finish_error p w outcome e t)
  with Send_finish_error [OF finish_error(3)] show ?thesis
    by (simp add: counts_ok_def stats_fields Let_def counts_okD [OF inv])
next
  case (request l t)
  then show ?thesis using dummy_request_frame [OF request(3)] inv by (auto simp: counts_ok_def stats_fields Let_def)
next
  case (plan now l t)
  then show ?thesis using dummy_plan_spec [OF plan(4) ok] inv by (auto simp: counts_ok_def stats_fields Let_def)
next
  case (make n l t)
  then show ?thesis using dummy_make_spec [OF make(3) H] inv cells tm
    by (auto simp: cells_ok_def counts_ok_def stats_fields Let_def)
next
  case (dummy_sent raw w outcome l t)
  with dummy_finish_sent [OF dummy_sent(3)] show ?thesis
    by (simp add: counts_ok_def stats_fields Let_def counts_okD [OF inv])
next
  case (dummy_dropped raw w outcome l t)
  then show ?thesis using dummy_finish_dropped [OF dummy_dropped(3)] inv by (simp add: counts_ok_def)
next
  case (mosaic b t)
  then show ?thesis using EnableMosaic_transport [OF mosaic(2) ok] inv by (auto simp: counts_ok_def stats_fields Let_def)
qed (use inv in \<open>auto simp: counts_ok_def stats_fields Let_def transport_stop_def PauseDummies_def ResumeDummies_def\<close>)

lemma pending_dummy_nonneg: "cells_ok tm s \<Longrightarrow> 0 \<le> pending_dummy s"
  by (simp add: cells_ok_def pending_dummy_def split: dummyLoop.splits)

lemma cover_step_bytes:
  assumes "cover_step H s s'" and inv: "bytes_ok pct s" and cells: "cells_ok tm s" and H: "hash32 H" and tm: "wf_TypeMap tm"
  shows "bytes_ok pct s'"
  using assms(1)
proof cases
  case (begin_ok now raw p t)
  have "engine_ok (ct_engine (sy_transport s))" using inv by (simp add: bytes_ok_def)
  note b = Send_begin_ok [OF begin_ok(3) H _ this]
  with begin_ok inv cells tm show ?thesis
    by (auto simp: bytes_ok_def cells_ok_def pending_defs distrib_right distrib_left)
next
  case (begin_error now raw e t)
  have "engine_ok (ct_engine (sy_transport s))" using inv by (simp add: bytes_ok_def)
  with Send_begin_error [OF begin_error(3) this] begin_error inv show ?thesis by (auto simp: bytes_ok_def)
next
  case (finish_ok p w outcome t)
  note f = Send_finish_ok [OF finish_ok(3)]
  have d: "pending_dummy s' = pending_dummy s" "pending_padded s' = 0" "pending_real s' = 0"
    using finish_ok(1) by (simp_all add: pending_defs)
  have b: "100 * (int (total_bytes (sy_wire s')) + pending_dummy s) + uint (en_creditUnits (ct_engine (sy_transport s)))
      \<le> (100 + pct) * int (total_bytes (sy_sent s'))"
    using inv f finish_ok(1,2) by (simp add: bytes_ok_def pending_padded_def pending_real_def add.commute)
  then have "100 * (int (total_bytes (sy_wire s')) + pending_dummy s) \<le> (100 + pct) * int (total_bytes (sy_sent s'))"
    using uint64_bounds(1) [of "en_creditUnits (ct_engine (sy_transport s))"] by linarith
  moreover from this have "100 * int (total_bytes (sy_wire s')) \<le> (100 + pct) * int (total_bytes (sy_sent s'))"
    using pending_dummy_nonneg [OF cells] by (elim order_trans [rotated]) simp
  moreover have "ct_engine (sy_transport s') = ct_engine (sy_transport s)" using f finish_ok(1) by simp
  ultimately show ?thesis using inv d b unfolding bytes_ok_def by simp
next
  case (finish_error p w outcome e t)
  then show ?thesis using Send_finish_error [OF finish_error(3)] inv by (auto simp: bytes_ok_def)
next
  case (request l t)
  then show ?thesis using dummy_request_frame [OF request(3)] inv by (auto simp: bytes_ok_def pending_defs)
next
  case (plan now l t)
  have "engine_ok (ct_engine (sy_transport s))" using inv by (simp add: bytes_ok_def)
  with dummy_plan_spec [OF plan(4) this] plan inv show ?thesis
    by (auto simp: bytes_ok_def pending_defs)
next
  case (make n l t)
  then show ?thesis using dummy_make_spec [OF make(3) H] inv cells tm
    by (auto simp: bytes_ok_def cells_ok_def pending_defs)
next
  case (dummy_sent raw w outcome l t)
  then show ?thesis using dummy_finish_sent [OF dummy_sent(3)] inv by (auto simp: bytes_ok_def pending_defs)
next
  case (dummy_dropped raw w outcome l t)
  then show ?thesis using dummy_finish_dropped [OF dummy_dropped(3)] inv by (auto simp: bytes_ok_def pending_defs)
next
  case (mosaic b t)
  have "engine_ok (ct_engine (sy_transport s))" using inv by (simp add: bytes_ok_def)
  with EnableMosaic_transport [OF mosaic(2) this] mosaic inv show ?thesis
    by (auto simp: bytes_ok_def pending_defs ledger_def)
qed (use inv in \<open>auto simp: bytes_ok_def pending_defs transport_stop_def PauseDummies_def ResumeDummies_def\<close>)

section \<open>Properties\<close>

lemma cover_reach_inv:
  assumes "cover_reach H s s'" and "hash32 H" "wf_TypeMap tm" and "cells_ok tm s" "counts_ok s" "bytes_ok pct s"
  shows "cells_ok tm s' \<and> counts_ok s' \<and> bytes_ok pct s'"
  using assms
proof (induction rule: cover_reach.induct)
  case (trans s s' s'')
  then have "cells_ok tm s'" "counts_ok s'" "bytes_ok pct s'" by simp_all
  moreover from this have "engine_ok (ct_engine (sy_transport s'))" by (simp add: bytes_ok_def)
  ultimately show ?case
    using cover_step_cells [OF trans.hyps(2)] cover_step_counts [OF trans.hyps(2)] cover_step_bytes [OF trans.hyps(2)]
      trans.prems(1,2) by blast
qed simp

lemma fresh_system_inv:
  assumes "NewEngine H config = Inr e" and "NewTransport tm e seed = Inr t"
  shows "cells_ok tm (fresh_system t) \<and> counts_ok (fresh_system t) \<and> bytes_ok (uint (cc_MaxOverheadPercent config)) (fresh_system t)"
proof -
  have t: "ct_typeMap t = tm" "ct_engine t = e" "ts_RealMessages (transport_Stats t) = 0"
    "ts_DummyMessages (transport_Stats t) = 0" "ts_RealWireBytes (transport_Stats t) = 0" "ts_PaddingBytes (transport_Stats t) = 0"
    "ts_DummyWireBytes (transport_Stats t) = 0"
    using assms(2) by (auto simp: NewTransport_def stats_fields split: if_splits sum.splits)
  have e: "engine_ok e" "en_creditUnits e = 0" "uint (en_maxOverheadPercent e) = uint (cc_MaxOverheadPercent config)"
    using NewEngine_ok [OF assms(1)] by (simp_all add: uint_up_ucast is_up)
  show ?thesis
    using t e by (simp add: fresh_system_def cells_ok_def counts_ok_def bytes_ok_def pending_defs List.map_filter_def)
qed

text \<open>
  C15 (safety). The cover transport is transparent and pays for what it adds. In every interleaving of
  \<open>Send\<close> with the dummy loop, \<open>Close\<close>, pausing and \<open>EnableMosaic\<close>, whatever the waits and the inner carrier
  do: the cells the peer reads from the wire, dummies dropped and padding removed, are the cells of the
  messages whose \<open>Send\<close> succeeded, in order; all bytes on the wire are at most \<open>100 + MaxOverheadPercent\<close>
  percent of the bytes of these messages, at every moment; and the statistics count exactly the messages
  and bytes on the wire, modulo 2^64.
\<close>

theorem cover_transparent:
  assumes "hash32 H" and "NewTypeMap G tseed = Some (Inr tm)" and "NewEngine H config = Inr e"
    and "NewTransport tm e seed = Inr t" and "cover_reach H (fresh_system t) s"
  shows "List.map_filter (visible tm) (sy_wire s) = List.map_filter (visible tm) (sy_sent s)
    \<and> 100 * int (total_bytes (sy_wire s)) \<le> (100 + uint (cc_MaxOverheadPercent config)) * int (total_bytes (sy_sent s))
    \<and> counts_ok s"
proof -
  note init = fresh_system_inv [OF assms(3,4)]
  have "cells_ok tm s \<and> counts_ok s \<and> bytes_ok (uint (cc_MaxOverheadPercent config)) s"
    using cover_reach_inv [OF assms(5,1) NewTypeMap_wf [OF assms(2)]] init by blast
  then show ?thesis by (simp add: cells_ok_def bytes_ok_def)
qed

lemma addPadding_total:
  assumes c: "DecodeCell (ct_typeMap t) raw = Inr c" and H: "hash32 H" and tm: "wf_TypeMap (ct_typeMap t)"
  shows "\<exists>padded n t'. addPadding H raw budget t = (Inr (padded, n), t')"
proof -
  define k where "k = length (Padding c)"
  define target where "target = min (length raw + nat budget) MaxCellSize"
  define m where "m = shrink c k target (min (k + nat budget) MaxCellPaddingSize)"
  obtain fresh r where fill: "paddingRandom_Fill H (m - k) (ct_random t) = (fresh, r)" by force
  have valid: "validateCell c = None" using DecodeCell_valid [OF c] .
  then have "k \<le> MaxCellPaddingSize" by (simp add: validateCell_None k_def)
  then have "k \<le> m" "m \<le> MaxCellPaddingSize"
    using shrink_bounds [of k "min (k + nat budget) MaxCellPaddingSize" c target] by (auto simp: m_def)
  moreover have "length fresh = m - k" using length_Fill [OF H, of "m - k" "ct_random t"] fill by simp
  ultimately have "validateCell (c\<lparr>Padding := Padding c @ fresh\<rparr>) = None"
    using valid by (simp add: validateCell_None k_def)
  from EncodeCell_total [OF tm this] c fill show ?thesis
    by (simp add: addPadding_def Let_def k_def [symmetric] target_def [symmetric] m_def [symmetric])
qed

lemma Send_begin_total:
  assumes c: "DecodeCell (ct_typeMap t) raw = Inr c" and H: "hash32 H" and tm: "wf_TypeMap (ct_typeMap t)"
    and live: "engine_live H (ct_engine t)" and ok: "engine_ok (ct_engine t)"
  shows "\<exists>p t'. Send_begin H now raw t = Some (Inr p, t') \<and> ps_raw p = raw"
proof -
  obtain res e where plan: "PlanReal H now (int (length raw)) (ct_engine t) = Some (res, e)"
    using PlanReal_returns [OF live ok] by blast
  have "raw \<noteq> []" "length raw \<le> MaxCellSize" using c by (auto simp: DecodeCell_def split: if_splits)
  then obtain d where d: "res = Inr d"
    using plan by (auto simp: PlanReal_def Let_def split: if_splits bind_splits)
  obtain padded n t' where "addPadding H raw (rd_PaddingBytes d) (t\<lparr>ct_engine := e\<rparr>) = (Inr (padded, n), t')"
    using addPadding_total [of "t\<lparr>ct_engine := e\<rparr>" raw c H "rd_PaddingBytes d"] c H tm by auto
  with plan d show ?thesis by (simp add: Send_begin_def)
qed

theorem cover_transparent_witness:
  "\<exists>tm e t s. NewTypeMap (\<lambda>_. zero_bytes 32) (replicate 32 1) = Some (Inr tm) \<and> NewEngine zero_hash sample_config = Inr e
     \<and> NewTransport tm e (replicate 32 1) = Inr t \<and> cover_reach zero_hash (fresh_system t) s
     \<and> length (sy_sent s) = 1 \<and> length (sy_wire s) = 1
     \<and> List.map_filter (visible tm) (sy_wire s) = [\<lparr>Kind = CellData, StreamID = 1, Sequence = 1, Payload = [7], Padding = []\<rparr>]"
proof -
  let ?c = "\<lparr>Kind = CellData, StreamID = 1, Sequence = 1, Payload = [7], Padding = []\<rparr>"
  obtain tm where tm: "NewTypeMap (\<lambda>_. zero_bytes 32) (replicate 32 1) = Some (Inr tm)" using sample_type_map by blast
  note wf = NewTypeMap_wf [OF tm]
  obtain e where e: "NewEngine zero_hash sample_config = Inr e" by (rule sample_run_exists)
  have H: "hash32 zero_hash" by (simp add: hash32_def zero_hash_def)
  have ok: "engine_ok e" "engine_live zero_hash e"
    using NewEngine_ok [OF e] zero_hash_draws_end by (simp_all add: engine_live_def live_def newCoverRandom_def)
  have "kind_valid CellDummy" by (simp add: kind_valid_def)
  then obtain t where t: "NewTransport tm e (replicate 32 1) = Inr t"
    using EncodeKind_wf [OF wf, of CellDummy] by (auto simp: NewTransport_def)
  then have tf: "ct_typeMap t = tm" "ct_engine t = e" "\<not> ct_done t"
    by (auto simp: NewTransport_def split: if_splits sum.splits)
  have "validateCell ?c = None" by (simp add: validateCell_None kind_valid_def controlOnly_def)
  then obtain raw where raw: "EncodeCell tm ?c = Inr raw" using EncodeCell_total [OF wf] by blast
  then have dec: "DecodeCell tm raw = Inr ?c" by (rule DecodeCell_EncodeCell [OF wf])
  obtain p t1 where p: "Send_begin zero_hash 0 raw t = Some (Inr p, t1)" "ps_raw p = raw"
    using Send_begin_total [of t raw ?c zero_hash] dec H wf ok tf by blast
  have d1: "\<not> ct_done t1" using Send_begin_ok [OF p(1) H] wf ok tf by auto
  obtain t2 where f: "Send_finish TimeReached None p t1 = (None, t2)" using d1 by (simp add: Send_finish_def sendRaw_def)
  let ?s1 = "(fresh_system t)\<lparr>sy_transport := t1, sy_sending := Some p\<rparr>"
  let ?s2 = "?s1\<lparr>sy_transport := t2, sy_sending := None, sy_wire := sy_wire ?s1 @ [ps_padded p], sy_sent := sy_sent ?s1 @ [ps_raw p]\<rparr>"
  have s1: "cover_step zero_hash (fresh_system t) ?s1"
    using p by (intro cover_step.begin_ok [of _ _ 0 raw]) (simp_all add: fresh_system_def)
  have "cover_step zero_hash ?s1 ?s2" using f by (intro cover_step.finish_ok [of _ _ TimeReached None]) simp_all
  from cover_reach.trans [OF cover_reach.trans [OF cover_reach.refl s1] this]
  have r: "cover_reach zero_hash (fresh_system t) ?s2" .
  from cover_transparent [OF H tm e t r] p(2) dec
  have "List.map_filter (visible tm) (sy_wire ?s2) = [?c]"
    by (simp add: fresh_system_def List.map_filter_def visible_def)
  with tm e t r show ?thesis by (intro exI [of _ tm] exI [of _ e] exI [of _ t] exI [of _ ?s2]) (simp add: fresh_system_def)
qed

end
