(* ===== verification/NP_Session.thy ===== *)
theory NP_Session
  imports NP_Auth NP_Record NP_Datagram NP_Negotiation NP_Cover_Transport
begin

text \<open>
  The set-up of an authenticated session (\<open>internal/session/authenticated.go\<close>,
  \<open>authenticated_extensions.go\<close>): the handshake on a carrier, the layers built from the session keys
  (type map, encrypted carrier, cover transport, multiplexer, datagrams), the extension negotiation and
  the forward-secret key exchange. Each function is split where it waits for the peer; what the carrier
  delivered, the random sources, the clock and the outcomes of sends are arguments, X25519 and the AEAD are
  parameters. Proved: the two sides of an honest set-up end with matching layers, and the forward-secret
  exchange switches both sides to the same new keys without losing the channel.
\<close>

section \<open>Configuration\<close>

record ServerCredential =
  sc_ID :: bytes
  sc_RootSecret :: bytes

record AuthenticatedConfig =
  ac_RootSecret :: bytes
  ac_Credentials :: "ServerCredential list"
  ac_ServerIdentity :: bytes
  ac_Features :: FeatureSet
  ac_InitialWindow :: u64
  ac_MaxStreams :: int
  ac_MaxCoverOverheadPercent :: byte
  ac_MaxCoverBudgetBytes :: int
  ac_DisableCover :: bool
  ac_ExtensionOffer :: "ExtensionParameters option"
  ac_ExtensionRequest :: "ExtensionParameters option"
  ac_RequiredExtensions :: u64
  ac_ExtensionTimeout :: int
  ac_EnableForwardSecrecy :: bool
  ac_DeviceID :: DeviceID
  ac_forwardSecret :: "X25519KeyPair option"

text \<open>What the set-up asks of a connection: its kind, the limit of a datagram carrier, its addresses.\<close>

record connection =
  cn_Kind :: CarrierKind
  cn_DatagramLimit :: "int option"
  cn_RemoteAddresses :: "bytes list"

text \<open>
  \<open>SetupConfig\<close> is \<open>ErrInvalidConfig\<close> returned as it is, \<open>SetupClosed\<close> an error of
  \<open>closeAuthentication\<close> (the connection or the encrypted carrier was closed) with its stage, \<open>SetupStage\<close>
  an error of a later stage.
\<close>

datatype setup_error = SetupConfig | SetupClosed string | SetupStage string | SetupExtension session_error

record extensionNegotiationState =
  ex_done :: bool
  ex_parameters :: ExtensionParameters
  ex_negotiated :: bool
  ex_err :: "session_error option"

record Authenticated =
  au_Mux :: Mux
  au_Keys :: SessionKeys
  au_Features :: FeatureSet
  au_Carrier :: CarrierKind
  au_Cover :: "Transport option"
  au_Datagrams :: "DatagramMux option"
  au_CarrierRemoteAddresses :: "bytes list"
  au_CredentialID :: bytes
  au_DeviceID :: DeviceID
  au_extensions :: extensionNegotiationState
  au_encrypted :: encryptedCarrier

definition newExtensionNegotiationState :: extensionNegotiationState where
  "newExtensionNegotiationState = \<lparr>ex_done = False, ex_parameters = zero_parameters, ex_negotiated = False, ex_err = None\<rparr>"

definition complete ::
  "ExtensionParameters \<Rightarrow> bool \<Rightarrow> session_error option \<Rightarrow> extensionNegotiationState \<Rightarrow> extensionNegotiationState" where
  "complete parameters negotiated err s =
     (if ex_done s then s
      else \<lparr>ex_done = True, ex_parameters = parameters, ex_negotiated = negotiated, ex_err = err\<rparr>)"

definition Extensions :: "Authenticated option \<Rightarrow> ExtensionParameters \<times> bool" where
  "Extensions a =
     (case a of
        None \<Rightarrow> (zero_parameters, False)
      | Some a \<Rightarrow> if ex_done (au_extensions a) then (ex_parameters (au_extensions a), ex_negotiated (au_extensions a))
                  else (zero_parameters, False))"

text \<open>\<open>WaitExtensions\<close>: the argument says whether its context ends first; \<open>None\<close> is a wait that goes on.\<close>

definition WaitExtensions ::
  "bool \<Rightarrow> Authenticated \<Rightarrow> (ExtensionParameters \<times> bool \<times> session_error option) option" where
  "WaitExtensions contextDone a =
     (if contextDone then Some (zero_parameters, False, Some ErrCanceled)
      else if ex_done (au_extensions a)
      then Some (ex_parameters (au_extensions a), ex_negotiated (au_extensions a), ex_err (au_extensions a))
      else None)"

definition prepareForwardSecrecy ::
  "(bytes \<Rightarrow> bytes) \<Rightarrow> bytes option \<Rightarrow> AuthenticatedConfig \<Rightarrow> Role \<Rightarrow> session_error + AuthenticatedConfig" where
  "prepareForwardSecrecy pub generated config role =
     (if role \<noteq> RoleClient \<and> role \<noteq> RoleServer then Inl ErrSessionConfig
      else
        let parameters = (if role = RoleClient then ac_ExtensionRequest config else ac_ExtensionOffer config) in
        if \<not> ac_EnableForwardSecrecy config
        then (case parameters of
                Some p \<Rightarrow> if Capabilities p AND CapabilityForwardSecrecy \<noteq> 0 then Inl ErrSessionConfig else Inr config
              | None \<Rightarrow> Inr config)
        else case parameters of
               None \<Rightarrow> Inl ErrSessionConfig
             | Some p \<Rightarrow>
                 (case GenerateX25519KeyPair pub False generated of
                    Inl _ \<Rightarrow> Inl ErrSessionConfig
                  | Inr pair \<Rightarrow>
                      let p' = p\<lparr>Capabilities := Capabilities p OR CapabilityForwardSecrecy,
                                 ForwardSecretKeyShare := KeyPair_Public (Some pair)\<rparr>;
                          config1 = (if role = RoleClient then config\<lparr>ac_ExtensionRequest := Some p'\<rparr>
                                     else config\<lparr>ac_ExtensionOffer := Some p'\<rparr>);
                          config2 = config1\<lparr>ac_forwardSecret := Some pair\<rparr>
                      in Inr (if role = RoleClient
                              then config2\<lparr>ac_RequiredExtensions := ac_RequiredExtensions config2 OR CapabilityForwardSecrecy\<rparr>
                              else config2)))"

definition validateExtensionConfig :: "AuthenticatedConfig \<Rightarrow> session_error option" where
  "validateExtensionConfig config =
     (if ac_ExtensionOffer config \<noteq> None \<and> ac_ExtensionRequest config \<noteq> None then Some ErrSessionConfig
      else if ac_RequiredExtensions config \<noteq> 0 \<and> ac_ExtensionRequest config = None then Some ErrSessionConfig
      else if ac_ExtensionTimeout config < 0 \<or> ac_ExtensionTimeout config > 30000 * millisecond then Some ErrSessionConfig
      else if (case ac_ExtensionOffer config of
                 None \<Rightarrow> False | Some p \<Rightarrow> fails (parameters_Envelope p ExtensionOffer 1)) then Some ErrSessionConfig
      else case ac_ExtensionRequest config of
             None \<Rightarrow> None
           | Some p \<Rightarrow>
               if ac_RequiredExtensions config AND NOT (Capabilities p) \<noteq> 0 then Some ErrSessionConfig
               else if fails (parameters_Envelope p ExtensionAccept 1) then Some ErrSessionConfig
               else None)"

definition extensionTimeout :: "int \<Rightarrow> int" where
  "extensionTimeout configured = (if configured = 0 then 2000 * millisecond else configured)"

definition validateAuthenticatedConfig :: "AuthenticatedConfig \<Rightarrow> session_error option" where
  "validateAuthenticatedConfig config =
     (if ac_RootSecret config = zero_bytes RootSecretSize \<and> length (ac_Credentials config) = 0
         \<or> length (ac_Credentials config) > MaxServerCredentials \<or> ac_InitialWindow config = 0
         \<or> ac_InitialWindow config > MaxInitialWindow \<or> ac_MaxStreams config \<le> 0
         \<or> ac_MaxCoverOverheadPercent config > 100 \<or> ac_MaxCoverBudgetBytes config < 0
         \<or> ac_MaxCoverBudgetBytes config > MaxWireCellBytes
      then Some ErrSessionConfig
      else validateExtensionConfig config)"

definition coverProfile :: "FeatureSet \<Rightarrow> protocol_error + ProfileID" where
  "coverProfile features =
     (let quiet = (features AND FeatureProfileQuiet \<noteq> 0); web = (features AND FeatureProfileWeb \<noteq> 0);
          interactive = (features AND FeatureProfileInteractive \<noteq> 0);
          profile = (if interactive then ProfileInteractive else if web then ProfileWeb else ProfileQuiet);
          count' = of_bool quiet + of_bool web + of_bool interactive :: nat
      in if count' > 1 then Inl ErrUnsupportedFeatures else Inr profile)"

definition deriveCoverSeed :: "hash \<Rightarrow> bytes \<Rightarrow> Role \<Rightarrow> string \<Rightarrow> bytes" where
  "deriveCoverSeed H key role purpose = hmac H key (str ''NP2 cover direction'' @ [role, 0] @ str purpose)"

section \<open>The layers of a session\<close>

definition start_cover ::
  "hash \<Rightarrow> AuthenticatedConfig \<Rightarrow> Role \<Rightarrow> SessionKeys \<Rightarrow> ProfileID \<Rightarrow> TypeMap \<Rightarrow> setup_error + Transport option" where
  "start_cover H config role keys profile typeMap =
     (if ac_DisableCover config then Inr None
      else case NewEngine H \<lparr>cc_Profile = profile, cc_MaxOverheadPercent = ac_MaxCoverOverheadPercent config,
                             cc_MaxBudgetBytes = ac_MaxCoverBudgetBytes config,
                             cc_Seed = deriveCoverSeed H (sk_Padding keys) role ''schedule''\<rparr> of
             Inl _ \<Rightarrow> Inl (SetupClosed ''create cover engine'')
           | Inr engine \<Rightarrow>
               (case NewTransport typeMap engine (deriveCoverSeed H (sk_Padding keys) role ''padding'') of
                  Inl _ \<Rightarrow> Inl (SetupClosed ''create cover transport'')
                | Inr t \<Rightarrow> Inr (Some (if ac_EnableForwardSecrecy config then PauseDummies t else t))))"

definition start_layers ::
  "hash \<Rightarrow> connection \<Rightarrow> AuthenticatedConfig \<Rightarrow> Role \<Rightarrow> SessionKeys \<Rightarrow> FeatureSet \<Rightarrow> bytes \<Rightarrow> DeviceID \<Rightarrow> TypeMap
     \<Rightarrow> setup_error + Authenticated" where
  "start_layers H c config role keys features credentialID deviceID typeMap =
     (case coverProfile features of
        Inl _ \<Rightarrow> Inl (SetupClosed ''select cover profile'')
      | Inr profile \<Rightarrow>
        (case newEncryptedCarrier (Some (cn_Kind c)) role keys of
           Inl _ \<Rightarrow> Inl (SetupClosed ''create cell encryption'')
         | Inr encrypted \<Rightarrow>
           res_bind (start_cover H config role keys profile typeMap) (\<lambda>covered.
           case mux_New role typeMap (ac_InitialWindow config) (ac_MaxStreams config) of
             Inl _ \<Rightarrow> Inl (SetupStage ''start multiplexer'')
           | Inr mux \<Rightarrow>
             res_bind (case cn_DatagramLimit c of
                         None \<Rightarrow> Inr None
                       | Some limit \<Rightarrow>
                           (case newDatagramMux H (cn_Kind c) limit role keys of
                              Inl _ \<Rightarrow> Inl (SetupStage ''start datagram multiplexer'')
                            | Inr d \<Rightarrow> Inr (Some d))) (\<lambda>datagrams.
             Inr \<lparr>au_Mux = mux, au_Keys = keys, au_Features = features, au_Carrier = cn_Kind c, au_Cover = covered,
                  au_Datagrams = datagrams, au_CarrierRemoteAddresses = cn_RemoteAddresses c,
                  au_CredentialID = credentialID, au_DeviceID = deviceID, au_extensions = newExtensionNegotiationState,
                  au_encrypted = encrypted\<rparr>))))"

text \<open>\<open>None\<close> is a type map whose derivation does not end.\<close>

definition startAuthenticated ::
  "hash \<Rightarrow> connection \<Rightarrow> AuthenticatedConfig \<Rightarrow> Role \<Rightarrow> SessionKeys \<Rightarrow> FeatureSet \<Rightarrow> bytes \<Rightarrow> DeviceID
     \<Rightarrow> (setup_error + Authenticated) option" where
  "startAuthenticated H c config role keys features credentialID deviceID =
     (if features AND FeatureCellAEAD = 0 then Some (Inl (SetupClosed ''negotiate cell encryption''))
      else case NewTypeMap H (sk_HeaderMap keys) of
             None \<Rightarrow> None
           | Some (Inl _) \<Rightarrow> Some (Inl (SetupClosed ''derive type map''))
           | Some (Inr typeMap) \<Rightarrow> Some (start_layers H c config role keys features credentialID deviceID typeMap))"

definition Authenticated_CoverStats :: "Authenticated option \<Rightarrow> TransportStats" where
  "Authenticated_CoverStats a =
     (case a of
        None \<Rightarrow> zero_TransportStats
      | Some a \<Rightarrow> (case au_Cover a of None \<Rightarrow> zero_TransportStats | Some t \<Rightarrow> transport_Stats t))"

section \<open>The handshake\<close>

definition ConnectClient_prepare :: "(bytes \<Rightarrow> bytes) \<Rightarrow> bytes option \<Rightarrow> AuthenticatedConfig \<Rightarrow> setup_error + AuthenticatedConfig" where
  "ConnectClient_prepare pub generated config =
     (case prepareForwardSecrecy pub generated config RoleClient of
        Inl _ \<Rightarrow> Inl (SetupClosed ''prepare forward secrecy'')
      | Inr config' \<Rightarrow> if validateAuthenticatedConfig config' \<noteq> None then Inl SetupConfig else Inr config')"

text \<open>From the challenge to the response; \<open>received\<close> is the result of the first \<open>Receive\<close>.\<close>

definition ConnectClient_respond ::
  "hash \<Rightarrow> connection \<Rightarrow> AuthenticatedConfig \<Rightarrow> session_error + bytes \<Rightarrow> bytes \<Rightarrow> session_error option
     \<Rightarrow> setup_error + ClientHandshake \<times> FeatureSet \<times> DeviceID \<times> bytes" where
  "ConnectClient_respond H c config received random outcome =
     (case received of
        Inl _ \<Rightarrow> Inl (SetupClosed ''receive challenge'')
      | Inr rawChallenge \<Rightarrow>
        (case ParseChallenge rawChallenge of
           Inl _ \<Rightarrow> Inl (SetupClosed ''parse challenge'')
         | Inr challenge \<Rightarrow>
           let drops = (wants_device (ac_Features config) \<and> ch_SupportedFeatures challenge AND FeatureDeviceIdentity = 0);
               requested = (if drops then ac_Features config AND NOT FeatureDeviceIdentity else ac_Features config);
               device = (if drops then zero_bytes DeviceIDSize else ac_DeviceID config);
               handshakeConfig = \<lparr>hc_RootSecret = ac_RootSecret config, hc_ServerIdentity = ac_ServerIdentity config,
                                  hc_Carrier = cn_Kind c, hc_DeviceID = device\<rparr>
           in case RespondToChallenge H handshakeConfig challenge requested random of
                Inl _ \<Rightarrow> Inl (SetupClosed ''build response'')
              | Inr (response, handshake) \<Rightarrow>
                  if outcome \<noteq> None then Inl (SetupClosed ''send response'')
                  else Inr (handshake, requested, device, Response_MarshalBinary response)))"

definition ConnectClient_confirm ::
  "hash \<Rightarrow> connection \<Rightarrow> AuthenticatedConfig \<Rightarrow> ClientHandshake \<Rightarrow> FeatureSet \<Rightarrow> DeviceID \<Rightarrow> session_error + bytes
     \<Rightarrow> (setup_error + Authenticated) option" where
  "ConnectClient_confirm H c config handshake requested device received =
     (case received of
        Inl _ \<Rightarrow> Some (Inl (SetupClosed ''receive confirm''))
      | Inr rawConfirm \<Rightarrow>
        (case ParseConfirm rawConfirm of
           Inl _ \<Rightarrow> Some (Inl (SetupClosed ''parse confirm''))
         | Inr confirm \<Rightarrow>
           (case VerifyConfirm (Some handshake) confirm of
              Inl _ \<Rightarrow> Some (Inl (SetupClosed ''verify confirm''))
            | Inr keys \<Rightarrow> startAuthenticated H c config RoleClient keys requested [] device)))"

definition server_credentials :: "AuthenticatedConfig \<Rightarrow> Credential list" where
  "server_credentials config =
     (if ac_RootSecret config \<noteq> zero_bytes RootSecretSize
      then [\<lparr>cr_ID = str ''legacy'', cr_RootSecret = ac_RootSecret config\<rparr>] else [])
     @ map (\<lambda>c. \<lparr>cr_ID = sc_ID c, cr_RootSecret = sc_RootSecret c\<rparr>) (ac_Credentials config)"

definition AcceptServer_challenge ::
  "(bytes \<Rightarrow> bytes) \<Rightarrow> bytes option \<Rightarrow> connection \<Rightarrow> AuthenticatedConfig \<Rightarrow> int \<Rightarrow> bytes \<Rightarrow> session_error option
     \<Rightarrow> setup_error + AuthenticatedConfig \<times> ServerHandshake \<times> bytes" where
  "AcceptServer_challenge pub generated c config now random outcome =
     (case prepareForwardSecrecy pub generated config RoleServer of
        Inl _ \<Rightarrow> Inl (SetupClosed ''prepare forward secrecy'')
      | Inr config' \<Rightarrow>
          if validateAuthenticatedConfig config' \<noteq> None then Inl SetupConfig
          else if length (server_credentials config') = 0 then Inl SetupConfig
          else
            let handshakeConfig = \<lparr>hc_RootSecret = cr_RootSecret (server_credentials config' ! 0),
                  hc_ServerIdentity = ac_ServerIdentity config', hc_Carrier = cn_Kind c, hc_DeviceID = zero_bytes DeviceIDSize\<rparr>
            in case NewServerHandshake handshakeConfig (ac_Features config') now random of
                 Inl _ \<Rightarrow> Inl (SetupClosed ''create challenge'')
               | Inr (handshake, challenge) \<Rightarrow>
                   if outcome \<noteq> None then Inl (SetupClosed ''send challenge'')
                   else Inr (config', handshake, Challenge_MarshalBinary challenge))"

definition AcceptServer_verify ::
  "hash \<Rightarrow> AuthenticatedConfig \<Rightarrow> ServerHandshake \<Rightarrow> session_error + bytes \<Rightarrow> int \<Rightarrow> session_error option
     \<Rightarrow> setup_error + bytes \<times> SessionKeys \<times> FeatureSet \<times> bytes \<times> DeviceID" where
  "AcceptServer_verify H config handshake received now outcome =
     (case received of
        Inl _ \<Rightarrow> Inl (SetupClosed ''receive response'')
      | Inr rawResponse \<Rightarrow>
        (case ParseResponse rawResponse of
           Inl _ \<Rightarrow> Inl (SetupClosed ''parse response'')
         | Inr response \<Rightarrow>
           (case VerifyResponseWithCredentials H handshake response now (server_credentials config) of
              (Inl _, _) \<Rightarrow> Inl (SetupClosed ''verify response'')
            | (Inr (confirm, keys, credentialID), _) \<Rightarrow>
                if outcome \<noteq> None then Inl (SetupClosed ''send confirm'')
                else Inr (Confirm_MarshalBinary confirm, keys, rs_RequestedFeatures response, credentialID,
                          rs_DeviceID response))))"

section \<open>Extensions and forward secrecy\<close>

text \<open>The deferred \<open>ResumeDummies\<close>, and \<open>complete\<close> on a session.\<close>

definition resume_dummies :: "Authenticated \<Rightarrow> Authenticated" where
  "resume_dummies a = a\<lparr>au_Cover := map_option ResumeDummies (au_Cover a)\<rparr>"

definition complete_extensions :: "ExtensionParameters \<Rightarrow> bool \<Rightarrow> session_error option \<Rightarrow> Authenticated \<Rightarrow> Authenticated" where
  "complete_extensions parameters negotiated err a =
     a\<lparr>au_extensions := complete parameters negotiated err (au_extensions a)\<rparr>"

definition applyNegotiatedCover :: "connection \<Rightarrow> ExtensionParameters \<Rightarrow> Authenticated \<Rightarrow> Authenticated" where
  "applyNegotiatedCover c selected a =
     (let a1 = (if Capabilities selected AND CapabilityMosaicCover \<noteq> 0
                then a\<lparr>au_Cover := map_option (\<lambda>t. snd (transport_EnableMosaic t)) (au_Cover a)\<rparr> else a)
      in if Capabilities selected AND CapabilityUnreliableDatagrams \<noteq> 0
         then a1\<lparr>au_Datagrams := map_option (\<lambda>d. snd (Enable (case cn_DatagramLimit c of None \<Rightarrow> 0 | Some l \<Rightarrow> l)
                                   (int (unat (UnreliableDatagramSize selected))) d)) (au_Datagrams a1)\<rparr>
         else a1)"

datatype client_progress = ClientDone "session_error option" | ClientAwaits ExtensionParameters ExtensionParameters SessionKeys

definition client_fs_keys ::
  "hash \<Rightarrow> (bytes \<Rightarrow> bytes \<Rightarrow> bytes option) \<Rightarrow> AuthenticatedConfig \<Rightarrow> ExtensionParameters \<Rightarrow> ExtensionParameters \<Rightarrow> Authenticated
     \<Rightarrow> session_error + SessionKeys" where
  "client_fs_keys H dh config offer selected a =
     (if ac_forwardSecret config = None \<or> Capabilities offer AND CapabilityForwardSecrecy = 0
      then Inl ErrExtensionNegotiation
      else or_else (DeriveForwardSecretSessionKeys H dh (au_Keys a) (ac_forwardSecret config)
                      (ForwardSecretKeyShare offer) (ForwardSecretKeyShare offer) (ForwardSecretKeyShare selected))
             ErrExtensionNegotiation)"

definition finish_extensions :: "connection \<Rightarrow> ExtensionParameters \<Rightarrow> Authenticated \<Rightarrow> Authenticated" where
  "finish_extensions c selected a =
     resume_dummies (complete_extensions selected True None (applyNegotiatedCover c selected a))"

definition fail_extensions :: "session_error \<Rightarrow> Authenticated \<Rightarrow> Authenticated" where
  "fail_extensions e a = resume_dummies (complete_extensions zero_parameters False (Some e) a)"

definition client_extensions ::
  "hash \<Rightarrow> (bytes \<Rightarrow> bytes \<Rightarrow> bytes option) \<Rightarrow> connection \<Rightarrow> AuthenticatedConfig \<Rightarrow> session_error + ExtensionEnvelope
     \<Rightarrow> session_error option \<Rightarrow> Authenticated \<Rightarrow> client_progress \<times> Authenticated \<times> bytes list" where
  "client_extensions H dh c config received outcome a =
     (case ac_ExtensionRequest config of
        None \<Rightarrow> (ClientDone None, resume_dummies (complete_extensions zero_parameters False None a), [])
      | Some request \<Rightarrow>
        (case negotiateClientExtensions request (ac_RequiredExtensions config) received outcome (au_Mux a) of
           (Inl e, m, sent) \<Rightarrow>
             (ClientDone (if ac_RequiredExtensions config \<noteq> 0 then Some e else None),
              fail_extensions e (a\<lparr>au_Mux := m\<rparr>), sent)
         | (Inr (selected, offer), m, sent) \<Rightarrow>
             let a1 = a\<lparr>au_Mux := m\<rparr> in
             if Capabilities selected AND CapabilityForwardSecrecy \<noteq> 0
             then case client_fs_keys H dh config offer selected a1 of
                    Inl e \<Rightarrow> (ClientDone (Some e), fail_extensions e a1, sent)
                  | Inr keys \<Rightarrow> (ClientAwaits selected offer keys, a1, sent)
             else (ClientDone None, finish_extensions c selected a1, sent)))"

text \<open>The checks of an update that carries one proof of 32 bytes.\<close>

definition proof_value :: "u64 \<Rightarrow> u64 \<Rightarrow> session_error + ExtensionEnvelope \<Rightarrow> bytes option" where
  "proof_value messageID tlvType received =
     (case received of
        Inl _ \<Rightarrow> None
      | Inr e \<Rightarrow>
          if env_Type e \<noteq> ExtensionUpdate \<or> env_MessageID e \<noteq> messageID \<or> length (env_TLVs e) \<noteq> 1
             \<or> tlv_Type (env_TLVs e ! 0) \<noteq> tlvType \<or> length (tlv_Value (env_TLVs e ! 0)) \<noteq> 32
          then None else Some (tlv_Value (env_TLVs e ! 0)))"

definition proof_envelope :: "u64 \<Rightarrow> u64 \<Rightarrow> bytes \<Rightarrow> ExtensionEnvelope" where
  "proof_envelope messageID tlvType value =
     \<lparr>env_Type = ExtensionUpdate, env_MessageID = messageID, env_TLVs = [\<lparr>tlv_Type = tlvType, tlv_Value = value\<rparr>]\<rparr>"

definition rekey_datagrams :: "hash \<Rightarrow> SessionKeys \<Rightarrow> Authenticated \<Rightarrow> session_error + Authenticated" where
  "rekey_datagrams H keys a =
     (case au_Datagrams a of
        None \<Rightarrow> Inr a
      | Some d \<Rightarrow> (case datagram_rekey H keys d of
                     Inl _ \<Rightarrow> Inl ErrExtensionNegotiation | Inr d' \<Rightarrow> Inr (a\<lparr>au_Datagrams := Some d'\<rparr>)))"

definition client_fs_confirm ::
  "hash \<Rightarrow> SessionKeys \<Rightarrow> ExtensionParameters \<Rightarrow> ExtensionParameters \<Rightarrow> session_error + ExtensionEnvelope
     \<Rightarrow> session_error option \<Rightarrow> Authenticated \<Rightarrow> session_error option \<times> Authenticated \<times> bytes list" where
  "client_fs_confirm H keys offer selected received outcome a =
     (let serverPublic = ForwardSecretKeyShare offer; clientPublic = ForwardSecretKeyShare selected in
      case proof_value 3 ExtensionTLVForwardSecretConfirm received of
        None \<Rightarrow> (Some ErrExtensionNegotiation, a, [])
      | Some value \<Rightarrow>
        if ForwardSecretConfirmation H keys serverPublic clientPublic \<noteq> Inr value
        then (Some ErrExtensionNegotiation, a, [])
        else case ec_rekey keys (au_encrypted a) of
               Inl _ \<Rightarrow> (Some ErrExtensionNegotiation, a, [])
             | Inr encrypted \<Rightarrow>
               (case rekey_datagrams H keys (a\<lparr>au_encrypted := encrypted\<rparr>) of
                  Inl e \<Rightarrow> (Some e, a\<lparr>au_encrypted := encrypted\<rparr>, [])
                | Inr a1 \<Rightarrow>
                  let a2 = a1\<lparr>au_Keys := keys\<rparr> in
                  (case ForwardSecretAcknowledgement H keys serverPublic clientPublic of
                     Inl _ \<Rightarrow> (Some ErrExtensionNegotiation, a2, [])
                   | Inr ack \<Rightarrow>
                     (case SendExtension (proof_envelope 4 ExtensionTLVForwardSecretAck ack) outcome (au_Mux a2) of
                        (Some _, m, sent) \<Rightarrow> (Some ErrExtensionNegotiation, a2\<lparr>au_Mux := m\<rparr>, sent)
                      | (None, m, sent) \<Rightarrow> (None, a2\<lparr>au_Mux := m\<rparr>, sent)))))"

definition client_fs_finish ::
  "connection \<Rightarrow> ExtensionParameters \<Rightarrow> session_error option \<Rightarrow> Authenticated \<Rightarrow> session_error option \<times> Authenticated" where
  "client_fs_finish c selected result a =
     (case result of Some e \<Rightarrow> (Some e, fail_extensions e a) | None \<Rightarrow> (None, finish_extensions c selected a))"

definition server_offer ::
  "AuthenticatedConfig \<Rightarrow> session_error option \<Rightarrow> Authenticated \<Rightarrow> session_error option \<times> Authenticated \<times> bytes list" where
  "server_offer config outcome a =
     (case ac_ExtensionOffer config of
        None \<Rightarrow> (None, complete_extensions zero_parameters False None a, [])
      | Some offer \<Rightarrow>
        (case negotiate_server_offer offer 1 outcome (au_Mux a) of
           (Some e, m, sent) \<Rightarrow> (Some e, fail_extensions e (a\<lparr>au_Mux := m\<rparr>), sent)
         | (None, m, sent) \<Rightarrow> (None, a\<lparr>au_Mux := m\<rparr>, sent)))"

definition server_fs_begin ::
  "hash \<Rightarrow> (bytes \<Rightarrow> bytes \<Rightarrow> bytes option) \<Rightarrow> AuthenticatedConfig \<Rightarrow> ExtensionParameters \<Rightarrow> ExtensionParameters
     \<Rightarrow> session_error option \<Rightarrow> Authenticated \<Rightarrow> (session_error + SessionKeys) \<times> Authenticated \<times> bytes list" where
  "server_fs_begin H dh config offer selected outcome a =
     (let serverPublic = ForwardSecretKeyShare offer; clientPublic = ForwardSecretKeyShare selected in
      if ac_forwardSecret config = None then (Inl ErrExtensionNegotiation, a, [])
      else case DeriveForwardSecretSessionKeys H dh (au_Keys a) (ac_forwardSecret config) clientPublic serverPublic clientPublic of
             Inl _ \<Rightarrow> (Inl ErrExtensionNegotiation, a, [])
           | Inr keys \<Rightarrow>
             (case ForwardSecretConfirmation H keys serverPublic clientPublic of
                Inl _ \<Rightarrow> (Inl ErrExtensionNegotiation, a, [])
              | Inr confirmation \<Rightarrow>
                (case rekeyAfterNextSend keys (au_encrypted a) of
                   Inl _ \<Rightarrow> (Inl ErrExtensionNegotiation, a, [])
                 | Inr encrypted \<Rightarrow>
                   (case SendExtension (proof_envelope 3 ExtensionTLVForwardSecretConfirm confirmation) outcome (au_Mux a) of
                      (Some _, m, sent) \<Rightarrow> (Inl ErrExtensionNegotiation, a\<lparr>au_encrypted := encrypted, au_Mux := m\<rparr>, sent)
                    | (None, m, sent) \<Rightarrow> (Inr keys, a\<lparr>au_encrypted := encrypted, au_Mux := m\<rparr>, sent)))))"

definition server_fs_sent :: "hash \<Rightarrow> SessionKeys \<Rightarrow> Authenticated \<Rightarrow> session_error + Authenticated" where
  "server_fs_sent H keys a = res_bind (rekey_datagrams H keys a) (\<lambda>a1. Inr (a1\<lparr>au_Keys := keys\<rparr>))"

definition server_fs_ack ::
  "hash \<Rightarrow> SessionKeys \<Rightarrow> ExtensionParameters \<Rightarrow> ExtensionParameters \<Rightarrow> session_error + ExtensionEnvelope \<Rightarrow> session_error option" where
  "server_fs_ack H keys offer selected received =
     (case proof_value 4 ExtensionTLVForwardSecretAck received of
        None \<Rightarrow> Some ErrExtensionNegotiation
      | Some value \<Rightarrow>
          if ForwardSecretAcknowledgement H keys (ForwardSecretKeyShare offer) (ForwardSecretKeyShare selected) \<noteq> Inr value
          then Some ErrExtensionNegotiation else None)"

datatype server_progress = ServerDone "session_error option" | ServerAwaits ExtensionParameters SessionKeys

definition server_complete ::
  "connection \<Rightarrow> ExtensionParameters \<Rightarrow> session_error option \<Rightarrow> Authenticated \<Rightarrow> server_progress \<times> Authenticated" where
  "server_complete c selected err a =
     (case err of
        None \<Rightarrow> (ServerDone None, finish_extensions c selected a)
      | Some e \<Rightarrow> (ServerDone (Some e), resume_dummies (complete_extensions selected False (Some e) a)))"

definition server_accept ::
  "hash \<Rightarrow> (bytes \<Rightarrow> bytes \<Rightarrow> bytes option) \<Rightarrow> connection \<Rightarrow> AuthenticatedConfig \<Rightarrow> ExtensionParameters
     \<Rightarrow> session_error + ExtensionEnvelope \<Rightarrow> session_error option \<Rightarrow> Authenticated \<Rightarrow> server_progress \<times> Authenticated \<times> bytes list" where
  "server_accept H dh c config offer received outcome a =
     (case negotiate_server_accept offer 1 received of
        Inl e \<Rightarrow> (case server_complete c zero_parameters (Some e) a of (p, a1) \<Rightarrow> (p, a1, []))
      | Inr selected \<Rightarrow>
          if Capabilities selected AND CapabilityForwardSecrecy \<noteq> 0
          then case server_fs_begin H dh config offer selected outcome a of
                 (Inl e, a1, sent) \<Rightarrow> (case server_complete c selected (Some e) a1 of (p, a2) \<Rightarrow> (p, a2, sent))
               | (Inr keys, a1, sent) \<Rightarrow> (ServerAwaits selected keys, a1, sent)
          else (case server_complete c selected None a of (p, a1) \<Rightarrow> (p, a1, [])))"

definition ConnectClient_finish :: "session_error option \<Rightarrow> Authenticated \<Rightarrow> (setup_error + unit) \<times> Authenticated" where
  "ConnectClient_finish result a =
     (case result of
        Some e \<Rightarrow> (Inl (SetupExtension e), a\<lparr>au_Mux := Mux_Close (au_Mux a)\<rparr>)
      | None \<Rightarrow> (Inr (), a))"

section \<open>The layers can be built\<close>

lemma pick_in_set: "xs \<noteq> [] \<Longrightarrow> pick b xs \<in> set xs"
  by (simp add: pick_def)

lemma variant_nonzero: "(b AND 63) + 1 \<noteq> (0 :: byte)"
proof
  assume "(b AND 63) + 1 = 0"
  then have "b AND 63 = 255" by (simp add: eq_neg_iff_add_eq_0 [symmetric])
  then have "bit (b AND 63) 7" by (simp add: bit_iff_odd)
  then show False by (simp add: bit_simps)
qed

lemma deriveProfile_total:
  assumes "p = ProfileWeb \<or> p = ProfileInteractive \<or> p = ProfileStream"
  shows "\<exists>d. deriveProfile H seed p = Inr d"
proof -
  obtain family d0 where f: "profileFamilies p = Some family" "profileDefinitions p = Some d0"
    using assms by (auto simp: profileFamilies_def profileDefinitions_def)
  have ne: "pf_buckets family \<noteq> []" "pf_dummies family \<noteq> []" "pf_dummyGates family \<noteq> []" "pf_dummyDelays family \<noteq> []"
    "pf_bucketLookaheads family \<noteq> []"
    using f(1) by (auto simp: profileFamilies_def split: if_splits)
  have b: "validIncreasingSizes x" if "x \<in> set (pf_buckets family)" for x
    using that f(1) by (auto simp: profileFamilies_def validIncreasingSizes_def split: if_splits)
  have d: "validIncreasingSizes x \<and> (p = ProfileStream \<longrightarrow> x = [])" if "x \<in> set (pf_dummies family)" for x
    using that f(1) by (auto simp: profileFamilies_def validIncreasingSizes_def split: if_splits)
  have g: "snd x \<noteq> 0 \<and> fst x \<le> snd x \<and> (p = ProfileStream \<longrightarrow> fst x = 0)" if "x \<in> set (pf_dummyGates family)" for x
    using that f(1) by (auto simp: profileFamilies_def split: if_splits)
  have y: "0 \<le> fst x \<and> fst x \<le> snd x \<and> snd x \<le> 250 * millisecond" if "x \<in> set (pf_dummyDelays family)" for x
    using that f(1) by (auto simp: profileFamilies_def split: if_splits)
  have l: "x \<noteq> 0 \<and> 1 \<le> x \<and> x \<le> 3" if "x \<in> set (pf_bucketLookaheads family)" for x
    using that f(1) by (auto simp: profileFamilies_def split: if_splits)
  have lim: "pd_limits d0 = ProfileLimits p" "p = ProfileStream \<Longrightarrow> MaxRealDelay (ProfileLimits p) = 0" "p \<noteq> ProfileQuiet"
    using assms f(2) by (auto simp: ProfileLimits_def profileDefinitions_def split: if_splits)
  define m where "m = hmac H seed (str ''NP2 Mosaic profile variant'' @ [p])"
  note picks = pick_in_set [OF ne(1), of "m ! 1"] pick_in_set [OF ne(2), of "m ! 2"] pick_in_set [OF ne(3), of "m ! 5"]
    pick_in_set [OF ne(4), of "m ! 6"] pick_in_set [OF ne(5), of "m ! 4"]
  show ?thesis
    using b [OF picks(1)] d [OF picks(2)] g [OF picks(3)] y [OF picks(4)] l [OF picks(5)] lim variant_nonzero [of "m ! 0"]
    unfolding deriveProfile_def f m_def [symmetric] by (simp add: Let_def validateDerivedProfile_def not_le not_less)
qed

lemma deriveProfileSet_total:
  assumes "seed \<noteq> zero_bytes 32"
  shows "\<exists>s. deriveProfileSet H seed = Inr s"
proof -
  obtain w i t where "deriveProfile H seed ProfileWeb = Inr w" "deriveProfile H seed ProfileInteractive = Inr i"
    "deriveProfile H seed ProfileStream = Inr t"
    using deriveProfile_total [of ProfileWeb H seed] deriveProfile_total [of ProfileInteractive H seed]
      deriveProfile_total [of ProfileStream H seed] by auto
  with assms show ?thesis by (simp add: deriveProfileSet_def)
qed

lemma NewEngine_total:
  assumes "profileDefinitions (cc_Profile config) \<noteq> None" and "cc_MaxOverheadPercent config \<le> 100"
    and "0 \<le> cc_MaxBudgetBytes config" "cc_MaxBudgetBytes config \<le> MaxWireCellBytes" and "cc_Seed config \<noteq> zero_bytes 32"
  shows "\<exists>e. NewEngine H config = Inr e"
  using deriveProfileSet_total [OF assms(5), of H] assms by (auto simp: NewEngine_def Let_def not_less)

text \<open>What the set-up needs of the derived keys: none is zero and the type map can be derived.\<close>

definition keys_usable :: "hash \<Rightarrow> SessionKeys \<Rightarrow> bool" where
  "keys_usable H keys \<longleftrightarrow>
     sk_HeaderMap keys \<noteq> zero_bytes 32 \<and> NewTypeMap H (sk_HeaderMap keys) \<noteq> None \<and> sk_Control keys \<noteq> zero_bytes 32
     \<and> sk_ClientToServer keys \<noteq> zero_bytes 32 \<and> sk_ServerToClient keys \<noteq> zero_bytes 32
     \<and> (\<forall>role\<in>{RoleClient, RoleServer}. \<forall>purpose\<in>{''schedule'', ''padding''}.
          deriveCoverSeed H (sk_Padding keys) role purpose \<noteq> zero_bytes 32)"

definition keys_sized :: "SessionKeys \<Rightarrow> bool" where
  "keys_sized keys \<longleftrightarrow>
     length (sk_Control keys) = 32 \<and> length (sk_ClientToServer keys) = 32 \<and> length (sk_ServerToClient keys) = 32
     \<and> length (sk_ClientToServerNonce keys) = 4 \<and> length (sk_ServerToClientNonce keys) = 4"

lemma coverProfile_defined: "coverProfile f = Inr p \<Longrightarrow> profileDefinitions p \<noteq> None"
  by (auto simp: coverProfile_def profileDefinitions_def Let_def split: if_splits)

lemma start_cover_total:
  assumes "validateAuthenticatedConfig config = None" and "keys_usable H keys" and "role = RoleClient \<or> role = RoleServer"
    and "coverProfile f = Inr p" and "wf_TypeMap tm"
  shows "\<exists>cov. start_cover H config role keys p tm = Inr cov \<and> (cov = None \<longleftrightarrow> ac_DisableCover config)
     \<and> (\<forall>t. cov = Some t \<longrightarrow> ct_typeMap t = tm \<and> \<not> ct_done t \<and> ct_dummiesPaused t = ac_EnableForwardSecrecy config)"
proof (cases "ac_DisableCover config")
  case True
  then show ?thesis by (simp add: start_cover_def)
next
  case False
  let ?c = "\<lparr>cc_Profile = p, cc_MaxOverheadPercent = ac_MaxCoverOverheadPercent config,
             cc_MaxBudgetBytes = ac_MaxCoverBudgetBytes config, cc_Seed = deriveCoverSeed H (sk_Padding keys) role ''schedule''\<rparr>"
  have seeds: "deriveCoverSeed H (sk_Padding keys) role ''schedule'' \<noteq> zero_bytes 32"
    "deriveCoverSeed H (sk_Padding keys) role ''padding'' \<noteq> zero_bytes 32"
    using assms(2,3) by (auto simp: keys_usable_def)
  obtain e where e: "NewEngine H ?c = Inr e"
    using NewEngine_total [of ?c H] coverProfile_defined [OF assms(4)] assms(1) seeds
    by (auto simp: validateAuthenticatedConfig_def not_less split: if_splits)
  obtain t where t: "NewTransport tm e (deriveCoverSeed H (sk_Padding keys) role ''padding'') = Inr t"
    using EncodeKind_wf [OF assms(5), of CellDummy] seeds(2) by (auto simp: NewTransport_def kind_valid_def)
  then have "ct_typeMap t = tm" "\<not> ct_done t" "\<not> ct_dummiesPaused t"
    by (auto simp: NewTransport_def split: if_splits sum.splits)
  with False e t show ?thesis by (auto simp: start_cover_def PauseDummies_def)
qed

lemma datagram_mux_total:
  assumes "hash32 H" and "sk_Control keys \<noteq> zero_bytes 32" and "CarrierDatagramPayloadLimit limit \<noteq> 0"
    and "role = RoleClient \<or> role = RoleServer"
  shows "\<exists>d. newDatagramMux H kind limit role keys = Inr d"
  using hash32.datagram_keys_total [OF assms(1), of "sk_Control keys" "role = RoleServer"] assms(2-4)
  by (auto simp: newDatagramMux_def)

text \<open>A session on which nothing has been sent or received yet.\<close>

definition fresh_session :: "Authenticated \<Rightarrow> bool" where
  "fresh_session a \<longleftrightarrow>
     au_extensions a = newExtensionNegotiationState \<and> sk_Control (au_Keys a) \<noteq> zero_bytes 32
     \<and> mx_extensions (au_Mux a) = [] \<and> mx_extensionSeen (au_Mux a) = [] \<and> mx_highestExtensionID (au_Mux a) = 0
     \<and> ec_sendCounter (au_encrypted a) = 0 \<and> ec_epochInterval (au_encrypted a) = 0"

lemma newEncryptedCarrier_counters:
  "newEncryptedCarrier k role keys = Inr e \<Longrightarrow> ec_sendCounter e = 0 \<and> ec_epochInterval e = 0"
  by (auto simp: newEncryptedCarrier_def Let_def newAEAD_def split: option.split_asm if_split_asm)

lemma startAuthenticated_total:
  assumes H: "hash32 H" and valid: "validateAuthenticatedConfig config = None" and keys: "keys_usable H keys" "keys_sized keys"
    and role: "role = RoleClient \<or> role = RoleServer" and f: "f AND FeatureCellAEAD \<noteq> 0" "coverProfile f = Inr p"
    and dg: "\<And>limit. cn_DatagramLimit c = Some limit \<Longrightarrow> CarrierDatagramPayloadLimit limit \<noteq> 0"
  obtains tm a where "NewTypeMap H (sk_HeaderMap keys) = Some (Inr tm)" "wf_TypeMap tm"
    "startAuthenticated H c config role keys f cid device = Some (Inr a)"
    "au_Keys a = keys" "au_Features a = f" "au_Carrier a = cn_Kind c" "au_CredentialID a = cid" "au_DeviceID a = device"
    "newEncryptedCarrier (Some (cn_Kind c)) role keys = Inr (au_encrypted a)"
    "mx_typeMap (au_Mux a) = tm" "mx_role (au_Mux a) = role" "\<not> mx_done (au_Mux a)"
    "\<And>t. au_Cover a = Some t \<Longrightarrow> ct_typeMap t = tm \<and> ct_dummiesPaused t = ac_EnableForwardSecrecy config"
    "fresh_session a"
    "case au_Datagrams a of None \<Rightarrow> cn_DatagramLimit c = None
       | Some d \<Rightarrow> \<exists>limit. cn_DatagramLimit c = Some limit \<and> newDatagramMux H (cn_Kind c) limit role keys = Inr d"
proof -
  have "sk_HeaderMap keys \<noteq> zero_bytes 32" "NewTypeMap H (sk_HeaderMap keys) \<noteq> None" using keys(1) by (simp_all add: keys_usable_def)
  then obtain tm where tm: "NewTypeMap H (sk_HeaderMap keys) = Some (Inr tm)"
    by (auto simp: NewTypeMap_def split: option.splits)
  note wf = NewTypeMap_wf [OF tm]
  obtain enc where enc: "newEncryptedCarrier (Some (cn_Kind c)) role keys = Inr enc"
    using keys role by (auto simp: keys_usable_def keys_sized_def newEncryptedCarrier_def newAEAD_def Let_def)
  obtain cov where cov: "start_cover H config role keys p tm = Inr cov"
    "\<And>t. cov = Some t \<Longrightarrow> ct_typeMap t = tm \<and> \<not> ct_done t \<and> ct_dummiesPaused t = ac_EnableForwardSecrecy config"
    using start_cover_total [OF valid keys(1) role f(2) wf] by blast
  have "kind_valid CellOpen" by (simp add: kind_valid_def)
  then obtain m where m: "mux_New role tm (ac_InitialWindow config) (ac_MaxStreams config) = Inr m"
    using valid role EncodeKind_wf [OF wf] by (auto simp: mux_New_def validateAuthenticatedConfig_def split: if_splits)
  then have mf: "mx_typeMap m = tm" "mx_role m = role" "\<not> mx_done m" "mx_extensions m = []" "mx_extensionSeen m = []"
    "mx_highestExtensionID m = 0"
    by (auto simp: mux_New_def split: if_split_asm sum.split_asm)
  obtain d where d: "(case cn_DatagramLimit c of None \<Rightarrow> Inr None
        | Some limit \<Rightarrow> (case newDatagramMux H (cn_Kind c) limit role keys of
             Inl _ \<Rightarrow> Inl (SetupStage ''start datagram multiplexer'') | Inr d \<Rightarrow> Inr (Some d))) = Inr d"
    "case d of None \<Rightarrow> cn_DatagramLimit c = None
       | Some d \<Rightarrow> \<exists>limit. cn_DatagramLimit c = Some limit \<and> newDatagramMux H (cn_Kind c) limit role keys = Inr d"
  proof (cases "cn_DatagramLimit c")
    case (Some limit)
    have "sk_Control keys \<noteq> zero_bytes 32" using keys(1) by (simp add: keys_usable_def)
    then obtain dm where "newDatagramMux H (cn_Kind c) limit role keys = Inr dm"
      using datagram_mux_total [OF H _ dg [OF Some] role] by blast
    then show thesis using Some by (intro that [of "Some dm"]) simp_all
  qed (use that in simp)
  define a where "a = \<lparr>au_Mux = m, au_Keys = keys, au_Features = f, au_Carrier = cn_Kind c, au_Cover = cov, au_Datagrams = d,
      au_CarrierRemoteAddresses = cn_RemoteAddresses c, au_CredentialID = cid, au_DeviceID = device,
      au_extensions = newExtensionNegotiationState, au_encrypted = enc\<rparr>"
  have "startAuthenticated H c config role keys f cid device = Some (Inr a)"
    using f tm enc cov(1) m d(1) by (simp add: startAuthenticated_def start_layers_def a_def)
  from that [OF tm wf this] show thesis
    using enc mf cov(2) d(2) keys(1) newEncryptedCarrier_counters [OF enc] by (simp add: a_def fresh_session_def keys_usable_def)
qed

section \<open>An honest set-up\<close>

text \<open>Both sides over a connection that delivers every message; \<open>None\<close> is any error of either side.\<close>

definition ok :: "'e + 'a \<Rightarrow> 'a option" where
  "ok m = (case m of Inl _ \<Rightarrow> None | Inr x \<Rightarrow> Some x)"

lemma ok_Inr [simp]: "ok (Inr x) = Some x"
  by (simp add: ok_def)

definition handshake_run ::
  "hash \<Rightarrow> (bytes \<Rightarrow> bytes) \<Rightarrow> bytes option \<Rightarrow> bytes option \<Rightarrow> connection \<Rightarrow> connection \<Rightarrow> AuthenticatedConfig \<Rightarrow> AuthenticatedConfig
     \<Rightarrow> int \<Rightarrow> int \<Rightarrow> bytes \<Rightarrow> bytes \<Rightarrow> (Authenticated \<times> Authenticated) option" where
  "handshake_run H pub cgen sgen cc sc cconf sconf t0 now srandom crandom =
     do {
       (sconf', handshake, rawChallenge) \<leftarrow> ok (AcceptServer_challenge pub sgen sc sconf t0 srandom None);
       cconf' \<leftarrow> ok (ConnectClient_prepare pub cgen cconf);
       (client, requested, device, rawResponse) \<leftarrow> ok (ConnectClient_respond H cc cconf' (Inr rawChallenge) crandom None);
       (rawConfirm, keys, features, credentialID, deviceID) \<leftarrow>
         ok (AcceptServer_verify H sconf' handshake (Inr rawResponse) now None);
       server \<leftarrow> startAuthenticated H sc sconf' RoleServer keys features credentialID deviceID;
       b \<leftarrow> ok server;
       result \<leftarrow> ConnectClient_confirm H cc cconf' client requested device (Inr rawConfirm);
       a \<leftarrow> ok result;
       Some (a, b)
     }"

definition datagrams_paired :: "DatagramMux option \<Rightarrow> DatagramMux option \<Rightarrow> bool" where
  "datagrams_paired a b \<longleftrightarrow>
     (\<forall>x y. a = Some x \<longrightarrow> b = Some y \<longrightarrow> dg_sync x y \<and> dg_sync y x)
     \<and> (\<forall>x. a = Some x \<longrightarrow> dm_sendDirection x = recordDirectionClientToServer)
     \<and> (\<forall>y. b = Some y \<longrightarrow> dm_sendDirection y = recordDirectionServerToClient)"

text \<open>Client \<open>a\<close> and server \<open>b\<close> are the two ends of one session.\<close>

definition paired :: "Authenticated \<Rightarrow> Authenticated \<Rightarrow> bool" where
  "paired a b \<longleftrightarrow>
     au_Keys a = au_Keys b \<and> au_Features a = au_Features b \<and> au_Carrier a = au_Carrier b
     \<and> wf_TypeMap (mx_typeMap (au_Mux a)) \<and> mx_typeMap (au_Mux a) = mx_typeMap (au_Mux b)
     \<and> mx_role (au_Mux a) = RoleClient \<and> mx_role (au_Mux b) = RoleServer
     \<and> \<not> mx_done (au_Mux a) \<and> \<not> mx_done (au_Mux b)
     \<and> duplex (au_encrypted a) (au_encrypted b)
     \<and> datagrams_paired (au_Datagrams a) (au_Datagrams b)
     \<and> (\<forall>t. au_Cover a = Some t \<or> au_Cover b = Some t \<longrightarrow> ct_typeMap t = mx_typeMap (au_Mux a))"

lemma newDatagramMux_direction:
  "newDatagramMux H kind limit role keys = Inr d \<Longrightarrow>
     dm_sendDirection d = (if role = RoleServer then recordDirectionServerToClient else recordDirectionClientToServer)"
  by (auto simp: newDatagramMux_def Let_def split: if_split_asm)

lemma paired_start:
  assumes a: "newEncryptedCarrier (Some kind) RoleClient keys = Inr (au_encrypted a)"
    and b: "newEncryptedCarrier (Some kind) RoleServer keys = Inr (au_encrypted b)"
    and da: "case au_Datagrams a of None \<Rightarrow> la = None | Some d \<Rightarrow> \<exists>l. la = Some l \<and> newDatagramMux H kind l RoleClient keys = Inr d"
    and db: "case au_Datagrams b of None \<Rightarrow> lb = None | Some d \<Rightarrow> \<exists>l. lb = Some l \<and> newDatagramMux H kind l RoleServer keys = Inr d"
  shows "duplex (au_encrypted a) (au_encrypted b)" and "datagrams_paired (au_Datagrams a) (au_Datagrams b)"
  using new_duplex [OF a b] da db new_dg_sync
  by (auto simp: datagrams_paired_def dest: newDatagramMux_direction split: option.splits)

lemma honest_layers:
  assumes H: "hash32 H" and valid: "validateAuthenticatedConfig cconf = None" "validateAuthenticatedConfig sconf = None"
    and keys: "keys_usable H keys" "keys_sized keys" and f: "f AND FeatureCellAEAD \<noteq> 0" "coverProfile f = Inr p"
    and kind: "cn_Kind cc = cn_Kind sc"
    and dg: "\<And>limit. cn_DatagramLimit cc = Some limit \<or> cn_DatagramLimit sc = Some limit \<Longrightarrow> CarrierDatagramPayloadLimit limit \<noteq> 0"
  obtains a b where "startAuthenticated H cc cconf RoleClient keys f [] cdev = Some (Inr a)"
    "startAuthenticated H sc sconf RoleServer keys f cid sdev = Some (Inr b)"
    "paired a b" "fresh_session a" "fresh_session b" "au_Keys a = keys" "au_Features b = f" "au_CredentialID b = cid" "au_DeviceID b = sdev"
    "\<And>t. au_Cover a = Some t \<Longrightarrow> ct_dummiesPaused t = ac_EnableForwardSecrecy cconf"
    "\<And>t. au_Cover b = Some t \<Longrightarrow> ct_dummiesPaused t = ac_EnableForwardSecrecy sconf"
proof -
  obtain tm a where a: "NewTypeMap H (sk_HeaderMap keys) = Some (Inr tm)" "wf_TypeMap tm"
    "startAuthenticated H cc cconf RoleClient keys f [] cdev = Some (Inr a)"
    "au_Keys a = keys" "au_Features a = f" "au_Carrier a = cn_Kind cc"
    "newEncryptedCarrier (Some (cn_Kind sc)) RoleClient keys = Inr (au_encrypted a)"
    "mx_typeMap (au_Mux a) = tm" "mx_role (au_Mux a) = RoleClient" "\<not> mx_done (au_Mux a)"
    "\<And>t. au_Cover a = Some t \<Longrightarrow> ct_typeMap t = tm \<and> ct_dummiesPaused t = ac_EnableForwardSecrecy cconf"
    "fresh_session a"
    "case au_Datagrams a of None \<Rightarrow> cn_DatagramLimit cc = None
       | Some d \<Rightarrow> \<exists>limit. cn_DatagramLimit cc = Some limit \<and> newDatagramMux H (cn_Kind sc) limit RoleClient keys = Inr d"
    by (rule startAuthenticated_total [OF H valid(1) keys _ f, of RoleClient cc "[]" cdev, unfolded kind]) (use dg kind in auto)
  obtain b where b: "startAuthenticated H sc sconf RoleServer keys f cid sdev = Some (Inr b)"
    "au_Keys b = keys" "au_Features b = f" "au_Carrier b = cn_Kind sc" "au_CredentialID b = cid" "au_DeviceID b = sdev"
    "newEncryptedCarrier (Some (cn_Kind sc)) RoleServer keys = Inr (au_encrypted b)"
    "mx_typeMap (au_Mux b) = tm" "mx_role (au_Mux b) = RoleServer" "\<not> mx_done (au_Mux b)"
    "\<And>t. au_Cover b = Some t \<Longrightarrow> ct_typeMap t = tm \<and> ct_dummiesPaused t = ac_EnableForwardSecrecy sconf"
    "fresh_session b"
    "case au_Datagrams b of None \<Rightarrow> cn_DatagramLimit sc = None
       | Some d \<Rightarrow> \<exists>limit. cn_DatagramLimit sc = Some limit \<and> newDatagramMux H (cn_Kind sc) limit RoleServer keys = Inr d"
    by (rule startAuthenticated_total [OF H valid(2) keys _ f, of RoleServer sc cid sdev]) (use dg a(1) in auto)
  note p = paired_start [OF a(7) b(7) a(13) b(13)]
  have "paired a b"
    using a(2,4-6,8-10) b(2-4,8-10) kind p unfolding paired_def by (auto dest: a(11) b(11))
  with that [OF a(3) b(1)] show thesis using a b by simp
qed

text \<open>The features a client asks for, given what the server supports.\<close>

definition requested_features :: "AuthenticatedConfig \<Rightarrow> FeatureSet \<Rightarrow> FeatureSet" where
  "requested_features config supported =
     (if wants_device (ac_Features config) \<and> supported AND FeatureDeviceIdentity = 0
      then ac_Features config AND NOT FeatureDeviceIdentity else ac_Features config)"

definition requested_device :: "AuthenticatedConfig \<Rightarrow> FeatureSet \<Rightarrow> DeviceID" where
  "requested_device config supported =
     (if wants_device (ac_Features config) \<and> supported AND FeatureDeviceIdentity = 0
      then zero_bytes DeviceIDSize else ac_DeviceID config)"

definition server_handshake_config :: "connection \<Rightarrow> AuthenticatedConfig \<Rightarrow> HandshakeConfig" where
  "server_handshake_config c config =
     \<lparr>hc_RootSecret = cr_RootSecret (server_credentials config ! 0), hc_ServerIdentity = ac_ServerIdentity config,
      hc_Carrier = cn_Kind c, hc_DeviceID = zero_bytes DeviceIDSize\<rparr>"

lemma prepareForwardSecrecy_frame:
  assumes "prepareForwardSecrecy pub gen config role = Inr config'"
  shows "ac_RootSecret config' = ac_RootSecret config \<and> ac_Credentials config' = ac_Credentials config
    \<and> ac_ServerIdentity config' = ac_ServerIdentity config \<and> ac_Features config' = ac_Features config
    \<and> ac_DeviceID config' = ac_DeviceID config \<and> ac_EnableForwardSecrecy config' = ac_EnableForwardSecrecy config"
  using assms by (auto simp: prepareForwardSecrecy_def Let_def split: if_splits option.splits sum.splits)

lemma requested_features_valid: "features_valid (ac_Features config) \<Longrightarrow> features_valid (requested_features config supported)"
  by (auto simp: features_valid_def requested_features_def bit_eq_iff bit_simps)

lemma ConnectClient_respond_parsed:
  assumes "ParseChallenge raw = Inr ch"
    and "RespondToChallenge H \<lparr>hc_RootSecret = ac_RootSecret config, hc_ServerIdentity = ac_ServerIdentity config,
      hc_Carrier = cn_Kind c, hc_DeviceID = requested_device config (ch_SupportedFeatures ch)\<rparr> ch
      (requested_features config (ch_SupportedFeatures ch)) random = Inr (resp, cl)"
  shows "ConnectClient_respond H c config (Inr raw) random None =
    Inr (cl, requested_features config (ch_SupportedFeatures ch), requested_device config (ch_SupportedFeatures ch),
         Response_MarshalBinary resp)"
  unfolding ConnectClient_respond_def Let_def sum.case assms(1) requested_features_def [symmetric] requested_device_def [symmetric]
  by (simp add: assms(2))

lemma requested_frame:
  "ac_Features config' = ac_Features config \<Longrightarrow> requested_features config' = requested_features config"
  "ac_Features config' = ac_Features config \<Longrightarrow> ac_DeviceID config' = ac_DeviceID config
     \<Longrightarrow> requested_device config' = requested_device config"
  by (simp_all add: requested_features_def requested_device_def fun_eq_iff)

lemma without_feature: "(f AND NOT d) AND d = (0 :: FeatureSet)"
  by (simp add: bit_eq_iff bit_simps)

lemma requested_device_kept:
  "wants_device (requested_features config supported) \<Longrightarrow> requested_device config supported = ac_DeviceID config"
  using without_feature [of "ac_Features config" FeatureDeviceIdentity]
  by (simp add: requested_device_def requested_features_def split: if_splits)

text \<open>
  C4 (functional). An honest set-up succeeds and the two ends match. Take configurations that pass the
  code's own checks, the same server identity and carrier, a credential of the server's list with the
  client's secret, features the server supports (the device feature is dropped by the client when the
  server lacks it) with cell encryption and at most one profile, and derived keys that are usable. Then
  \<open>AcceptServer\<close> and \<open>ConnectClient\<close>, each fed the other's messages, both return a session: under that
  credential, with the same keys and features, the same well-formed type map, encrypted carriers and
  datagram multiplexers whose directions are synchronised, open multiplexers of opposite roles, cover
  transports on the same type map that are paused exactly when forward secrecy is enabled, and, if it was
  asked for, the client's device identity at the server.
\<close>

theorem session_established:
  assumes H: "hash32 H"
    and client: "ConnectClient_prepare pub cgen cconf = Inr cconf'"
    and server: "prepareForwardSecrecy pub sgen sconf RoleServer = Inr sconf'" "validateAuthenticatedConfig sconf' = None"
    and hconf: "hconf = server_handshake_config sc sconf" "config_validate hconf = None"
    and same: "ac_ServerIdentity cconf = ac_ServerIdentity sconf" "cn_Kind cc = cn_Kind sc"
    and random: "NonceSize \<le> length srandom" "NonceSize \<le> length crandom"
    and creds: "cred \<in> set (server_credentials sconf)" "distinct (server_credentials sconf)"
      "length (server_credentials sconf) \<le> MaxServerCredentials" "list_all (credential_ok hconf) (server_credentials sconf)"
      "cr_RootSecret cred = ac_RootSecret cconf"
    and features: "features_valid (ac_Features sconf)" "features_valid (ac_Features cconf)"
      "f = requested_features cconf (ac_Features sconf)" "f AND NOT (ac_Features sconf) = 0"
      "f AND FeatureCellAEAD \<noteq> 0" "\<not> fails (coverProfile f)"
    and device: "length (ac_DeviceID cconf) = 16" "wants_device f \<longrightarrow> \<not> DeviceID_IsZero (ac_DeviceID cconf)"
    and time: "0 \<le> now - t0" "now - t0 \<le> MaxChallengeAge"
    and T: "T = buildTranscript hconf \<lparr>ch_Version = Version, ch_ServerNonce = take 32 srandom,
      ch_SupportedFeatures = ac_Features sconf\<rparr> (take 32 crandom) f (requested_device cconf (ac_Features sconf))"
    and others: "\<forall>c\<in>set (server_credentials sconf). c \<noteq> cred \<longrightarrow>
      \<not> tag_matches H hconf T (calculateTag H (auth_key H hconf cred) ''NP2 response'' T) c"
    and usable: "\<forall>keys. deriveSessionKeys H (auth_key H hconf cred) T = Inr keys \<longrightarrow> keys_usable H keys"
    and datagrams: "\<forall>limit. cn_DatagramLimit cc = Some limit \<or> cn_DatagramLimit sc = Some limit \<longrightarrow>
      CarrierDatagramPayloadLimit limit \<noteq> 0"
  shows "\<exists>a b. handshake_run H pub cgen sgen cc sc cconf sconf t0 now srandom crandom = Some (a, b) \<and> paired a b
     \<and> fresh_session a \<and> fresh_session b
     \<and> deriveSessionKeys H (auth_key H hconf cred) T = Inr (au_Keys a)
     \<and> au_Features b = f \<and> au_CredentialID b = cr_ID cred
     \<and> au_DeviceID b = (if wants_device f then ac_DeviceID cconf else zero_bytes DeviceIDSize)
     \<and> (\<forall>t. au_Cover a = Some t \<longrightarrow> ct_dummiesPaused t = ac_EnableForwardSecrecy cconf)
     \<and> (\<forall>t. au_Cover b = Some t \<longrightarrow> ct_dummiesPaused t = ac_EnableForwardSecrecy sconf)"
proof -
  let ?dev = "requested_device cconf (ac_Features sconf)"
  let ?c = "\<lparr>hc_RootSecret = ac_RootSecret cconf, hc_ServerIdentity = ac_ServerIdentity cconf, hc_Carrier = cn_Kind cc,
      hc_DeviceID = ?dev\<rparr>"
  obtain cfs: "prepareForwardSecrecy pub cgen cconf RoleClient = Inr cconf'" and cv: "validateAuthenticatedConfig cconf' = None"
    using client by (auto simp: ConnectClient_prepare_def split: sum.splits if_splits)
  note cf = prepareForwardSecrecy_frame [OF cfs] and sf = prepareForwardSecrecy_frame [OF server(1)]
  have sc': "server_credentials sconf' = server_credentials sconf" using sf by (simp add: server_credentials_def)
  have "credential_ok hconf cred" using creds(1,4) by (simp add: list_all_iff)
  then have c1: "config_validate ?c = None"
    using same hconf(1) creds(5) by (auto simp: credential_ok_def config_validate_def server_handshake_config_def split: if_splits)
  have fv: "features_valid f" using features(2) unfolding features(3) by (rule requested_features_valid)
  have dev: "length ?dev = 16" "wants_device f \<Longrightarrow> ?dev = ac_DeviceID cconf"
    using device(1) requested_device_kept by (simp_all add: requested_device_def features(3))
  have nz: "wants_device f \<Longrightarrow> \<not> DeviceID_IsZero ?dev" using dev(2) device(2) by simp
  obtain s ch resp cl confirm keys where hs:
      "NewServerHandshake hconf (ac_Features sconf) t0 srandom = Inr (s, ch)"
      "ParseChallenge (Challenge_MarshalBinary ch) = Inr ch" "ch_SupportedFeatures ch = ac_Features sconf"
      "RespondToChallenge H ?c ch f crandom = Inr (resp, cl)"
      "rs_RequestedFeatures resp = f" "rs_DeviceID resp = (if wants_device f then ?dev else zero_bytes 16)"
      "deriveSessionKeys H (auth_key H hconf cred) T = Inr keys"
      "ParseResponse (Response_MarshalBinary resp) = Inr resp"
      "VerifyResponseWithCredentials H s resp now (server_credentials sconf) = (Inr (confirm, keys, cr_ID cred), s\<lparr>sh_used := True\<rparr>)"
      "ParseConfirm (Confirm_MarshalBinary confirm) = Inr confirm" "VerifyConfirm (Some cl) confirm = Inr keys"
    using hash32.handshake_honest [OF H hconf(2) features(1) random(1) c1 fv features(4) random(2), of cred
        "server_credentials sconf" now t0 T] dev(1) nz same hconf(1) creds time T others
    by (auto simp: server_handshake_config_def)
  have ks: "keys_sized keys" using hash32.deriveSessionKeys_total [OF H, of "auth_key H hconf cred" T] hs(7) by (auto simp: keys_sized_def)
  have ku: "keys_usable H keys" using usable hs(7) by simp
  obtain p where p: "coverProfile f = Inr p" using features(6) by (cases "coverProfile f") (simp_all add: fails_def)
  obtain a b where ab: "startAuthenticated H cc cconf' RoleClient keys f [] ?dev = Some (Inr a)"
    "startAuthenticated H sc sconf' RoleServer keys f (cr_ID cred) (rs_DeviceID resp) = Some (Inr b)"
    "paired a b" "fresh_session a" "fresh_session b" "au_Keys a = keys" "au_Features b = f" "au_CredentialID b = cr_ID cred" "au_DeviceID b = rs_DeviceID resp"
    "\<And>t. au_Cover a = Some t \<Longrightarrow> ct_dummiesPaused t = ac_EnableForwardSecrecy cconf'"
    "\<And>t. au_Cover b = Some t \<Longrightarrow> ct_dummiesPaused t = ac_EnableForwardSecrecy sconf'"
    by (rule honest_layers [OF H cv server(2) ku ks features(5) p same(2), where cid = "cr_ID cred" and cdev = ?dev
          and sdev = "rs_DeviceID resp"]) (use datagrams in auto)
  have "server_credentials sconf \<noteq> []" using creds(1) by auto
  then have "AcceptServer_challenge pub sgen sc sconf t0 srandom None = Inr (sconf', s, Challenge_MarshalBinary ch)"
    using server hs(1) hconf(1) sf sc' by (simp add: AcceptServer_challenge_def server_handshake_config_def)
  moreover have "ConnectClient_respond H cc cconf' (Inr (Challenge_MarshalBinary ch)) crandom None =
      Inr (cl, f, ?dev, Response_MarshalBinary resp)"
    using ConnectClient_respond_parsed [OF hs(2), of H cconf' cc crandom resp cl] hs(3,4) cf features(3)
      requested_frame [of cconf' cconf] by simp
  moreover have "AcceptServer_verify H sconf' s (Inr (Response_MarshalBinary resp)) now None =
      Inr (Confirm_MarshalBinary confirm, keys, f, cr_ID cred, rs_DeviceID resp)"
    using hs(5,8,9) sc' by (simp add: AcceptServer_verify_def)
  moreover have "ConnectClient_confirm H cc cconf' cl f ?dev (Inr (Confirm_MarshalBinary confirm)) = Some (Inr a)"
    using hs(10,11) ab(1) by (simp add: ConnectClient_confirm_def)
  ultimately have "handshake_run H pub cgen sgen cc sc cconf sconf t0 now srandom crandom = Some (a, b)"
    using client ab(2) by (simp add: handshake_run_def)
  then show ?thesis using ab hs(6,7) dev(2) cf sf by (intro exI [of _ a] exI [of _ b]) simp
qed


text \<open>A small instance: a constant hash, a toy key exchange, one root secret and forward secrecy on both sides.\<close>

definition unit_hash :: hash where
  "unit_hash m = zero_bytes 31 @ [1]"

definition sample_setup_parameters :: ExtensionParameters where
  "sample_setup_parameters = zero_parameters\<lparr>Capabilities := CapabilityMosaicCover, MaxSessionReceiveBytes := 4194304,
     MaxStreamWindowBytes := 262144\<rparr>"

definition sample_client :: AuthenticatedConfig where
  "sample_client =
     \<lparr>ac_RootSecret = replicate 32 1, ac_Credentials = [], ac_ServerIdentity = str ''np.example'',
      ac_Features = FeatureCellAEAD OR FeatureDeviceIdentity OR FeatureProfileWeb, ac_InitialWindow = 65536, ac_MaxStreams = 8,
      ac_MaxCoverOverheadPercent = 20, ac_MaxCoverBudgetBytes = 0, ac_DisableCover = False, ac_ExtensionOffer = None,
      ac_ExtensionRequest = Some sample_setup_parameters, ac_RequiredExtensions = 0, ac_ExtensionTimeout = 0,
      ac_EnableForwardSecrecy = True, ac_DeviceID = replicate 16 3, ac_forwardSecret = None\<rparr>"

definition sample_server :: AuthenticatedConfig where
  "sample_server = sample_client\<lparr>ac_ExtensionOffer := Some sample_setup_parameters, ac_ExtensionRequest := None\<rparr>"

definition sample_connection :: connection where
  "sample_connection = \<lparr>cn_Kind = CarrierHTTPS, cn_DatagramLimit = Some 1400, cn_RemoteAddresses = []\<rparr>"

definition sample_public :: "bytes \<Rightarrow> bytes" where
  "sample_public k = take 32 (k @ zero_bytes 32)"

lemma unit_hash32: "hash32 unit_hash"
  by (simp add: hash32_def unit_hash_def)

lemma unit_hash_nonzero: "unit_hash m \<noteq> zero_bytes 32" "hmac unit_hash k m \<noteq> zero_bytes 32"
  by (simp_all add: hmac_def unit_hash_def Let_def eval_nat_numeral)

lemma unit_hash_keys: "deriveSessionKeys unit_hash k T = Inr keys \<Longrightarrow> keys_usable unit_hash keys"
proof -
  have d: "derive unit_hash secret salt info 32 = Inr (unit_hash [])" for secret salt info
    by (simp add: derive_def hkdf_key_def hmac_def unit_hash_def Let_def)
  assume "deriveSessionKeys unit_hash k T = Inr keys"
  then have "sk_HeaderMap keys = unit_hash []" "sk_Control keys = unit_hash []" "sk_ClientToServer keys = unit_hash []"
    "sk_ServerToClient keys = unit_hash []"
    by (auto simp: deriveSessionKeys_def d Let_def)
  moreover have "NewTypeMap unit_hash (unit_hash []) \<noteq> None"
    using zero_block_type_map [OF _ unit_hash_nonzero(1), of unit_hash] by (fastforce simp: unit_hash_def)
  ultimately show ?thesis by (simp add: keys_usable_def deriveCoverSeed_def unit_hash_nonzero)
qed

lemma sample_envelope:
  assumes "p = sample_setup_parameters\<lparr>Capabilities := CapabilityMosaicCover OR CapabilityForwardSecrecy, ForwardSecretKeyShare := k\<rparr>"
    and "length k = 32" "k \<noteq> zero_bytes 32"
  shows "parameters_validate p = None" and "t = ExtensionOffer \<or> t = ExtensionAccept \<Longrightarrow> \<not> fails (parameters_Envelope p t 1)"
proof -
  show v: "parameters_validate p = None"
    unfolding validate_None using assms(3) by (simp add: assms(1) sample_setup_parameters_def zero_parameters_def)
  have "length (ForwardSecretKeyShare p) = 32" using assms(1,2) by simp
  moreover assume "t = ExtensionOffer \<or> t = ExtensionAccept"
  then have "ext_type_valid t" by (auto simp: ext_type_valid_def)
  ultimately obtain e where "parameters_Envelope p t 1 = Inr e" using parameters_wire [OF v, of t 1] by (auto simp del: One_nat_def)
  then show "\<not> fails (parameters_Envelope p t 1)" by (simp add: fails_def)
qed

definition sample_client' :: AuthenticatedConfig where
  "sample_client' = sample_client\<lparr>ac_ExtensionRequest := Some (sample_setup_parameters\<lparr>Capabilities :=
      CapabilityMosaicCover OR CapabilityForwardSecrecy, ForwardSecretKeyShare := replicate 32 2\<rparr>),
     ac_forwardSecret := Some \<lparr>kp_private = Some (replicate 32 2), kp_public = replicate 32 2\<rparr>,
     ac_RequiredExtensions := CapabilityForwardSecrecy\<rparr>"

definition sample_server' :: AuthenticatedConfig where
  "sample_server' = sample_server\<lparr>ac_ExtensionOffer := Some (sample_setup_parameters\<lparr>Capabilities :=
      CapabilityMosaicCover OR CapabilityForwardSecrecy, ForwardSecretKeyShare := replicate 32 4\<rparr>),
     ac_forwardSecret := Some \<lparr>kp_private = Some (replicate 32 4), kp_public = replicate 32 4\<rparr>\<rparr>"

lemma sample_prepare:
  "prepareForwardSecrecy sample_public (Some (replicate 32 2)) sample_client RoleClient = Inr sample_client'"
  "prepareForwardSecrecy sample_public (Some (replicate 32 4)) sample_server RoleServer = Inr sample_server'"
  by (simp_all add: prepareForwardSecrecy_def GenerateX25519KeyPair_def x25519KeyPair_def sample_public_def KeyPair_Public_def
      sample_client_def sample_server_def sample_client'_def sample_server'_def sample_setup_parameters_def zero_parameters_def)

lemma sample_valid:
  "validateAuthenticatedConfig sample_client' = None" "validateAuthenticatedConfig sample_server' = None"
  using sample_envelope(2) [OF HOL.refl, of "replicate 32 2" ExtensionAccept] sample_envelope(2) [OF HOL.refl, of "replicate 32 4" ExtensionOffer]
  by (simp_all add: validateAuthenticatedConfig_def validateExtensionConfig_def sample_client'_def sample_server'_def
      sample_server_def sample_client_def)


lemma sample_fields:
  "ac_ServerIdentity sample_client = str ''np.example''" "ac_ServerIdentity sample_server = str ''np.example''"
  "ac_RootSecret sample_client = replicate 32 1" "ac_DeviceID sample_client = replicate 16 3"
  "ac_Features sample_client = FeatureCellAEAD OR FeatureDeviceIdentity OR FeatureProfileWeb"
  "ac_Features sample_server = FeatureCellAEAD OR FeatureDeviceIdentity OR FeatureProfileWeb"
  "ac_EnableForwardSecrecy sample_client" "ac_EnableForwardSecrecy sample_server"
  "server_credentials sample_server = [\<lparr>cr_ID = str ''legacy'', cr_RootSecret = replicate 32 1\<rparr>]"
  by (simp_all add: sample_server_def sample_client_def server_credentials_def)

theorem session_established_witness:
  "\<exists>a b. handshake_run unit_hash sample_public (Some (replicate 32 2)) (Some (replicate 32 4)) sample_connection sample_connection
       sample_client sample_server 0 0 (replicate 32 5) (replicate 32 6) = Some (a, b)
     \<and> paired a b \<and> au_CredentialID b = str ''legacy'' \<and> au_DeviceID b = replicate 16 3
     \<and> (\<forall>t. au_Cover b = Some t \<longrightarrow> ct_dummiesPaused t)"
proof -
  let ?h = "server_handshake_config sample_connection sample_server"
  let ?cred = "\<lparr>cr_ID = str ''legacy'', cr_RootSecret = replicate 32 1\<rparr>"
  let ?f = "FeatureCellAEAD OR FeatureDeviceIdentity OR FeatureProfileWeb"
  have prep: "ConnectClient_prepare sample_public (Some (replicate 32 2)) sample_client = Inr sample_client'"
    by (simp add: ConnectClient_prepare_def sample_prepare sample_valid)
  have hconf: "config_validate ?h = None"
    by (simp add: server_handshake_config_def sample_fields config_validate_def carrier_valid_def sample_connection_def)
  have f: "?f = requested_features sample_client (ac_Features sample_server)"
    "requested_device sample_client (ac_Features sample_server) = replicate 16 3"
    by (simp_all add: requested_features_def requested_device_def sample_fields)
  have cover: "\<not> fails (coverProfile ?f)" by (simp add: coverProfile_def fails_def Let_def)
  have "\<exists>a b. handshake_run unit_hash sample_public (Some (replicate 32 2)) (Some (replicate 32 4)) sample_connection sample_connection
       sample_client sample_server 0 0 (replicate 32 5) (replicate 32 6) = Some (a, b)
     \<and> paired a b \<and> fresh_session a \<and> fresh_session b
     \<and> deriveSessionKeys unit_hash (auth_key unit_hash ?h ?cred) (buildTranscript ?h \<lparr>ch_Version = Version,
         ch_ServerNonce = take 32 (replicate 32 5), ch_SupportedFeatures = ac_Features sample_server\<rparr> (take 32 (replicate 32 6)) ?f
         (requested_device sample_client (ac_Features sample_server))) = Inr (au_Keys a)
     \<and> au_Features b = ?f \<and> au_CredentialID b = cr_ID ?cred
     \<and> au_DeviceID b = (if wants_device ?f then ac_DeviceID sample_client else zero_bytes DeviceIDSize)
     \<and> (\<forall>t. au_Cover a = Some t \<longrightarrow> ct_dummiesPaused t = ac_EnableForwardSecrecy sample_client)
     \<and> (\<forall>t. au_Cover b = Some t \<longrightarrow> ct_dummiesPaused t = ac_EnableForwardSecrecy sample_server)"
    by (rule session_established [OF unit_hash32 prep sample_prepare(2) sample_valid(2) HOL.refl hconf])
      (use hconf f cover unit_hash_keys in \<open>simp_all add: sample_fields sample_connection_def
         credential_ok_def server_handshake_config_def features_valid_def knownFeatures_def DeviceID_IsZero_def CarrierDatagramPayloadLimit_def\<close>)
  then show ?thesis by (auto simp: sample_fields)
qed

end
