(* ===== verification/NP_Session_Run.thy ===== *)
theory NP_Session_Run
  imports NP_Session
begin

text \<open>
  The extension exchange of an established session, end to end: every message is sent by the multiplexer,
  padded by the cover transport, sealed by the encrypted carrier, opened by the peer's, handled by its read
  loop and taken by \<open>ReceiveExtension\<close>. Proved: an honest exchange completes on both sides with the same
  parameters, and with forward secrecy both sides have switched to the same new keys on a channel that is
  still synchronised.
\<close>

section \<open>One message from end to end\<close>

text \<open>
  \<open>carry seal opn H pad raw x y\<close>: the cell \<open>raw\<close> leaves \<open>x\<close> as \<open>pad raw\<close> and reaches the application of
  \<open>y\<close>; \<open>None\<close> is a failure on the way.
\<close>

definition carry ::
  "(bytes \<Rightarrow> bytes \<Rightarrow> bytes \<Rightarrow> bytes \<Rightarrow> bytes) \<Rightarrow> (bytes \<Rightarrow> bytes \<Rightarrow> bytes \<Rightarrow> bytes \<Rightarrow> bytes option) \<Rightarrow> hash \<Rightarrow> (bytes \<Rightarrow> bytes)
     \<Rightarrow> bytes \<Rightarrow> Authenticated \<Rightarrow> Authenticated \<Rightarrow> (ExtensionEnvelope \<times> Authenticated \<times> Authenticated) option" where
  "carry seal opn H pad raw x y =
     (case ec_Send seal H None (au_encrypted x) (pad raw) of
        (Inl _, _) \<Rightarrow> None
      | (Inr rcd, ex) \<Rightarrow>
        (case ec_Receive opn H (au_encrypted y) rcd of
           (Inl _, _) \<Rightarrow> None
         | (Inr raw', ey) \<Rightarrow>
           (case readLoop_step (Inr raw') None (au_Mux y) of
              (alive, m, sent) \<Rightarrow>
                (case ReceiveExtension Answered m of
                   (Some (Inr envelope), m') \<Rightarrow>
                     if alive then Some (envelope, x\<lparr>au_encrypted := ex\<rparr>, y\<lparr>au_encrypted := ey, au_Mux := m'\<rparr>) else None
                 | _ \<Rightarrow> None))))"

text \<open>Padding that the receiver does not see.\<close>

definition transparent :: "TypeMap \<Rightarrow> (bytes \<Rightarrow> bytes) \<Rightarrow> bool" where
  "transparent tm pad \<longleftrightarrow> (\<forall>raw. visible tm raw \<noteq> None \<longrightarrow> visible tm (pad raw) = visible tm raw)"

definition sole :: "bytes list \<Rightarrow> bytes option" where
  "sole sent = (case sent of [raw] \<Rightarrow> Some raw | _ \<Rightarrow> None)"

section \<open>The exchange\<close>

text \<open>From the confirmation of the server to the end of both sides; \<open>rawC\<close> is the confirmation.\<close>

definition forward_secret_run ::
  "(bytes \<Rightarrow> bytes \<Rightarrow> bytes \<Rightarrow> bytes \<Rightarrow> bytes) \<Rightarrow> (bytes \<Rightarrow> bytes \<Rightarrow> bytes \<Rightarrow> bytes \<Rightarrow> bytes option) \<Rightarrow> hash \<Rightarrow> (bytes \<Rightarrow> bytes)
     \<Rightarrow> connection \<Rightarrow> connection \<Rightarrow> ExtensionParameters \<times> ExtensionParameters \<times> SessionKeys
     \<Rightarrow> ExtensionParameters \<times> ExtensionParameters \<times> SessionKeys \<Rightarrow> bytes \<Rightarrow> Authenticated \<Rightarrow> Authenticated
     \<Rightarrow> (Authenticated \<times> Authenticated) option" where
  "forward_secret_run seal opn H pad cc sc = (\<lambda>(coffer, cselected, ckeys) (soffer, sselected, skeys) rawC a b.
     do {
       (confirmation, b1, a1) \<leftarrow> carry seal opn H pad rawC b a;
       b2 \<leftarrow> ok (server_fs_sent H skeys b1);
       (case client_fs_confirm H ckeys coffer cselected (Inr confirmation) None a1 of
          (Some _, _, _) \<Rightarrow> None
        | (None, a2, sent) \<Rightarrow>
            do {
              raw \<leftarrow> sole sent;
              (ack, a3, b3) \<leftarrow> carry seal opn H pad raw a2 b2;
              (case (client_fs_finish cc cselected None a3,
                     server_complete sc sselected (server_fs_ack H skeys soffer sselected (Inr ack)) b3) of
                 ((None, a4), (ServerDone None, b4)) \<Rightarrow> Some (a4, b4)
               | _ \<Rightarrow> None)
            })
     })"

definition extension_run ::
  "(bytes \<Rightarrow> bytes \<Rightarrow> bytes \<Rightarrow> bytes \<Rightarrow> bytes) \<Rightarrow> (bytes \<Rightarrow> bytes \<Rightarrow> bytes \<Rightarrow> bytes \<Rightarrow> bytes option) \<Rightarrow> hash
     \<Rightarrow> (bytes \<Rightarrow> bytes \<Rightarrow> bytes option) \<Rightarrow> (bytes \<Rightarrow> bytes) \<Rightarrow> connection \<Rightarrow> connection \<Rightarrow> AuthenticatedConfig \<Rightarrow> AuthenticatedConfig
     \<Rightarrow> Authenticated \<Rightarrow> Authenticated \<Rightarrow> (Authenticated \<times> Authenticated) option" where
  "extension_run seal opn H dh pad cc sc cconf sconf a b =
     (case server_offer sconf None b of
        (Some _, _, _) \<Rightarrow> None
      | (None, b1, sent) \<Rightarrow>
        do {
          offer \<leftarrow> ac_ExtensionOffer sconf;
          rawO \<leftarrow> sole sent;
          (envO, b2, a1) \<leftarrow> carry seal opn H pad rawO b1 a;
          (case client_extensions H dh cc cconf (Inr envO) None a1 of
             (client, a2, sentA) \<Rightarrow>
               do {
                 rawA \<leftarrow> sole sentA;
                 (envA, a3, b3) \<leftarrow> carry seal opn H pad rawA a2 b2;
                 (case server_accept H dh sc sconf offer (Inr envA) None b3 of
                    (server, b4, sentC) \<Rightarrow>
                      (case (client, server) of
                         (ClientDone None, ServerDone None) \<Rightarrow> Some (a3, b4)
                       | (ClientAwaits selected offer' ckeys, ServerAwaits selected' skeys) \<Rightarrow>
                           do {
                             rawC \<leftarrow> sole sentC;
                             forward_secret_run seal opn H pad cc sc (offer', selected, ckeys) (offer, selected', skeys) rawC a3 b4
                           }
                       | _ \<Rightarrow> None))
               })
        })"

section \<open>Delivery of one message\<close>

lemma wire_envelope_visible:
  assumes "wire_envelope tm raw = Some e" and "transparent tm pad"
  shows "wire_envelope tm (pad raw) = Some e"
proof -
  obtain c where c: "DecodeCell tm raw = Inr c" "Kind c = CellProfile" using assms(1)
    by (auto simp: wire_envelope_def split: sum.split_asm if_split_asm)
  then have "visible tm raw = Some (c\<lparr>Padding := []\<rparr>)" by (simp add: visible_def)
  with assms(2) have "visible tm (pad raw) = Some (c\<lparr>Padding := []\<rparr>)" by (metis transparent_def option.distinct(1))
  then obtain c' where c': "DecodeCell tm (pad raw) = Inr c'" "c'\<lparr>Padding := []\<rparr> = c\<lparr>Padding := []\<rparr>"
    by (auto simp: visible_def split: sum.split_asm if_split_asm)
  then have "Kind c' = Kind c" "StreamID c' = StreamID c" "Payload c' = Payload c"
    by (metis Cell.select_convs Cell.surjective Cell.update_convs)+
  with assms(1) c c' show ?thesis by (simp add: wire_envelope_def split: if_split_asm)
qed

text \<open>A send that neither exhausts the counter nor ratchets the key.\<close>

definition can_send :: "encryptedCarrier \<Rightarrow> bool" where
  "can_send c \<longleftrightarrow> ec_sendCounter c < 2 \<and> (ec_epochInterval c = 0 \<or> ec_sendCounter c = 0)"

lemma ec_Send_ok:
  assumes "can_send c" and "length p \<le> MaxCellSize"
  obtains r c' where "ec_Send seal H None c p = (Inr r, c')"
    "ec_pendingRekey c = None \<Longrightarrow> c' = c\<lparr>ec_sendCounter := ec_sendCounter c + 1\<rparr>"
proof -
  have "ec_sendCounter c \<noteq> MaxUint64" using assms(1) by (auto simp: can_send_def)
  moreover have "rotateSendEpochIfNeeded H c = Inr c" using assms(1) by (auto simp: can_send_def rotateSendEpochIfNeeded_def)
  ultimately show thesis using assms(2) that by (simp add: ec_Send_def Let_def)
qed

lemma ec_Receive_frame:
  "ec_Receive opn H c r = (Inr p, c') \<Longrightarrow> ec_sendCounter c' = ec_sendCounter c \<and> ec_epochInterval c' = ec_epochInterval c"
  by (auto simp: ec_Receive_def rotateReceiveEpochIfNeeded_def newAEAD_def Let_def split: if_split_asm option.split_asm)

lemma wire_envelope_length: "wire_envelope tm raw = Some e \<Longrightarrow> length raw \<le> MaxCellSize"
  by (auto simp: wire_envelope_def DecodeCell_def split: sum.split_asm if_split_asm)

text \<open>Fields of a session that carrying a message does not touch.\<close>

definition same_layers :: "Authenticated \<Rightarrow> Authenticated \<Rightarrow> bool" where
  "same_layers a a' \<longleftrightarrow>
     au_Keys a' = au_Keys a \<and> au_Features a' = au_Features a \<and> au_Carrier a' = au_Carrier a \<and> au_Cover a' = au_Cover a
     \<and> au_Datagrams a' = au_Datagrams a \<and> au_extensions a' = au_extensions a \<and> mx_role (au_Mux a') = mx_role (au_Mux a)"

lemma carry_plain:
  assumes aead: "aead_correct seal opn" and pad: "transparent tm pad" and d: "duplex (au_encrypted x) (au_encrypted y)"
    and send: "can_send (au_encrypted x)" and w: "wire_envelope tm raw = Some e"
    and y: "ext_idle tm hi (au_Mux y)" and hi: "hi < env_MessageID e"
  obtains x' y' where "carry seal opn H pad raw x y = Some (e, x', y')" "duplex (au_encrypted x') (au_encrypted y')"
    "same_layers x x'" "same_layers y y'" "au_Mux x' = au_Mux x" "ext_idle tm (env_MessageID e) (au_Mux y')"
    "ec_sendCounter (au_encrypted x') = ec_sendCounter (au_encrypted x) + 1"
    "ec_epochInterval (au_encrypted x') = ec_epochInterval (au_encrypted x)"
    "ec_sendCounter (au_encrypted y') = ec_sendCounter (au_encrypted y)"
    "ec_epochInterval (au_encrypted y') = ec_epochInterval (au_encrypted y)"
proof -
  note w' = wire_envelope_visible [OF w pad]
  have none: "ec_pendingRekey (au_encrypted x) = None" using d by (simp add: duplex_def)
  obtain r ex where s: "ec_Send seal H None (au_encrypted x) (pad raw) = (Inr r, ex)"
    "ex = (au_encrypted x)\<lparr>ec_sendCounter := ec_sendCounter (au_encrypted x) + 1\<rparr>"
    by (rule ec_Send_ok [OF send wire_envelope_length [OF w']]) (use none in blast)
  obtain ey where ey: "ec_Receive opn H (au_encrypted y) r = (Inr (pad raw), ey)" "duplex ex ey"
    by (rule duplex_step [OF aead d s(1)])
  obtain m1 m2 where m: "readLoop_step (Inr (pad raw)) None (au_Mux y) = (True, m1, [])"
    "ReceiveExtension Answered m1 = (Some (Inr e), m2)" "ext_idle tm (env_MessageID e) m2" "mx_role m2 = mx_role (au_Mux y)"
    by (rule deliver_idle [OF w' y hi])
  have "carry seal opn H pad raw x y = Some (e, x\<lparr>au_encrypted := ex\<rparr>, y\<lparr>au_encrypted := ey, au_Mux := m2\<rparr>)"
    by (simp add: carry_def s(1) ey(1) m(1,2))
  from that [OF this] show thesis using ec_Receive_frame [OF ey(1)] ey(2) m(3,4) s(2) by (simp add: same_layers_def)
qed

lemma carry_rekey:
  assumes aead: "aead_correct seal opn" and pad: "transparent tm pad" and d: "duplex e0 (au_encrypted y)"
    and arm: "rekeyAfterNextSend keys e0 = Inr (au_encrypted x)" and send: "can_send (au_encrypted x)"
    and w: "wire_envelope tm raw = Some e" and y: "ext_idle tm hi (au_Mux y)" and hi: "hi < env_MessageID e"
  obtains x' y' ey where "carry seal opn H pad raw x y = Some (e, x', y')"
    "ec_rekey keys (au_encrypted y') = Inr ey" "duplex (au_encrypted x') ey"
    "same_layers x x'" "same_layers y y'" "au_Mux x' = au_Mux x" "ext_idle tm (env_MessageID e) (au_Mux y')"
    "ec_epochInterval (au_encrypted x') = recordKeyEpochInterval"
proof -
  note w' = wire_envelope_visible [OF w pad]
  obtain r ex where s: "ec_Send seal H None (au_encrypted x) (pad raw) = (Inr r, ex)"
    by (rule ec_Send_ok [OF send wire_envelope_length [OF w']])
  obtain e1 ey where ey: "ec_Receive opn H (au_encrypted y) r = (Inr (pad raw), e1)" "ec_rekey keys e1 = Inr ey" "duplex ex ey"
    "ec_epochInterval ex = recordKeyEpochInterval"
    by (rule duplex_rekey [OF aead d arm s])
  obtain m1 m2 where m: "readLoop_step (Inr (pad raw)) None (au_Mux y) = (True, m1, [])"
    "ReceiveExtension Answered m1 = (Some (Inr e), m2)" "ext_idle tm (env_MessageID e) m2" "mx_role m2 = mx_role (au_Mux y)"
    by (rule deliver_idle [OF w' y hi])
  have "carry seal opn H pad raw x y = Some (e, x\<lparr>au_encrypted := ex\<rparr>, y\<lparr>au_encrypted := e1, au_Mux := m2\<rparr>)"
    by (simp add: carry_def s(1) ey(1) m(1,2))
  from that [OF this] show thesis using ey m(3,4) by (simp add: same_layers_def)
qed

section \<open>The datagram layer\<close>

lemma rekey_datagrams_ok:
  assumes "hash32 H" and "sk_Control keys \<noteq> zero_bytes 32"
  obtains ds where "rekey_datagrams H keys x = Inr (x\<lparr>au_Datagrams := ds\<rparr>)"
    "rel_option (\<lambda>d d'. datagram_rekey H keys d = Inr d') (au_Datagrams x) ds"
proof (cases "au_Datagrams x")
  case None
  then show thesis using that [of None] by (cases x) (simp add: rekey_datagrams_def)
next
  case (Some d)
  obtain d' where "datagram_rekey H keys d = Inr d'"
    using hash32.datagram_keys_total [OF assms(1), of "sk_Control keys" "dm_sendDirection d = recordDirectionServerToClient"] assms(2)
    by (auto simp: datagram_rekey_def)
  then show thesis using that [of "Some d'"] Some by (simp add: rekey_datagrams_def)
qed

lemma datagrams_paired_rekey:
  assumes "datagrams_paired a b" and "rel_option (\<lambda>d d'. datagram_rekey H keys d = Inr d') a a'"
    and "rel_option (\<lambda>d d'. datagram_rekey H keys d = Inr d') b b'"
  shows "datagrams_paired a' b'"
proof -
  have dir: "dm_sendDirection d' = dm_sendDirection d \<and> dm_recvDirection d' = dm_recvDirection d \<and> dm_kind d' = dm_kind d"
    if "datagram_rekey H keys d = Inr d'" for d d'
    using that by (auto simp: datagram_rekey_def split: if_split_asm)
  have sync: "dg_sync x' y' \<and> dg_sync y' x'"
    if "datagram_rekey H keys x = Inr x'" "datagram_rekey H keys y = Inr y'" "dg_sync x y" "dg_sync y x"
      "dm_sendDirection x = recordDirectionClientToServer" "dm_sendDirection y = recordDirectionServerToClient" for x x' y y'
  proof -
    from that(1,5) obtain sk rk sn rn where k: "datagram_keys H (sk_Control keys) False = Inr (sk, rk, sn, rn)"
      by (auto simp: datagram_rekey_def split: if_split_asm)
    from datagram_keys_swap [OF k] k that show ?thesis by (auto simp: datagram_rekey_def dg_sync_def split: if_split_asm)
  qed
  have "dm_sendDirection x' = recordDirectionClientToServer" if ax: "a' = Some x'" for x'
  proof -
    obtain x where "a = Some x" "datagram_rekey H keys x = Inr x'" using assms(2) ax by (auto simp: option_rel_Some2)
    with assms(1) dir [of x x'] show ?thesis by (simp add: datagrams_paired_def)
  qed
  moreover have "dm_sendDirection y' = recordDirectionServerToClient" if ay: "b' = Some y'" for y'
  proof -
    obtain y where "b = Some y" "datagram_rekey H keys y = Inr y'" using assms(3) ay by (auto simp: option_rel_Some2)
    with assms(1) dir [of y y'] show ?thesis by (simp add: datagrams_paired_def)
  qed
  moreover have "dg_sync x' y' \<and> dg_sync y' x'" if ab: "a' = Some x'" "b' = Some y'" for x' y'
  proof -
    obtain x y where o: "a = Some x" "datagram_rekey H keys x = Inr x'" "b = Some y" "datagram_rekey H keys y = Inr y'"
      using assms(2,3) ab by (auto simp: option_rel_Some2)
    show ?thesis by (rule sync [OF o(2,4)]) (use assms(1) o(1,3) in \<open>simp_all add: datagrams_paired_def\<close>)
  qed
  ultimately show ?thesis unfolding datagrams_paired_def by blast
qed

lemma Enable_fields [simp]:
  "dm_sendAEAD (snd (Enable l n d)) = dm_sendAEAD d" "dm_receiveAEAD (snd (Enable l n d)) = dm_receiveAEAD d"
  "dm_sendPrefix (snd (Enable l n d)) = dm_sendPrefix d" "dm_receivePrefix (snd (Enable l n d)) = dm_receivePrefix d"
  "dm_sendDirection (snd (Enable l n d)) = dm_sendDirection d" "dm_recvDirection (snd (Enable l n d)) = dm_recvDirection d"
  "dm_kind (snd (Enable l n d)) = dm_kind d"
  by (simp_all add: Enable_def Let_def)

lemma dg_sync_Enable [simp]: "dg_sync (snd (Enable l n x)) (snd (Enable l' n' y)) = dg_sync x y"
  by (simp add: dg_sync_def)

lemma datagrams_paired_map:
  "datagrams_paired a b \<Longrightarrow> datagrams_paired (map_option (\<lambda>d. snd (Enable l n d)) a) (map_option (\<lambda>d. snd (Enable l' n' d)) b)"
  by (auto simp: datagrams_paired_def)

section \<open>Sessions linked by their layers\<close>

text \<open>Everything of \<open>paired\<close> but the record layer, with the highest extension identifier of each side.\<close>

definition linked :: "TypeMap \<Rightarrow> u64 \<Rightarrow> u64 \<Rightarrow> Authenticated \<Rightarrow> Authenticated \<Rightarrow> bool" where
  "linked tm ha hb a b \<longleftrightarrow>
     wf_TypeMap tm \<and> ext_idle tm ha (au_Mux a) \<and> ext_idle tm hb (au_Mux b)
     \<and> au_Keys a = au_Keys b \<and> au_Features a = au_Features b \<and> au_Carrier a = au_Carrier b
     \<and> mx_role (au_Mux a) = RoleClient \<and> mx_role (au_Mux b) = RoleServer
     \<and> datagrams_paired (au_Datagrams a) (au_Datagrams b)
     \<and> (\<forall>t. au_Cover a = Some t \<or> au_Cover b = Some t \<longrightarrow> ct_typeMap t = tm)"

lemma linked_start:
  "paired a b \<Longrightarrow> fresh_session a \<Longrightarrow> fresh_session b \<Longrightarrow> linked (mx_typeMap (au_Mux a)) 0 0 a b"
  by (auto simp: paired_def fresh_session_def linked_def ext_idle_def)

lemma linked_paired: "linked tm ha hb a b \<Longrightarrow> duplex (au_encrypted a) (au_encrypted b) \<Longrightarrow> paired a b"
  unfolding linked_def paired_def ext_idle_def by auto

lemma linked_same:
  "linked tm ha hb a b \<Longrightarrow> same_layers a a' \<Longrightarrow> same_layers b b' \<Longrightarrow> ext_idle tm ha' (au_Mux a') \<Longrightarrow> ext_idle tm hb' (au_Mux b')
     \<Longrightarrow> linked tm ha' hb' a' b'"
  by (auto simp: linked_def same_layers_def)

lemma EnableMosaic_typeMap [simp]: "ct_typeMap (snd (transport_EnableMosaic t)) = ct_typeMap t"
  by (simp add: transport_EnableMosaic_def split: prod.split)

lemmas finish_defs = finish_extensions_def resume_dummies_def complete_extensions_def applyNegotiatedCover_def Let_def

lemma finish_fields:
  "au_Keys (finish_extensions c s a) = au_Keys a" "au_Features (finish_extensions c s a) = au_Features a"
  "au_Carrier (finish_extensions c s a) = au_Carrier a" "au_Mux (finish_extensions c s a) = au_Mux a"
  "au_encrypted (finish_extensions c s a) = au_encrypted a"
  "\<not> ex_done (au_extensions a) \<Longrightarrow> Extensions (Some (finish_extensions c s a)) = (s, True)"
  by (simp_all add: finish_defs complete_def Extensions_def)

lemma finish_cover:
  "au_Cover (finish_extensions c s a) = Some t \<Longrightarrow> \<not> ct_dummiesPaused t"
  "au_Cover (finish_extensions c s a) = Some t \<Longrightarrow> \<exists>t0. au_Cover a = Some t0 \<and> ct_typeMap t = ct_typeMap t0"
  by (auto simp: finish_defs ResumeDummies_def split: if_split_asm)

lemma finish_datagrams:
  "datagrams_paired (au_Datagrams a) (au_Datagrams b) \<Longrightarrow>
     datagrams_paired (au_Datagrams (finish_extensions c s a)) (au_Datagrams (finish_extensions c' s b))"
  using datagrams_paired_map by (simp add: finish_defs)

lemma finish_linked:
  assumes "linked tm ha hb a b"
  shows "linked tm ha hb (finish_extensions c s a) (finish_extensions c' s b)"
proof -
  have "ct_typeMap t = tm" if "au_Cover (finish_extensions c s a) = Some t \<or> au_Cover (finish_extensions c' s b) = Some t" for t
    using that assms finish_cover(2) [of c s a t] finish_cover(2) [of c' s b t] by (auto simp: linked_def)
  with assms finish_datagrams [of a b c s c'] show ?thesis by (simp add: linked_def finish_fields)
qed

section \<open>The forward-secret exchange\<close>

lemma proof_envelope_wire:
  assumes "length v = 32" and "mid \<in> {3, 4}" and "t \<in> {ExtensionTLVForwardSecretConfirm, ExtensionTLVForwardSecretAck}"
  obtains payload where "Envelope_MarshalBinary (proof_envelope mid t v) = Inr payload"
proof -
  have "put_uvarint mid = [ucast mid]" "put_uvarint t = [ucast t]" using assms(2,3) by (auto intro!: put_uvarint_small)
  then have "length (envelope_bytes (proof_envelope mid t v)) = 42"
    using assms(1) by (simp add: envelope_bytes_def proof_envelope_def tlv_bytes_def extensionMagic_def put_uvarint_small)
  moreover have "envelope_ok (proof_envelope mid t v)"
    using assms by (auto simp: envelope_ok_def proof_envelope_def ext_type_valid_def validExtensionTLVType_def)
  ultimately show thesis using that by (simp add: Envelope_MarshalBinary_eq_Inr)
qed

lemma proof_value_envelope [simp]: "length v = 32 \<Longrightarrow> proof_value mid t (Inr (proof_envelope mid t v)) = Some v"
  by (simp add: proof_value_def proof_envelope_def)

lemma proof_envelope_id [simp]: "env_MessageID (proof_envelope mid t v) = mid"
  by (simp add: proof_envelope_def)

lemma rekey_counter: "ec_rekey keys c = Inr c' \<Longrightarrow> ec_sendCounter c' = 0"
  by (auto simp: ec_rekey_def applyRekeyLocked_def)

lemma proofs_defined:
  assumes "hash32 H" and "sk_Control keys \<noteq> zero_bytes 32" "sp \<noteq> zero_bytes 32" "cp \<noteq> zero_bytes 32"
  obtains c k where "ForwardSecretConfirmation H keys sp cp = Inr c" "length c = 32"
    "ForwardSecretAcknowledgement H keys sp cp = Inr k" "length k = 32"
  using assms that
  by (simp add: ForwardSecretConfirmation_def ForwardSecretAcknowledgement_def forwardSecretProof_def hmac_def Let_def hash32_def)

lemma client_fs_confirm_ok:
  assumes H: "hash32 H" and control: "sk_Control keys \<noteq> zero_bytes 32"
    and c: "ForwardSecretConfirmation H keys (ForwardSecretKeyShare offer) (ForwardSecretKeyShare sel) = Inr c" "length c = 32"
    and k: "ForwardSecretAcknowledgement H keys (ForwardSecretKeyShare offer) (ForwardSecretKeyShare sel) = Inr k" "length k = 32"
    and rk: "ec_rekey keys (au_encrypted a) = Inr e" and tm: "wf_TypeMap tm" and a: "ext_idle tm hi (au_Mux a)"
  obtains ds m raw where
    "client_fs_confirm H keys offer sel (Inr (proof_envelope 3 ExtensionTLVForwardSecretConfirm c)) None a =
       (None, a\<lparr>au_encrypted := e, au_Datagrams := ds, au_Keys := keys, au_Mux := m\<rparr>, [raw])"
    "rel_option (\<lambda>d d'. datagram_rekey H keys d = Inr d') (au_Datagrams a) ds" "ext_idle tm hi m" "mx_role m = mx_role (au_Mux a)"
    "wire_envelope tm raw = Some (proof_envelope 4 ExtensionTLVForwardSecretAck k)"
proof -
  obtain ds where ds: "rekey_datagrams H keys (a\<lparr>au_encrypted := e\<rparr>) = Inr (a\<lparr>au_encrypted := e, au_Datagrams := ds\<rparr>)"
    "rel_option (\<lambda>d d'. datagram_rekey H keys d = Inr d') (au_Datagrams a) ds"
    by (rule rekey_datagrams_ok [OF H control, of "a\<lparr>au_encrypted := e\<rparr>"]) simp
  obtain payload where p: "Envelope_MarshalBinary (proof_envelope 4 ExtensionTLVForwardSecretAck k) = Inr payload"
    by (rule proof_envelope_wire [OF k(2), of 4 ExtensionTLVForwardSecretAck]) simp_all
  obtain m raw where m: "SendExtension (proof_envelope 4 ExtensionTLVForwardSecretAck k) None (au_Mux a) = (None, m, [raw])"
    "wire_envelope tm raw = Some (proof_envelope 4 ExtensionTLVForwardSecretAck k)" "ext_idle tm hi m" "mx_role m = mx_role (au_Mux a)"
    by (rule SendExtension_idle [OF p tm a])
  have "client_fs_confirm H keys offer sel (Inr (proof_envelope 3 ExtensionTLVForwardSecretConfirm c)) None a =
       (None, a\<lparr>au_encrypted := e, au_Datagrams := ds, au_Keys := keys, au_Mux := m\<rparr>, [raw])"
    using c k rk ds(1) m(1) by (simp add: client_fs_confirm_def Let_def)
  from that [OF this ds(2) m(3,4,2)] show thesis .
qed

lemma linked_rekeyed:
  assumes "linked tm ha hb a b" and "same_layers a a1" "same_layers b b1"
    and "rel_option (\<lambda>d d'. datagram_rekey H keys d = Inr d') (au_Datagrams a1) da"
    and "rel_option (\<lambda>d d'. datagram_rekey H keys d = Inr d') (au_Datagrams b1) db"
    and "ext_idle tm ha' m" "mx_role m = mx_role (au_Mux a1)" and "ext_idle tm hb' (au_Mux b1)"
  shows "linked tm ha' hb' (a1\<lparr>au_encrypted := e, au_Datagrams := da, au_Keys := keys, au_Mux := m\<rparr>)
    (b1\<lparr>au_Datagrams := db, au_Keys := keys\<rparr>)"
  using assms datagrams_paired_rekey [of "au_Datagrams a" "au_Datagrams b" H keys da db]
  unfolding linked_def same_layers_def by auto

lemma forward_secret_run_ok:
  assumes aead: "aead_correct seal opn" and pad: "transparent tm pad" and H: "hash32 H"
    and l: "linked tm 1 2 a b" and d: "duplex e0 (au_encrypted a)"
    and arm: "rekeyAfterNextSend keys e0 = Inr (au_encrypted b)" and send: "can_send (au_encrypted b)"
    and control: "sk_Control keys \<noteq> zero_bytes 32"
    and shares: "ForwardSecretKeyShare offer \<noteq> zero_bytes 32" "ForwardSecretKeyShare sel \<noteq> zero_bytes 32"
    and c: "ForwardSecretConfirmation H keys (ForwardSecretKeyShare offer) (ForwardSecretKeyShare sel) = Inr c"
    and w: "wire_envelope tm raw = Some (proof_envelope 3 ExtensionTLVForwardSecretConfirm c)"
    and ex: "\<not> ex_done (au_extensions a)" "\<not> ex_done (au_extensions b)"
  obtains a' b' where
    "forward_secret_run seal opn H pad cc sc (offer, sel, keys) (offer, sel, keys) raw a b = Some (a', b')"
    "paired a' b'" "au_Keys a' = keys" "ec_epochInterval (au_encrypted b') = recordKeyEpochInterval"
    "Extensions (Some a') = (sel, True)" "Extensions (Some b') = (sel, True)"
    "\<forall>t. au_Cover a' = Some t \<or> au_Cover b' = Some t \<longrightarrow> \<not> ct_dummiesPaused t"
proof -
  have tm: "wf_TypeMap tm" and idle: "ext_idle tm 1 (au_Mux a)" "ext_idle tm 2 (au_Mux b)" using l by (simp_all add: linked_def)
  obtain c' k where c': "ForwardSecretConfirmation H keys (ForwardSecretKeyShare offer) (ForwardSecretKeyShare sel) = Inr c'"
    "length c' = 32" and k: "ForwardSecretAcknowledgement H keys (ForwardSecretKeyShare offer) (ForwardSecretKeyShare sel) = Inr k"
    "length k = 32" by (rule proofs_defined [OF H control shares])
  have lc: "length c = 32" using c c' by simp
  obtain b1 a1 e where x: "carry seal opn H pad raw b a = Some (proof_envelope 3 ExtensionTLVForwardSecretConfirm c, b1, a1)"
    "ec_rekey keys (au_encrypted a1) = Inr e" "duplex (au_encrypted b1) e" "same_layers b b1" "same_layers a a1" "au_Mux b1 = au_Mux b"
    "ext_idle tm 3 (au_Mux a1)" "ec_epochInterval (au_encrypted b1) = recordKeyEpochInterval"
    by (rule carry_rekey [OF aead pad d arm send w idle(1)]) simp_all
  obtain db where db: "rekey_datagrams H keys b1 = Inr (b1\<lparr>au_Datagrams := db\<rparr>)"
    "rel_option (\<lambda>d d'. datagram_rekey H keys d = Inr d') (au_Datagrams b1) db"
    by (rule rekey_datagrams_ok [OF H control])
  obtain da m rawK where a2: "client_fs_confirm H keys offer sel (Inr (proof_envelope 3 ExtensionTLVForwardSecretConfirm c)) None a1 =
       (None, a1\<lparr>au_encrypted := e, au_Datagrams := da, au_Keys := keys, au_Mux := m\<rparr>, [rawK])"
    "rel_option (\<lambda>d d'. datagram_rekey H keys d = Inr d') (au_Datagrams a1) da" "ext_idle tm 3 m" "mx_role m = mx_role (au_Mux a1)"
    "wire_envelope tm rawK = Some (proof_envelope 4 ExtensionTLVForwardSecretAck k)"
    by (rule client_fs_confirm_ok [OF H control c lc k x(2) tm x(7)])
  define A where "A = a1\<lparr>au_encrypted := e, au_Datagrams := da, au_Keys := keys, au_Mux := m\<rparr>"
  define B where "B = b1\<lparr>au_Datagrams := db, au_Keys := keys\<rparr>"
  have ib: "ext_idle tm 2 (au_Mux b1)" using x(6) idle(2) by simp
  have L: "linked tm 3 2 A B" unfolding A_def B_def by (rule linked_rekeyed [OF l x(5,4) a2(2) db(2) a2(3,4) ib])
  have D: "duplex (au_encrypted A) (au_encrypted B)" using x(3) by (simp add: A_def B_def duplex_sym)
  have S: "can_send (au_encrypted A)" using rekey_counter [OF x(2)] by (simp add: A_def can_send_def)
  have iB: "ext_idle tm 2 (au_Mux B)" using ib by (simp add: B_def)
  obtain A' B' where y: "carry seal opn H pad rawK A B = Some (proof_envelope 4 ExtensionTLVForwardSecretAck k, A', B')"
    "duplex (au_encrypted A') (au_encrypted B')" "same_layers A A'" "same_layers B B'" "au_Mux A' = au_Mux A"
    "ext_idle tm 4 (au_Mux B')" "ec_epochInterval (au_encrypted B') = ec_epochInterval (au_encrypted B)"
    by (rule carry_plain [OF aead pad D S a2(5) iB]) simp_all
  have L': "linked tm 3 4 A' B'" by (rule linked_same [OF L y(3,4) _ y(6)]) (use a2(3) y(5) in \<open>simp add: A_def\<close>)
  have run: "forward_secret_run seal opn H pad cc sc (offer, sel, keys) (offer, sel, keys) raw a b =
      Some (finish_extensions cc sel A', finish_extensions sc sel B')"
    using x(1) db(1) a2(1) y(1) k
    by (simp add: forward_secret_run_def server_fs_sent_def sole_def client_fs_finish_def server_complete_def server_fs_ack_def
        A_def B_def)
  show thesis
  proof (rule that [OF run])
    show "paired (finish_extensions cc sel A') (finish_extensions sc sel B')"
      by (rule linked_paired [OF finish_linked [OF L']]) (simp add: finish_fields y(2))
    have "\<not> ex_done (au_extensions A')" "\<not> ex_done (au_extensions B')"
      using ex x(4,5) y(3,4) by (simp_all add: same_layers_def A_def B_def)
    then show "Extensions (Some (finish_extensions cc sel A')) = (sel, True)" "Extensions (Some (finish_extensions sc sel B')) = (sel, True)"
      by (simp_all add: finish_fields)
  qed (use x(8) y(3,7) finish_cover(1) in \<open>auto simp: finish_fields same_layers_def A_def B_def\<close>)
qed

section \<open>The whole exchange\<close>

lemma prepareForwardSecrecy_pair:
  assumes "prepareForwardSecrecy pub gen config role = Inr config'"
    and "(if role = RoleClient then ac_ExtensionRequest config' else ac_ExtensionOffer config') = Some p"
    and "Capabilities p AND CapabilityForwardSecrecy \<noteq> 0"
  obtains k where "gen = Some k" "ac_forwardSecret config' = Some \<lparr>kp_private = Some k, kp_public = pub k\<rparr>"
    "ForwardSecretKeyShare p = pub k" "length (pub k) = 32"
  using assms that
  by (auto simp: prepareForwardSecrecy_def Let_def GenerateX25519KeyPair_def x25519KeyPair_def KeyPair_Public_def
      split: if_split_asm option.split_asm)

lemma select_forward_secret:
  assumes "sel = selectExtensionParameters offer request" and "Capabilities sel AND CapabilityForwardSecrecy \<noteq> 0"
  shows "Capabilities offer AND CapabilityForwardSecrecy \<noteq> 0" "Capabilities request AND CapabilityForwardSecrecy \<noteq> 0"
    "ForwardSecretKeyShare sel = ForwardSecretKeyShare request"
proof -
  have c: "(Capabilities offer AND Capabilities request) AND CapabilityForwardSecrecy \<noteq> 0"
    using assms(2) unfolding assms(1) select_fields
    by (cases "(Capabilities offer AND Capabilities request) AND CapabilityReliableUDP = 0")
      (simp_all only: ExtensionParameters.select_convs and_disjoint if_True if_False simp_thms)
  from and_part [OF c] show "Capabilities offer AND CapabilityForwardSecrecy \<noteq> 0" "Capabilities request AND CapabilityForwardSecrecy \<noteq> 0"
    by simp_all
  show "ForwardSecretKeyShare sel = ForwardSecretKeyShare request" using c by (simp add: assms(1) select_fields)
qed

lemma finish_same: "same_layers a a' \<Longrightarrow> same_layers (finish_extensions c s a) (finish_extensions c s a')"
  by (auto simp: same_layers_def finish_defs)

lemma rekeyAfterNextSend_ok:
  assumes "ec_pendingRekey c = None" and "sk_ClientToServer keys \<noteq> zero_bytes 32" "sk_ServerToClient keys \<noteq> zero_bytes 32"
    and "length (sk_ClientToServer keys) = 32" "length (sk_ServerToClient keys) = 32" and "can_send c"
  obtains c' where "rekeyAfterNextSend keys c = Inr c'" "can_send c'"
proof -
  have "\<exists>t. prepareRekey c keys = Inr t"
    by (cases "ec_sendDirection c = recordDirectionServerToClient")
      (use assms in \<open>simp_all add: prepareRekey_def newAEAD_def Let_def\<close>)
  then obtain t where "prepareRekey c keys = Inr t" by blast
  with assms that [of "c\<lparr>ec_pendingRekey := Some t\<rparr>"] show thesis by (simp add: rekeyAfterNextSend_def can_send_def)
qed

lemma server_fs_begin_ok:
  assumes H: "hash32 H" and keys: "DeriveForwardSecretSessionKeys H dh (au_Keys b) (Some pair) (ForwardSecretKeyShare sel)
      (ForwardSecretKeyShare offer) (ForwardSecretKeyShare sel) = Inr keys"
    and pair: "ac_forwardSecret config = Some pair" and control: "sk_Control keys \<noteq> zero_bytes 32"
    and shares: "ForwardSecretKeyShare offer \<noteq> zero_bytes 32" "ForwardSecretKeyShare sel \<noteq> zero_bytes 32"
    and arm: "rekeyAfterNextSend keys (au_encrypted b) = Inr e" and tm: "wf_TypeMap tm" and b: "ext_idle tm hi (au_Mux b)"
  obtains c m raw where "server_fs_begin H dh config offer sel None b = (Inr keys, b\<lparr>au_encrypted := e, au_Mux := m\<rparr>, [raw])"
    "ForwardSecretConfirmation H keys (ForwardSecretKeyShare offer) (ForwardSecretKeyShare sel) = Inr c"
    "wire_envelope tm raw = Some (proof_envelope 3 ExtensionTLVForwardSecretConfirm c)" "ext_idle tm hi m"
    "mx_role m = mx_role (au_Mux b)"
proof -
  obtain c k where c: "ForwardSecretConfirmation H keys (ForwardSecretKeyShare offer) (ForwardSecretKeyShare sel) = Inr c" "length c = 32"
    by (rule proofs_defined [OF H control shares])
  obtain payload where p: "Envelope_MarshalBinary (proof_envelope 3 ExtensionTLVForwardSecretConfirm c) = Inr payload"
    by (rule proof_envelope_wire [OF c(2), of 3 ExtensionTLVForwardSecretConfirm]) simp_all
  obtain m raw where m: "SendExtension (proof_envelope 3 ExtensionTLVForwardSecretConfirm c) None (au_Mux b) = (None, m, [raw])"
    "wire_envelope tm raw = Some (proof_envelope 3 ExtensionTLVForwardSecretConfirm c)" "ext_idle tm hi m" "mx_role m = mx_role (au_Mux b)"
    by (rule SendExtension_idle [OF p tm b])
  have "server_fs_begin H dh config offer sel None b = (Inr keys, b\<lparr>au_encrypted := e, au_Mux := m\<rparr>, [raw])"
    using keys pair c(1) arm m(1) by (simp add: server_fs_begin_def Let_def)
  from that [OF this c(1) m(2-4)] show thesis .
qed

text \<open>The offer, from the server to the client.\<close>

lemma offer_phase:
  assumes aead: "aead_correct seal opn" and pad: "transparent tm pad" and l: "linked tm 0 0 a b"
    and d: "duplex (au_encrypted a) (au_encrypted b)" and fresh: "fresh_session a" "fresh_session b"
    and offer: "ac_ExtensionOffer sconf = Some offer" "parameters_validate offer = None" "length (ForwardSecretKeyShare offer) = 32"
  obtains b1 raw e b2 a1 where "server_offer sconf None b = (None, b1, [raw])" "carry seal opn H pad raw b1 a = Some (e, b2, a1)"
    "linked tm 1 0 a1 b2" "duplex (au_encrypted a1) (au_encrypted b2)" "can_send (au_encrypted a1)" "can_send (au_encrypted b2)"
    "env_Type e = ExtensionOffer" "env_MessageID e = 1" "ParseExtensionParameters e = Inr offer"
    "same_layers a a1" "same_layers b b2" "ec_sendCounter (au_encrypted b2) = 1" "ec_epochInterval (au_encrypted b2) = 0"
proof -
  have tm: "wf_TypeMap tm" and idle: "ext_idle tm 0 (au_Mux a)" "ext_idle tm 0 (au_Mux b)" using l by (simp_all add: linked_def)
  obtain m raw e where o: "negotiate_server_offer offer 1 None (au_Mux b) = (None, m, [raw])" "wire_envelope tm raw = Some e"
    "ext_idle tm 0 m" "mx_role m = mx_role (au_Mux b)" "env_Type e = ExtensionOffer" "env_MessageID e = 1"
    "ParseExtensionParameters e = Inr offer"
    by (rule offer_honest [OF offer(2,3) _ _ tm idle(2), of 1]) simp_all
  let ?b1 = "b\<lparr>au_Mux := m\<rparr>"
  have s: "server_offer sconf None b = (None, ?b1, [raw])" by (simp add: server_offer_def offer(1) o(1))
  have "duplex (au_encrypted ?b1) (au_encrypted a)" using d by (simp add: duplex_sym)
  moreover have "can_send (au_encrypted ?b1)" using fresh(2) by (simp add: fresh_session_def can_send_def)
  ultimately obtain b2 a1 where c: "carry seal opn H pad raw ?b1 a = Some (e, b2, a1)" "duplex (au_encrypted b2) (au_encrypted a1)"
    "same_layers ?b1 b2" "same_layers a a1" "au_Mux b2 = au_Mux ?b1" "ext_idle tm 1 (au_Mux a1)"
    "ec_sendCounter (au_encrypted b2) = ec_sendCounter (au_encrypted ?b1) + 1"
    "ec_epochInterval (au_encrypted b2) = ec_epochInterval (au_encrypted ?b1)"
    "ec_sendCounter (au_encrypted a1) = ec_sendCounter (au_encrypted a)" "ec_epochInterval (au_encrypted a1) = ec_epochInterval (au_encrypted a)"
    by (rule carry_plain [OF aead pad _ _ o(2) idle(1)]) (simp_all add: o(6))
  have sb: "same_layers b b2" using c(3) o(4) by (simp add: same_layers_def)
  have "linked tm 1 0 a1 b2" by (rule linked_same [OF l c(4) sb c(6)]) (use c(5) o(3) in simp)
  from that [OF s c(1) this duplex_sym [OF c(2)] _ _ o(5-7) c(4) sb] show thesis
    using c(7-10) fresh by (simp add: can_send_def fresh_session_def)
qed

text \<open>The answer without forward secrecy.\<close>

lemma accept_phase_plain:
  assumes aead: "aead_correct seal opn" and pad: "transparent tm pad" and l: "linked tm 1 0 a b"
    and d: "duplex (au_encrypted a) (au_encrypted b)" and send: "can_send (au_encrypted a)"
    and e: "env_Type e = ExtensionOffer" "env_MessageID e = 1" "ParseExtensionParameters e = Inr offer"
    and valid: "parameters_validate offer = None" "parameters_validate request = None" "length (ForwardSecretKeyShare request) = 32"
    and request: "ac_ExtensionRequest cconf = Some request" and sel: "sel = selectExtensionParameters offer request"
    and required: "ac_RequiredExtensions cconf AND NOT (Capabilities sel) = 0"
    and plain: "Capabilities sel AND CapabilityForwardSecrecy = 0"
    and ex: "\<not> ex_done (au_extensions a)" "\<not> ex_done (au_extensions b)"
  obtains a2 raw env a3 b3 b4 where "client_extensions H dh cc cconf (Inr e) None a = (ClientDone None, a2, [raw])"
    "carry seal opn H pad raw a2 b = Some (env, a3, b3)"
    "server_accept H dh sc sconf offer (Inr env) None b3 = (ServerDone None, b4, [])"
    "paired a3 b4" "au_Keys a3 = au_Keys a" "Extensions (Some a3) = (sel, True)" "Extensions (Some b4) = (sel, True)"
    "\<forall>t. au_Cover a3 = Some t \<or> au_Cover b4 = Some t \<longrightarrow> \<not> ct_dummiesPaused t"
proof -
  have tm: "wf_TypeMap tm" and idle: "ext_idle tm 1 (au_Mux a)" "ext_idle tm 0 (au_Mux b)" using l by (simp_all add: linked_def)
  obtain m raw env where n: "negotiateClientExtensions request (ac_RequiredExtensions cconf) (Inr e) None (au_Mux a) = (Inr (sel, offer), m, [raw])"
    "wire_envelope tm raw = Some env" "ext_idle tm 1 m" "mx_role m = mx_role (au_Mux a)" "env_MessageID env = 2"
    "negotiate_server_accept offer 1 (Inr env) = Inr sel"
    using accept_honest(2) [OF valid(1-3) _ _ tm idle(1) e sel required] by auto
  let ?a = "finish_extensions cc sel (a\<lparr>au_Mux := m\<rparr>)"
  have client: "client_extensions H dh cc cconf (Inr e) None a = (ClientDone None, ?a, [raw])"
    by (simp add: client_extensions_def request n(1) plain)
  have "duplex (au_encrypted ?a) (au_encrypted b)" "can_send (au_encrypted ?a)" using d send by (simp_all add: finish_fields)
  then obtain a3 b3 where c: "carry seal opn H pad raw ?a b = Some (env, a3, b3)" "duplex (au_encrypted a3) (au_encrypted b3)"
    "same_layers ?a a3" "same_layers b b3" "au_Mux a3 = au_Mux ?a" "ext_idle tm 2 (au_Mux b3)"
    by (rule carry_plain [OF aead pad _ _ n(2) idle(2)]) (simp_all add: n(5))
  have server: "server_accept H dh sc sconf offer (Inr env) None b3 = (ServerDone None, finish_extensions sc sel b3, [])"
    by (simp add: server_accept_def n(6) plain server_complete_def)
  have "same_layers a (a\<lparr>au_Mux := m\<rparr>)" "same_layers b b" using n(4) by (simp_all add: same_layers_def)
  then have "linked tm 1 0 (a\<lparr>au_Mux := m\<rparr>) b" using n(3) idle(2) by (intro linked_same [OF l]) simp_all
  note L = finish_linked [OF this, of cc sel sc]
  have "linked tm 1 2 a3 (finish_extensions sc sel b3)"
    by (rule linked_same [OF L c(3) finish_same [OF c(4)]]) (use c(5,6) n(3) in \<open>simp_all add: finish_fields\<close>)
  then have "paired a3 (finish_extensions sc sel b3)" by (rule linked_paired) (simp add: finish_fields c(2))
  moreover have "Extensions (Some a3) = Extensions (Some ?a)" "au_Cover a3 = au_Cover ?a" "au_Keys a3 = au_Keys a"
    using c(3) by (simp_all add: same_layers_def Extensions_def finish_fields)
  moreover have "Extensions (Some ?a) = (sel, True)" "Extensions (Some (finish_extensions sc sel b3)) = (sel, True)"
    using ex c(4) by (simp_all add: finish_fields same_layers_def)
  ultimately show thesis using that [OF client c(1) server] finish_cover(1) by (metis (no_types))
qed

text \<open>The keys of both sides, from the configurations that \<open>prepareForwardSecrecy\<close> built.\<close>

definition exchange_agrees :: "(bytes \<Rightarrow> bytes) \<Rightarrow> (bytes \<Rightarrow> bytes \<Rightarrow> bytes option) \<Rightarrow> bytes option \<Rightarrow> bytes option \<Rightarrow> bool" where
  "exchange_agrees pub dh cgen sgen \<longleftrightarrow>
     (\<forall>x y. sgen = Some x \<longrightarrow> cgen = Some y \<longrightarrow> dh x (pub y) = dh y (pub x) \<and> dh x (pub y) \<noteq> None)"

lemma forward_secret_keys:
  assumes H: "hash32 H" and prep: "prepareForwardSecrecy pub cgen cconf RoleClient = Inr cconf'"
      "prepareForwardSecrecy pub sgen sconf RoleServer = Inr sconf'"
    and p: "ac_ExtensionOffer sconf' = Some offer" "ac_ExtensionRequest cconf' = Some request"
      "parameters_validate offer = None" "parameters_validate request = None"
    and sel: "sel = selectExtensionParameters offer request" "Capabilities sel AND CapabilityForwardSecrecy \<noteq> 0"
    and dh: "exchange_agrees pub dh cgen sgen" and base: "sk_Control base \<noteq> zero_bytes 32"
  obtains keys spair where "ac_forwardSecret sconf' = Some spair" "ac_forwardSecret cconf' \<noteq> None"
    "DeriveForwardSecretSessionKeys H dh base (Some spair) (ForwardSecretKeyShare sel) (ForwardSecretKeyShare offer)
       (ForwardSecretKeyShare sel) = Inr keys"
    "DeriveForwardSecretSessionKeys H dh base (ac_forwardSecret cconf') (ForwardSecretKeyShare offer) (ForwardSecretKeyShare offer)
       (ForwardSecretKeyShare sel) = Inr keys"
    "length (sk_ClientToServer keys) = 32" "length (sk_ServerToClient keys) = 32"
    "ForwardSecretKeyShare offer \<noteq> zero_bytes 32" "ForwardSecretKeyShare sel \<noteq> zero_bytes 32"
proof -
  note fs = select_forward_secret [OF sel]
  obtain x where x: "sgen = Some x" "ac_forwardSecret sconf' = Some \<lparr>kp_private = Some x, kp_public = pub x\<rparr>"
    "ForwardSecretKeyShare offer = pub x" "length (pub x) = 32"
    by (rule prepareForwardSecrecy_pair [OF prep(2), of offer]) (use p(1) fs(1) in auto)
  obtain y where y: "cgen = Some y" "ac_forwardSecret cconf' = Some \<lparr>kp_private = Some y, kp_public = pub y\<rparr>"
    "ForwardSecretKeyShare request = pub y" "length (pub y) = 32"
    by (rule prepareForwardSecrecy_pair [OF prep(1), of request]) (use p(2) fs(2) in auto)
  have nz: "pub x \<noteq> zero_bytes 32" "pub y \<noteq> zero_bytes 32"
    using p(3,4) fs(1,2) x(3) y(3) unfolding validate_None by auto
  obtain shared where s: "dh x (pub y) = dh y (pub x)" "dh x (pub y) = Some shared"
    using dh x(1) y(1) by (auto simp: exchange_agrees_def)
  have pairs: "x25519KeyPair pub (Some x) = Inr \<lparr>kp_private = Some x, kp_public = pub x\<rparr>"
    "x25519KeyPair pub (Some y) = Inr \<lparr>kp_private = Some y, kp_public = pub y\<rparr>"
    using x(4) y(4) by (simp_all add: x25519KeyPair_def)
  show thesis
    using hash32.forward_secret_agrees [OF H pairs s base] nz x y fs(3) that by auto
qed

text \<open>The answer and the key switch.\<close>

lemma accept_phase_secret:
  assumes aead: "aead_correct seal opn" and pad: "transparent tm pad" and H: "hash32 H" and l: "linked tm 1 0 a b"
    and d: "duplex (au_encrypted a) (au_encrypted b)" and send: "can_send (au_encrypted a)" "can_send (au_encrypted b)"
    and e: "env_Type e = ExtensionOffer" "env_MessageID e = 1" "ParseExtensionParameters e = Inr offer"
    and valid: "parameters_validate offer = None" "parameters_validate request = None" "length (ForwardSecretKeyShare request) = 32"
    and request: "ac_ExtensionRequest cconf = Some request" and sel: "sel = selectExtensionParameters offer request"
    and required: "ac_RequiredExtensions cconf AND NOT (Capabilities sel) = 0"
    and fs: "Capabilities sel AND CapabilityForwardSecrecy \<noteq> 0"
    and pairs: "ac_forwardSecret sconf = Some spair" "ac_forwardSecret cconf \<noteq> None"
    and keys: "DeriveForwardSecretSessionKeys H dh (au_Keys a) (Some spair) (ForwardSecretKeyShare sel) (ForwardSecretKeyShare offer)
       (ForwardSecretKeyShare sel) = Inr keys"
      "DeriveForwardSecretSessionKeys H dh (au_Keys a) (ac_forwardSecret cconf) (ForwardSecretKeyShare offer)
       (ForwardSecretKeyShare offer) (ForwardSecretKeyShare sel) = Inr keys"
      "length (sk_ClientToServer keys) = 32" "length (sk_ServerToClient keys) = 32"
    and shares: "ForwardSecretKeyShare offer \<noteq> zero_bytes 32" "ForwardSecretKeyShare sel \<noteq> zero_bytes 32"
    and nz: "sk_Control keys \<noteq> zero_bytes 32" "sk_ClientToServer keys \<noteq> zero_bytes 32" "sk_ServerToClient keys \<noteq> zero_bytes 32"
    and ex: "\<not> ex_done (au_extensions a)" "\<not> ex_done (au_extensions b)"
  obtains a2 raw env a3 b3 b4 rawC a' b' where
    "client_extensions H dh cc cconf (Inr e) None a = (ClientAwaits sel offer keys, a2, [raw])"
    "carry seal opn H pad raw a2 b = Some (env, a3, b3)"
    "server_accept H dh sc sconf offer (Inr env) None b3 = (ServerAwaits sel keys, b4, [rawC])"
    "forward_secret_run seal opn H pad cc sc (offer, sel, keys) (offer, sel, keys) rawC a3 b4 = Some (a', b')"
    "paired a' b'" "au_Keys a' = keys" "ec_epochInterval (au_encrypted b') = recordKeyEpochInterval"
    "Extensions (Some a') = (sel, True)" "Extensions (Some b') = (sel, True)"
    "\<forall>t. au_Cover a' = Some t \<or> au_Cover b' = Some t \<longrightarrow> \<not> ct_dummiesPaused t"
proof -
  have tm: "wf_TypeMap tm" and idle: "ext_idle tm 1 (au_Mux a)" "ext_idle tm 0 (au_Mux b)" and kk: "au_Keys b = au_Keys a"
    using l by (simp_all add: linked_def)
  obtain m raw env where n: "negotiateClientExtensions request (ac_RequiredExtensions cconf) (Inr e) None (au_Mux a) = (Inr (sel, offer), m, [raw])"
    "wire_envelope tm raw = Some env" "ext_idle tm 1 m" "mx_role m = mx_role (au_Mux a)" "env_MessageID env = 2"
    "negotiate_server_accept offer 1 (Inr env) = Inr sel"
    using accept_honest(2) [OF valid(1-3) _ _ tm idle(1) e sel required] by auto
  let ?a = "a\<lparr>au_Mux := m\<rparr>"
  have client: "client_extensions H dh cc cconf (Inr e) None a = (ClientAwaits sel offer keys, ?a, [raw])"
    using select_forward_secret(1) [OF sel fs] pairs(2) keys(2) fs
    by (auto simp: client_extensions_def request n(1) client_fs_keys_def Let_def)
  have "duplex (au_encrypted ?a) (au_encrypted b)" "can_send (au_encrypted ?a)" using d send by simp_all
  then obtain a3 b3 where c: "carry seal opn H pad raw ?a b = Some (env, a3, b3)" "duplex (au_encrypted a3) (au_encrypted b3)"
    "same_layers ?a a3" "same_layers b b3" "au_Mux a3 = au_Mux ?a" "ext_idle tm 2 (au_Mux b3)"
    "ec_sendCounter (au_encrypted b3) = ec_sendCounter (au_encrypted b)" "ec_epochInterval (au_encrypted b3) = ec_epochInterval (au_encrypted b)"
    by (rule carry_plain [OF aead pad _ _ n(2) idle(2)]) (simp_all add: n(5))
  have pend: "ec_pendingRekey (au_encrypted b3) = None" using c(2) by (simp add: duplex_def)
  have cs: "can_send (au_encrypted b3)" using c(7,8) send(2) by (simp add: can_send_def)
  obtain ec where arm: "rekeyAfterNextSend keys (au_encrypted b3) = Inr ec" "can_send ec"
    by (rule rekeyAfterNextSend_ok [OF pend nz(2,3) keys(3,4) cs])
  have k3: "DeriveForwardSecretSessionKeys H dh (au_Keys b3) (Some spair) (ForwardSecretKeyShare sel) (ForwardSecretKeyShare offer)
       (ForwardSecretKeyShare sel) = Inr keys" using keys(1) kk c(4) by (simp add: same_layers_def)
  obtain cf mb rawC where b: "server_fs_begin H dh sconf offer sel None b3 = (Inr keys, b3\<lparr>au_encrypted := ec, au_Mux := mb\<rparr>, [rawC])"
    "ForwardSecretConfirmation H keys (ForwardSecretKeyShare offer) (ForwardSecretKeyShare sel) = Inr cf"
    "wire_envelope tm rawC = Some (proof_envelope 3 ExtensionTLVForwardSecretConfirm cf)" "ext_idle tm 2 mb" "mx_role mb = mx_role (au_Mux b3)"
    by (rule server_fs_begin_ok [OF H k3 pairs(1) nz(1) shares arm(1) tm c(6)])
  let ?b = "b3\<lparr>au_encrypted := ec, au_Mux := mb\<rparr>"
  have server: "server_accept H dh sc sconf offer (Inr env) None b3 = (ServerAwaits sel keys, ?b, [rawC])"
    by (simp add: server_accept_def n(6) fs b(1))
  have L: "linked tm 1 2 a3 ?b"
    by (rule linked_same [OF l]) (use c(3-5) n(3,4) b(4,5) in \<open>simp_all add: same_layers_def\<close>)
  have open_ends: "\<not> ex_done (au_extensions a3)" "\<not> ex_done (au_extensions ?b)" using ex c(3,4) by (simp_all add: same_layers_def)
  have armed: "rekeyAfterNextSend keys (au_encrypted b3) = Inr (au_encrypted ?b)" "can_send (au_encrypted ?b)" using arm by simp_all
  show thesis
    by (rule forward_secret_run_ok [OF aead pad H L duplex_sym [OF c(2)] armed nz(1) shares b(2,3) open_ends, of cc sc])
      (rule that [OF client c(1) server])
qed

text \<open>
  C5 (refinement). The extension exchange agrees on both sides. Take the two ends of a fresh session,
  configurations prepared by \<open>prepareForwardSecrecy\<close> with a valid offer and a valid request, no required
  capability outside the selection, an AEAD that opens what it sealed, cover padding the receiver does not
  see, and a key exchange that agrees and derives no zero key. Then the whole exchange, in which every
  message passes the multiplexer, the cover padding, the encrypted carrier and the peer's read loop,
  completes on both sides: each reports the selection of the offer and the request, no dummy traffic stays
  paused, and the two ends still match. With forward secrecy selected both ends hold the same new keys and
  the record layer, synchronised under them, ratchets its key every 16384 records; without it the session
  keys are unchanged.
\<close>

theorem extension_exchange_agrees:
  assumes H: "hash32 H" and aead: "aead_correct seal opn" and pad: "transparent (mx_typeMap (au_Mux a)) pad"
    and start: "paired a b" "fresh_session a" "fresh_session b"
    and prep: "prepareForwardSecrecy pub cgen cconf RoleClient = Inr cconf'"
      "prepareForwardSecrecy pub sgen sconf RoleServer = Inr sconf'"
    and p: "ac_ExtensionOffer sconf' = Some offer" "ac_ExtensionRequest cconf' = Some request"
      "parameters_validate offer = None" "parameters_validate request = None"
      "length (ForwardSecretKeyShare offer) = 32" "length (ForwardSecretKeyShare request) = 32"
    and sel: "sel = selectExtensionParameters offer request"
    and required: "ac_RequiredExtensions cconf' AND NOT (Capabilities sel) = 0"
    and dh: "exchange_agrees pub dh cgen sgen"
    and usable: "\<forall>keys. DeriveForwardSecretSessionKeys H dh (au_Keys a) (ac_forwardSecret cconf') (ForwardSecretKeyShare offer)
        (ForwardSecretKeyShare offer) (ForwardSecretKeyShare sel) = Inr keys \<longrightarrow>
      sk_Control keys \<noteq> zero_bytes 32 \<and> sk_ClientToServer keys \<noteq> zero_bytes 32 \<and> sk_ServerToClient keys \<noteq> zero_bytes 32"
  shows "\<exists>a' b'. extension_run seal opn H dh pad cc sc cconf' sconf' a b = Some (a', b') \<and> paired a' b'
     \<and> Extensions (Some a') = (sel, True) \<and> Extensions (Some b') = (sel, True)
     \<and> (\<forall>t. au_Cover a' = Some t \<or> au_Cover b' = Some t \<longrightarrow> \<not> ct_dummiesPaused t)
     \<and> (if Capabilities sel AND CapabilityForwardSecrecy = 0 then au_Keys a' = au_Keys a
        else DeriveForwardSecretSessionKeys H dh (au_Keys a) (ac_forwardSecret cconf') (ForwardSecretKeyShare offer)
               (ForwardSecretKeyShare offer) (ForwardSecretKeyShare sel) = Inr (au_Keys a')
             \<and> ec_epochInterval (au_encrypted a') = recordKeyEpochInterval)"
proof -
  define tm where "tm = mx_typeMap (au_Mux a)"
  have l: "linked tm 0 0 a b" unfolding tm_def by (rule linked_start [OF start])
  have d: "duplex (au_encrypted a) (au_encrypted b)" using start(1) by (simp add: paired_def)
  note pad = pad [folded tm_def]
  obtain b1 raw e b2 a1 where o: "server_offer sconf' None b = (None, b1, [raw])" "carry seal opn H pad raw b1 a = Some (e, b2, a1)"
    "linked tm 1 0 a1 b2" "duplex (au_encrypted a1) (au_encrypted b2)" "can_send (au_encrypted a1)" "can_send (au_encrypted b2)"
    "env_Type e = ExtensionOffer" "env_MessageID e = 1" "ParseExtensionParameters e = Inr offer" "same_layers a a1" "same_layers b b2"
    by (rule offer_phase [OF aead pad l d start(2,3) p(1,3,5)])
  have keep: "au_Keys a1 = au_Keys a" "\<not> ex_done (au_extensions a1)" "\<not> ex_done (au_extensions b2)"
    using o(10,11) start(2,3) by (simp_all add: same_layers_def fresh_session_def newExtensionNegotiationState_def)
  show ?thesis
  proof (cases "Capabilities sel AND CapabilityForwardSecrecy = 0")
    case True
    obtain a2 rawA env a3 b3 b4 where r: "client_extensions H dh cc cconf' (Inr e) None a1 = (ClientDone None, a2, [rawA])"
      "carry seal opn H pad rawA a2 b2 = Some (env, a3, b3)"
      "server_accept H dh sc sconf' offer (Inr env) None b3 = (ServerDone None, b4, [])"
      "paired a3 b4" "au_Keys a3 = au_Keys a1" "Extensions (Some a3) = (sel, True)" "Extensions (Some b4) = (sel, True)"
      "\<forall>t. au_Cover a3 = Some t \<or> au_Cover b4 = Some t \<longrightarrow> \<not> ct_dummiesPaused t"
      by (rule accept_phase_plain [OF aead pad o(3-5,7-9) p(3,4,6,2) sel required True keep(2,3), where H = H and dh = dh and cc = cc
          and sc = sc and sconf = sconf'])
    have "extension_run seal opn H dh pad cc sc cconf' sconf' a b = Some (a3, b4)"
      by (simp add: extension_run_def o(1,2) p(1) sole_def r(1-3))
    with r(4-8) keep(1) True show ?thesis by simp
  next
    case False
    have base: "sk_Control (au_Keys a) \<noteq> zero_bytes 32" using start(2) by (simp add: fresh_session_def)
    obtain keys spair where k: "ac_forwardSecret sconf' = Some spair" "ac_forwardSecret cconf' \<noteq> None"
      "DeriveForwardSecretSessionKeys H dh (au_Keys a) (Some spair) (ForwardSecretKeyShare sel) (ForwardSecretKeyShare offer)
         (ForwardSecretKeyShare sel) = Inr keys"
      "DeriveForwardSecretSessionKeys H dh (au_Keys a) (ac_forwardSecret cconf') (ForwardSecretKeyShare offer) (ForwardSecretKeyShare offer)
         (ForwardSecretKeyShare sel) = Inr keys"
      "length (sk_ClientToServer keys) = 32" "length (sk_ServerToClient keys) = 32"
      "ForwardSecretKeyShare offer \<noteq> zero_bytes 32" "ForwardSecretKeyShare sel \<noteq> zero_bytes 32"
      by (rule forward_secret_keys [OF H prep p(1-4) sel False dh base])
    have nz: "sk_Control keys \<noteq> zero_bytes 32" "sk_ClientToServer keys \<noteq> zero_bytes 32" "sk_ServerToClient keys \<noteq> zero_bytes 32"
      using usable k(4) by blast+
    obtain a2 rawA env a3 b3 b4 rawC a' b' where r:
      "client_extensions H dh cc cconf' (Inr e) None a1 = (ClientAwaits sel offer keys, a2, [rawA])"
      "carry seal opn H pad rawA a2 b2 = Some (env, a3, b3)"
      "server_accept H dh sc sconf' offer (Inr env) None b3 = (ServerAwaits sel keys, b4, [rawC])"
      "forward_secret_run seal opn H pad cc sc (offer, sel, keys) (offer, sel, keys) rawC a3 b4 = Some (a', b')"
      "paired a' b'" "au_Keys a' = keys" "ec_epochInterval (au_encrypted b') = recordKeyEpochInterval"
      "Extensions (Some a') = (sel, True)" "Extensions (Some b') = (sel, True)"
      "\<forall>t. au_Cover a' = Some t \<or> au_Cover b' = Some t \<longrightarrow> \<not> ct_dummiesPaused t"
      by (rule accept_phase_secret [OF aead pad H o(3-9) p(3,4,6,2) sel required False k(1,2) k(3,4) [folded keep(1)] k(5-8) nz keep(2,3),
          where cc = cc and sc = sc])
    have "extension_run seal opn H dh pad cc sc cconf' sconf' a b = Some (a', b')"
      by (simp add: extension_run_def o(1,2) p(1) sole_def r(1-4))
    moreover have "ec_epochInterval (au_encrypted a') = recordKeyEpochInterval"
      using r(5,7) by (simp add: paired_def duplex_def in_sync_def)
    ultimately show ?thesis using r(5-10) k(4) False by simp
  qed
qed

definition sample_dh :: "bytes \<Rightarrow> bytes \<Rightarrow> bytes option" where
  "sample_dh k p = Some (replicate 32 1)"

lemma unit_hash_secret_keys:
  "DeriveForwardSecretSessionKeys unit_hash dh base pair peer sp cp = Inr keys \<Longrightarrow>
     sk_Control keys \<noteq> zero_bytes 32 \<and> sk_ClientToServer keys \<noteq> zero_bytes 32 \<and> sk_ServerToClient keys \<noteq> zero_bytes 32"
proof -
  have d: "derive unit_hash secret salt info 32 = Inr (unit_hash [])" for secret salt info
    by (simp add: derive_def hkdf_key_def hmac_def unit_hash_def Let_def)
  show "DeriveForwardSecretSessionKeys unit_hash dh base pair peer sp cp = Inr keys \<Longrightarrow> ?thesis"
    by (auto simp: DeriveForwardSecretSessionKeys_def d Let_def unit_hash_nonzero split: option.split_asm if_split_asm)
qed

lemma sample_sessions:
  obtains keys a b where "deriveSessionKeys unit_hash [] [] = Inr keys"
    "startAuthenticated unit_hash sample_connection sample_client' RoleClient keys FeatureCellAEAD [] (replicate 16 3) = Some (Inr a)"
    "startAuthenticated unit_hash sample_connection sample_server' RoleServer keys FeatureCellAEAD (str ''legacy'') (replicate 16 3)
       = Some (Inr b)"
    "paired a b" "fresh_session a" "fresh_session b"
proof -
  obtain keys where k: "deriveSessionKeys unit_hash [] [] = Inr keys" "keys_sized keys"
    using hash32.deriveSessionKeys_total [OF unit_hash32, of "[]" "[]"] by (auto simp: keys_sized_def)
  have f: "FeatureCellAEAD AND FeatureCellAEAD \<noteq> 0" "coverProfile FeatureCellAEAD = Inr ProfileQuiet"
    by (simp_all add: coverProfile_def Let_def)
  show thesis
    by (rule honest_layers [OF unit_hash32 sample_valid unit_hash_keys [OF k(1)] k(2) f, of sample_connection sample_connection
          "replicate 16 3" "str ''legacy''" "replicate 16 3"])
      (use that k(1) in \<open>auto simp: sample_connection_def CarrierDatagramPayloadLimit_def\<close>)
qed

theorem extension_exchange_agrees_witness:
  "\<exists>keys a b a' b'. deriveSessionKeys unit_hash [] [] = Inr keys
     \<and> startAuthenticated unit_hash sample_connection sample_client' RoleClient keys FeatureCellAEAD [] (replicate 16 3) = Some (Inr a)
     \<and> startAuthenticated unit_hash sample_connection sample_server' RoleServer keys FeatureCellAEAD (str ''legacy'') (replicate 16 3)
         = Some (Inr b)
     \<and> extension_run sample_seal sample_open unit_hash sample_dh (\<lambda>raw. raw) sample_connection sample_connection sample_client'
         sample_server' a b = Some (a', b')
     \<and> paired a' b' \<and> ec_epochInterval (au_encrypted a') = recordKeyEpochInterval \<and> Extensions (Some a') = Extensions (Some b')"
proof -
  let ?p = "\<lambda>k. sample_setup_parameters\<lparr>Capabilities := CapabilityMosaicCover OR CapabilityForwardSecrecy, ForwardSecretKeyShare := k\<rparr>"
  let ?o = "?p (replicate 32 4)" and ?r = "?p (replicate 32 2)"
  obtain keys a b where s: "deriveSessionKeys unit_hash [] [] = Inr keys"
    "startAuthenticated unit_hash sample_connection sample_client' RoleClient keys FeatureCellAEAD [] (replicate 16 3) = Some (Inr a)"
    "startAuthenticated unit_hash sample_connection sample_server' RoleServer keys FeatureCellAEAD (str ''legacy'') (replicate 16 3)
       = Some (Inr b)"
    "paired a b" "fresh_session a" "fresh_session b" by (rule sample_sessions)
  have pad: "transparent (mx_typeMap (au_Mux a)) (\<lambda>raw. raw)" by (simp add: transparent_def)
  have conf: "ac_ExtensionOffer sample_server' = Some ?o" "ac_ExtensionRequest sample_client' = Some ?r"
    "ac_RequiredExtensions sample_client' = CapabilityForwardSecrecy"
    by (simp_all add: sample_server'_def sample_client'_def sample_client_def)
  have v: "parameters_validate ?o = None" "parameters_validate ?r = None" by (rule sample_envelope(1) [OF HOL.refl]; simp)+
  have caps: "Capabilities (selectExtensionParameters ?o ?r) = CapabilityMosaicCover OR CapabilityForwardSecrecy"
    by (simp add: select_fields)
  have len: "length (ForwardSecretKeyShare ?o) = 32" "length (ForwardSecretKeyShare ?r) = 32" by simp_all
  have req: "ac_RequiredExtensions sample_client' AND NOT (Capabilities (selectExtensionParameters ?o ?r)) = 0"
    unfolding caps conf(3) by simp
  have dh: "exchange_agrees sample_public sample_dh (Some (replicate 32 2)) (Some (replicate 32 4))"
    by (simp add: exchange_agrees_def sample_dh_def)
  show ?thesis
    using extension_exchange_agrees [OF unit_hash32 sample_aead pad s(4-6) sample_prepare conf(1,2) v len HOL.refl req dh,
        of sample_connection sample_connection] unit_hash_secret_keys s(1-3) unfolding caps by fastforce
qed

end
