(* ===== verification/NP_Constellation.thy ===== *)
theory NP_Constellation
  imports NP_Registry NP_Auth
begin

text \<open>
  Carrier constellations (\<open>internal/constellation\<close>): the identities derived from an authenticated session
  (\<open>identity.go\<close>), the choice of a lease for a flow (\<open>scheduler.go\<close>), the leases of one constellation
  (\<open>controller.go\<close>) and the server's table of constellations with its admission by tickets (\<open>hub.go\<close>). Maps are
  association lists, the clock is an argument, a resource is its identity (\<open>None\<close> for a nil closer) and the
  resources an operation closes are part of its result; what their \<open>Close\<close> returns is left out.
\<close>

datatype constellation_error =
    ErrContinuityIdentity | ErrSchedulerConfig | ErrNoHealthyLease | ErrControllerConfig | ErrControllerClosed | ErrLeaseBinding
  | ErrLeaseDuplicate | ErrLeaseCapacity | ErrLeaseNotFound | ErrLeaseState | ErrNoActiveLease | ErrHubConfig | ErrHubClosed
  | ErrHubCapacity | ErrHubDuplicate | ErrHubBinding | ErrTicket continuity_error

section \<open>Identities\<close>

definition PrincipalFromCredentialID :: "hash \<Rightarrow> bytes \<Rightarrow> constellation_error + PrincipalID" where
  "PrincipalFromCredentialID H credentialID =
     (if credentialID = [] \<or> length credentialID > 256 then Inl ErrContinuityIdentity
      else Inr (H (str ''NP2 constellation principal'' @ [0] @ credentialID)))"

definition TranscriptFromSessionKeys :: "hash \<Rightarrow> SessionKeys \<Rightarrow> constellation_error + TranscriptID" where
  "TranscriptFromSessionKeys H keys =
     (if sk_Control keys = zero_bytes 32 then Inl ErrContinuityIdentity
      else Inr (hmac H (sk_Control keys) (str ''NP2 constellation authenticated transcript'')))"

definition LeaseKeyFromSessionKeys :: "hash \<Rightarrow> SessionKeys \<Rightarrow> constellation_error + ContinuityID" where
  "LeaseKeyFromSessionKeys H keys =
     (if sk_Control keys = zero_bytes 32 then Inl ErrContinuityIdentity
      else
        let key = take 16 (hmac H (sk_Control keys) (str ''NP2 constellation lease key v1'')) in
        if key = zero_id then Inl ErrContinuityIdentity else Inr key)"

section \<open>The scheduler\<close>

type_synonym FlowClass = byte

abbreviation FlowInteractive :: FlowClass where "FlowInteractive \<equiv> 1"
abbreviation FlowBulk :: FlowClass where "FlowBulk \<equiv> 2"
abbreviation FlowDatagram :: FlowClass where "FlowDatagram \<equiv> 3"
abbreviation MaxScheduleCandidates :: nat where "MaxScheduleCandidates \<equiv> 8"

record ScheduleCandidate =
  cd_LeaseKey :: ContinuityID
  cd_Carrier :: CarrierKind
  cd_Healthy :: bool
  cd_SupportsDatagram :: bool
  cd_ActiveStreams :: u64
  cd_MaxStreams :: u64
  cd_QueueBytes :: u64
  cd_RTT :: int
  cd_LossPPM :: "32 word"
  cd_ThroughputBPS :: u64

definition validCarrier :: "CarrierKind \<Rightarrow> bool" where
  "validCarrier kind \<longleftrightarrow> kind = CarrierHTTPS \<or> kind = CarrierHTTP3 \<or> kind = CarrierWebRTC"

definition scheduleScore :: "FlowClass \<Rightarrow> ScheduleCandidate \<Rightarrow> u64 option" where
  "scheduleScore cls c =
     (if cd_LeaseKey c = zero_id \<or> \<not> validCarrier (cd_Carrier c) \<or> \<not> cd_Healthy c \<or> cd_MaxStreams c = 0
         \<or> cd_ActiveStreams c \<ge> cd_MaxStreams c \<or> cd_RTT c < 0 \<or> cd_RTT c > 60 * 10 ^ 9 \<or> cd_LossPPM c > 1000000
         \<or> (cls = FlowDatagram \<and> \<not> cd_SupportsDatagram c)
      then None
      else
        let rttMS = word_of_int (cd_RTT c div 10 ^ 6) :: u64; loss = ucast (cd_LossPPM c) :: u64;
            load = cd_ActiveStreams c * 1000 div cd_MaxStreams c;
            queueKiB = min (cd_QueueBytes c div 1024) 1000000
        in if cls = FlowInteractive then Some (rttMS * 100 + loss div 10 + load * 20 + queueKiB * 2)
           else if cls = FlowBulk
           then let throughputKiB = cd_ThroughputBPS c div 1024; inverseThroughput = 1000000000 div (throughputKiB + 1)
                in Some (inverseThroughput + loss div 5 + load * 10 + queueKiB)
           else if cls = FlowDatagram then Some (rttMS * 150 + loss div 5 + load * 10 + queueKiB * 3)
           else None)"

text \<open>The loop of \<open>Select\<close> with its three variables.\<close>

fun select_loop ::
  "FlowClass \<Rightarrow> ContinuityID \<Rightarrow> ScheduleCandidate list \<Rightarrow> ContinuityID \<times> u64 \<times> u64 \<Rightarrow> ContinuityID \<times> u64 \<times> u64" where
  "select_loop cls current [] acc = acc"
| "select_loop cls current (c # cs) (best, bestScore, currentScore) =
     (case scheduleScore cls c of
        None \<Rightarrow> select_loop cls current cs (best, bestScore, currentScore)
      | Some score \<Rightarrow>
          let currentScore' = (if cd_LeaseKey c = current then score else currentScore);
              (best', bestScore') =
                (if best = zero_id \<or> score < bestScore \<or> score = bestScore \<and> bytes_less (cd_LeaseKey c) best
                 then (cd_LeaseKey c, score) else (best, bestScore))
          in select_loop cls current cs (best', bestScore', currentScore'))"

definition scheduler_Select ::
  "u64 \<Rightarrow> FlowClass \<Rightarrow> ContinuityID \<Rightarrow> ScheduleCandidate list \<Rightarrow> constellation_error + ContinuityID" where
  "scheduler_Select switchThreshold cls current candidates =
     (if cls < FlowInteractive \<or> cls > FlowDatagram \<or> length candidates = 0 \<or> length candidates > MaxScheduleCandidates
      then Inl ErrSchedulerConfig
      else
        let threshold = (if switchThreshold = 0 then 5000 else switchThreshold) in
        case select_loop cls current candidates (zero_id, - 1, - 1) of
          (best, bestScore, currentScore) \<Rightarrow>
            if best = zero_id then Inl ErrNoHealthyLease
            else if current \<noteq> zero_id \<and> currentScore \<noteq> - 1
                    \<and> (bestScore \<ge> currentScore \<or> currentScore - bestScore \<le> threshold)
            then Inr current
            else Inr best)"

section \<open>The controller\<close>

type_synonym LeaseID = u64

datatype LeaseState = LeaseActive | LeaseDraining

record LeaseCandidate =
  lc_Key :: ContinuityID
  lc_Principal :: PrincipalID
  lc_ConstellationID :: ContinuityID
  lc_Carrier :: CarrierKind
  lc_Resource :: "nat option"

record ControllerConfig =
  kc_Principal :: PrincipalID
  kc_ConstellationID :: ContinuityID
  kc_MaxActive :: int
  kc_MaxDraining :: int

record LeaseSnapshot =
  ls_ID :: LeaseID
  ls_Key :: ContinuityID
  ls_Carrier :: CarrierKind
  ls_State :: LeaseState
  ls_Load :: u64

record ControllerState =
  ks_PrimaryID :: LeaseID
  ks_Active :: nat
  ks_Draining :: nat
  ks_Closed :: bool

record leaseRecord =
  lr_candidate :: LeaseCandidate
  lr_state :: LeaseState
  lr_load :: u64

record Controller =
  kt_principal :: PrincipalID
  kt_constellationID :: ContinuityID
  kt_maxActive :: nat
  kt_maxDraining :: nat
  kt_nextID :: LeaseID
  kt_primaryID :: LeaseID
  kt_tieCursor :: u64
  kt_leases :: "(LeaseID \<times> leaseRecord) list"
  kt_order :: "LeaseID list"
  kt_closed :: bool

definition validateCandidate :: "LeaseCandidate \<Rightarrow> Controller \<Rightarrow> constellation_error option" where
  "validateCandidate candidate c =
     (if lc_Key candidate = zero_id \<or> lc_Resource candidate = None \<or> \<not> validCarrier (lc_Carrier candidate)
         \<or> lc_Principal candidate \<noteq> kt_principal c \<or> lc_ConstellationID candidate \<noteq> kt_constellationID c
      then Some ErrLeaseBinding else None)"

definition addLocked :: "LeaseCandidate \<Rightarrow> Controller \<Rightarrow> LeaseID \<times> Controller" where
  "addLocked candidate c =
     (let i = (if kt_nextID c = 0 then 1 else kt_nextID c) in
      (i, c\<lparr>kt_nextID := i + 1,
            kt_leases := AList.update i \<lparr>lr_candidate = candidate, lr_state = LeaseActive, lr_load = 0\<rparr> (kt_leases c),
            kt_order := kt_order c @ [i]\<rparr>))"

definition countStateLocked :: "LeaseState \<Rightarrow> Controller \<Rightarrow> nat" where
  "countStateLocked state c = length (filter (\<lambda>(i, l). lr_state l = state) (kt_leases c))"

definition firstActiveLocked :: "Controller \<Rightarrow> LeaseID" where
  "firstActiveLocked c =
     (case find (\<lambda>i. case map_of (kt_leases c) i of None \<Rightarrow> False | Some l \<Rightarrow> lr_state l = LeaseActive) (kt_order c) of
        None \<Rightarrow> 0 | Some i \<Rightarrow> i)"

definition snapshotLease :: "LeaseID \<Rightarrow> leaseRecord \<Rightarrow> LeaseSnapshot" where
  "snapshotLease i l =
     \<lparr>ls_ID = i, ls_Key = lc_Key (lr_candidate l), ls_Carrier = lc_Carrier (lr_candidate l), ls_State = lr_state l,
      ls_Load = lr_load l\<rparr>"

definition NewController :: "ControllerConfig \<Rightarrow> LeaseCandidate \<Rightarrow> constellation_error + Controller" where
  "NewController config primary =
     (if kc_Principal config = zero_principal \<or> kc_ConstellationID config = zero_id \<or> kc_MaxActive config \<le> 0
         \<or> kc_MaxActive config > 8 \<or> kc_MaxDraining config \<le> 0 \<or> kc_MaxDraining config > 8
      then Inl ErrControllerConfig
      else
        let c = \<lparr>kt_principal = kc_Principal config, kt_constellationID = kc_ConstellationID config,
                 kt_maxActive = nat (kc_MaxActive config), kt_maxDraining = nat (kc_MaxDraining config), kt_nextID = 1,
                 kt_primaryID = 0, kt_tieCursor = 0, kt_leases = [], kt_order = [], kt_closed = False\<rparr>
        in case validateCandidate primary c of
             Some e \<Rightarrow> Inl e
           | None \<Rightarrow> (case addLocked primary c of (i, c1) \<Rightarrow> Inr (c1\<lparr>kt_primaryID := i\<rparr>)))"

definition Controller_Add :: "LeaseCandidate \<Rightarrow> Controller \<Rightarrow> (constellation_error + LeaseID) \<times> Controller" where
  "Controller_Add candidate c =
     (case validateCandidate candidate c of
        Some e \<Rightarrow> (Inl e, c)
      | None \<Rightarrow>
          if kt_closed c then (Inl ErrControllerClosed, c)
          else if \<exists>(i, l)\<in>set (kt_leases c). lc_Key (lr_candidate l) = lc_Key candidate then (Inl ErrLeaseDuplicate, c)
          else if countStateLocked LeaseActive c \<ge> kt_maxActive c then (Inl ErrLeaseCapacity, c)
          else case addLocked candidate c of
                 (i, c1) \<Rightarrow> (Inr i, if kt_primaryID c1 = 0 then c1\<lparr>kt_primaryID := i\<rparr> else c1))"

definition UpdateLoad :: "LeaseID \<Rightarrow> u64 \<Rightarrow> Controller \<Rightarrow> constellation_error option \<times> Controller" where
  "UpdateLoad i load c =
     (if kt_closed c then (Some ErrControllerClosed, c)
      else case map_of (kt_leases c) i of
             None \<Rightarrow> (Some ErrLeaseNotFound, c)
           | Some l \<Rightarrow> (None, c\<lparr>kt_leases := AList.update i (l\<lparr>lr_load := load\<rparr>) (kt_leases c)\<rparr>))"

text \<open>The loop of \<open>Select\<close>: the least load so far and the leases that have it, in order.\<close>

fun select_ties :: "(LeaseID \<times> leaseRecord) list \<Rightarrow> LeaseID list \<Rightarrow> u64 \<times> (LeaseID \<times> leaseRecord) list \<Rightarrow> (LeaseID \<times> leaseRecord) list" where
  "select_ties leases [] (minimum, ties) = ties"
| "select_ties leases (i # order) (minimum, ties) =
     (case map_of leases i of
        None \<Rightarrow> select_ties leases order (minimum, ties)
      | Some l \<Rightarrow>
          if lr_state l \<noteq> LeaseActive then select_ties leases order (minimum, ties)
          else if lr_load l < minimum then select_ties leases order (lr_load l, [(i, l)])
          else if lr_load l = minimum then select_ties leases order (minimum, ties @ [(i, l)])
          else select_ties leases order (minimum, ties))"

definition Controller_Select :: "Controller \<Rightarrow> (constellation_error + LeaseSnapshot) \<times> Controller" where
  "Controller_Select c =
     (if kt_closed c then (Inl ErrControllerClosed, c)
      else
        let ties = select_ties (kt_leases c) (kt_order c) (- 1, []) in
        if length ties = 0 then (Inl ErrNoActiveLease, c)
        else case ties ! unat (kt_tieCursor c mod of_nat (length ties)) of
               (i, l) \<Rightarrow> (Inr (snapshotLease i l), c\<lparr>kt_tieCursor := kt_tieCursor c + 1\<rparr>))"

definition set_state :: "LeaseID \<Rightarrow> leaseRecord \<Rightarrow> LeaseState \<Rightarrow> Controller \<Rightarrow> Controller" where
  "set_state i l state c = c\<lparr>kt_leases := AList.update i (l\<lparr>lr_state := state\<rparr>) (kt_leases c)\<rparr>"

definition Promote :: "LeaseID \<Rightarrow> Controller \<Rightarrow> constellation_error option \<times> Controller" where
  "Promote i c =
     (if kt_closed c then (Some ErrControllerClosed, c)
      else case map_of (kt_leases c) i of
             None \<Rightarrow> (Some ErrLeaseNotFound, c)
           | Some target \<Rightarrow>
               if lr_state target \<noteq> LeaseActive then (Some ErrLeaseState, c)
               else if kt_primaryID c = i then (None, c)
               else (case map_of (kt_leases c) (kt_primaryID c) of
                       None \<Rightarrow> (None, c\<lparr>kt_primaryID := i\<rparr>)
                     | Some current \<Rightarrow>
                         if lr_state current = LeaseActive
                         then if countStateLocked LeaseDraining c \<ge> kt_maxDraining c then (Some ErrLeaseCapacity, c)
                              else (None, (set_state (kt_primaryID c) current LeaseDraining c)\<lparr>kt_primaryID := i\<rparr>)
                         else (None, c\<lparr>kt_primaryID := i\<rparr>)))"

definition BeginDrain :: "LeaseID \<Rightarrow> Controller \<Rightarrow> constellation_error option \<times> Controller" where
  "BeginDrain i c =
     (if kt_closed c then (Some ErrControllerClosed, c)
      else case map_of (kt_leases c) i of
             None \<Rightarrow> (Some ErrLeaseNotFound, c)
           | Some l \<Rightarrow>
               if lr_state l \<noteq> LeaseActive then (Some ErrLeaseState, c)
               else if countStateLocked LeaseDraining c \<ge> kt_maxDraining c then (Some ErrLeaseCapacity, c)
               else if i = kt_primaryID c \<and> countStateLocked LeaseActive c \<le> 1 then (Some ErrNoActiveLease, c)
               else
                 let c1 = set_state i l LeaseDraining c
                 in (None, if i = kt_primaryID c1 then c1\<lparr>kt_primaryID := firstActiveLocked c1\<rparr> else c1))"

definition resource_of :: "leaseRecord \<Rightarrow> nat list" where
  "resource_of l = (case lc_Resource (lr_candidate l) of None \<Rightarrow> [] | Some r \<Rightarrow> [r])"

definition removeOrderLocked :: "LeaseID \<Rightarrow> Controller \<Rightarrow> Controller" where
  "removeOrderLocked i c = c\<lparr>kt_order := remove1 i (kt_order c)\<rparr>"

text \<open>The second component are the resources that are closed.\<close>

definition removeAndClose :: "LeaseID \<Rightarrow> bool \<Rightarrow> Controller \<Rightarrow> constellation_error option \<times> nat list \<times> Controller" where
  "removeAndClose i requireDraining c =
     (if kt_closed c then (Some ErrControllerClosed, [], c)
      else case map_of (kt_leases c) i of
             None \<Rightarrow> (Some ErrLeaseNotFound, [], c)
           | Some l \<Rightarrow>
               if requireDraining \<and> lr_state l \<noteq> LeaseDraining then (Some ErrLeaseState, [], c)
               else
                 let c1 = removeOrderLocked i (c\<lparr>kt_leases := AList.delete i (kt_leases c)\<rparr>);
                     c2 = (if kt_primaryID c1 = i then c1\<lparr>kt_primaryID := firstActiveLocked c1\<rparr> else c1)
                 in (None, resource_of l, c2))"

definition CompleteDrain :: "LeaseID \<Rightarrow> Controller \<Rightarrow> constellation_error option \<times> nat list \<times> Controller" where
  "CompleteDrain i c = removeAndClose i True c"

definition Controller_Fail :: "LeaseID \<Rightarrow> Controller \<Rightarrow> constellation_error option \<times> nat list \<times> Controller" where
  "Controller_Fail i c = removeAndClose i False c"

definition Controller_State :: "Controller \<Rightarrow> ControllerState" where
  "Controller_State c =
     \<lparr>ks_PrimaryID = kt_primaryID c, ks_Active = countStateLocked LeaseActive c, ks_Draining = countStateLocked LeaseDraining c,
      ks_Closed = kt_closed c\<rparr>"

definition Controller_Stop :: "Controller \<Rightarrow> nat list \<times> Controller" where
  "Controller_Stop c =
     (if kt_closed c then ([], c)
      else (concat (map (\<lambda>i. case map_of (kt_leases c) i of None \<Rightarrow> [] | Some l \<Rightarrow> resource_of l) (kt_order c)),
            c\<lparr>kt_closed := True, kt_leases := [], kt_order := [], kt_primaryID := 0\<rparr>))"

section \<open>The scheduler chooses a cheapest lease\<close>

lemma bytes_less_trans: "bytes_less xs ys \<Longrightarrow> bytes_less ys zs \<Longrightarrow> bytes_less xs zs"
proof (induction xs ys arbitrary: zs rule: bytes_less.induct)
  case (2 y ys)
  then show ?case by (cases zs) auto
next
  case (3 x xs y ys)
  then show ?case by (cases zs) auto
qed simp

lemma load_small:
  fixes a m :: u64
  assumes "a < m"
  shows "unat (a * 1000 div m) < 1000"
proof -
  have u: "unat a < unat m" using assms by (simp add: word_less_nat_alt)
  have "unat (a * 1000) \<le> unat a * 1000" by (simp add: unat_word_ariths)
  then have "unat (a * 1000) < 1000 * unat m" using u by linarith
  then show ?thesis using u by (simp add: unat_div less_mult_imp_div_less)
qed

lemma unat_plus_le: "unat (a + b) \<le> unat a + unat b" for a b :: u64
  by (simp add: unat_word_ariths)

lemma unat_times_le: "unat (a * numeral n) \<le> unat a * numeral n" for a :: u64
proof -
  have "unat (a * numeral n) \<le> unat a * unat (numeral n :: u64)" by (simp add: unat_word_ariths)
  also have "unat (of_nat (numeral n) :: u64) \<le> numeral n" by (simp only: unat_of_nat mod_less_eq_dividend)
  then have "unat a * unat (numeral n :: u64) \<le> unat a * numeral n" by (intro mult_le_mono2) (simp only: of_nat_numeral)
  finally show ?thesis .
qed

lemma unat_div_le: "unat (a div b) \<le> unat a" for a b :: u64
  by (simp add: unat_div)

lemma sum_small:
  "w \<le> x + d \<Longrightarrow> x \<le> y + c \<Longrightarrow> y \<le> a + b \<Longrightarrow> a \<le> 1000000000 \<Longrightarrow> b \<le> 1000000 \<Longrightarrow> c \<le> 100000 \<Longrightarrow> d \<le> 10000000
     \<Longrightarrow> w < (2000000000 :: nat)"
  by linarith

text \<open>A score never wraps and never is the sentinel of the loop.\<close>

lemma score_small:
  assumes "scheduleScore cls c = Some score"
  shows "unat score < 2000000000"
proof -
  define rtt loss load queue inv where "rtt = (word_of_int (cd_RTT c div 10 ^ 6) :: u64)" and "loss = (ucast (cd_LossPPM c) :: u64)"
    and "load = cd_ActiveStreams c * 1000 div cd_MaxStreams c" and "queue = min (cd_QueueBytes c div 1024) 1000000"
    and "inv = (1000000000 :: u64) div (cd_ThroughputBPS c div 1024 + 1)"
  note parts = this
  have ok: "\<not> cd_ActiveStreams c \<ge> cd_MaxStreams c" "0 \<le> cd_RTT c" "cd_RTT c \<le> 60 * 10 ^ 9" "\<not> cd_LossPPM c > 1000000"
    using assms unfolding scheduleScore_def by (simp_all split: if_split_asm)
  have "score \<in> {rtt * 100 + loss div 10 + load * 20 + queue * 2, inv + loss div 5 + load * 10 + queue,
      rtt * 150 + loss div 5 + load * 10 + queue * 3}"
    using assms unfolding scheduleScore_def Let_def parts [symmetric] by (simp split: if_split_asm)
  then have score: "score = rtt * 100 + loss div 10 + load * 20 + queue * 2 \<or> score = inv + loss div 5 + load * 10 + queue
      \<or> score = rtt * 150 + loss div 5 + load * 10 + queue * 3" by simp
  have "cd_RTT c div 10 ^ 6 \<le> 60000" "0 \<le> cd_RTT c div 10 ^ 6" using ok(2,3) by simp_all
  then have "uint rtt = cd_RTT c div 10 ^ 6" unfolding parts(1) uint_word_of_int by (intro mod_pos_pos_trivial) simp_all
  then have r: "unat rtt \<le> 60000" using \<open>cd_RTT c div 10 ^ 6 \<le> 60000\<close> by (simp add: unat_eq_nat_uint)
  have l: "unat load < 1000" using load_small [of "cd_ActiveStreams c" "cd_MaxStreams c"] ok(1) by (simp add: parts)
  have "unat (cd_LossPPM c) \<le> 1000000" using ok(4) by (simp add: not_less word_le_nat_alt)
  moreover have "uint loss = uint (cd_LossPPM c)" unfolding parts(2) by (rule uint_up_ucast) (simp add: is_up)
  ultimately have p: "unat loss \<le> 1000000" by (simp only: unat_eq_nat_uint)
  have q: "unat queue \<le> 1000000" by (simp add: parts min_def word_le_nat_alt)
  have i: "unat inv \<le> 1000000000" using unat_div_le [of 1000000000 "cd_ThroughputBPS c div 1024 + 1"] by (simp add: parts)
  have b: "unat (loss div 10) \<le> 1000000" "unat (loss div 5) \<le> 1000000"
    by (rule order_trans [OF unat_div_le p])+
  have m: "unat (rtt * 100) \<le> 1000000000" "unat (rtt * 150) \<le> 1000000000" "unat (load * 20) \<le> 100000" "unat (load * 10) \<le> 100000"
    "unat (queue * 2) \<le> 10000000" "unat (queue * 3) \<le> 10000000"
    by (rule order_trans [OF unat_times_le], use r l q in linarith)+
  note sum = sum_small [OF unat_plus_le unat_plus_le unat_plus_le]
  show ?thesis using score sum [OF m(1) b(1) m(3,5)] sum [OF i b(2) m(4) order_trans [OF q]] sum [OF m(2) b(2) m(4,6)] by (elim disjE) simp_all
qed

text \<open>\<open>eligible\<close>: a candidate that can carry the flow, with its score. \<open>cheapest\<close>: one of least score, ties by key.\<close>

definition eligible :: "FlowClass \<Rightarrow> ScheduleCandidate list \<Rightarrow> ContinuityID \<Rightarrow> u64 \<Rightarrow> bool" where
  "eligible cls cs k s \<longleftrightarrow> (\<exists>c\<in>set cs. cd_LeaseKey c = k \<and> scheduleScore cls c = Some s)"

definition cheapest :: "FlowClass \<Rightarrow> ScheduleCandidate list \<Rightarrow> ContinuityID \<Rightarrow> u64 \<Rightarrow> bool" where
  "cheapest cls cs k s \<longleftrightarrow>
     eligible cls cs k s \<and> (\<forall>k' s'. eligible cls cs k' s' \<longrightarrow> s < s' \<or> s = s' \<and> \<not> bytes_less k' k)"

lemma eligible_nonzero: "eligible cls cs k s \<Longrightarrow> k \<noteq> zero_id \<and> s \<noteq> - 1"
proof -
  assume "eligible cls cs k s"
  then obtain c where c: "cd_LeaseKey c = k" "scheduleScore cls c = Some s" by (auto simp: eligible_def)
  have "k \<noteq> zero_id" using c by (auto simp: scheduleScore_def split: if_split_asm)
  moreover have "s \<noteq> - 1" using score_small [OF c(2)] by (auto simp: unsigned_minus_1_eq_mask mask_eq_exp_minus_1)
  ultimately show ?thesis by simp
qed

lemma eligible_snoc:
  "eligible cls (cs @ [c]) k s \<longleftrightarrow> eligible cls cs k s \<or> cd_LeaseKey c = k \<and> scheduleScore cls c = Some s"
  by (auto simp: eligible_def)

definition loop_inv :: "FlowClass \<Rightarrow> ContinuityID \<Rightarrow> ScheduleCandidate list \<Rightarrow> ContinuityID \<times> u64 \<times> u64 \<Rightarrow> bool" where
  "loop_inv cls current cs = (\<lambda>(best, bestScore, currentScore).
     (if best = zero_id then bestScore = - 1 \<and> (\<forall>k s. \<not> eligible cls cs k s) else cheapest cls cs best bestScore)
     \<and> (currentScore = - 1 \<and> (\<forall>s. \<not> eligible cls cs current s) \<or> eligible cls cs current currentScore))"

lemma cheapest_replace:
  assumes "cheapest cls cs best bestScore" and "scheduleScore cls c = Some score"
  shows "score < bestScore \<or> score = bestScore \<and> bytes_less (cd_LeaseKey c) best \<Longrightarrow> cheapest cls (cs @ [c]) (cd_LeaseKey c) score"
    and "\<not> (score < bestScore \<or> score = bestScore \<and> bytes_less (cd_LeaseKey c) best) \<Longrightarrow> cheapest cls (cs @ [c]) best bestScore"
proof -
  note a = assms(1) [unfolded cheapest_def]
  assume better: "score < bestScore \<or> score = bestScore \<and> bytes_less (cd_LeaseKey c) best"
  have "score < s' \<or> score = s' \<and> \<not> bytes_less k' (cd_LeaseKey c)" if e: "eligible cls (cs @ [c]) k' s'" for k' s'
  proof (cases "eligible cls cs k' s'")
    case True
    then have "bestScore < s' \<or> bestScore = s' \<and> \<not> bytes_less k' best" using a by blast
    then show ?thesis using better bytes_less_trans [of k' "cd_LeaseKey c" best] by auto
  next
    case False
    then show ?thesis using e assms(2) by (auto simp: eligible_snoc)
  qed
  then show "cheapest cls (cs @ [c]) (cd_LeaseKey c) score" using assms(2) by (simp add: cheapest_def eligible_snoc)
next
  assume "\<not> (score < bestScore \<or> score = bestScore \<and> bytes_less (cd_LeaseKey c) best)"
  then show "cheapest cls (cs @ [c]) best bestScore" using assms by (auto simp: cheapest_def eligible_snoc not_less)
qed

lemma loop_inv_step:
  assumes inv: "loop_inv cls current cs (best, bestScore, currentScore)" and s: "scheduleScore cls c = Some score"
    and k: "cd_LeaseKey c \<noteq> zero_id"
  defines "b \<equiv> if best = zero_id \<or> score < bestScore \<or> score = bestScore \<and> bytes_less (cd_LeaseKey c) best
      then (cd_LeaseKey c, score) else (best, bestScore)"
  shows "loop_inv cls current (cs @ [c]) (fst b, snd b, if cd_LeaseKey c = current then score else currentScore)"
proof -
  have "fst b \<noteq> zero_id \<and> cheapest cls (cs @ [c]) (fst b) (snd b)"
  proof (cases "best = zero_id")
    case True
    then have "\<forall>k s. \<not> eligible cls cs k s" using inv by (simp add: loop_inv_def)
    then show ?thesis using True k s by (auto simp: b_def cheapest_def eligible_snoc)
  next
    case False
    then have "cheapest cls cs best bestScore" using inv by (simp add: loop_inv_def)
    then show ?thesis using False k cheapest_replace [of cls cs best bestScore c score] s by (simp add: b_def)
  qed
  moreover have "(if cd_LeaseKey c = current then score else currentScore) = - 1 \<and> (\<forall>s. \<not> eligible cls (cs @ [c]) current s)
      \<or> eligible cls (cs @ [c]) current (if cd_LeaseKey c = current then score else currentScore)"
    using inv s by (auto simp: loop_inv_def eligible_snoc)
  ultimately show ?thesis by (simp add: loop_inv_def)
qed

lemma select_loop_inv:
  "loop_inv cls current ps acc \<Longrightarrow> loop_inv cls current (ps @ cs) (select_loop cls current cs acc)"
proof (induction cls current cs acc arbitrary: ps rule: select_loop.induct)
  case (1 cls current acc)
  then show ?case by simp
next
  case (2 cls current c cs best bestScore currentScore)
  show ?case
  proof (cases "scheduleScore cls c")
    case None
    then have "loop_inv cls current (ps @ [c]) (best, bestScore, currentScore)"
      using 2(3) by (auto simp: loop_inv_def cheapest_def eligible_snoc split: if_split_asm)
    from 2(1) [OF None this] show ?thesis using None by simp
  next
    case (Some score)
    define cur where "cur = (if cd_LeaseKey c = current then score else currentScore)"
    define b where "b = (if best = zero_id \<or> score < bestScore \<or> score = bestScore \<and> bytes_less (cd_LeaseKey c) best
      then (cd_LeaseKey c, score) else (best, bestScore))"
    have k: "cd_LeaseKey c \<noteq> zero_id" using Some by (auto simp: scheduleScore_def split: if_split_asm)
    have "loop_inv cls current (ps @ [c]) (fst b, snd b, cur)"
      unfolding cur_def b_def using 2(3) Some k by (rule loop_inv_step)
    moreover have "select_loop cls current (c # cs) (best, bestScore, currentScore) = select_loop cls current cs (fst b, snd b, cur)"
      using Some by (simp add: Let_def cur_def b_def)
    ultimately show ?thesis using 2(2) [OF Some cur_def b_def, of "fst b" "snd b" "ps @ [c]"] by simp
  qed
qed

lemma eligible_unique:
  "distinct (map cd_LeaseKey cs) \<Longrightarrow> eligible cls cs k s \<Longrightarrow> eligible cls cs k s' \<Longrightarrow> s = s'"
  by (auto simp: eligible_def distinct_map dest!: inj_onD)

lemma within_threshold:
  fixes b c t :: u64
  assumes "b \<le> c"
  shows "b \<ge> c \<or> c - b \<le> t \<longleftrightarrow> uint c \<le> uint b + uint t"
proof -
  have le: "uint b \<le> uint c" using assms by (simp add: word_le_def)
  then have "uint (c - b) = uint c - uint b" using assms by (simp add: uint_minus_simple_alt [symmetric])
  then have "c - b \<le> t \<longleftrightarrow> uint c \<le> uint b + uint t" by (simp add: word_le_def) linarith
  moreover have "uint c \<le> uint b + uint t" if "b \<ge> c"
    using that uint_ge_0 [of t] unfolding word_le_def by linarith
  ultimately show ?thesis by blast
qed


definition sample_candidate :: "byte \<Rightarrow> int \<Rightarrow> ScheduleCandidate" where
  "sample_candidate k rtt =
     \<lparr>cd_LeaseKey = replicate 16 k, cd_Carrier = CarrierHTTPS, cd_Healthy = True, cd_SupportsDatagram = True,
      cd_ActiveStreams = 1, cd_MaxStreams = 10, cd_QueueBytes = 0, cd_RTT = rtt * 10 ^ 6, cd_LossPPM = 0, cd_ThroughputBPS = 0\<rparr>"


section \<open>Leases are closed exactly once\<close>

text \<open>Keys, bindings and order of the leases.\<close>

definition leases_ok :: "Controller \<Rightarrow> bool" where
  "leases_ok c \<longleftrightarrow>
     distinct (map fst (kt_leases c)) \<and> distinct (kt_order c) \<and> set (kt_order c) = fst ` set (kt_leases c)
     \<and> distinct (map (\<lambda>p. lc_Key (lr_candidate (snd p))) (kt_leases c))
     \<and> (\<forall>p\<in>set (kt_leases c). validateCandidate (lr_candidate (snd p)) c = None)"

definition in_state :: "LeaseState \<Rightarrow> Controller \<Rightarrow> (LeaseID \<times> leaseRecord) multiset" where
  "in_state state c = filter_mset (\<lambda>p. lr_state (snd p) = state) (mset (kt_leases c))"

text \<open>The primary lease is an active one, and there is none only when no lease is active.\<close>

definition primary_ok :: "Controller \<Rightarrow> bool" where
  "primary_ok c \<longleftrightarrow>
     (\<exists>l. map_of (kt_leases c) (kt_primaryID c) = Some l \<and> lr_state l = LeaseActive)
     \<or> kt_primaryID c = 0 \<and> in_state LeaseActive c = {#}"

definition lease_ids :: "Controller \<Rightarrow> LeaseID set" where
  "lease_ids c = fst ` set (kt_leases c)"

text \<open>\<open>controller_ok n c\<close>: the invariant after at most \<open>n\<close> leases have been added.\<close>

definition controller_ok :: "nat \<Rightarrow> Controller \<Rightarrow> bool" where
  "controller_ok n c \<longleftrightarrow>
     leases_ok c \<and> primary_ok c \<and> size (in_state LeaseActive c) \<le> kt_maxActive c
     \<and> size (in_state LeaseDraining c) \<le> kt_maxDraining c
     \<and> (\<forall>i\<in>lease_ids c. i \<noteq> 0 \<and> i < kt_nextID c) \<and> 0 < unat (kt_nextID c) \<and> unat (kt_nextID c) \<le> Suc n
     \<and> (kt_closed c \<longrightarrow> kt_leases c = [])"

definition lease_resources :: "Controller \<Rightarrow> nat multiset" where
  "lease_resources c = (\<Sum>p\<in>#mset (kt_leases c). mset (resource_of (snd p)))"

lemma validateCandidate_frame [simp]:
  "validateCandidate x (c\<lparr>kt_leases := ls\<rparr>) = validateCandidate x c" "validateCandidate x (c\<lparr>kt_order := is\<rparr>) = validateCandidate x c"
  "validateCandidate x (c\<lparr>kt_primaryID := i\<rparr>) = validateCandidate x c" "validateCandidate x (c\<lparr>kt_nextID := i\<rparr>) = validateCandidate x c"
  "validateCandidate x (c\<lparr>kt_tieCursor := n\<rparr>) = validateCandidate x c" "validateCandidate x (c\<lparr>kt_closed := b\<rparr>) = validateCandidate x c"
  by (simp_all add: validateCandidate_def)

lemma countState_size: "countStateLocked state c = size (in_state state c)"
  unfolding countStateLocked_def in_state_def mset_filter [symmetric] size_mset by (simp add: split_beta')

lemma mset_update:
  assumes "distinct (map fst al)" and "map_of al i = Some l"
  shows "mset (AList.update i l' al) = add_mset (i, l') (mset (AList.delete i al))" "mset al = add_mset (i, l) (mset (AList.delete i al))"
  using mset_alist_update [OF assms(1)] mset_alist_delete [OF assms] by simp_all

lemma distinct_mset: "mset xs = mset ys \<Longrightarrow> distinct xs = distinct ys"
  by (rule mset_eq_imp_distinct_iff)

lemma leases_ok_update:
  assumes ok: "leases_ok c" and l: "map_of (kt_leases c) i = Some l" and same: "lr_candidate l' = lr_candidate l"
  shows "leases_ok (c\<lparr>kt_leases := AList.update i l' (kt_leases c)\<rparr>)"
proof -
  have d: "distinct (map fst (kt_leases c))" using ok by (simp add: leases_ok_def)
  note m = mset_update(1) [OF d l, of l'] mset_update(2) [OF d l]
  have keys: "fst ` set (AList.update i l' (kt_leases c)) = fst ` set (kt_leases c)"
    using map_of_SomeD [OF l] by (force simp: dom_update)
  have "mset (map (\<lambda>p. lc_Key (lr_candidate (snd p))) (AList.update i l' (kt_leases c)))
      = mset (map (\<lambda>p. lc_Key (lr_candidate (snd p))) (kt_leases c))"
    unfolding mset_map m by (simp add: same)
  then have "distinct (map (\<lambda>p. lc_Key (lr_candidate (snd p))) (AList.update i l' (kt_leases c)))"
    using ok distinct_mset unfolding leases_ok_def by blast
  moreover have "set (AList.update i l' (kt_leases c)) \<subseteq> insert (i, l') (set (kt_leases c))"
    using m by (metis insert_subset order_refl set_mset_add_mset_insert set_mset_mset subset_insertI subset_insertI2)
  then have "\<forall>p\<in>set (AList.update i l' (kt_leases c)). validateCandidate (lr_candidate (snd p)) c = None"
    using ok map_of_SomeD [OF l] same unfolding leases_ok_def by fastforce
  ultimately show ?thesis using ok d keys unfolding leases_ok_def by (simp add: distinct_update)
qed

lemma leases_ok_delete:
  assumes ok: "leases_ok c" and l: "map_of (kt_leases c) i = Some l"
  shows "leases_ok (removeOrderLocked i (c\<lparr>kt_leases := AList.delete i (kt_leases c)\<rparr>))"
proof -
  have d: "distinct (map fst (kt_leases c))" using ok by (simp add: leases_ok_def)
  have "distinct (map (\<lambda>p. lc_Key (lr_candidate (snd p))) (AList.delete i (kt_leases c)))"
    using ok unfolding leases_ok_def AList.delete_eq by (simp add: distinct_map_filter)
  moreover have "set (AList.delete i (kt_leases c)) \<subseteq> set (kt_leases c)" by (auto simp: AList.delete_eq)
  moreover have "fst ` set (AList.delete i (kt_leases c)) = fst ` set (kt_leases c) - {i}" by (auto simp: AList.delete_eq)
  ultimately show ?thesis using ok d
    unfolding leases_ok_def removeOrderLocked_def by (auto simp: distinct_delete)
qed

lemma in_state_update:
  assumes "distinct (map fst (kt_leases c))" and "map_of (kt_leases c) i = Some l"
  defines "rest \<equiv> \<lambda>state. filter_mset (\<lambda>p. lr_state (snd p) = state) (mset (AList.delete i (kt_leases c)))"
  shows "in_state state (c\<lparr>kt_leases := AList.update i l' (kt_leases c)\<rparr>) =
      (if lr_state l' = state then add_mset (i, l') (rest state) else rest state)"
    and "in_state state c = (if lr_state l = state then add_mset (i, l) (rest state) else rest state)"
    and "in_state state (removeOrderLocked i (c\<lparr>kt_leases := AList.delete i (kt_leases c)\<rparr>)) = rest state"
  using mset_update(1) [OF assms(1,2), of l'] mset_update(2) [OF assms(1,2)]
  by (simp_all add: in_state_def rest_def removeOrderLocked_def)

lemma in_state_frame [simp]:
  "in_state state (c\<lparr>kt_primaryID := i\<rparr>) = in_state state c" "in_state state (c\<lparr>kt_tieCursor := n\<rparr>) = in_state state c"
  by (simp_all add: in_state_def)

lemma resources_update:
  assumes "distinct (map fst (kt_leases c))" and "map_of (kt_leases c) i = Some l"
  shows "lr_candidate l' = lr_candidate l \<Longrightarrow> lease_resources (c\<lparr>kt_leases := AList.update i l' (kt_leases c)\<rparr>) = lease_resources c"
    and "lease_resources c = mset (resource_of l) + lease_resources (removeOrderLocked i (c\<lparr>kt_leases := AList.delete i (kt_leases c)\<rparr>))"
  using mset_update(1) [OF assms, of l'] mset_update(2) [OF assms]
  by (simp_all add: lease_resources_def resource_of_def removeOrderLocked_def)

lemma resources_frame [simp]:
  "lease_resources (c\<lparr>kt_primaryID := i\<rparr>) = lease_resources c" "lease_resources (c\<lparr>kt_tieCursor := n\<rparr>) = lease_resources c"
  by (simp_all add: lease_resources_def)

lemma leases_ok_frame [simp]:
  "leases_ok (c\<lparr>kt_primaryID := i\<rparr>) = leases_ok c" "leases_ok (c\<lparr>kt_tieCursor := n\<rparr>) = leases_ok c"
  by (simp_all add: leases_ok_def)

lemma in_state_member:
  assumes "leases_ok c"
  shows "(i, l) \<in># in_state state c \<longleftrightarrow> map_of (kt_leases c) i = Some l \<and> lr_state l = state"
  using assms by (auto simp: in_state_def leases_ok_def)

lemma firstActive_ok:
  assumes ok: "leases_ok c"
  shows "primary_ok (c\<lparr>kt_primaryID := firstActiveLocked c\<rparr>)"
proof -
  let ?P = "\<lambda>i. case map_of (kt_leases c) i of None \<Rightarrow> False | Some l \<Rightarrow> lr_state l = LeaseActive"
  show ?thesis
  proof (cases "find ?P (kt_order c)")
    case None
    have "in_state LeaseActive c = {#}"
    proof (rule ccontr)
      assume "in_state LeaseActive c \<noteq> {#}"
      then obtain i l where "(i, l) \<in># in_state LeaseActive c" by (metis multiset_nonemptyE prod.exhaust)
      then have "map_of (kt_leases c) i = Some l" "lr_state l = LeaseActive" by (simp_all add: in_state_member [OF ok])
      moreover have "i \<in> set (kt_order c)" using ok map_of_SomeD [OF calculation(1)] by (force simp: leases_ok_def)
      ultimately show False using None by (fastforce simp: find_None_iff)
    qed
    then show ?thesis using None by (simp add: primary_ok_def firstActiveLocked_def)
  next
    case (Some i)
    then obtain l where l: "map_of (kt_leases c) i = Some l" "lr_state l = LeaseActive"
      by (auto simp: find_Some_iff split: option.split_asm)
    then have "(i, l) \<in># in_state LeaseActive c" by (simp add: in_state_member [OF ok])
    then show ?thesis using l Some by (auto simp: primary_ok_def firstActiveLocked_def)
  qed
qed

section \<open>Every operation of the controller\<close>

text \<open>\<open>accounts n c taken closed c'\<close>: the invariant is kept, and what was held or taken is held or closed.\<close>

definition accounts :: "nat \<Rightarrow> Controller \<Rightarrow> nat list \<times> nat list \<times> Controller \<Rightarrow> bool" where
  "accounts n c = (\<lambda>(taken, closed, c').
     controller_ok (Suc n) c' \<and> lease_resources c + mset taken = mset closed + lease_resources c'
     \<and> kt_maxActive c' = kt_maxActive c \<and> kt_maxDraining c' = kt_maxDraining c)"

lemma controller_ok_mono: "controller_ok n c \<Longrightarrow> controller_ok (Suc n) c"
  by (auto simp: controller_ok_def)

lemma accounts_same: "controller_ok n c \<Longrightarrow> accounts n c ([], [], c)"
  by (simp add: accounts_def controller_ok_mono)

lemma accounts_update:
  assumes ok: "controller_ok n c" and l: "map_of (kt_leases c) i = Some l" and same: "lr_candidate l' = lr_candidate l"
    and state: "lr_state l' = lr_state l \<or> lr_state l = LeaseActive \<and> lr_state l' = LeaseDraining
      \<and> size (in_state LeaseDraining c) < kt_maxDraining c"
    and p: "primary_ok (c\<lparr>kt_leases := AList.update i l' (kt_leases c), kt_primaryID := pid\<rparr>)"
  shows "accounts n c ([], [], c\<lparr>kt_leases := AList.update i l' (kt_leases c), kt_primaryID := pid\<rparr>)"
proof -
  have lo: "leases_ok c" and d: "distinct (map fst (kt_leases c))" using ok by (simp_all add: controller_ok_def leases_ok_def)
  have "lease_ids (c\<lparr>kt_leases := AList.update i l' (kt_leases c), kt_primaryID := pid\<rparr>) = lease_ids c"
    using map_of_SomeD [OF l] by (force simp: lease_ids_def dom_update)
  moreover have lim: "size (in_state LeaseActive c) \<le> kt_maxActive c" "size (in_state LeaseDraining c) \<le> kt_maxDraining c"
    using ok by (simp_all add: controller_ok_def)
  have "size (in_state LeaseActive (c\<lparr>kt_leases := AList.update i l' (kt_leases c)\<rparr>)) \<le> kt_maxActive c"
    using in_state_update(1) [OF d l, of LeaseActive l'] in_state_update(2) [OF d l, of LeaseActive] state lim(1)
    by (elim disjE conjE) (simp_all split: if_split_asm)
  moreover have "size (in_state LeaseDraining (c\<lparr>kt_leases := AList.update i l' (kt_leases c)\<rparr>)) \<le> kt_maxDraining c"
    using in_state_update(1) [OF d l, of LeaseDraining l'] in_state_update(2) [OF d l, of LeaseDraining] state lim(2)
    by (elim disjE conjE) (simp_all split: if_split_asm)
  moreover have "kt_leases c \<noteq> []" using l by auto
  ultimately show ?thesis
    using ok p leases_ok_update [OF lo l same] resources_update(1) [OF d l same]
    unfolding accounts_def controller_ok_def by auto
qed

lemma lookup_update: "map_of (AList.update i l al) j = (if j = i then Some l else map_of al j)"
  by (simp add: update_conv')

lemma UpdateLoad_accounts: "controller_ok n c \<Longrightarrow> accounts n c ([], [], snd (UpdateLoad i load c))"
proof -
  assume ok: "controller_ok n c"
  show ?thesis
  proof (cases "kt_closed c \<or> map_of (kt_leases c) i = None")
    case True
    then show ?thesis using accounts_same [OF ok] by (auto simp: UpdateLoad_def)
  next
    case False
    then obtain l where l: "\<not> kt_closed c" "map_of (kt_leases c) i = Some l" by auto
    have d: "distinct (map fst (kt_leases c))" and p: "primary_ok c" using ok by (simp_all add: controller_ok_def leases_ok_def)
    have "in_state LeaseActive (c\<lparr>kt_leases := AList.update i (l\<lparr>lr_load := load\<rparr>) (kt_leases c)\<rparr>) = {#}
      \<longleftrightarrow> in_state LeaseActive c = {#}"
      using in_state_update(1,2) [OF d l(2), of LeaseActive] by simp
    then have "primary_ok (c\<lparr>kt_leases := AList.update i (l\<lparr>lr_load := load\<rparr>) (kt_leases c), kt_primaryID := kt_primaryID c\<rparr>)"
      using p l(2) by (auto simp: primary_ok_def lookup_update)
    from accounts_update [OF ok l(2) _ _ this] show ?thesis using l by (simp add: UpdateLoad_def)
  qed
qed

lemma Select_accounts: "controller_ok n c \<Longrightarrow> accounts n c ([], [], snd (Controller_Select c))"
proof -
  assume ok: "controller_ok n c"
  then have "controller_ok (Suc n) (c\<lparr>kt_tieCursor := kt_tieCursor c + 1\<rparr>)"
    by (simp add: controller_ok_def primary_ok_def lease_ids_def)
  then show ?thesis using accounts_same [OF ok] by (auto simp: Controller_Select_def Let_def accounts_def split: prod.split)
qed

lemma Promote_accounts: "controller_ok n c \<Longrightarrow> accounts n c ([], [], snd (Promote i c))"
proof -
  assume ok: "controller_ok n c"
  have other: "accounts n c ([], [], c\<lparr>kt_primaryID := i\<rparr>)" if "map_of (kt_leases c) i = Some t" "lr_state t = LeaseActive" for t
    using ok that by (simp add: accounts_def controller_ok_def primary_ok_def lease_ids_def)
  have demote: "accounts n c ([], [], (set_state (kt_primaryID c) current LeaseDraining c)\<lparr>kt_primaryID := i\<rparr>)"
    if "map_of (kt_leases c) i = Some t" "lr_state t = LeaseActive" "kt_primaryID c \<noteq> i" "map_of (kt_leases c) (kt_primaryID c) = Some current"
      "lr_state current = LeaseActive" "\<not> countStateLocked LeaseDraining c \<ge> kt_maxDraining c" for t current
    using that unfolding set_state_def
    by (intro accounts_update [OF ok that(4)]) (auto simp: countState_size primary_ok_def lookup_update)
  show ?thesis using accounts_same [OF ok] other demote by (auto simp: Promote_def split: option.split)
qed

lemma BeginDrain_accounts: "controller_ok n c \<Longrightarrow> accounts n c ([], [], snd (BeginDrain i c))"
proof -
  assume ok: "controller_ok n c"
  then have lo: "leases_ok c" and d: "distinct (map fst (kt_leases c))" and p: "primary_ok c"
    and pos: "\<forall>i\<in>lease_ids c. i \<noteq> 0" by (simp_all add: controller_ok_def leases_ok_def)
  have drain: "accounts n c ([], [], if i = kt_primaryID c then (set_state i l LeaseDraining c)\<lparr>kt_primaryID := firstActiveLocked (set_state i l LeaseDraining c)\<rparr>
      else set_state i l LeaseDraining c)"
    if l: "map_of (kt_leases c) i = Some l" "lr_state l = LeaseActive" "\<not> countStateLocked LeaseDraining c \<ge> kt_maxDraining c" for l
  proof -
    let ?l = "l\<lparr>lr_state := LeaseDraining\<rparr>" and ?c = "set_state i l LeaseDraining c"
    have lo': "leases_ok ?c" unfolding set_state_def by (rule leases_ok_update [OF lo l(1)]) simp
    have moved: "accounts n c ([], [], c\<lparr>kt_leases := AList.update i ?l (kt_leases c), kt_primaryID := pid\<rparr>)"
      if "primary_ok (c\<lparr>kt_leases := AList.update i ?l (kt_leases c), kt_primaryID := pid\<rparr>)" for pid
      using l that by (intro accounts_update [OF ok l(1)]) (simp_all add: countState_size)
    show ?thesis
    proof (cases "i = kt_primaryID c")
      case True
      have "primary_ok (?c\<lparr>kt_primaryID := firstActiveLocked ?c\<rparr>)" by (rule firstActive_ok [OF lo'])
      then show ?thesis using True moved [of "firstActiveLocked ?c"] by (simp add: set_state_def)
    next
      case False
      have "(i, l) \<in># in_state LeaseActive c" using l by (simp add: in_state_member [OF lo])
      then have "primary_ok (c\<lparr>kt_leases := AList.update i ?l (kt_leases c), kt_primaryID := kt_primaryID c\<rparr>)"
        using p False by (auto simp: primary_ok_def lookup_update)
      then show ?thesis using False moved [of "kt_primaryID c"] by (simp add: set_state_def)
    qed
  qed
  show ?thesis using accounts_same [OF ok] drain by (auto simp: BeginDrain_def Let_def set_state_def split: option.split)
qed

lemma removeOrder_frame [simp]:
  "kt_maxActive (removeOrderLocked i c) = kt_maxActive c" "kt_maxDraining (removeOrderLocked i c) = kt_maxDraining c"
  "kt_nextID (removeOrderLocked i c) = kt_nextID c" "kt_closed (removeOrderLocked i c) = kt_closed c"
  "kt_primaryID (removeOrderLocked i c) = kt_primaryID c"
  by (simp_all add: removeOrderLocked_def)

lemma lease_ids_frame [simp]: "lease_ids (c\<lparr>kt_primaryID := i\<rparr>) = lease_ids c"
  by (simp add: lease_ids_def)

lemma removeAndClose_accounts: "controller_ok n c \<Longrightarrow> accounts n c ([], snd (removeAndClose i dr c))"
proof -
  assume ok: "controller_ok n c"
  then have lo: "leases_ok c" and d: "distinct (map fst (kt_leases c))" and p: "primary_ok c"
    by (simp_all add: controller_ok_def leases_ok_def)
  let ?c = "removeOrderLocked i (c\<lparr>kt_leases := AList.delete i (kt_leases c)\<rparr>)"
  have gone: "accounts n c ([], resource_of l, if kt_primaryID ?c = i then ?c\<lparr>kt_primaryID := firstActiveLocked ?c\<rparr> else ?c)"
    if l: "map_of (kt_leases c) i = Some l" for l
  proof -
    have lo': "leases_ok ?c" by (rule leases_ok_delete [OF lo l])
    have less: "in_state state ?c \<subseteq># in_state state c" for state
      using in_state_update(2,3) [OF d l, of state] by auto
    have "primary_ok (if kt_primaryID ?c = i then ?c\<lparr>kt_primaryID := firstActiveLocked ?c\<rparr> else ?c)"
      using firstActive_ok [OF lo'] p less [of LeaseActive] by (auto simp: primary_ok_def removeOrderLocked_def delete_conv')
    moreover have "lease_ids ?c \<subseteq> lease_ids c" by (auto simp: lease_ids_def removeOrderLocked_def AList.delete_eq)
    moreover have "size (in_state LeaseActive ?c) \<le> kt_maxActive c" "size (in_state LeaseDraining ?c) \<le> kt_maxDraining c"
      using ok size_mset_mono [OF less [of LeaseActive]] size_mset_mono [OF less [of LeaseDraining]] by (simp_all add: controller_ok_def)
    moreover have "kt_leases c \<noteq> []" using l by auto
    ultimately show ?thesis
      using ok lo' resources_update(2) [OF d l] unfolding accounts_def controller_ok_def by auto
  qed
  show ?thesis using accounts_same [OF ok] gone by (auto simp: removeAndClose_def Let_def split: option.split)
qed

lemma update_fresh: "i \<notin> fst ` set al \<Longrightarrow> AList.update i l al = al @ [(i, l)]"
  by (induction al) auto

lemma addLocked_ok:
  assumes lo: "leases_ok c" and ids: "\<forall>i\<in>lease_ids c. i \<noteq> 0 \<and> i < kt_nextID c" and next0: "0 < unat (kt_nextID c)"
    and bound: "unat (kt_nextID c) < 2 ^ 64 - 1" and v: "validateCandidate x c = None"
    and new: "\<not> (\<exists>(i, l)\<in>set (kt_leases c). lc_Key (lr_candidate l) = lc_Key x)"
  defines "l \<equiv> \<lparr>lr_candidate = x, lr_state = LeaseActive, lr_load = 0\<rparr>"
  shows "addLocked x c = (kt_nextID c, c\<lparr>kt_nextID := kt_nextID c + 1, kt_leases := kt_leases c @ [(kt_nextID c, l)],
      kt_order := kt_order c @ [kt_nextID c]\<rparr>)"
    and "leases_ok (snd (addLocked x c))" and "unat (kt_nextID c + 1) = Suc (unat (kt_nextID c))"
proof -
  have nz: "kt_nextID c \<noteq> 0" using next0 by auto
  have fresh: "kt_nextID c \<notin> fst ` set (kt_leases c)" using ids by (force simp: lease_ids_def)
  have upd: "AList.update (kt_nextID c) l (kt_leases c) = kt_leases c @ [(kt_nextID c, l)]"
    using fresh by (rule update_fresh)
  then show e: "addLocked x c = (kt_nextID c, c\<lparr>kt_nextID := kt_nextID c + 1, kt_leases := kt_leases c @ [(kt_nextID c, l)],
      kt_order := kt_order c @ [kt_nextID c]\<rparr>)"
    using nz by (simp add: addLocked_def l_def Let_def)
  have "lc_Key x \<notin> (\<lambda>p. lc_Key (lr_candidate (snd p))) ` set (kt_leases c)" using new by auto
  then show "leases_ok (snd (addLocked x c))"
    using lo fresh v unfolding e by (auto simp: leases_ok_def l_def)
  show "unat (kt_nextID c + 1) = Suc (unat (kt_nextID c))" using bound by (simp add: unat_word_ariths)
qed

lemma Add_accounts:
  assumes ok: "controller_ok n c" and n: "Suc n < 2 ^ 64 - 1"
  shows "accounts n c (case fst (Controller_Add x c) of Inl e \<Rightarrow> [] | Inr i \<Rightarrow> (case lc_Resource x of None \<Rightarrow> [] | Some r \<Rightarrow> [r]), [],
    snd (Controller_Add x c))"
proof (cases "validateCandidate x c \<noteq> None \<or> kt_closed c
    \<or> (\<exists>(i, l)\<in>set (kt_leases c). lc_Key (lr_candidate l) = lc_Key x) \<or> countStateLocked LeaseActive c \<ge> kt_maxActive c")
  case True
  then show ?thesis using accounts_same [OF ok] by (auto simp: Controller_Add_def split: option.split)
next
  case False
  then have v: "validateCandidate x c = None" and open_c: "\<not> kt_closed c"
    and new: "\<not> (\<exists>(i, l)\<in>set (kt_leases c). lc_Key (lr_candidate l) = lc_Key x)"
    and room: "size (in_state LeaseActive c) < kt_maxActive c" by (auto simp: countState_size)
  let ?l = "\<lparr>lr_candidate = x, lr_state = LeaseActive, lr_load = 0\<rparr>" and ?i = "kt_nextID c"
  let ?c = "c\<lparr>kt_nextID := ?i + 1, kt_leases := kt_leases c @ [(?i, ?l)], kt_order := kt_order c @ [?i]\<rparr>"
  have lo: "leases_ok c" and p: "primary_ok c" and ids: "\<forall>i\<in>lease_ids c. i \<noteq> 0 \<and> i < ?i" and nx: "0 < unat ?i" "unat ?i \<le> Suc n"
    and dr: "size (in_state LeaseDraining c) \<le> kt_maxDraining c"
    using ok by (simp_all add: controller_ok_def)
  have "unat ?i < 2 ^ 64 - 1" using nx n by linarith
  note a = addLocked_ok [OF lo ids nx(1) this v new]
  let ?c' = "if kt_primaryID ?c = 0 then ?c\<lparr>kt_primaryID := ?i\<rparr> else ?c"
  have add: "Controller_Add x c = (Inr ?i, ?c')"
    using v open_c new room unfolding Controller_Add_def a(1) by (simp add: countState_size)
  have "map_of (kt_leases c) ?i = None" using ids by (auto simp: lease_ids_def map_of_eq_None_iff)
  then have at: "map_of (kt_leases ?c') ?i = Some ?l" by (simp add: map_add_def)
  have "primary_ok ?c'"
    using p at ids by (auto simp: primary_ok_def map_add_def in_state_def split: option.split)
  moreover have "in_state LeaseActive ?c' = add_mset (?i, ?l) (in_state LeaseActive c)" "in_state LeaseDraining ?c' = in_state LeaseDraining c"
    by (simp_all add: in_state_def)
  moreover have "lease_ids ?c' = insert ?i (lease_ids c)" by (auto simp: lease_ids_def)
  moreover have "leases_ok ?c'" using a(2) unfolding a(1) by simp
  moreover have "?i < ?i + 1" "?i \<noteq> 0" using a(3) nx(1) by (auto simp: word_less_nat_alt)
  moreover have "\<forall>i\<in>lease_ids c. i \<noteq> 0 \<and> i < ?i + 1" using ids \<open>?i < ?i + 1\<close> by (meson order_less_trans)
  moreover have "lease_resources ?c' = add_mset (the (lc_Resource x)) (lease_resources c)"
    using v by (auto simp: lease_resources_def resource_of_def validateCandidate_def split: if_split_asm)
  moreover have "lc_Resource x \<noteq> None" using v by (auto simp: validateCandidate_def split: if_split_asm)
  ultimately show ?thesis
    using room dr nx open_c a(3) unfolding add accounts_def controller_ok_def by auto
qed

lemma Stop_accounts: "controller_ok n c \<Longrightarrow> accounts n c ([], Controller_Stop c)"
proof -
  assume ok: "controller_ok n c"
  then have lo: "leases_ok c" by (simp add: controller_ok_def)
  let ?f = "\<lambda>i. case map_of (kt_leases c) i of None \<Rightarrow> [] | Some l \<Rightarrow> resource_of l"
  have "mset (kt_order c) = mset (map fst (kt_leases c))"
    using lo set_eq_iff_mset_eq_distinct [of "kt_order c" "map fst (kt_leases c)"] by (simp add: leases_ok_def)
  then have "mset (concat (map ?f (kt_order c))) = (\<Sum>i\<in>#mset (map fst (kt_leases c)). mset (?f i))"
    by (simp only: mset_concat mset_map flip: sum_mset_sum_list) (simp add: multiset.map_comp comp_def)
  also have "\<dots> = (\<Sum>p\<in>#mset (kt_leases c). mset (?f (fst p)))" by (simp add: multiset.map_comp comp_def)
  also have "\<dots> = lease_resources c"
    unfolding lease_resources_def
    by (rule arg_cong [where f = sum_mset], rule image_mset_cong) (use lo in \<open>auto simp: leases_ok_def\<close>)
  finally show ?thesis
    using accounts_same [OF ok] ok
    by (auto simp: Controller_Stop_def accounts_def controller_ok_def primary_ok_def leases_ok_def lease_ids_def in_state_def lease_resources_def)
qed

text \<open>What \<open>select_ties\<close> leaves: leases of least load, and none only when no lease is active.\<close>

lemma select_ties_spec:
  assumes "\<forall>p\<in>set ties. lr_load (snd p) = minimum" and "ties = [] \<longrightarrow> minimum = - 1"
  shows "(\<forall>p\<in>set (select_ties leases order (minimum, ties)). lr_load (snd p) \<le> minimum
      \<and> (\<forall>j\<in>set order. \<forall>l. map_of leases j = Some l \<and> lr_state l = LeaseActive \<longrightarrow> lr_load (snd p) \<le> lr_load l)
      \<and> (p \<in> set ties \<or> map_of leases (fst p) = Some (snd p) \<and> lr_state (snd p) = LeaseActive))
    \<and> (select_ties leases order (minimum, ties) = [] \<longrightarrow> ties = []
      \<and> (\<forall>j\<in>set order. \<forall>l. map_of leases j = Some l \<longrightarrow> lr_state l \<noteq> LeaseActive))"
  using assms
proof (induction order arbitrary: minimum ties)
  case Nil
  then show ?case by auto
next
  case (Cons i order)
  show ?case
  proof (cases "map_of leases i")
    case None
    then show ?thesis using Cons.IH [OF Cons.prems] by auto
  next
    case (Some l)
    show ?thesis
    proof (cases "lr_state l = LeaseActive")
      case False
      then show ?thesis using Some Cons.IH [OF Cons.prems] by auto
    next
      case active: True
      consider "lr_load l < minimum" | "lr_load l = minimum" | "lr_load l > minimum" by fastforce
      then show ?thesis
      proof cases
        case 1
        then show ?thesis using Some active Cons.IH [of "[(i, l)]" "lr_load l"] by fastforce
      next
        case 2
        then show ?thesis using Some active Cons.prems Cons.IH [of "ties @ [(i, l)]" minimum] by fastforce
      next
        case 3
        moreover have "ties \<noteq> []" using 3 Cons.prems(2) by (auto simp: not_less [symmetric] word_order.extremum)
        moreover have "select_ties leases (i # order) (minimum, ties) = select_ties leases order (minimum, ties)"
          using 3 Some active by (auto dest: order_less_asym)
        ultimately show ?thesis using Some Cons.IH [OF Cons.prems] by (auto intro: order_trans less_imp_le)
      qed
    qed
  qed
qed

lemma select_ties_length: "length (select_ties leases order (minimum, ties)) \<le> length ties + length order"
proof (induction order arbitrary: minimum ties)
  case (Cons i order)
  show ?case
  proof (cases "map_of leases i")
    case None
    then show ?thesis using Cons.IH [of minimum ties] by simp
  next
    case (Some l)
    then show ?thesis
      using Cons.IH [of minimum ties] Cons.IH [of "lr_load l" "[(i, l)]"] Cons.IH [of minimum "ties @ [(i, l)]"] by simp
  qed
qed simp

lemma order_length:
  assumes "controller_ok n c"
  shows "length (kt_order c) < 2 ^ 64"
proof -
  have "distinct (kt_order c)" "set (kt_order c) = lease_ids c" "0 \<notin> lease_ids c"
    using assms by (auto simp: controller_ok_def leases_ok_def lease_ids_def)
  then have "length (kt_order c) = card (lease_ids c)" "lease_ids c \<subset> UNIV" using distinct_card [of "kt_order c"] by auto
  then show ?thesis using psubset_card_mono [of "UNIV :: LeaseID set" "lease_ids c"] by (simp add: card_word)
qed

definition selects_least :: "Controller \<Rightarrow> bool" where
  "selects_least c \<longleftrightarrow>
     (case fst (Controller_Select c) of
        Inl e \<Rightarrow> e = (if kt_closed c then ErrControllerClosed else ErrNoActiveLease) \<and> in_state LeaseActive c = {#}
      | Inr s \<Rightarrow> \<exists>l. (ls_ID s, l) \<in># in_state LeaseActive c \<and> s = snapshotLease (ls_ID s) l
          \<and> (\<forall>p\<in>#in_state LeaseActive c. lr_load l \<le> lr_load (snd p)))"

lemma controller_selects_least:
  assumes ok: "controller_ok n c"
  shows "selects_least c"
proof (cases "kt_closed c")
  case True
  then show ?thesis using ok by (simp add: selects_least_def Controller_Select_def controller_ok_def in_state_def)
next
  case open_c: False
  have lo: "leases_ok c" using ok by (simp add: controller_ok_def)
  let ?ties = "select_ties (kt_leases c) (kt_order c) (- 1, [])"
  note spec = select_ties_spec [of "[]" "- 1" "kt_leases c" "kt_order c", simplified]
  have ordered: "fst p \<in> set (kt_order c)" if "p \<in># in_state LeaseActive c" for p
    using lo that by (auto simp: leases_ok_def in_state_def)
  show ?thesis
  proof (cases "?ties = []")
    case True
    have "in_state LeaseActive c = {#}"
    proof (rule ccontr)
      assume "in_state LeaseActive c \<noteq> {#}"
      then obtain p where p: "p \<in># in_state LeaseActive c" by auto
      then show False using spec True ordered [OF p] in_state_member [OF lo, of "fst p" "snd p" LeaseActive] by auto
    qed
    then show ?thesis using True open_c by (simp add: selects_least_def Controller_Select_def)
  next
    case False
    have len: "length ?ties < 2 ^ 64"
      using select_ties_length [of "kt_leases c" "kt_order c" "- 1" "[]"] order_length [OF ok] by simp
    let ?k = "unat (kt_tieCursor c mod of_nat (length ?ties))"
    have "?k < length ?ties" using False len by (simp add: unat_mod unat_of_nat)
    then have p: "?ties ! ?k \<in> set ?ties" by simp
    obtain i l where il: "?ties ! ?k = (i, l)" by fastforce
    have "(i, l) \<in># in_state LeaseActive c" using spec p unfolding il by (auto simp: in_state_member [OF lo])
    moreover have "lr_load l \<le> lr_load (snd q)" if "q \<in># in_state LeaseActive c" for q
      using spec p ordered [OF that] in_state_member [OF lo, of "fst q" "snd q" LeaseActive] that unfolding il by fastforce
    ultimately show ?thesis using False open_c il by (auto simp: selects_least_def Controller_Select_def snapshotLease_def)
  qed
qed

section \<open>Runs of the controller\<close>

datatype controller_op =
  OpAdd LeaseCandidate | OpLoad LeaseID u64 | OpSelect | OpPromote LeaseID | OpDrain LeaseID | OpComplete LeaseID | OpFail LeaseID | OpStop

text \<open>The resources an operation takes over, those it closes, and the controller after it.\<close>

definition controller_exec :: "controller_op \<Rightarrow> Controller \<Rightarrow> nat list \<times> nat list \<times> Controller" where
  "controller_exec op c =
     (case op of
        OpAdd x \<Rightarrow> (case fst (Controller_Add x c) of Inl e \<Rightarrow> [] | Inr i \<Rightarrow> (case lc_Resource x of None \<Rightarrow> [] | Some r \<Rightarrow> [r]), [],
          snd (Controller_Add x c))
      | OpLoad i load \<Rightarrow> ([], [], snd (UpdateLoad i load c))
      | OpSelect \<Rightarrow> ([], [], snd (Controller_Select c))
      | OpPromote i \<Rightarrow> ([], [], snd (Promote i c))
      | OpDrain i \<Rightarrow> ([], [], snd (BeginDrain i c))
      | OpComplete i \<Rightarrow> ([], snd (CompleteDrain i c))
      | OpFail i \<Rightarrow> ([], snd (Controller_Fail i c))
      | OpStop \<Rightarrow> ([], Controller_Stop c))"

fun controller_run :: "controller_op list \<Rightarrow> Controller \<Rightarrow> nat list \<times> nat list \<times> Controller" where
  "controller_run [] c = ([], [], c)"
| "controller_run (op # ops) c =
     (case controller_exec op c of (taken, closed, c1) \<Rightarrow>
        case controller_run ops c1 of (taken', closed', c2) \<Rightarrow> (taken @ taken', closed @ closed', c2))"

lemma exec_accounts: "controller_ok n c \<Longrightarrow> Suc n < 2 ^ 64 - 1 \<Longrightarrow> accounts n c (controller_exec op c)"
  unfolding controller_exec_def CompleteDrain_def Controller_Fail_def
  by (cases op) (simp_all only: controller_op.case Add_accounts UpdateLoad_accounts Select_accounts Promote_accounts BeginDrain_accounts
      removeAndClose_accounts Stop_accounts)

lemma run_accounts:
  assumes "controller_ok n c" and "n + length ops < 2 ^ 64 - 1" and "controller_run ops c = (taken, closed, c')"
  shows "controller_ok (n + length ops) c' \<and> lease_resources c + mset taken = mset closed + lease_resources c'
    \<and> kt_maxActive c' = kt_maxActive c \<and> kt_maxDraining c' = kt_maxDraining c"
  using assms
proof (induction ops arbitrary: n c taken closed)
  case (Cons op ops)
  obtain t cl c1 where e: "controller_exec op c = (t, cl, c1)" by (cases "controller_exec op c")
  obtain t' cl' where r: "controller_run ops c1 = (t', cl', c')" "taken = t @ t'" "closed = cl @ cl'"
    using Cons.prems(3) e by (auto split: prod.split_asm)
  have "accounts n c (t, cl, c1)" using exec_accounts [OF Cons.prems(1), of op] Cons.prems(2) e by simp
  then have a: "controller_ok (Suc n) c1" "lease_resources c + mset t = mset cl + lease_resources c1"
      "kt_maxActive c1 = kt_maxActive c" "kt_maxDraining c1 = kt_maxDraining c" by (simp_all add: accounts_def)
  have ih: "controller_ok (Suc n + length ops) c'" "lease_resources c1 + mset t' = mset cl' + lease_resources c'"
      "kt_maxActive c' = kt_maxActive c1" "kt_maxDraining c' = kt_maxDraining c1"
    using Cons.IH [OF a(1) _ r(1)] Cons.prems(2) by auto
  have "lease_resources c + mset taken = (lease_resources c + mset t) + mset t'" by (simp add: r(2) union_assoc)
  also have "\<dots> = mset closed + lease_resources c'" unfolding a(2) by (simp only: union_assoc ih(2) r(3) mset_append)
  finally show ?case using ih a(3,4) by simp
qed simp

lemma NewController_ok:
  assumes "NewController config primary = Inr c"
  shows "controller_ok 1 c \<and> lease_resources c = {#the (lc_Resource primary)#} \<and> kt_maxActive c = nat (kc_MaxActive config)
    \<and> kt_maxDraining c = nat (kc_MaxDraining config)"
proof -
  have pos: "0 < kc_MaxActive config" using assms by (simp add: NewController_def split: if_split_asm)
  let ?l = "\<lparr>lr_candidate = primary, lr_state = LeaseActive, lr_load = 0\<rparr>"
  have c: "c = \<lparr>kt_principal = kc_Principal config, kt_constellationID = kc_ConstellationID config,
                 kt_maxActive = nat (kc_MaxActive config), kt_maxDraining = nat (kc_MaxDraining config), kt_nextID = 2,
                 kt_primaryID = 1, kt_tieCursor = 0, kt_leases = [(1, ?l)], kt_order = [1], kt_closed = False\<rparr>"
    using assms by (simp add: NewController_def addLocked_def Let_def split: if_split_asm option.split_asm)
  have v: "validateCandidate primary c = None"
    using assms by (auto simp: c NewController_def validateCandidate_def Let_def split: if_split_asm)
  have "leases_ok c" using v by (simp add: leases_ok_def) (simp add: c)
  moreover have "primary_ok c" by (simp add: primary_ok_def c)
  moreover have "in_state LeaseActive c = {#(1, ?l)#}" "in_state LeaseDraining c = {#}" by (simp_all add: in_state_def c)
  moreover have "lease_ids c = {1}" by (simp add: lease_ids_def c)
  moreover have "lease_resources c = {#the (lc_Resource primary)#}"
    using v by (auto simp: lease_resources_def resource_of_def c validateCandidate_def split: if_split_asm)
  ultimately show ?thesis using pos unfolding controller_ok_def by (simp add: c)
qed

text \<open>
C38 (invariant). Over any sequence of operations of a lease controller made by \<open>NewController\<close>, the connections of the leases are
neither lost nor closed twice: the primary's and those of the accepted additions are, counted with multiplicity, the ones that were closed and
the ones still held. At every point the leases have distinct identifiers and distinct keys, all belong to the controller's principal and
constellation, at most \<open>MaxActive\<close> are active and at most \<open>MaxDraining\<close> draining, the primary lease is an active one unless none is
active, \<open>Select\<close> answers with an active lease of least load and fails only when no lease is active; and a stopped controller holds nothing.
\<close>

theorem controller_conserves:
  assumes "NewController config primary = Inr c0" and "length ops < 2 ^ 64 - 2" and "controller_run ops c0 = (taken, closed, c)"
  shows "add_mset (the (lc_Resource primary)) (mset taken) = mset closed + lease_resources c \<and> leases_ok c \<and> primary_ok c
    \<and> int (ks_Active (Controller_State c)) \<le> kc_MaxActive config \<and> int (ks_Draining (Controller_State c)) \<le> kc_MaxDraining config
    \<and> selects_least c \<and> (ks_Closed (Controller_State c) \<longrightarrow> lease_resources c = {#})"
proof -
  note new = NewController_ok [OF assms(1)]
  have pos: "0 < kc_MaxActive config" "0 < kc_MaxDraining config"
    using assms(1) by (auto simp: NewController_def split: if_split_asm)
  have "controller_ok (1 + length ops) c" "lease_resources c0 + mset taken = mset closed + lease_resources c"
      "kt_maxActive c = kt_maxActive c0" "kt_maxDraining c = kt_maxDraining c0"
    using run_accounts [OF _ _ assms(3), of 1] new assms(2) by simp_all
  then show ?thesis
    using new pos controller_selects_least [of "1 + length ops" c]
    by (auto simp: Controller_State_def countState_size controller_ok_def lease_resources_def)
qed

definition sample_lease :: "byte \<Rightarrow> nat \<Rightarrow> LeaseCandidate" where
  "sample_lease k r =
     \<lparr>lc_Key = replicate 16 k, lc_Principal = replicate 32 7, lc_ConstellationID = replicate 16 9, lc_Carrier = CarrierHTTPS,
      lc_Resource = Some r\<rparr>"

definition sample_controller :: ControllerConfig where
  "sample_controller = \<lparr>kc_Principal = replicate 32 7, kc_ConstellationID = replicate 16 9, kc_MaxActive = 2, kc_MaxDraining = 1\<rparr>"

definition sample_held :: "LeaseID \<Rightarrow> LeaseID \<Rightarrow> u64 \<Rightarrow> (LeaseID \<times> leaseRecord) list \<Rightarrow> LeaseID list \<Rightarrow> Controller" where
  "sample_held next_id primary cursor leases order =
     \<lparr>kt_principal = replicate 32 7, kt_constellationID = replicate 16 9, kt_maxActive = 2, kt_maxDraining = 1, kt_nextID = next_id,
      kt_primaryID = primary, kt_tieCursor = cursor, kt_leases = leases, kt_order = order, kt_closed = False\<rparr>"

abbreviation sample_record :: "byte \<Rightarrow> nat \<Rightarrow> LeaseState \<Rightarrow> leaseRecord" where
  "sample_record k r state \<equiv> \<lparr>lr_candidate = sample_lease k r, lr_state = state, lr_load = 0\<rparr>"

lemma sample_lease_fields:
  "lc_Key (sample_lease k r) = replicate 16 k" "lc_Resource (sample_lease k r) = Some r"
  "k \<noteq> 0 \<Longrightarrow> validateCandidate (sample_lease k r) (sample_held i p t ls os) = None"
  by (simp_all add: sample_lease_def sample_held_def validateCandidate_def validCarrier_def)

lemma sample_primary:
  "NewController sample_controller (sample_lease 1 10) = Inr (sample_held 2 1 0 [(1, sample_record 1 10 LeaseActive)] [1])"
  using sample_lease_fields(3) [of 1 10 1 0 0 "[]" "[]"]
  by (simp add: NewController_def sample_controller_def addLocked_def sample_held_def)

lemma sample_controller_steps:
  "controller_exec (OpAdd (sample_lease 2 20)) (sample_held 2 1 0 [(1, sample_record 1 10 LeaseActive)] [1])
     = ([20], [], sample_held 3 1 0 [(1, sample_record 1 10 LeaseActive), (2, sample_record 2 20 LeaseActive)] [1, 2])"
  "controller_exec (OpPromote 2) (sample_held 3 1 0 [(1, sample_record 1 10 LeaseActive), (2, sample_record 2 20 LeaseActive)] [1, 2])
     = ([], [], sample_held 3 2 0 [(1, sample_record 1 10 LeaseDraining), (2, sample_record 2 20 LeaseActive)] [1, 2])"
  "controller_exec (OpComplete 1) (sample_held 3 2 0 [(1, sample_record 1 10 LeaseDraining), (2, sample_record 2 20 LeaseActive)] [1, 2])
     = ([], [10], sample_held 3 2 0 [(2, sample_record 2 20 LeaseActive)] [2])"
  using sample_lease_fields(3) [of 2 20 2 1 0 "[(1, sample_record 1 10 LeaseActive)]" "[1]"]
  by (simp_all add: controller_exec_def Controller_Add_def countStateLocked_def addLocked_def Promote_def set_state_def CompleteDrain_def
      removeAndClose_def removeOrderLocked_def resource_of_def sample_held_def sample_lease_fields(1,2))

lemma sample_controller_run:
  "controller_run [OpAdd (sample_lease 2 20), OpPromote 2, OpComplete 1] (sample_held 2 1 0 [(1, sample_record 1 10 LeaseActive)] [1])
     = ([20], [10], sample_held 3 2 0 [(2, sample_record 2 20 LeaseActive)] [2])"
  by (simp add: sample_controller_steps)

theorem controller_conserves_witness:
  "\<exists>c0 c. NewController sample_controller (sample_lease 1 10) = Inr c0
     \<and> controller_run [OpAdd (sample_lease 2 20), OpPromote 2, OpComplete 1] c0 = ([20], [10], c)
     \<and> add_mset 10 (mset [20]) = mset [10] + lease_resources c \<and> kt_primaryID c = 2 \<and> selects_least c"
proof -
  obtain c0 where c0: "NewController sample_controller (sample_lease 1 10) = Inr c0" by (simp add: sample_primary)
  obtain c where c: "controller_run [OpAdd (sample_lease 2 20), OpPromote 2, OpComplete 1] c0 = ([20], [10], c)" "kt_primaryID c = 2"
    using sample_controller_run c0 unfolding sample_primary by (simp add: sample_held_def)
  show ?thesis using controller_conserves [OF c0 _ c(1)] c0 c by (simp add: sample_lease_def)
qed

end
