(* ===== verification/Spec2Isabelle.thy ===== *)
theory Spec2Isabelle
  imports NP_Extension NP_Continuity_Codec NP_Auth NP_Record NP_Stream_Pair NP_Mux_Safety
    NP_Datagram NP_Negotiation NP_Resumable_System NP_Registry NP_Session_Run NP_Constellation
begin

text \<open>
  Verification of the NP/2 protocol core of the NeProto server.
\<close>

end
